(* ===== verification/Cortos_Prelude.thy ===== *)
theory Cortos_Prelude
  imports Main "HOL-Library.Word" "HOL-Library.Monad_Syntax"
begin

text \<open>
  Shared vocabulary of the development: the machine integer types, the reading of
  \<^verbatim>\<open>CORTOS_ASSERT\<close> as a guard in the option monad, the bit-scan and bit-mask
  operations of the C++ standard library, and the generic lemmas the components share.

  An operation that may fail returns an \<^typ>\<open>'a option\<close>.  The value \<^const>\<open>None\<close> stands for the
  two ways in which the program does not continue: a failed assertion, which calls the
  non-returning \<^verbatim>\<open>cortos_port_system_error\<close>, and undefined behaviour (the dereference of a null
  pointer, \<^verbatim>\<open>__builtin_unreachable\<close>).  A theorem that an operation is \<^const>\<open>Some\<close> therefore
  excludes both.
\<close>

unbundle bit_operations_syntax

section \<open>Machine integers\<close>

type_synonym u8 = "8 word"
type_synonym u32 = "32 word"
type_synonym u64 = "64 word"

text \<open>Addresses; \<^verbatim>\<open>uintptr_t\<close> and \<^verbatim>\<open>size_t\<close> are 64 bits wide on the simulation port.\<close>

type_synonym addr = "64 word"

section \<open>Named fact collections\<close>

named_theorems word_facts \<open>bit masks and bit scans on machine words\<close>
named_theorems link_facts \<open>effects of link updates on a heap of intrusive nodes\<close>
named_theorems frame_facts \<open>fields that an operation leaves alone\<close>
named_theorems ring_facts \<open>ring buffer cells and positions\<close>

section \<open>Assertions\<close>

text \<open>
  \<^verbatim>\<open>CORTOS_ASSERT(c)\<close> and its variants (port.h) evaluate the condition and call
  \<^verbatim>\<open>cortos_port_system_error\<close> when it is false.
\<close>

definition CORTOS_ASSERT :: "bool \<Rightarrow> unit option" where
  "CORTOS_ASSERT c = (if c then Some () else None)"

lemma CORTOS_ASSERT_Some [simp]: "CORTOS_ASSERT c = Some () \<longleftrightarrow> c"
  unfolding CORTOS_ASSERT_def by (cases c) simp_all

lemma CORTOS_ASSERT_None [simp]: "CORTOS_ASSERT c = None \<longleftrightarrow> \<not> c"
  by (simp add: CORTOS_ASSERT_def)

lemma CORTOS_ASSERT_bind [simp]:
  "Option.bind (CORTOS_ASSERT c) f = (if c then f () else None)"
  by (simp add: CORTOS_ASSERT_def)

section \<open>Bit scans and bit masks\<close>

text \<open>\<^verbatim>\<open>std::countr_zero\<close>: the number of zero bits below the lowest set bit.\<close>

definition countr_zero :: "'a::len word \<Rightarrow> nat" where
  "countr_zero w = length (takeWhile (\<lambda>i. \<not> bit w i) [0..<LENGTH('a)])"

text \<open>\<^verbatim>\<open>std::popcount\<close>: the number of set bits.\<close>

definition popcount :: "'a::len word \<Rightarrow> nat" where
  "popcount w = length (filter (bit w) [0..<LENGTH('a)])"

text \<open>The masks \<^verbatim>\<open>m |= (1u << i)\<close> and \<^verbatim>\<open>m &= ~(1u << i)\<close>.\<close>

definition mask_set :: "'a::len word \<Rightarrow> nat \<Rightarrow> 'a word" where
  "mask_set w i = w OR push_bit i 1"

definition mask_clear :: "'a::len word \<Rightarrow> nat \<Rightarrow> 'a word" where
  "mask_clear w i = w AND NOT (push_bit i 1)"

lemma bit_mask_set [word_facts]:
  "bit (mask_set (w :: 'a::len word) i) j \<longleftrightarrow> bit w j \<or> (j = i \<and> i < LENGTH('a))"
  by (auto simp: mask_set_def bit_simps)

lemma bit_mask_clear [word_facts]:
  "bit (mask_clear (w :: 'a::len word) i) j \<longleftrightarrow> bit w j \<and> j \<noteq> i"
  by (auto simp: mask_clear_def bit_simps dest: bit_imp_le_length)

lemma word_nonzero_iff_bit: "(w :: 'a::len word) \<noteq> 0 \<longleftrightarrow> (\<exists>i < LENGTH('a). bit w i)"
  by (metis bit_0_eq bit_imp_le_length bit_word_eqI bot_apply bot_bool_def)

lemma word_zero_iff_bits: "(w :: 'a::len word) = 0 \<longleftrightarrow> (\<forall>i. \<not> bit w i)"
  using word_nonzero_iff_bit [of w] bit_imp_le_length [of w] by auto

lemma takeWhile_upt_least:
  assumes "i < n" "P i" "\<And>j. j < i \<Longrightarrow> \<not> P j"
  shows "takeWhile (\<lambda>j. \<not> P j) [0..<n] = [0..<i]"
proof -
  have "[0..<n] = [0..<i] @ [i..<n]"
    using assms(1) by (metis le_add_diff_inverse less_or_eq_imp_le upt_add_eq_append zero_le)
  moreover have "[i..<n] = i # [Suc i..<n]"
    using assms(1) by (rule upt_conv_Cons)
  ultimately show ?thesis
    using assms(2,3) by (simp add: takeWhile_append)
qed

lemma countr_zero_eqI [word_facts]:
  assumes "bit (w :: 'a::len word) i" "\<And>j. j < i \<Longrightarrow> \<not> bit w j"
  shows "countr_zero w = i"
proof -
  have "i < LENGTH('a)" using assms(1) by (rule bit_imp_le_length)
  then have "takeWhile (\<lambda>j. \<not> bit w j) [0..<LENGTH('a)] = [0..<i]"
    using assms by (intro takeWhile_upt_least) auto
  then show ?thesis by (simp add: countr_zero_def)
qed

lemma countr_zero_props:
  assumes "(w :: 'a::len word) \<noteq> 0"
  shows "bit w (countr_zero w)" and "\<And>j. j < countr_zero w \<Longrightarrow> \<not> bit w j"
    and "countr_zero w < LENGTH('a)"
proof -
  obtain k where "bit w k" using assms word_nonzero_iff_bit by blast
  define i where "i = (LEAST k. bit w k)"
  have i: "bit w i" "\<And>j. j < i \<Longrightarrow> \<not> bit w j"
    using \<open>bit w k\<close> unfolding i_def by (auto intro: LeastI dest: not_less_Least)
  then have eq: "countr_zero w = i" by (rule countr_zero_eqI)
  show "bit w (countr_zero w)" "\<And>j. j < countr_zero w \<Longrightarrow> \<not> bit w j"
    using i eq by auto
  show "countr_zero w < LENGTH('a)"
    using i(1) eq bit_imp_le_length by blast
qed

end
