(* ===== verification/Memory_Layout.thy ===== *)
theory Memory_Layout
  imports Cortos_Prelude
begin

text \<open>
  The compile-time configuration (config.hpp, validate_config.cpp), the address arithmetic of
  align.hpp, the core affinity masks of thread.hpp and the carving of a user buffer into thread
  control block, thread-local storage and stack (\<^verbatim>\<open>StackLayout\<close>).  The sizes and alignments that
  the compiler chooses are gathered in a record \<open>abi\<close>.
\<close>

section \<open>Configuration\<close>

definition CORES :: nat where "CORES = 4"
definition MAX_WAIT_NODES :: nat where "MAX_WAIT_NODES = 8"
definition TIME_CORE_ID :: nat where "TIME_CORE_ID = 0"
definition MAX_PRIORITIES :: nat where "MAX_PRIORITIES = 31"
definition CORTOS_PORT_CORE_COUNT :: nat where "CORTOS_PORT_CORE_COUNT = 4"

lemmas config_defs =
  CORES_def MAX_WAIT_NODES_def TIME_CORE_ID_def MAX_PRIORITIES_def CORTOS_PORT_CORE_COUNT_def

text \<open>The static assertions of validate_config.cpp.\<close>

definition config_valid :: "nat \<Rightarrow> nat \<Rightarrow> nat \<Rightarrow> nat \<Rightarrow> bool" where
  "config_valid cores port_cores time_core priorities \<longleftrightarrow>
     1 \<le> cores \<and> cores \<le> port_cores \<and> time_core < cores \<and> priorities < LENGTH(32)"

lemma config_is_valid: "config_valid CORES CORTOS_PORT_CORE_COUNT TIME_CORE_ID MAX_PRIORITIES"
  by (simp add: config_valid_def config_defs)

section \<open>Core affinity\<close>

record CoreAffinity =
  ca_mask :: u32

definition affinity_or :: "CoreAffinity \<Rightarrow> CoreAffinity \<Rightarrow> CoreAffinity" where
  "affinity_or a b = \<lparr>ca_mask = ca_mask a OR ca_mask b\<rparr>"

definition affinity_and :: "CoreAffinity \<Rightarrow> CoreAffinity \<Rightarrow> CoreAffinity" where
  "affinity_and a b = \<lparr>ca_mask = ca_mask a AND ca_mask b\<rparr>"

definition allows :: "CoreAffinity \<Rightarrow> nat \<Rightarrow> bool" where
  "allows a core_id \<longleftrightarrow> ca_mask a AND push_bit core_id 1 \<noteq> 0"

definition from_id :: "nat \<Rightarrow> CoreAffinity" where
  "from_id core_id = \<lparr>ca_mask = push_bit core_id 1\<rparr>"

definition AnyCore :: CoreAffinity where
  "AnyCore = \<lparr>ca_mask = 0xFFFFFFFF\<rparr>"

lemma and_push_bit_one: "(w :: 'a::len word) AND push_bit i 1 \<noteq> 0 \<longleftrightarrow> bit w i"
  by (auto simp: word_nonzero_iff_bit bit_simps dest: bit_imp_le_length)

lemma allows_iff_bit: "allows a c \<longleftrightarrow> bit (ca_mask a) c"
  unfolding allows_def by (rule and_push_bit_one)

lemma allows_affinity_or: "allows (affinity_or a b) c \<longleftrightarrow> allows a c \<or> allows b c"
  by (simp add: allows_iff_bit affinity_or_def bit_or_iff)

lemma allows_affinity_and: "allows (affinity_and a b) c \<longleftrightarrow> allows a c \<and> allows b c"
  by (simp add: allows_iff_bit affinity_and_def bit_and_iff)

lemma allows_from_id: "c < 32 \<Longrightarrow> allows (from_id c) d \<longleftrightarrow> d = c"
  by (auto simp: allows_iff_bit from_id_def bit_simps)

lemma AnyCore_mask: "(0xFFFFFFFF :: u32) = mask 32"
  by (simp add: mask_eq_exp_minus_1)

lemma allows_AnyCore: "c < 32 \<Longrightarrow> allows AnyCore c"
  by (simp only: allows_iff_bit AnyCore_def CoreAffinity.simps AnyCore_mask bit_mask_iff) simp

section \<open>Alignment\<close>

definition align_down :: "addr \<Rightarrow> u64 \<Rightarrow> addr" where
  "align_down v a = v AND NOT (a - 1)"

definition align_up :: "addr \<Rightarrow> u64 \<Rightarrow> addr" where
  "align_up v a = (v + (a - 1)) AND NOT (a - 1)"

lemma and_not_mask: "(v :: 'a::len word) AND NOT (mask k) = push_bit k (drop_bit k v)"
  by (rule bit_word_eqI) (auto simp: bit_simps)

lemma unat_and_not_mask: "unat ((v :: 'a::len word) AND NOT (mask k)) = unat v div 2 ^ k * 2 ^ k"
proof -
  have "v AND NOT (mask k) = v - take_bit k v"
    unfolding and_not_mask using bits_ident [of k v] by (metis add_diff_cancel)
  moreover have "take_bit k v \<le> v"
    by (metis take_bit_eq_mask word_and_le2)
  moreover have "unat (take_bit k v) = unat v mod 2 ^ k"
    unfolding unsigned_take_bit_eq by (rule take_bit_eq_mod)
  ultimately have "unat (v AND NOT (mask k)) = unat v - unat v mod 2 ^ k"
    by (simp only: unat_sub)
  then show ?thesis by (simp add: minus_mod_eq_div_mult)
qed

lemma align_down_eq: "unat (align_down v (2 ^ k)) = unat v div 2 ^ k * 2 ^ k"
  using unat_and_not_mask [of v k] by (simp add: align_down_def mask_eq_exp_minus_1)

lemma align_down_le: "unat (align_down v (2 ^ k)) \<le> unat v"
  unfolding align_down_eq by (rule div_times_less_eq_dividend)

lemma align_down_slack: "k < 64 \<Longrightarrow> unat v < unat (align_down v (2 ^ k)) + 2 ^ k"
  unfolding align_down_eq using dividend_less_div_times [of "2 ^ k" "unat v"] by simp

lemma align_down_dvd: "2 ^ k dvd unat (align_down v (2 ^ k))"
  unfolding align_down_eq by simp

lemma unat_power_two: "k < LENGTH('a) \<Longrightarrow> unat (2 ^ k :: 'a::len word) = 2 ^ k"
  using unat_of_nat [of "2 ^ k", where 'a = 'a] by simp

lemma align_up_eq:
  assumes "k < 64" "unat v + (2 ^ k - 1) < 2 ^ 64"
  shows "unat (align_up v (2 ^ k)) = (unat v + (2 ^ k - 1)) div 2 ^ k * 2 ^ k"
proof -
  have m: "unat (2 ^ k - 1 :: u64) = 2 ^ k - 1"
    using assms(1) by (simp add: unat_minus_one unat_power_two)
  have s: "unat (v + (2 ^ k - 1)) = unat v + (2 ^ k - 1)"
    using assms m by (subst unat_add_lem [THEN iffD1]) auto
  show ?thesis
    using align_down_eq [of "v + (2 ^ k - 1)" k] s by (simp add: align_up_def align_down_def)
qed

section \<open>Carving a stack buffer\<close>

text \<open>
  What the compiler fixes: \<^verbatim>\<open>sizeof\<close> and \<^verbatim>\<open>alignof\<close> of the thread control block,
  \<^verbatim>\<open>alignof(std::max_align_t)\<close>, and the offset of the termination waitable in the block.
\<close>

record abi =
  sizeof_tcb :: u64
  alignof_tcb :: u64
  alignof_max :: u64
  offsetof_termination :: u64

text \<open>A span is its data pointer and its size.\<close>

type_synonym span = "addr \<times> u64"

record StackLayout =
  sl_tcb :: addr
  sl_tls_region :: span
  sl_user_stack :: span

text \<open>
  \<^verbatim>\<open>std::span::subspan(offset, count)\<close> is undefined unless the range lies in the span.
\<close>

definition subspan :: "span \<Rightarrow> u64 \<Rightarrow> u64 \<Rightarrow> span option" where
  "subspan b off len =
     (if unat off + unat len \<le> unat (snd b) then Some (fst b + off, len) else None)"

definition make_StackLayout :: "abi \<Rightarrow> span \<Rightarrow> u64 \<Rightarrow> StackLayout option" where
  "make_StackLayout A buffer tls_bytes = do {
     let base = fst buffer;
     let end = base + snd buffer;
     let tcb_start = align_down (end - sizeof_tcb A) (alignof_tcb A);
     let tls_size = align_up tls_bytes (alignof_max A);
     let tls_top = tcb_start;
     let tls_base = align_down (tls_top - tls_size) (alignof_max A);
     CORTOS_ASSERT (tls_base \<ge> base);
     let tls_offset = tls_base - base;
     let tls_length = tls_top - tls_base;
     tls \<leftarrow> subspan buffer tls_offset tls_length;
     let stack_len = tls_base - base;
     CORTOS_ASSERT (stack_len > 64);
     stack \<leftarrow> subspan buffer 0 stack_len;
     Some \<lparr>sl_tcb = tcb_start, sl_tls_region = tls, sl_user_stack = stack\<rparr>
   }"

text \<open>
  Buffers lie in the address space, alignments are powers of two, and the block with its
  alignment slack fits in the address space.
\<close>

definition abi_ok :: "abi \<Rightarrow> nat \<Rightarrow> nat \<Rightarrow> bool" where
  "abi_ok A k m \<longleftrightarrow>
     k < 64 \<and> m < 64 \<and> alignof_tcb A = 2 ^ k \<and> alignof_max A = 2 ^ m \<and>
     unat (sizeof_tcb A) + 2 ^ k \<le> 2 ^ 64"

definition span_ok :: "span \<Rightarrow> bool" where
  "span_ok b \<longleftrightarrow> unat (fst b) + unat (snd b) < 2 ^ 64"

lemma unat_sub_wrap:
  "unat (a - b :: u64) = (if unat b \<le> unat a then unat a - unat b else unat a + 2 ^ 64 - unat b)"
  by (simp add: unat_sub_if_size word_size)

lemma subspan_Some [simp]:
  "subspan b off len = Some r \<longleftrightarrow> unat off + unat len \<le> unat (snd b) \<and> r = (fst b + off, len)"
  by (auto simp: subspan_def)

text \<open>An aligned start above an address never wraps back below it.\<close>

lemma align_down_wrap_above:
  assumes "k < 64" "unat v < unat z" "unat z + 2 ^ k \<le> 2 ^ 64"
  shows "unat v < unat (align_down (v - z) (2 ^ k))"
proof -
  have "unat (v - z) = unat v + 2 ^ 64 - unat z"
    using assms(2) by (simp add: unat_sub_wrap)
  moreover have "unat (v - z) < unat (align_down (v - z) (2 ^ k)) + 2 ^ k"
    by (rule align_down_slack [OF assms(1)])
  ultimately show ?thesis using assms(3) by linarith
qed

lemma align_up_bounds:
  assumes "m < 64" "unat v + 2 ^ m \<le> 2 ^ 64"
  shows "unat v \<le> unat (align_up v (2 ^ m))" and "unat (align_up v (2 ^ m)) + 2 ^ m \<le> 2 ^ 64"
proof -
  have eq: "unat (align_up v (2 ^ m)) = (unat v + (2 ^ m - 1)) div 2 ^ m * 2 ^ m"
    using assms by (intro align_up_eq) simp_all
  have "unat v + (2 ^ m - 1) < (unat v + (2 ^ m - 1)) div 2 ^ m * 2 ^ m + 2 ^ m"
    using dividend_less_div_times [of "2 ^ m" "unat v + (2 ^ m - 1)"] by simp
  then show "unat v \<le> unat (align_up v (2 ^ m))" using eq by simp
  have "unat (align_up v (2 ^ m)) < 2 ^ 64" using unsigned_less [of "align_up v (2 ^ m)"] by simp
  moreover have "2 ^ m dvd unat (align_up v (2 ^ m))" using eq by simp
  moreover have "(2 ^ m :: nat) dvd 2 ^ 64" using assms(1) by (intro le_imp_power_dvd) simp
  ultimately obtain x y :: nat where xy: "unat (align_up v (2 ^ m)) = 2 ^ m * x" "2 ^ 64 = 2 ^ m * y"
    "x < y" by (metis dvdE nat_mult_less_cancel_disj)
  then have "2 ^ m * Suc x \<le> 2 ^ m * y" by (intro mult_le_mono2) simp
  then show "unat (align_up v (2 ^ m)) + 2 ^ m \<le> 2 ^ 64" using xy by simp
qed

text \<open>
  The regions of a layout: the stack starts at the buffer's base, the thread-local storage
  follows it, the control block follows the storage and ends inside the buffer.
\<close>

definition layout_regions :: "abi \<Rightarrow> span \<Rightarrow> u64 \<Rightarrow> nat \<Rightarrow> nat \<Rightarrow> StackLayout \<Rightarrow> bool" where
  "layout_regions A b tls_bytes k m L \<longleftrightarrow>
     fst (sl_user_stack L) = fst b \<and> 64 < unat (snd (sl_user_stack L)) \<and>
     unat (fst b) + unat (snd (sl_user_stack L)) = unat (fst (sl_tls_region L)) \<and>
     unat (fst (sl_tls_region L)) + unat (snd (sl_tls_region L)) = unat (sl_tcb L) \<and>
     unat tls_bytes \<le> unat (snd (sl_tls_region L)) \<and>
     unat (sl_tcb L) + unat (sizeof_tcb A) \<le> unat (fst b) + unat (snd b) \<and>
     2 ^ k dvd unat (sl_tcb L) \<and> 2 ^ m dvd unat (fst (sl_tls_region L))"

text \<open>The arithmetic of the carving, on addresses read as naturals.\<close>

lemma carve_bounds:
  assumes A: "abi_ok A k m" and b: "span_ok (base, len)" and t: "unat tls + 2 ^ m \<le> 2 ^ 64"
    and tcb: "tcb_start = align_down (base + len - sizeof_tcb A) (alignof_tcb A)"
    and tb: "tls_base = align_down (tcb_start - align_up tls (alignof_max A)) (alignof_max A)"
    and le: "base \<le> tls_base"
    and fit: "unat (tls_base - base) + unat (tcb_start - tls_base) \<le> unat len"
  shows "unat tcb_start + unat (sizeof_tcb A) \<le> unat base + unat len"
    and "unat tls_base + unat tls \<le> unat tcb_start"
    and "unat base \<le> unat tls_base"
    and "2 ^ k dvd unat tcb_start" and "2 ^ m dvd unat tls_base"
proof -
  have A': "k < 64" "m < 64" "alignof_tcb A = 2 ^ k" "alignof_max A = 2 ^ m"
    "unat (sizeof_tcb A) + 2 ^ k \<le> 2 ^ 64" using A by (auto simp: abi_ok_def)
  have e: "unat (base + len) = unat base + unat len"
    using b by (intro unat_add_lem [THEN iffD1]) (simp add: span_ok_def)
  show bl: "unat base \<le> unat tls_base" using le by (simp add: word_le_nat_alt)
  have off: "unat (tls_base - base) = unat tls_base - unat base" using bl by (simp add: unat_sub_wrap)
  have up: "unat tls \<le> unat (align_up tls (2 ^ m))" "unat (align_up tls (2 ^ m)) + 2 ^ m \<le> 2 ^ 64"
    using align_up_bounds [OF A'(2) t] by auto
  have in_buf: "unat tcb_start \<le> unat base + unat len" and ord: "unat tls_base \<le> unat tcb_start"
    using fit bl b off by (auto simp: unat_sub_wrap span_ok_def split: if_splits)
  have top: "unat (align_up tls (2 ^ m)) \<le> unat tcb_start"
    using align_down_wrap_above [OF A'(2), of tcb_start "align_up tls (2 ^ m)"] up(2) ord tb A'
    by (cases "unat tcb_start < unat (align_up tls (2 ^ m))") auto
  have "unat tls_base \<le> unat (tcb_start - align_up tls (2 ^ m))"
    using tb A' align_down_le by auto
  then show "unat tls_base + unat tls \<le> unat tcb_start"
    using top up(1) by (simp add: unat_sub_wrap)
  have sz: "unat (sizeof_tcb A) \<le> unat (base + len)"
    using align_down_wrap_above [OF A'(1), of "base + len" "sizeof_tcb A"] A' tcb in_buf e
    by (cases "unat (base + len) < unat (sizeof_tcb A)") auto
  have "unat tcb_start \<le> unat (base + len - sizeof_tcb A)"
    using tcb A' align_down_le by auto
  then show "unat tcb_start + unat (sizeof_tcb A) \<le> unat base + unat len"
    using sz e by (simp add: unat_sub_wrap)
  show "2 ^ k dvd unat tcb_start" using tcb A' align_down_dvd by auto
  show "2 ^ m dvd unat tls_base" using tb A' align_down_dvd by auto
qed

lemma make_StackLayout_regions:
  assumes A: "abi_ok A k m" and b: "span_ok b" and t: "unat tls + 2 ^ m \<le> 2 ^ 64"
    and L: "make_StackLayout A b tls = Some L"
  shows "layout_regions A b tls k m L"
proof -
  obtain base len where bb: "b = (base, len)" by (cases b)
  define tcb_start where "tcb_start = align_down (base + len - sizeof_tcb A) (alignof_tcb A)"
  define tls_base where
    "tls_base = align_down (tcb_start - align_up tls (alignof_max A)) (alignof_max A)"
  have le: "base \<le> tls_base" and gt: "64 < tls_base - base"
    and fit: "unat (tls_base - base) + unat (tcb_start - tls_base) \<le> unat len"
    and Leq: "L = \<lparr>sl_tcb = tcb_start, sl_tls_region = (base + (tls_base - base), tcb_start - tls_base),
                  sl_user_stack = (base + 0, tls_base - base)\<rparr>"
    using L unfolding bb make_StackLayout_def
    by (auto simp: Let_def tls_base_def tcb_start_def bind_eq_Some_conv split: if_splits)
  note bounds = carve_bounds [OF A b [unfolded bb] t tcb_start_def tls_base_def le fit]
  have "unat (tls_base - base) = unat tls_base - unat base"
    using bounds(3) by (simp add: unat_sub_wrap)
  moreover have "unat (tcb_start - tls_base) = unat tcb_start - unat tls_base"
    using bounds(2) by (simp add: unat_sub_wrap)
  moreover have "64 < unat (tls_base - base)"
    using gt by (simp add: word_less_nat_alt)
  ultimately show ?thesis
    using bounds unfolding layout_regions_def Leq bb by simp
qed

lemma align_up_slack:
  assumes "m < 64" "unat v + 2 ^ m \<le> 2 ^ 64"
  shows "unat (align_up v (2 ^ m)) < unat v + 2 ^ m"
proof -
  have "unat (align_up v (2 ^ m)) = (unat v + (2 ^ m - 1)) div 2 ^ m * 2 ^ m"
    using assms by (intro align_up_eq) simp_all
  also have "\<dots> \<le> unat v + (2 ^ m - 1)" by (rule div_times_less_eq_dividend)
  also have "\<dots> < unat v + 2 ^ m" by simp
  finally show ?thesis .
qed

text \<open>A buffer with room for the block, the storage, both alignment slacks and 65 bytes is carved.\<close>

lemma make_StackLayout_enough:
  assumes A: "abi_ok A k m" and b: "span_ok (base, len)" and t: "unat tls + 2 ^ m \<le> 2 ^ 64"
    and room: "unat (sizeof_tcb A) + 2 ^ k + unat tls + 2 * 2 ^ m + 65 \<le> unat len"
  shows "\<exists>L. make_StackLayout A (base, len) tls = Some L"
proof -
  have A': "k < 64" "m < 64" "alignof_tcb A = 2 ^ k" "alignof_max A = 2 ^ m"
    using A by (auto simp: abi_ok_def)
  define tcb_start where "tcb_start = align_down (base + len - sizeof_tcb A) (2 ^ k)"
  define up where "up = align_up tls (2 ^ m)"
  define tls_base where "tls_base = align_down (tcb_start - up) (2 ^ m)"
  have e: "unat (base + len) = unat base + unat len"
    using b by (intro unat_add_lem [THEN iffD1]) (simp add: span_ok_def)
  have z: "unat (base + len - sizeof_tcb A) = unat base + unat len - unat (sizeof_tcb A)"
    using room e by (simp add: unat_sub_wrap)
  have t1: "unat base + unat len - unat (sizeof_tcb A) < unat tcb_start + 2 ^ k"
    using align_down_slack [OF A'(1), of "base + len - sizeof_tcb A"] z tcb_start_def by simp
  have t2: "unat tcb_start \<le> unat base + unat len - unat (sizeof_tcb A)"
    using align_down_le [of "base + len - sizeof_tcb A" k] z tcb_start_def by simp
  have u: "unat up < unat tls + 2 ^ m" using align_up_slack [OF A'(2) t] up_def by simp
  have sub: "unat (tcb_start - up) = unat tcb_start - unat up"
    using t1 u room by (simp add: unat_sub_wrap)
  have b1: "unat tcb_start - unat up < unat tls_base + 2 ^ m"
    using align_down_slack [OF A'(2), of "tcb_start - up"] sub tls_base_def by simp
  have b2: "unat tls_base \<le> unat tcb_start - unat up"
    using align_down_le [of "tcb_start - up" m] sub tls_base_def by simp
  have lb: "unat base + 64 < unat tls_base" using t1 u b1 room by linarith
  have off: "unat (tls_base - base) = unat tls_base - unat base" using lb by (simp add: unat_sub_wrap)
  have len': "unat (tcb_start - tls_base) = unat tcb_start - unat tls_base"
    using b2 by (simp add: unat_sub_wrap)
  have "base \<le> tls_base" "64 < tls_base - base"
    using lb off by (simp_all add: word_le_nat_alt word_less_nat_alt)
  moreover have "unat (tls_base - base) + unat (tcb_start - tls_base) \<le> unat len"
    using off len' lb b2 t2 by linarith
  moreover have "unat (tls_base - base) \<le> unat len"
    using off lb b2 t2 by linarith
  ultimately show ?thesis
    unfolding make_StackLayout_def subspan_def
    using A' by (simp add: Let_def tcb_start_def up_def tls_base_def)
qed

text \<open>
  C40: When alignments are powers of two and the buffer lies in the address space, a successful carving
  gives three regions inside the buffer that do not overlap: the stack, of more than 64 bytes, starts
  at the base of the buffer, the aligned thread-local storage of at least the requested size follows,
  and the aligned control block ends inside the buffer, also when the subtractions of a buffer that is
  too small wrap around.  A buffer with room for the block, the storage, the alignment slack and 65
  bytes is never refused.
\<close>

theorem stack_layout_carves_buffer:
  assumes "abi_ok A k m" "span_ok b" "unat tls + 2 ^ m \<le> 2 ^ 64"
  shows "pred_option (layout_regions A b tls k m) (make_StackLayout A b tls) \<and>
    (unat (sizeof_tcb A) + 2 ^ k + unat tls + 2 * 2 ^ m + 65 \<le> unat (snd b) \<longrightarrow> make_StackLayout A b tls \<noteq> None)"
  using make_StackLayout_regions [OF assms] make_StackLayout_enough [of A k m "fst b" "snd b" tls] assms
  by (cases "make_StackLayout A b tls") auto

theorem stack_layout_carves_buffer_witness:
  "make_StackLayout \<lparr>sizeof_tcb = 768, alignof_tcb = 16, alignof_max = 16, offsetof_termination = 512\<rparr>
     (0x100008, 0x1000) 100 \<noteq> None"
  using stack_layout_carves_buffer [of "\<lparr>sizeof_tcb = 768, alignof_tcb = 16, alignof_max = 16, offsetof_termination = 512\<rparr>"
      4 4 "(0x100008, 0x1000)" 100]
  by (simp add: abi_ok_def span_ok_def)

end
