(* ===== verification/Wait_Subsystem.thy ===== *)
theory Wait_Subsystem
  imports Memory_Layout
begin

text \<open>
  wait_subsystem.hpp: wait nodes, the per-thread pool they are allocated from, and the wait group
  that decides which waitable ends a \<^verbatim>\<open>wait_for_any\<close>.

  Objects live in stores indexed by their addresses.  A thread control block is named by its
  address; the node in slot \<open>i\<close> of the pool of thread \<open>t\<close> is named \<open>(t, i)\<close>; the wait group of a
  thread is a member of its control block and is named by the thread.
\<close>

section \<open>Pointers\<close>

type_synonym tcb_ptr = addr
type_synonym waitable_ptr = addr
type_synonym node_ptr = "tcb_ptr \<times> nat"
type_synonym group_ptr = tcb_ptr

datatype ReadyAction = RA_None | RA_Reschedule

section \<open>Wait nodes\<close>

definition INVALID_INDEX :: u8 where "INVALID_INDEX = 255"

record WaitNode =
  n_slot :: u8
  n_active :: bool
  n_next :: "node_ptr option"
  n_prev :: "node_ptr option"
  n_tcb :: "tcb_ptr option"
  n_waitable :: "waitable_ptr option"
  n_group :: "group_ptr option"
  n_index :: u8

type_synonym node_heap = "node_ptr \<Rightarrow> WaitNode"

definition WaitNode_init :: WaitNode where
  "WaitNode_init =
     \<lparr>n_slot = INVALID_INDEX, n_active = False, n_next = None, n_prev = None, n_tcb = None,
      n_waitable = None, n_group = None, n_index = INVALID_INDEX\<rparr>"

definition node_reset :: "WaitNode \<Rightarrow> WaitNode" where
  "node_reset n =
     n\<lparr>n_active := False, n_next := None, n_prev := None, n_waitable := None, n_group := None,
       n_index := INVALID_INDEX\<rparr>"

definition node_is_enqueued :: "WaitNode \<Rightarrow> bool" where
  "node_is_enqueued n \<longleftrightarrow> n_next n \<noteq> None \<or> n_prev n \<noteq> None"

section \<open>The pool\<close>

text \<open>
  The array member \<^verbatim>\<open>nodes\<close> of a pool is the part \<open>(owner, 0)\<close> to \<open>(owner, N - 1)\<close> of the node
  store; the pool itself keeps the mask of free slots.
\<close>

definition ALL_NODES_FREE :: u32 where
  "ALL_NODES_FREE =
     (if MAX_WAIT_NODES = 32 then 0xFFFFFFFF else push_bit MAX_WAIT_NODES 1 - 1)"

record WaitNodePool =
  wp_owner :: tcb_ptr
  free_mask :: u32

text \<open>The constructor stores the owner and the slot number in every node.\<close>

definition make_WaitNodePool :: "tcb_ptr \<Rightarrow> node_heap \<Rightarrow> WaitNodePool \<times> node_heap" where
  "make_WaitNodePool t h =
     (\<lparr>wp_owner = t, free_mask = ALL_NODES_FREE\<rparr>,
      \<lambda>p. if fst p = t \<and> snd p < MAX_WAIT_NODES
          then WaitNode_init\<lparr>n_tcb := Some t, n_slot := of_nat (snd p)\<rparr> else h p)"

definition pool_reset_all :: "WaitNodePool \<times> node_heap \<Rightarrow> WaitNodePool \<times> node_heap" where
  "pool_reset_all = (\<lambda>(pool, h).
     (pool\<lparr>free_mask := ALL_NODES_FREE\<rparr>,
      \<lambda>p. if fst p = wp_owner pool \<and> snd p < MAX_WAIT_NODES then node_reset (h p) else h p))"

definition pool_capacity :: "WaitNodePool \<Rightarrow> nat" where
  "pool_capacity pool = MAX_WAIT_NODES"

definition pool_free_count :: "WaitNodePool \<Rightarrow> nat" where
  "pool_free_count pool = popcount (free_mask pool)"

definition pool_empty :: "WaitNodePool \<Rightarrow> bool" where
  "pool_empty pool \<longleftrightarrow> free_mask pool = 0"

text \<open>
  \<^verbatim>\<open>WaitNodePool::alloc\<close>.  A set bit at or above \<^const>\<open>MAX_WAIT_NODES\<close> would index the array out
  of bounds.
\<close>

definition pool_alloc ::
  "group_ptr \<Rightarrow> waitable_ptr \<Rightarrow> u8 \<Rightarrow> WaitNodePool \<times> node_heap
   \<Rightarrow> (node_ptr option \<times> WaitNodePool \<times> node_heap) option" where
  "pool_alloc grp waitable index = (\<lambda>(pool, h). do {
     CORTOS_ASSERT (index \<noteq> INVALID_INDEX);
     if free_mask pool = 0 then Some (None, pool, h)
     else do {
       let b = countr_zero (free_mask pool);
       let pool = pool\<lparr>free_mask := mask_clear (free_mask pool) b\<rparr>;
       CORTOS_ASSERT (b < MAX_WAIT_NODES);
       let p = (wp_owner pool, b);
       CORTOS_ASSERT (\<not> n_active (h p));
       let node = (node_reset (h p))
         \<lparr>n_active := True, n_group := Some grp, n_waitable := Some waitable, n_index := index\<rparr>;
       Some (Some p, pool, h(p := node))
     }
   })"

text \<open>
  A node of another pool fails here with the index out of range; the pointer difference of the source is undefined
  for it, and whatever index results, the call is an error of the caller.
\<close>

definition pool_free ::
  "node_ptr \<Rightarrow> WaitNodePool \<times> node_heap \<Rightarrow> (WaitNodePool \<times> node_heap) option" where
  "pool_free p = (\<lambda>(pool, h). do {
     let index = snd p;
     CORTOS_ASSERT (fst p = wp_owner pool \<and> index < MAX_WAIT_NODES);
     CORTOS_ASSERT (n_active (h p));
     CORTOS_ASSERT (n_slot (h p) = of_nat index);
     Some (pool\<lparr>free_mask := mask_set (free_mask pool) index\<rparr>, h(p := node_reset (h p)))
   })"

text \<open>
  \<^verbatim>\<open>for_each_active(fn, only_group)\<close>: the slots in ascending order; the callback may change the
  store, so the activity of a slot is read when the loop reaches it.  \<open>nodes_of\<close> gives the node
  store inside the state the callback works on.
\<close>

fun for_each_active_from ::
  "('s \<Rightarrow> node_heap) \<Rightarrow> tcb_ptr \<Rightarrow> (node_ptr \<Rightarrow> 's \<Rightarrow> 's option) \<Rightarrow> group_ptr option
   \<Rightarrow> nat list \<Rightarrow> 's \<Rightarrow> 's option" where
  "for_each_active_from nodes_of t fn only_group [] s = Some s"
| "for_each_active_from nodes_of t fn only_group (i # is) s =
     (let node = nodes_of s (t, i)
      in if \<not> n_active node then for_each_active_from nodes_of t fn only_group is s
         else if only_group \<noteq> None \<and> n_group node \<noteq> only_group
              then for_each_active_from nodes_of t fn only_group is s
         else do { s' \<leftarrow> fn (t, i) s; for_each_active_from nodes_of t fn only_group is s' })"

definition for_each_active ::
  "('s \<Rightarrow> node_heap) \<Rightarrow> tcb_ptr \<Rightarrow> (node_ptr \<Rightarrow> 's \<Rightarrow> 's option) \<Rightarrow> group_ptr option
   \<Rightarrow> 's \<Rightarrow> 's option" where
  "for_each_active nodes_of t fn only_group =
     for_each_active_from nodes_of t fn only_group [0..<MAX_WAIT_NODES]"

definition pool_at :: "WaitNodePool \<Rightarrow> nat \<Rightarrow> node_ptr option" where
  "pool_at pool slot = (if slot \<ge> MAX_WAIT_NODES then None else Some (wp_owner pool, slot))"

section \<open>The wait group\<close>

record WaitGroup =
  g_done :: bool
  g_winner_index :: int
  g_acquired :: bool
  g_expected_count :: u8

definition WaitGroup_init :: WaitGroup where
  "WaitGroup_init =
     \<lparr>g_done = False, g_winner_index = -1, g_acquired = False, g_expected_count = 0\<rparr>"

definition group_begin :: "u8 \<Rightarrow> WaitGroup \<Rightarrow> WaitGroup" where
  "group_begin n g =
     g\<lparr>g_done := False, g_winner_index := -1, g_acquired := False, g_expected_count := n\<rparr>"

text \<open>The compare-exchange on \<^verbatim>\<open>done\<close> decides the winner.\<close>

definition try_win :: "int \<Rightarrow> bool \<Rightarrow> WaitGroup \<Rightarrow> bool \<times> WaitGroup" where
  "try_win index acquired g =
     (if g_done g then (False, g)
      else (True, g\<lparr>g_done := True, g_winner_index := index, g_acquired := acquired\<rparr>))"

section \<open>Pool invariant\<close>

text \<open>
  A slot is free in the mask exactly when its node is inactive, no bit above the array is set,
  and every node knows its owner and its slot.
\<close>

definition pool_inv :: "WaitNodePool \<times> node_heap \<Rightarrow> bool" where
  "pool_inv = (\<lambda>(pool, h).
     (\<forall>i < MAX_WAIT_NODES. bit (free_mask pool) i \<longleftrightarrow> \<not> n_active (h (wp_owner pool, i))) \<and>
     (\<forall>i. MAX_WAIT_NODES \<le> i \<longrightarrow> \<not> bit (free_mask pool) i) \<and>
     (\<forall>i < MAX_WAIT_NODES. n_tcb (h (wp_owner pool, i)) = Some (wp_owner pool) \<and>
                           n_slot (h (wp_owner pool, i)) = of_nat i))"

lemma ALL_NODES_FREE_mask: "ALL_NODES_FREE = mask MAX_WAIT_NODES"
  by (simp add: ALL_NODES_FREE_def MAX_WAIT_NODES_def mask_eq_exp_minus_1)

lemma bit_ALL_NODES_FREE: "bit ALL_NODES_FREE i \<longleftrightarrow> i < MAX_WAIT_NODES"
  unfolding ALL_NODES_FREE_mask by (auto simp: bit_mask_iff MAX_WAIT_NODES_def)

lemma node_reset_sel [simp]:
  "n_active (node_reset n) = False" "n_next (node_reset n) = None" "n_prev (node_reset n) = None"
  "n_waitable (node_reset n) = None" "n_group (node_reset n) = None"
  "n_index (node_reset n) = INVALID_INDEX" "n_tcb (node_reset n) = n_tcb n"
  "n_slot (node_reset n) = n_slot n"
  by (simp_all add: node_reset_def)

lemma make_WaitNodePool_inv: "pool_inv (make_WaitNodePool t h)"
  by (simp add: pool_inv_def make_WaitNodePool_def bit_ALL_NODES_FREE WaitNode_init_def)

lemma pool_reset_all_inv: "pool_inv (pool, h) \<Longrightarrow> pool_inv (pool_reset_all (pool, h))"
  by (simp add: pool_inv_def pool_reset_all_def bit_ALL_NODES_FREE)

lemma pool_mask_zero_iff:
  assumes "pool_inv (pool, h)"
  shows "free_mask pool = 0 \<longleftrightarrow> (\<forall>i < MAX_WAIT_NODES. n_active (h (wp_owner pool, i)))"
proof -
  have "free_mask pool = 0 \<longleftrightarrow> (\<forall>i. \<not> bit (free_mask pool) i)"
    by (rule word_zero_iff_bits)
  also have "\<dots> \<longleftrightarrow> (\<forall>i < MAX_WAIT_NODES. n_active (h (wp_owner pool, i)))"
    using assms by (auto simp: pool_inv_def) (meson not_less)
  finally show ?thesis .
qed

text \<open>The slot that \<^const>\<open>pool_alloc\<close> takes: the lowest inactive one.\<close>

lemma pool_lowest_free:
  assumes inv: "pool_inv (pool, h)" and nz: "free_mask pool \<noteq> 0"
  defines "b \<equiv> countr_zero (free_mask pool)"
  shows "b < MAX_WAIT_NODES" "\<not> n_active (h (wp_owner pool, b))"
    "\<And>j. j < b \<Longrightarrow> n_active (h (wp_owner pool, j))"
proof -
  have b: "bit (free_mask pool) b" "\<And>j. j < b \<Longrightarrow> \<not> bit (free_mask pool) j"
    using countr_zero_props [OF nz] by (auto simp: b_def)
  show lt: "b < MAX_WAIT_NODES" using b(1) inv by (auto simp: pool_inv_def not_le [symmetric])
  show "\<not> n_active (h (wp_owner pool, b))" using b(1) lt inv by (auto simp: pool_inv_def)
  show "n_active (h (wp_owner pool, j))" if "j < b" for j
    using b(2) [OF that] that lt inv by (auto simp: pool_inv_def)
qed

lemma pool_alloc_Some:
  assumes inv: "pool_inv (pool, h)" and nz: "free_mask pool \<noteq> 0" and idx: "index \<noteq> INVALID_INDEX"
  defines "b \<equiv> countr_zero (free_mask pool)"
  defines "p \<equiv> (wp_owner pool, b)"
  shows "pool_alloc g w index (pool, h) =
    Some (Some p, pool\<lparr>free_mask := mask_clear (free_mask pool) b\<rparr>,
          h(p := (node_reset (h p))\<lparr>n_active := True, n_group := Some g, n_waitable := Some w,
                                     n_index := index\<rparr>))"
  using pool_lowest_free [OF inv nz] nz idx
  by (simp add: pool_alloc_def b_def p_def Let_def)

lemma pool_alloc_inv:
  assumes inv: "pool_inv (pool, h)" and al: "pool_alloc g w index (pool, h) = Some (r, pool', h')"
  shows "pool_inv (pool', h')" "wp_owner pool' = wp_owner pool"
proof -
  have idx: "index \<noteq> INVALID_INDEX"
    using al by (auto simp: pool_alloc_def split: if_splits)
  have "pool_inv (pool', h') \<and> wp_owner pool' = wp_owner pool"
  proof (cases "free_mask pool = 0")
    case True
    with al inv idx show ?thesis by (auto simp: pool_alloc_def)
  next
    case False
    then show ?thesis
      using al pool_alloc_Some [OF inv False idx] pool_lowest_free [OF inv False] inv
      by (auto simp: pool_inv_def bit_mask_clear split: if_splits)
  qed
  then show "pool_inv (pool', h')" "wp_owner pool' = wp_owner pool" by auto
qed

lemma pool_free_Some:
  assumes inv: "pool_inv (pool, h)" and i: "i < MAX_WAIT_NODES" and act: "n_active (h (wp_owner pool, i))"
  shows "pool_free (wp_owner pool, i) (pool, h) =
    Some (pool\<lparr>free_mask := mask_set (free_mask pool) i\<rparr>,
          h((wp_owner pool, i) := node_reset (h (wp_owner pool, i))))"
  using assms by (simp add: pool_free_def pool_inv_def)

lemma pool_free_inv:
  assumes inv: "pool_inv (pool, h)" and fr: "pool_free p (pool, h) = Some (pool', h')"
  shows "pool_inv (pool', h')" "wp_owner pool' = wp_owner pool"
proof -
  from fr have p: "fst p = wp_owner pool" "snd p < MAX_WAIT_NODES"
    and eq: "pool' = pool\<lparr>free_mask := mask_set (free_mask pool) (snd p)\<rparr>" "h' = h(p := node_reset (h p))"
    by (auto simp: pool_free_def Let_def split: if_splits)
  obtain i where pi: "p = (wp_owner pool, i)" using p(1) by (cases p) auto
  show "pool_inv (pool', h')" "wp_owner pool' = wp_owner pool"
    using inv p(2) by (auto simp: eq pi pool_inv_def bit_mask_set MAX_WAIT_NODES_def)
qed

text \<open>The count of free slots follows the mask.\<close>

lemma pool_free_count_eq:
  assumes "pool_inv (pool, h)"
  shows "pool_free_count pool = card {i. i < MAX_WAIT_NODES \<and> \<not> n_active (h (wp_owner pool, i))}"
proof -
  have "pool_free_count pool = card (set (filter (bit (free_mask pool)) [0..<32]))"
    using distinct_card [of "filter (bit (free_mask pool)) [0..<32]"]
    by (simp only: pool_free_count_def popcount_def distinct_filter distinct_upt len_num0 len_bit0
        len_num1 mult_1_right) simp
  also have "set (filter (bit (free_mask pool)) [0..<32]) =
             {i. i < MAX_WAIT_NODES \<and> \<not> n_active (h (wp_owner pool, i))}"
    using assms by (auto simp: pool_inv_def MAX_WAIT_NODES_def not_le [symmetric])
  finally show ?thesis .
qed

section \<open>Exactly one winner\<close>

text \<open>
  A sequence of attempts on one group: the results in order.  The attempts of several cores reach
  the compare-exchange one after the other.
\<close>

fun try_win_all :: "(int \<times> bool) list \<Rightarrow> WaitGroup \<Rightarrow> bool list \<times> WaitGroup" where
  "try_win_all [] g = ([], g)"
| "try_win_all ((i, a) # as) g =
     (let (r, g1) = try_win i a g; (rs, g2) = try_win_all as g1 in (r # rs, g2))"

lemma try_win_all_done:
  "g_done g \<Longrightarrow> try_win_all as g = (replicate (length as) False, g)"
  by (induction as) (auto simp: try_win_def)

lemma try_win_all_first:
  assumes "\<not> g_done g"
  shows "try_win_all ((i, a) # as) g =
    (True # replicate (length as) False,
     g\<lparr>g_done := True, g_winner_index := i, g_acquired := a\<rparr>)"
  using assms by (simp add: try_win_def try_win_all_done)

end
