(* ===== verification/Intrusive_List.thy ===== *)
theory Intrusive_List
  imports Cortos_Prelude
begin

text \<open>
  Doubly linked lists threaded through the objects themselves.  The kernel keeps two families of
  them: the ready queues, linked through \<^verbatim>\<open>ThreadControlBlock::next/prev\<close>, and the waiter queues,
  linked through \<^verbatim>\<open>WaitNode::next/prev\<close>.  This theory states what it means that a head and a tail
  pointer represent a list (\<open>dll\<close>), and a locale \<open>link_heap\<close> for the heaps in which such links
  live: its parameters are the field reads and writes, its laws say that a write changes one
  field of one object, and its lemmas say what linking at the back, unlinking and detaching the
  front do to the represented list.  The locale is interpreted on the thread heap and on the node
  heap.
\<close>

section \<open>Chains of links\<close>

definition first_or :: "'n list \<Rightarrow> 'n option \<Rightarrow> 'n option" where
  "first_or xs q = (case xs of [] \<Rightarrow> q | x # _ \<Rightarrow> Some x)"

definition last_or :: "'n list \<Rightarrow> 'n option \<Rightarrow> 'n option" where
  "last_or xs p = (if xs = [] then p else Some (last xs))"

text \<open>
  \<open>chain nx pv p xs q\<close>: the objects \<open>xs\<close> are linked in this order; the first one's predecessor
  is \<open>p\<close> and the last one's successor is \<open>q\<close>.
\<close>

fun chain :: "('n \<Rightarrow> 'n option) \<Rightarrow> ('n \<Rightarrow> 'n option) \<Rightarrow> 'n option \<Rightarrow> 'n list \<Rightarrow> 'n option \<Rightarrow> bool"
where
  "chain nx pv p [] q \<longleftrightarrow> True"
| "chain nx pv p (x # xs) q \<longleftrightarrow> pv x = p \<and> nx x = first_or xs q \<and> chain nx pv (Some x) xs q"

definition dll ::
  "('n \<Rightarrow> 'n option) \<Rightarrow> ('n \<Rightarrow> 'n option) \<Rightarrow> 'n option \<Rightarrow> 'n option \<Rightarrow> 'n list \<Rightarrow> bool" where
  "dll nx pv h t xs \<longleftrightarrow>
     distinct xs \<and> h = first_or xs None \<and> t = last_or xs None \<and> chain nx pv None xs None"

lemma first_or_simps [simp]:
  "first_or [] q = q" "first_or (x # xs) q = Some x"
  by (simp_all add: first_or_def)

lemma first_or_append [simp]: "first_or (xs @ ys) q = first_or xs (first_or ys q)"
  by (cases xs) simp_all

lemma last_or_simps [simp]:
  "last_or [] p = p" "last_or (x # xs) p = last_or xs (Some x)"
  by (simp_all add: last_or_def)

lemma last_or_append [simp]: "last_or (xs @ ys) p = last_or ys (last_or xs p)"
  by (simp add: last_or_def)

lemma first_or_None [simp]: "first_or xs None = None \<longleftrightarrow> xs = []"
  by (cases xs) simp_all

lemma last_or_None [simp]: "last_or xs None = None \<longleftrightarrow> xs = []"
  by (simp add: last_or_def)

lemma first_or_mem: "first_or xs None = Some x \<Longrightarrow> x \<in> set xs"
  by (cases xs) simp_all

lemma last_or_mem: "last_or xs None = Some x \<Longrightarrow> x \<in> set xs"
  by (auto simp: last_or_def split: if_splits)

lemma chain_append [simp]:
  "chain nx pv p (xs @ ys) q \<longleftrightarrow>
     chain nx pv p xs (first_or ys q) \<and> chain nx pv (last_or xs p) ys q"
  by (induction xs arbitrary: p) auto

lemma chain_cong:
  assumes "\<And>x. x \<in> set xs \<Longrightarrow> nx x = nx' x" "\<And>x. x \<in> set xs \<Longrightarrow> pv x = pv' x"
  shows "chain nx pv p xs q = chain nx' pv' p xs q"
  using assms by (induction xs arbitrary: p) auto

lemma chain_upd_notin [simp]:
  "a \<notin> set xs \<Longrightarrow> chain (nx(a := v)) pv p xs q = chain nx pv p xs q"
  "a \<notin> set xs \<Longrightarrow> chain nx (pv(a := v)) p xs q = chain nx pv p xs q"
  by (rule chain_cong; auto)+

section \<open>Linking at the back\<close>

lemma chain_relink_last:
  assumes "chain nx pv p (xs @ [y]) q" "y \<notin> set xs"
  shows "chain (nx(y := r)) pv p (xs @ [y]) r"
  using assms by simp

lemma dll_push_back:
  assumes d: "dll nx pv h t xs" and n: "n \<notin> set xs"
  shows "dll (case t of None \<Rightarrow> nx(n := None) | Some y \<Rightarrow> (nx(n := None))(y := Some n))
             (pv(n := t)) (case t of None \<Rightarrow> Some n | Some _ \<Rightarrow> h) (Some n) (xs @ [n])"
proof (cases xs rule: rev_cases)
  case Nil
  with d show ?thesis by (simp add: dll_def)
next
  case (snoc ys y)
  with d have t: "t = Some y" and y: "y \<notin> set ys" and c: "chain nx pv None (ys @ [y]) None"
    by (auto simp: dll_def last_or_def)
  from snoc n have "n \<noteq> y" "n \<notin> set ys" by auto
  have "chain ((nx(n := None))(y := Some n)) (pv(n := Some y)) None (ys @ [y]) (Some n)"
    using c y \<open>n \<noteq> y\<close> \<open>n \<notin> set ys\<close> by simp
  with d n snoc t \<open>n \<noteq> y\<close> show ?thesis by (simp add: dll_def)
qed

section \<open>Unlinking\<close>

text \<open>
  The effect of \<^verbatim>\<open>prev->next = n.next\<close> (or \<^verbatim>\<open>head = n.next\<close>), \<^verbatim>\<open>next->prev = n.prev\<close> (or
  \<^verbatim>\<open>tail = n.prev\<close>), \<^verbatim>\<open>n.next = n.prev = nullptr\<close>.
\<close>

lemma chain_unlink:
  assumes c: "chain nx pv None (ys @ n # zs) None" and d: "distinct (ys @ n # zs)"
  defines "nx1 \<equiv> (case last_or ys None of None \<Rightarrow> nx | Some y \<Rightarrow> nx(y := first_or zs None))"
      and "pv1 \<equiv> (case first_or zs None of None \<Rightarrow> pv | Some z \<Rightarrow> pv(z := last_or ys None))"
  shows "chain (nx1(n := None)) (pv1(n := None)) None (ys @ zs) None"
proof -
  have left: "chain nx1 pv1 None ys (first_or zs None)"
  proof (cases ys rule: rev_cases)
    case Nil then show ?thesis by simp
  next
    case (snoc us y)
    have "z \<notin> set ys" if "first_or zs None = Some z" for z
      using that d by (auto dest: first_or_mem)
    then have "chain nx1 pv1 None ys (first_or zs None) =
               chain nx1 pv None ys (first_or zs None)"
      unfolding pv1_def by (auto split: option.splits)
    moreover have "chain nx1 pv None ys (first_or zs None)"
      using c d snoc by (simp add: nx1_def last_or_def)
    ultimately show ?thesis by simp
  qed
  have right: "chain nx1 pv1 (last_or ys None) zs None"
  proof (cases zs)
    case Nil then show ?thesis by simp
  next
    case (Cons z us)
    have "y \<notin> set zs" if "last_or ys None = Some y" for y
      using that d by (auto dest: last_or_mem)
    then have "chain nx1 pv1 (last_or ys None) zs None =
               chain nx pv1 (last_or ys None) zs None"
      unfolding nx1_def by (auto split: option.splits)
    moreover have "chain nx pv1 (last_or ys None) zs None"
      using c d Cons by (simp add: pv1_def)
    ultimately show ?thesis by simp
  qed
  from d have "n \<notin> set ys" "n \<notin> set zs" by auto
  with left right show ?thesis by simp
qed

lemma dll_unlink:
  assumes d: "dll nx pv h t xs" and n: "n \<in> set xs"
  shows "dll ((case pv n of None \<Rightarrow> nx | Some y \<Rightarrow> nx(y := nx n))(n := None))
             ((case nx n of None \<Rightarrow> pv | Some z \<Rightarrow> pv(z := pv n))(n := None))
             (case pv n of None \<Rightarrow> nx n | Some _ \<Rightarrow> h)
             (case nx n of None \<Rightarrow> pv n | Some _ \<Rightarrow> t)
             (remove1 n xs)"
proof -
  from n obtain ys zs where xs: "xs = ys @ n # zs" and ny: "n \<notin> set ys"
    by (meson split_list_first)
  from d xs have c: "chain nx pv None (ys @ n # zs) None" and ds: "distinct (ys @ n # zs)"
    by (simp_all add: dll_def)
  from c have pn: "pv n = last_or ys None" and nn: "nx n = first_or zs None" by simp_all
  have rm: "remove1 n xs = ys @ zs" using xs ny by (simp add: remove1_append)
  have hp: "(case pv n of None \<Rightarrow> nx n | Some _ \<Rightarrow> h) = first_or (ys @ zs) None"
    using d xs pn nn by (cases ys rule: rev_cases) (auto simp: dll_def last_or_def)
  have tp: "(case nx n of None \<Rightarrow> pv n | Some _ \<Rightarrow> t) = last_or (ys @ zs) None"
    using d xs pn nn by (cases zs) (auto simp: dll_def)
  show ?thesis
    unfolding dll_def rm hp tp unfolding pn nn using chain_unlink [OF c ds] ds by simp
qed

section \<open>The interface of a linked heap\<close>

text \<open>
  What a queue needs from the heap its links live in: reads and writes of the two link fields,
  where a write changes one field of one object.
\<close>

locale link_heap =
  fixes get_next :: "'h \<Rightarrow> 'n \<Rightarrow> 'n option"
    and get_prev :: "'h \<Rightarrow> 'n \<Rightarrow> 'n option"
    and set_next :: "'n \<Rightarrow> 'n option \<Rightarrow> 'h \<Rightarrow> 'h"
    and set_prev :: "'n \<Rightarrow> 'n option \<Rightarrow> 'h \<Rightarrow> 'h"
  assumes next_set_next [link_facts]: "get_next (set_next n v h) = (get_next h)(n := v)"
    and prev_set_next [link_facts]: "get_prev (set_next n v h) = get_prev h"
    and next_set_prev [link_facts]: "get_next (set_prev n v h) = get_next h"
    and prev_set_prev [link_facts]: "get_prev (set_prev n v h) = (get_prev h)(n := v)"
begin

definition rep :: "'h \<Rightarrow> 'n option \<Rightarrow> 'n option \<Rightarrow> 'n list \<Rightarrow> bool" where
  "rep h hp tp xs \<longleftrightarrow> dll (get_next h) (get_prev h) hp tp xs"

definition link_back :: "'n \<Rightarrow> 'n option \<Rightarrow> 'h \<Rightarrow> 'h" where
  "link_back n tp h =
     (let h1 = set_prev n tp (set_next n None h)
      in case tp of None \<Rightarrow> h1 | Some y \<Rightarrow> set_next y (Some n) h1)"

definition unlink :: "'n \<Rightarrow> 'h \<Rightarrow> 'h" where
  "unlink n h =
     (let h1 = (case get_prev h n of None \<Rightarrow> h | Some y \<Rightarrow> set_next y (get_next h n) h);
          h2 = (case get_next h1 n of None \<Rightarrow> h1 | Some z \<Rightarrow> set_prev z (get_prev h1 n) h1)
      in set_next n None (set_prev n None h2))"

definition unlink_front :: "'n \<Rightarrow> 'h \<Rightarrow> 'h" where
  "unlink_front n h =
     (let h1 = (case get_next h n of None \<Rightarrow> h | Some z \<Rightarrow> set_prev z None h)
      in set_next n None (set_prev n None h1))"

lemma rep_distinct: "rep h hp tp xs \<Longrightarrow> distinct xs"
  by (simp add: rep_def dll_def)

lemma rep_head: "rep h hp tp xs \<Longrightarrow> hp = first_or xs None"
  by (simp add: rep_def dll_def)

lemma rep_tail: "rep h hp tp xs \<Longrightarrow> tp = last_or xs None"
  by (simp add: rep_def dll_def)

lemma rep_empty: "rep h None None []"
  by (simp add: rep_def dll_def)

lemma rep_next_nth:
  assumes "rep h hp tp xs" "i < length xs"
  shows "get_next h (xs ! i) = (if Suc i < length xs then Some (xs ! Suc i) else None)"
proof -
  have "xs = take i xs @ xs ! i # drop (Suc i) xs"
    using assms(2) by (rule id_take_nth_drop)
  with assms(1) have "chain (get_next h) (get_prev h) None (take i xs @ xs ! i # drop (Suc i) xs) None"
    by (simp add: rep_def dll_def)
  then have "get_next h (xs ! i) = first_or (drop (Suc i) xs) None" by simp
  then show ?thesis by (auto simp: first_or_def Cons_nth_drop_Suc [symmetric] split: list.splits)
qed

lemma rep_cong:
  assumes "rep h hp tp xs"
    and "\<And>x. x \<in> set xs \<Longrightarrow> get_next h' x = get_next h x"
    and "\<And>x. x \<in> set xs \<Longrightarrow> get_prev h' x = get_prev h x"
  shows "rep h' hp tp xs"
  using assms chain_cong [of xs "get_next h'" "get_next h" "get_prev h'" "get_prev h"]
  by (simp add: rep_def dll_def)

lemma link_back_rep:
  assumes "rep h hp tp xs" "n \<notin> set xs"
  shows "rep (link_back n tp h) (case tp of None \<Rightarrow> Some n | Some _ \<Rightarrow> hp) (Some n) (xs @ [n])"
  using dll_push_back [OF assms [unfolded rep_def]]
  by (cases tp) (simp_all add: rep_def link_back_def link_facts)

lemma unlink_rep:
  assumes r: "rep h hp tp xs" and n: "n \<in> set xs"
  shows "rep (unlink n h) (case get_prev h n of None \<Rightarrow> get_next h n | Some _ \<Rightarrow> hp)
             (case get_next h n of None \<Rightarrow> get_prev h n | Some _ \<Rightarrow> tp) (remove1 n xs)"
proof -
  have self: "get_prev h n \<noteq> Some n" "get_next h n \<noteq> Some n"
  proof -
    from n obtain ys zs where xs: "xs = ys @ n # zs" by (meson split_list)
    from r xs have "distinct (ys @ n # zs)" "get_prev h n = last_or ys None"
      "get_next h n = first_or zs None" by (simp_all add: rep_def dll_def)
    then show "get_prev h n \<noteq> Some n" "get_next h n \<noteq> Some n"
      by (auto dest: last_or_mem first_or_mem)
  qed
  have nx: "get_next (unlink n h) =
      (case get_prev h n of None \<Rightarrow> get_next h | Some y \<Rightarrow> (get_next h)(y := get_next h n))(n := None)"
    using self by (auto simp: unlink_def link_facts Let_def split: option.splits)
  have pv: "get_prev (unlink n h) =
      (case get_next h n of None \<Rightarrow> get_prev h | Some z \<Rightarrow> (get_prev h)(z := get_prev h n))(n := None)"
    using self by (auto simp: unlink_def link_facts Let_def split: option.splits)
  show ?thesis
    unfolding rep_def nx pv using dll_unlink [OF r [unfolded rep_def] n] .
qed

lemma unlink_front_eq:
  assumes "rep h (Some n) tp (n # xs)"
  shows "unlink_front n h = unlink n h"
proof -
  have "get_prev h n = None" using assms by (simp add: rep_def dll_def)
  then show ?thesis by (cases "get_next h n") (simp_all add: unlink_front_def unlink_def)
qed

lemma link_back_frame:
  assumes "x \<noteq> n" "tp \<noteq> Some x"
  shows "get_next (link_back n tp h) x = get_next h x"
    and "get_prev (link_back n tp h) x = get_prev h x"
  using assms by (auto simp: link_back_def link_facts Let_def split: option.splits)

lemma unlink_frame:
  assumes "rep h hp tp xs" "n \<in> set xs" "x \<notin> set xs"
  shows "get_next (unlink n h) x = get_next h x"
    and "get_prev (unlink n h) x = get_prev h x"
proof -
  from assms(2) obtain ys zs where xs: "xs = ys @ n # zs" by (meson split_list)
  from assms(1) xs have p: "get_prev h n = last_or ys None" and q: "get_next h n = first_or zs None"
    by (simp_all add: rep_def dll_def)
  have "get_prev h n \<noteq> Some x" "get_next h n \<noteq> Some x" "x \<noteq> n"
    using assms(2,3) p q xs by (auto dest: last_or_mem first_or_mem)
  then show "get_next (unlink n h) x = get_next h x" "get_prev (unlink n h) x = get_prev h x"
    by (auto simp: unlink_def link_facts Let_def split: option.splits)
qed

lemma unlink_detached:
  "get_next (unlink n h) n = None" "get_prev (unlink n h) n = None"
  by (simp_all add: unlink_def link_facts Let_def)

lemma rep_frame_link_back:
  assumes "rep h hp' tp' ys" "rep h hp tp xs" "n \<notin> set ys" "set xs \<inter> set ys = {}"
  shows "rep (link_back n tp h) hp' tp' ys"
proof (rule rep_cong [OF assms(1)])
  fix x assume "x \<in> set ys"
  moreover have "tp \<noteq> Some x"
    using \<open>x \<in> set ys\<close> assms(2,4) by (auto dest!: rep_tail dest: last_or_mem)
  ultimately show "get_next (link_back n tp h) x = get_next h x"
    "get_prev (link_back n tp h) x = get_prev h x"
    using assms(3) link_back_frame [of x n tp h] by auto
qed

lemma rep_frame_unlink:
  assumes "rep h hp' tp' ys" "rep h hp tp xs" "n \<in> set xs" "set xs \<inter> set ys = {}"
  shows "rep (unlink n h) hp' tp' ys"
  by (rule rep_cong [OF assms(1)]) (use assms unlink_frame [OF assms(2,3)] in auto)

end

end
