(* ===== verification/Ready_Interface.thy ===== *)
theory Ready_Interface
  imports Main "HOL-Library.Multiset" "HOL-Library.Monad_Syntax"
begin

text \<open>
  The contract between the scheduler and its ready structure, as a locale.  The abstract state
  is one list of threads per priority level; \<open>enqueue\<close> appends a thread to the list of its level,
  \<open>pop_best\<close> removes the first thread of the least level in use.  From the two laws follows what
  the scheduler relies on: threads that are enqueued and then popped come out in priority order,
  first come first served inside a level.
\<close>

section \<open>Runs of operations\<close>

fun enqueue_all :: "('t \<Rightarrow> 's \<Rightarrow> 's option) \<Rightarrow> 't list \<Rightarrow> 's \<Rightarrow> 's option" where
  "enqueue_all enq [] s = Some s"
| "enqueue_all enq (t # ts) s = do { s' \<leftarrow> enq t s; enqueue_all enq ts s' }"

text \<open>At most \<open>n\<close> pops, stopping at the first that finds nothing.\<close>

fun drain :: "('s \<Rightarrow> ('t option \<times> 's) option) \<Rightarrow> nat \<Rightarrow> 's \<Rightarrow> ('t list \<times> 's) option" where
  "drain pop 0 s = Some ([], s)"
| "drain pop (Suc n) s = do {
     (r, s') \<leftarrow> pop s;
     (case r of
        None \<Rightarrow> Some ([], s')
      | Some t \<Rightarrow> do { (ts, s'') \<leftarrow> drain pop n s'; Some (t # ts, s'') })
   }"

section \<open>Levels and stable sorting\<close>

definition by_level :: "nat \<Rightarrow> (nat \<Rightarrow> 't list) \<Rightarrow> 't list" where
  "by_level n L = concat (map L [0..<n])"

lemma by_level_empty: "(\<And>i. i < n \<Longrightarrow> L i = []) \<Longrightarrow> by_level n L = []"
  by (auto simp: by_level_def)

lemma by_level_pop:
  assumes "i < n" "L i = t # ts" "\<And>j. j < i \<Longrightarrow> L j = []"
  shows "by_level n L = t # by_level n (L(i := ts))"
proof -
  have split: "[0..<n] = [0..<i] @ i # [Suc i..<n]"
    using assms(1) by (metis le_add_diff_inverse less_imp_le upt_add_eq_append upt_conv_Cons zero_le)
  have low: "concat (map L [0..<i]) = []" "concat (map (L(i := ts)) [0..<i]) = []"
    using assms(3) by auto
  have high: "map (L(i := ts)) [Suc i..<n] = map L [Suc i..<n]" by simp
  show ?thesis
    unfolding by_level_def split by (simp add: low high assms(2))
qed

lemma by_level_sorted:
  assumes "\<And>i t. t \<in> set (L i) \<Longrightarrow> f t = i"
  shows "sorted (map f (by_level n L))"
proof (induction n)
  case 0
  then show ?case by (simp add: by_level_def)
next
  case (Suc n)
  have "by_level (Suc n) L = by_level n L @ L n" by (simp add: by_level_def)
  moreover have "map f (L n) = replicate (length (L n)) n"
    using assms by (intro replicate_eqI) auto
  moreover have "\<forall>x \<in> set (map f (by_level n L)). x \<le> n"
    using assms by (fastforce simp: by_level_def)
  ultimately show ?case using Suc by (simp add: sorted_append)
qed

lemma filter_by_level:
  assumes "\<And>i t. t \<in> set (L i) \<Longrightarrow> f t = i" and "k < n"
  shows "filter (\<lambda>t. f t = k) (by_level n L) = L k"
proof -
  have "filter (\<lambda>t. f t = k) (L i) = (if i = k then L k else [])" for i
    using assms(1) by (auto simp: filter_id_conv filter_empty_conv)
  then have eq: "map (filter (\<lambda>t. f t = k)) (map L [0..<n]) = map (\<lambda>i. if i = k then L k else []) [0..<n]"
    by simp
  have "concat (map (\<lambda>i. if i = k then L k else []) [0..<n]) = (if k < n then L k else [])" for n
    by (induction n) (auto simp: less_Suc_eq)
  then show ?thesis using assms(2) unfolding by_level_def filter_concat eq by simp
qed

lemma by_level_filter_sort:
  assumes "\<And>t. t \<in> set ts \<Longrightarrow> f t < n"
  shows "by_level n (\<lambda>i. filter (\<lambda>t. f t = i) ts) = sort_key f ts" (is "?l = _")
proof (rule properties_for_sort_key [symmetric])
  show m: "mset ?l = mset ts"
    using assms
  proof (induction ts)
    case Nil
    then show ?case by (simp add: by_level_empty)
  next
    case (Cons t ts)
    have "mset (by_level m (\<lambda>i. filter (\<lambda>x. f x = i) (t # ts))) =
          mset (by_level m (\<lambda>i. filter (\<lambda>x. f x = i) ts)) + (if f t < m then {#t#} else {#})" for m
      by (induction m) (auto simp: by_level_def)
    from this [of n] Cons show ?case by simp
  qed
  show "sorted (map f ?l)" by (rule by_level_sorted) auto
  have lev: "\<And>i t. t \<in> set (filter (\<lambda>t. f t = i) ts) \<Longrightarrow> f t = i" by auto
  show "filter (\<lambda>x. f k = f x) ?l = filter (\<lambda>x. f k = f x) ts" if "k \<in> set ?l" for k
    using filter_by_level [of "\<lambda>i. filter (\<lambda>t. f t = i) ts" f "f k" n, OF lev] assms that
      mset_eq_setD [OF m] by (simp add: eq_commute [of "f k"])
qed

section \<open>The interface\<close>

locale ready_structure =
  fixes holds :: "'h \<Rightarrow> 'm \<Rightarrow> (nat \<Rightarrow> 't list) \<Rightarrow> bool"
    and enqueue :: "'t \<Rightarrow> 'h \<times> 'm \<Rightarrow> ('h \<times> 'm) option"
    and pop_best :: "'h \<times> 'm \<Rightarrow> ('t option \<times> 'h \<times> 'm) option"
    and prio :: "'h \<Rightarrow> 't \<Rightarrow> nat"
    and admissible :: "'h \<Rightarrow> 't \<Rightarrow> bool"
    and levels :: nat
  assumes level_bound: "holds h m L \<Longrightarrow> levels \<le> i \<Longrightarrow> L i = []"
    and level_prio: "holds h m L \<Longrightarrow> t \<in> set (L i) \<Longrightarrow> prio h t = i"
    and enqueue_law: "holds h m L \<Longrightarrow> admissible h t \<Longrightarrow> prio h t < levels \<Longrightarrow>
      (\<And>i. t \<notin> set (L i)) \<Longrightarrow>
      \<exists>h' m'. enqueue t (h, m) = Some (h', m') \<and>
        holds h' m' (L(prio h t := L (prio h t) @ [t])) \<and> prio h' = prio h \<and>
        (\<forall>x. x \<noteq> t \<longrightarrow> (\<forall>i. x \<notin> set (L i)) \<longrightarrow> admissible h x \<longrightarrow> admissible h' x)"
    and pop_empty: "holds h m L \<Longrightarrow> (\<And>i. L i = []) \<Longrightarrow> pop_best (h, m) = Some (None, h, m)"
    and pop_law: "holds h m L \<Longrightarrow> L k \<noteq> [] \<Longrightarrow>
      \<exists>i h' m'. i < levels \<and> L i \<noteq> [] \<and> (\<forall>j < i. L j = []) \<and>
        pop_best (h, m) = Some (Some (hd (L i)), h', m') \<and> holds h' m' (L(i := tl (L i))) \<and>
        prio h' = prio h"
begin

lemma enqueue_all_holds:
  assumes "holds h m L" "distinct ts"
    and "\<And>t. t \<in> set ts \<Longrightarrow> admissible h t \<and> prio h t < levels \<and> (\<forall>i. t \<notin> set (L i))"
  shows "\<exists>h' m'. enqueue_all enqueue ts (h, m) = Some (h', m') \<and>
    holds h' m' (\<lambda>i. L i @ filter (\<lambda>t. prio h t = i) ts) \<and> prio h' = prio h"
  using assms
proof (induction ts arbitrary: h m L)
  case Nil
  then show ?case by simp
next
  case (Cons t ts)
  let ?L = "L(prio h t := L (prio h t) @ [t])"
  obtain h1 m1 where e: "enqueue t (h, m) = Some (h1, m1)" and h1: "holds h1 m1 ?L"
    and p1: "prio h1 = prio h"
    and a1: "\<And>x. x \<noteq> t \<Longrightarrow> \<forall>i. x \<notin> set (L i) \<Longrightarrow> admissible h x \<Longrightarrow> admissible h1 x"
    using enqueue_law [OF Cons.prems(1), of t] Cons.prems(3) [of t] by auto
  have "admissible h1 x \<and> prio h1 x < levels \<and> (\<forall>i. x \<notin> set (?L i))" if "x \<in> set ts" for x
    using that Cons.prems(2) Cons.prems(3) [of x] a1 [of x] p1 by auto
  then obtain h2 m2 where "enqueue_all enqueue ts (h1, m1) = Some (h2, m2)"
    "holds h2 m2 (\<lambda>i. ?L i @ filter (\<lambda>t. prio h1 t = i) ts)" "prio h2 = prio h1"
    using Cons.IH [OF h1] Cons.prems(2) by fastforce
  moreover have "(\<lambda>i. ?L i @ filter (\<lambda>t. prio h1 t = i) ts) =
                 (\<lambda>i. L i @ filter (\<lambda>t. prio h t = i) (t # ts))"
    using p1 by (auto simp: fun_eq_iff)
  ultimately show ?case using e p1 by auto
qed

lemma drain_by_level:
  assumes "holds h m L" "length (by_level levels L) \<le> n"
  shows "\<exists>h' m'. drain pop_best n (h, m) = Some (by_level levels L, h', m') \<and> holds h' m' (\<lambda>_. [])"
  using assms
proof (induction n arbitrary: h m L)
  case 0
  then have e: "L i = []" for i
    using level_bound [OF 0(1), of i] by (cases "i < levels") (auto simp: by_level_def)
  then have "L = (\<lambda>_. [])" by auto
  with 0 show ?case by (auto simp: by_level_empty)
next
  case (Suc n)
  show ?case
  proof (cases "\<exists>k. L k \<noteq> []")
    case False
    then have "L = (\<lambda>_. [])" by auto
    with Suc.prems(1) pop_empty [OF Suc.prems(1)] show ?thesis by (auto simp: by_level_empty)
  next
    case True
    then obtain k where "L k \<noteq> []" ..
    then obtain i h1 m1 where i: "i < levels" "L i \<noteq> []" "\<forall>j < i. L j = []"
      and pop: "pop_best (h, m) = Some (Some (hd (L i)), h1, m1)"
      and h1: "holds h1 m1 (L(i := tl (L i)))"
      using pop_law [OF Suc.prems(1)] by blast
    have eq: "by_level levels L = hd (L i) # by_level levels (L(i := tl (L i)))"
      using i by (intro by_level_pop) auto
    with Suc.prems(2) have "length (by_level levels (L(i := tl (L i)))) \<le> n" by simp
    from Suc.IH [OF h1 this] obtain h2 m2 where
      "drain pop_best n (h1, m1) = Some (by_level levels (L(i := tl (L i))), h2, m2)"
      "holds h2 m2 (\<lambda>_. [])" by blast
    then show ?thesis using pop eq by simp
  qed
qed

lemma enqueue_then_drain:
  assumes "holds h m (\<lambda>_. [])" "distinct ts"
    and "\<And>t. t \<in> set ts \<Longrightarrow> admissible h t \<and> prio h t < levels"
  shows "\<exists>s h' m'. enqueue_all enqueue ts (h, m) = Some s \<and>
    drain pop_best (length ts) s = Some (sort_key (prio h) ts, h', m') \<and> holds h' m' (\<lambda>_. [])"
proof -
  let ?L = "\<lambda>i. filter (\<lambda>t. prio h t = i) ts"
  obtain h1 m1 where e: "enqueue_all enqueue ts (h, m) = Some (h1, m1)" and h1: "holds h1 m1 ?L"
    using enqueue_all_holds [OF assms(1,2)] assms(3) by auto
  have s: "by_level levels ?L = sort_key (prio h) ts"
    using assms(3) by (intro by_level_filter_sort) auto
  then have "length (by_level levels ?L) \<le> length ts" by simp
  from drain_by_level [OF h1 this] show ?thesis using e s by auto
qed

end

end
