(* ===== verification/Threading.thy ===== *)
theory Threading
  imports Wait_Subsystem Intrusive_List Ready_Interface
begin

text \<open>
  threading_subsystem.hpp/.cpp: the thread control block, the intrusive ready queue of one
  priority, and the ready matrix with its bitmap.  The queue is shown to implement a list and
  the matrix to implement one list per priority; both are interpretations of the interfaces
  \<open>link_heap\<close> and \<open>ready_structure\<close>.
\<close>

section \<open>Thread control blocks\<close>

datatype ThreadState = Ready | Running | Blocked | Terminated

text \<open>A stored callable is an opaque name.\<close>

type_synonym callable = nat

record ThreadControlBlock =
  t_state :: ThreadState
  t_next :: "tcb_ptr option"
  t_prev :: "tcb_ptr option"
  t_id :: u32
  t_base_priority :: u8
  t_effective_priority :: u8
  t_pinned_core :: nat
  t_affinity :: CoreAffinity
  t_stack :: span
  t_entry :: callable
  t_wait_group :: WaitGroup
  t_wait_nodes :: WaitNodePool
  t_termination :: waitable_ptr
  t_terminated :: bool

type_synonym tcb_heap = "tcb_ptr \<Rightarrow> ThreadControlBlock"

text \<open>
  The object that the constructor builds at address \<open>this\<close>: the arguments and the default member
  initialisers.  The nodes of the pool and the termination waitable are stored apart and are
  initialised by \<open>construct_TCB\<close> in theory \<open>Waitables\<close>.
\<close>

definition ThreadControlBlock_init ::
  "abi \<Rightarrow> tcb_ptr \<Rightarrow> u32 \<Rightarrow> u8 \<Rightarrow> CoreAffinity \<Rightarrow> span \<Rightarrow> callable \<Rightarrow> ThreadControlBlock" where
  "ThreadControlBlock_init A this tid priority affinity stack entry =
     \<lparr>t_state = Ready, t_next = None, t_prev = None, t_id = tid, t_base_priority = priority,
      t_effective_priority = priority, t_pinned_core = 0, t_affinity = affinity, t_stack = stack,
      t_entry = entry, t_wait_group = WaitGroup_init,
      t_wait_nodes = \<lparr>wp_owner = this, free_mask = ALL_NODES_FREE\<rparr>,
      t_termination = this + offsetof_termination A, t_terminated = False\<rparr>"

definition tcb_is_enqueued :: "ThreadControlBlock \<Rightarrow> bool" where
  "tcb_is_enqueued t \<longleftrightarrow> t_next t \<noteq> None \<or> t_prev t \<noteq> None"

definition is_higher_priority_than :: "ThreadControlBlock \<Rightarrow> u8 \<Rightarrow> bool" where
  "is_higher_priority_than t level \<longleftrightarrow> t_effective_priority t < level"

text \<open>\<^verbatim>\<open>Waitable::Waiter\<close>: the snapshot handed to the hooks of a waitable.\<close>

record Waiter =
  wr_id :: u32
  wr_base_priority :: u8
  wr_effective_priority :: u8
  wr_pinned_core :: nat
  wr_affinity :: CoreAffinity

definition create_waiter :: "ThreadControlBlock \<Rightarrow> Waiter" where
  "create_waiter t =
     \<lparr>wr_id = t_id t, wr_base_priority = t_base_priority t,
      wr_effective_priority = t_effective_priority t, wr_pinned_core = t_pinned_core t,
      wr_affinity = t_affinity t\<rparr>"

definition higher_priority_than :: "Waiter \<Rightarrow> Waiter \<Rightarrow> bool" where
  "higher_priority_than a b \<longleftrightarrow> wr_effective_priority a < wr_effective_priority b"

section \<open>The ready queue of one priority\<close>

record ThreadReadyQueue =
  q_head :: "tcb_ptr option"
  q_tail :: "tcb_ptr option"

definition ThreadReadyQueue_init :: ThreadReadyQueue where
  "ThreadReadyQueue_init = \<lparr>q_head = None, q_tail = None\<rparr>"

definition tcb_set_next :: "tcb_ptr \<Rightarrow> tcb_ptr option \<Rightarrow> tcb_heap \<Rightarrow> tcb_heap" where
  "tcb_set_next p v h = h(p := (h p)\<lparr>t_next := v\<rparr>)"

definition tcb_set_prev :: "tcb_ptr \<Rightarrow> tcb_ptr option \<Rightarrow> tcb_heap \<Rightarrow> tcb_heap" where
  "tcb_set_prev p v h = h(p := (h p)\<lparr>t_prev := v\<rparr>)"

definition tcb_set_state :: "tcb_ptr \<Rightarrow> ThreadState \<Rightarrow> tcb_heap \<Rightarrow> tcb_heap" where
  "tcb_set_state p v h = h(p := (h p)\<lparr>t_state := v\<rparr>)"

definition queue_empty :: "ThreadReadyQueue \<Rightarrow> bool" where
  "queue_empty q \<longleftrightarrow> q_head q = None"

definition queue_has_peer :: "ThreadReadyQueue \<Rightarrow> bool" where
  "queue_has_peer q \<longleftrightarrow> q_head q \<noteq> None \<and> q_head q \<noteq> q_tail q"

definition queue_front :: "ThreadReadyQueue \<Rightarrow> tcb_ptr option" where
  "queue_front q = q_head q"

text \<open>\<^verbatim>\<open>size()\<close> walks the links; on a cyclic chain it would not return.\<close>

partial_function (option) walk_size :: "tcb_heap \<Rightarrow> tcb_ptr option \<Rightarrow> nat \<Rightarrow> nat option" where
  "walk_size h p n = (case p of None \<Rightarrow> Some n | Some t \<Rightarrow> walk_size h (t_next (h t)) (Suc n))"

definition queue_size :: "tcb_heap \<Rightarrow> ThreadReadyQueue \<Rightarrow> nat option" where
  "queue_size h q = walk_size h (q_head q) 0"

definition push_back ::
  "tcb_ptr \<Rightarrow> tcb_heap \<times> ThreadReadyQueue \<Rightarrow> (tcb_heap \<times> ThreadReadyQueue) option" where
  "push_back p = (\<lambda>(h, q). do {
     CORTOS_ASSERT (\<not> tcb_is_enqueued (h p));
     CORTOS_ASSERT (t_state (h p) = Ready);
     let h = tcb_set_next p None h;
     let h = tcb_set_prev p (q_tail q) h;
     let (h, q) = (case q_tail q of
         Some t \<Rightarrow> (tcb_set_next t (Some p) h, q)
       | None \<Rightarrow> (h, q\<lparr>q_head := Some p\<rparr>));
     Some (h, q\<lparr>q_tail := Some p\<rparr>)
   })"

definition pop_front ::
  "tcb_heap \<times> ThreadReadyQueue \<Rightarrow> tcb_ptr option \<times> tcb_heap \<times> ThreadReadyQueue" where
  "pop_front = (\<lambda>(h, q).
     (case q_head q of
        None \<Rightarrow> (None, h, q)
      | Some p \<Rightarrow>
          (let q = q\<lparr>q_head := t_next (h p)\<rparr>;
               (h, q) = (case q_head q of
                   Some n \<Rightarrow> (tcb_set_prev n None h, q)
                 | None \<Rightarrow> (h, q\<lparr>q_tail := None\<rparr>));
               h = tcb_set_next p None (tcb_set_prev p None h)
           in (Some p, h, q))))"

definition queue_remove ::
  "tcb_ptr \<Rightarrow> tcb_heap \<times> ThreadReadyQueue \<Rightarrow> (tcb_heap \<times> ThreadReadyQueue) option" where
  "queue_remove p = (\<lambda>(h, q). do {
     CORTOS_ASSERT (q_head q = Some p \<or> t_prev (h p) \<noteq> None);
     CORTOS_ASSERT (q_tail q = Some p \<or> t_next (h p) \<noteq> None);
     let (h, q) = (case t_prev (h p) of
         Some y \<Rightarrow> (tcb_set_next y (t_next (h p)) h, q)
       | None \<Rightarrow> (h, q\<lparr>q_head := t_next (h p)\<rparr>));
     let (h, q) = (case t_next (h p) of
         Some z \<Rightarrow> (tcb_set_prev z (t_prev (h p)) h, q)
       | None \<Rightarrow> (h, q\<lparr>q_tail := t_prev (h p)\<rparr>));
     let h = tcb_set_next p None (tcb_set_prev p None h);
     CORTOS_ASSERT ((q_head q = None) = (q_tail q = None));
     Some (h, q)
   })"

section \<open>The ready matrix\<close>

record ThreadReadyMatrix =
  rows :: "ThreadReadyQueue list"
  bitmap :: u32

definition ThreadReadyMatrix_init :: ThreadReadyMatrix where
  "ThreadReadyMatrix_init =
     \<lparr>rows = replicate MAX_PRIORITIES ThreadReadyQueue_init, bitmap = 0\<rparr>"

definition best_priority :: "ThreadReadyMatrix \<Rightarrow> int" where
  "best_priority m = (if bitmap m \<noteq> 0 then int (countr_zero (bitmap m)) else -1)"

definition matrix_empty :: "ThreadReadyMatrix \<Rightarrow> bool" where
  "matrix_empty m \<longleftrightarrow> bitmap m = 0"

definition empty_at :: "ThreadReadyMatrix \<Rightarrow> nat \<Rightarrow> bool option" where
  "empty_at m priority = do {
     CORTOS_ASSERT (priority < length (rows m)); Some (queue_empty (rows m ! priority)) }"

definition matrix_has_peer :: "ThreadReadyMatrix \<Rightarrow> nat \<Rightarrow> bool option" where
  "matrix_has_peer m priority = do {
     CORTOS_ASSERT (priority < length (rows m)); Some (queue_has_peer (rows m ! priority)) }"

definition size_at :: "tcb_heap \<Rightarrow> ThreadReadyMatrix \<Rightarrow> nat \<Rightarrow> nat option" where
  "size_at h m priority = do {
     CORTOS_ASSERT (priority < length (rows m)); queue_size h (rows m ! priority) }"

definition peek_best_thread :: "ThreadReadyMatrix \<Rightarrow> tcb_ptr option option" where
  "peek_best_thread m =
     (if bitmap m = 0 then Some None
      else do {
        let priority = countr_zero (bitmap m);
        CORTOS_ASSERT (priority < length (rows m));
        Some (queue_front (rows m ! priority)) })"

definition enqueue_thread ::
  "tcb_ptr \<Rightarrow> tcb_heap \<times> ThreadReadyMatrix \<Rightarrow> (tcb_heap \<times> ThreadReadyMatrix) option" where
  "enqueue_thread p = (\<lambda>(h, m). do {
     let priority = unat (t_effective_priority (h p));
     CORTOS_ASSERT (priority < MAX_PRIORITIES);
     CORTOS_ASSERT (t_state (h p) = Ready);
     (h, q) \<leftarrow> push_back p (h, rows m ! priority);
     Some (h, m\<lparr>rows := (rows m)[priority := q], bitmap := mask_set (bitmap m) priority\<rparr>)
   })"

definition pop_best_thread ::
  "tcb_heap \<times> ThreadReadyMatrix \<Rightarrow> (tcb_ptr option \<times> tcb_heap \<times> ThreadReadyMatrix) option" where
  "pop_best_thread = (\<lambda>(h, m).
     if bitmap m = 0 then Some (None, h, m)
     else do {
       let priority = countr_zero (bitmap m);
       CORTOS_ASSERT (priority < length (rows m));
       let (p, h, q) = pop_front (h, rows m ! priority);
       let m = m\<lparr>rows := (rows m)[priority := q]\<rparr>;
       let m = (if queue_empty (rows m ! priority)
                then m\<lparr>bitmap := mask_clear (bitmap m) priority\<rparr> else m);
       Some (p, h, m)
     })"

definition remove_thread ::
  "tcb_ptr \<Rightarrow> tcb_heap \<times> ThreadReadyMatrix \<Rightarrow> (tcb_heap \<times> ThreadReadyMatrix) option" where
  "remove_thread p = (\<lambda>(h, m). do {
     let priority = unat (t_effective_priority (h p));
     CORTOS_ASSERT (priority < length (rows m));
     (h, q) \<leftarrow> queue_remove p (h, rows m ! priority);
     let m = m\<lparr>rows := (rows m)[priority := q]\<rparr>;
     let m = (if queue_empty (rows m ! priority)
              then m\<lparr>bitmap := mask_clear (bitmap m) priority\<rparr> else m);
     Some (h, m)
   })"

section \<open>The ready queue implements a list\<close>

lemma tcb_set_sel [simp]:
  "t_next (tcb_set_next p v h x) = (if x = p then v else t_next (h x))"
  "t_prev (tcb_set_next p v h x) = t_prev (h x)"
  "t_next (tcb_set_prev p v h x) = t_next (h x)"
  "t_prev (tcb_set_prev p v h x) = (if x = p then v else t_prev (h x))"
  by (simp_all add: tcb_set_next_def tcb_set_prev_def)

interpretation tq: link_heap
  "\<lambda>h p. t_next (h p)" "\<lambda>h p. t_prev (h p)" tcb_set_next tcb_set_prev
  by unfold_locales (auto simp: fun_eq_iff)

text \<open>\<open>queue_rep h q xs\<close>: the queue \<open>q\<close> holds the threads \<open>xs\<close>, head first.\<close>

definition queue_rep :: "tcb_heap \<Rightarrow> ThreadReadyQueue \<Rightarrow> tcb_ptr list \<Rightarrow> bool" where
  "queue_rep h q xs \<longleftrightarrow> tq.rep h (q_head q) (q_tail q) xs"

text \<open>Two heaps that differ in link fields only.\<close>

definition same_data :: "tcb_heap \<Rightarrow> tcb_heap \<Rightarrow> bool" where
  "same_data h h' \<longleftrightarrow>
     (\<forall>x. (h' x)\<lparr>t_next := None, t_prev := None\<rparr> = (h x)\<lparr>t_next := None, t_prev := None\<rparr>)"

lemma same_data_refl [simp]: "same_data h h"
  by (simp add: same_data_def)

lemma same_data_trans: "same_data h h' \<Longrightarrow> same_data h' h'' \<Longrightarrow> same_data h h''"
  by (simp add: same_data_def)

lemma same_data_set [simp]:
  "same_data h (tcb_set_next p v h') = same_data h h'"
  "same_data h (tcb_set_prev p v h') = same_data h h'"
  by (auto simp: same_data_def tcb_set_next_def tcb_set_prev_def)

lemma same_data_link_back [simp]: "same_data h (tq.link_back p t h)"
  by (cases t) (simp_all add: tq.link_back_def)

lemma same_data_unlink [simp]: "same_data h (tq.unlink p h)"
  by (simp add: tq.unlink_def Let_def split: option.splits)

lemma same_data_sel:
  assumes "same_data h h'"
  shows "t_state (h' x) = t_state (h x)" "t_id (h' x) = t_id (h x)"
    "t_base_priority (h' x) = t_base_priority (h x)"
    "t_effective_priority (h' x) = t_effective_priority (h x)"
    "t_pinned_core (h' x) = t_pinned_core (h x)" "t_affinity (h' x) = t_affinity (h x)"
    "t_stack (h' x) = t_stack (h x)" "t_entry (h' x) = t_entry (h x)"
    "t_wait_group (h' x) = t_wait_group (h x)" "t_wait_nodes (h' x) = t_wait_nodes (h x)"
    "t_termination (h' x) = t_termination (h x)" "t_terminated (h' x) = t_terminated (h x)"
proof -
  note e = assms [unfolded same_data_def, rule_format, of x]
  show "t_state (h' x) = t_state (h x)" using arg_cong [OF e, of t_state] by simp
  show "t_id (h' x) = t_id (h x)" using arg_cong [OF e, of t_id] by simp
  show "t_base_priority (h' x) = t_base_priority (h x)"
    using arg_cong [OF e, of t_base_priority] by simp
  show "t_effective_priority (h' x) = t_effective_priority (h x)"
    using arg_cong [OF e, of t_effective_priority] by simp
  show "t_pinned_core (h' x) = t_pinned_core (h x)" using arg_cong [OF e, of t_pinned_core] by simp
  show "t_affinity (h' x) = t_affinity (h x)" using arg_cong [OF e, of t_affinity] by simp
  show "t_stack (h' x) = t_stack (h x)" using arg_cong [OF e, of t_stack] by simp
  show "t_entry (h' x) = t_entry (h x)" using arg_cong [OF e, of t_entry] by simp
  show "t_wait_group (h' x) = t_wait_group (h x)" using arg_cong [OF e, of t_wait_group] by simp
  show "t_wait_nodes (h' x) = t_wait_nodes (h x)" using arg_cong [OF e, of t_wait_nodes] by simp
  show "t_termination (h' x) = t_termination (h x)" using arg_cong [OF e, of t_termination] by simp
  show "t_terminated (h' x) = t_terminated (h x)" using arg_cong [OF e, of t_terminated] by simp
qed

lemma push_back_eq:
  assumes "\<not> tcb_is_enqueued (h p)" "t_state (h p) = Ready"
  shows "push_back p (h, q) = Some (tq.link_back p (q_tail q) h,
    q\<lparr>q_head := (case q_tail q of None \<Rightarrow> Some p | Some _ \<Rightarrow> q_head q), q_tail := Some p\<rparr>)"
  using assms by (cases "q_tail q") (simp_all add: push_back_def tq.link_back_def)

lemma push_back_rep:
  assumes "queue_rep h q xs" "p \<notin> set xs" "\<not> tcb_is_enqueued (h p)" "t_state (h p) = Ready"
  obtains q' where "push_back p (h, q) = Some (tq.link_back p (q_tail q) h, q')"
    and "queue_rep (tq.link_back p (q_tail q) h) q' (xs @ [p])"
proof -
  note r = tq.link_back_rep [OF assms(1) [unfolded queue_rep_def] assms(2)]
  show thesis
    by (rule that [OF push_back_eq [of h p q, OF assms(3,4)]]) (simp add: queue_rep_def r)
qed

lemma pop_front_nil: "queue_rep h q [] \<Longrightarrow> pop_front (h, q) = (None, h, q)"
  by (auto simp: queue_rep_def pop_front_def dest: tq.rep_head)

lemma pop_front_rep:
  assumes r: "queue_rep h q (x # xs)"
  obtains q' where "pop_front (h, q) = (Some x, tq.unlink x h, q')" "queue_rep (tq.unlink x h) q' xs"
proof -
  have hd: "q_head q = Some x" and pv: "t_prev (h x) = None"
    using r by (simp_all add: queue_rep_def tq.rep_def dll_def)
  have r': "tq.rep h (Some x) (q_tail q) (x # xs)" using r hd by (simp add: queue_rep_def)
  let ?q = "q\<lparr>q_head := t_next (h x),
             q_tail := (case t_next (h x) of None \<Rightarrow> None | Some _ \<Rightarrow> q_tail q)\<rparr>"
  have pf: "pop_front (h, q) = (Some x, tq.unlink x h, ?q)"
    unfolding tq.unlink_front_eq [OF r', symmetric]
    using hd by (cases "t_next (h x)") (simp_all add: pop_front_def tq.unlink_front_def)
  have rep: "tq.rep (tq.unlink x h) (t_next (h x))
      (case t_next (h x) of None \<Rightarrow> None | Some _ \<Rightarrow> q_tail q) xs"
    using tq.unlink_rep [OF r', of x] pv by (cases "t_next (h x)") simp_all
  show thesis by (rule that [OF pf]) (simp add: queue_rep_def rep)
qed

lemma queue_remove_rep:
  assumes r: "queue_rep h q xs" and p: "p \<in> set xs"
  obtains q' where "queue_remove p (h, q) = Some (tq.unlink p h, q')"
    "queue_rep (tq.unlink p h) q' (remove1 p xs)"
proof -
  from p obtain ys zs where xs: "xs = ys @ p # zs" by (meson split_list)
  with r have pn: "t_prev (h p) = last_or ys None" "t_next (h p) = first_or zs None"
    "q_head q = first_or xs None" "q_tail q = last_or xs None" and d: "distinct (ys @ p # zs)"
    by (simp_all add: queue_rep_def tq.rep_def dll_def)
  let ?q = "q\<lparr>q_head := (case t_prev (h p) of None \<Rightarrow> t_next (h p) | Some _ \<Rightarrow> q_head q),
             q_tail := (case t_next (h p) of None \<Rightarrow> t_prev (h p) | Some _ \<Rightarrow> q_tail q)\<rparr>"
  have rep: "queue_rep (tq.unlink p h) ?q (remove1 p xs)"
    using tq.unlink_rep [OF r [unfolded queue_rep_def] p] by (simp add: queue_rep_def)
  have ends: "(q_head ?q = None) = (q_tail ?q = None)"
    using tq.rep_head [OF rep [unfolded queue_rep_def]] tq.rep_tail [OF rep [unfolded queue_rep_def]]
    by simp
  have guards: "q_head q = Some p \<or> t_prev (h p) \<noteq> None" "q_tail q = Some p \<or> t_next (h p) \<noteq> None"
    using pn xs by (auto simp: last_or_def)
  have self: "t_prev (h p) \<noteq> Some p" "t_next (h p) \<noteq> Some p"
    using pn(1,2) d by (auto dest: last_or_mem first_or_mem)
  have "queue_remove p (h, q) = Some (tq.unlink p h, ?q)"
    using guards ends self
    by (cases "t_prev (h p)"; cases "t_next (h p)")
       (simp_all add: queue_remove_def tq.unlink_def Let_def)
  then show thesis using rep by (rule that)
qed

text \<open>The walk of \<^const>\<open>queue_size\<close> returns on every represented queue.\<close>

lemma walk_size_chain:
  "chain (\<lambda>p. t_next (h p)) (\<lambda>p. t_prev (h p)) b xs None \<Longrightarrow>
   walk_size h (first_or xs None) n = Some (n + length xs)"
proof (induction xs arbitrary: b n)
  case Nil
  then show ?case by (simp add: walk_size.simps)
next
  case (Cons x xs)
  then have "walk_size h (first_or xs None) (Suc n) = Some (Suc n + length xs)" by auto
  with Cons.prems show ?case by (subst walk_size.simps) simp
qed

lemma queue_size_rep: "queue_rep h q xs \<Longrightarrow> queue_size h q = Some (length xs)"
  using walk_size_chain [of h None xs 0]
  by (simp add: queue_size_def queue_rep_def tq.rep_def dll_def)

lemma queue_empty_rep: "queue_rep h q xs \<Longrightarrow> queue_empty q \<longleftrightarrow> xs = []"
  by (auto simp: queue_rep_def queue_empty_def dest: tq.rep_head)

section \<open>The ready matrix implements one list per priority\<close>

text \<open>
  The abstract state: for each priority level the threads that are ready at it, in arrival order.
  The bitmap has a bit for exactly the levels in use, and every queued thread is \<^const>\<open>Ready\<close> and
  sits at the level of its effective priority.
\<close>

type_synonym ready_lists = "nat \<Rightarrow> tcb_ptr list"

definition matrix_rep :: "tcb_heap \<Rightarrow> ThreadReadyMatrix \<Rightarrow> ready_lists \<Rightarrow> bool" where
  "matrix_rep h m L \<longleftrightarrow>
     length (rows m) = MAX_PRIORITIES \<and>
     (\<forall>i < MAX_PRIORITIES. queue_rep h (rows m ! i) (L i)) \<and>
     (\<forall>i. MAX_PRIORITIES \<le> i \<longrightarrow> L i = []) \<and>
     (\<forall>i. bit (bitmap m) i \<longleftrightarrow> L i \<noteq> []) \<and>
     (\<forall>i. \<forall>t \<in> set (L i). unat (t_effective_priority (h t)) = i \<and> t_state (h t) = Ready)"

text \<open>The threads held by the structure.\<close>

definition members :: "ready_lists \<Rightarrow> tcb_ptr set" where
  "members L = (\<Union>i. set (L i))"

lemma members_upd: "members (L(i := xs)) = (\<Union>j \<in> -{i}. set (L j)) \<union> set xs"
  by (auto simp: members_def split: if_splits)

lemma members_append: "members (L(i := L i @ [t])) = insert t (members L)"
  by (auto simp: members_def split: if_splits)

lemma matrix_rep_init: "matrix_rep h ThreadReadyMatrix_init (\<lambda>_. [])"
  by (simp add: matrix_rep_def ThreadReadyMatrix_init_def ThreadReadyQueue_init_def queue_rep_def
      tq.rep_empty)

lemma matrix_rep_member:
  "matrix_rep h m L \<Longrightarrow> t \<in> set (L i) \<Longrightarrow>
   unat (t_effective_priority (h t)) = i \<and> t_state (h t) = Ready \<and> i < MAX_PRIORITIES"
  unfolding matrix_rep_def by (metis empty_iff empty_set not_less)

lemma matrix_rep_disjoint:
  "matrix_rep h m L \<Longrightarrow> i \<noteq> j \<Longrightarrow> set (L i) \<inter> set (L j) = {}"
  by (auto dest: matrix_rep_member)

lemma matrix_rep_distinct: "matrix_rep h m L \<Longrightarrow> distinct (L i)"
  by (cases "i < MAX_PRIORITIES") (auto simp: matrix_rep_def queue_rep_def dest: tq.rep_distinct)

lemma matrix_rep_cong:
  assumes m: "matrix_rep h m L"
    and "\<And>t. t \<in> members L \<Longrightarrow> t_next (h' t) = t_next (h t) \<and> t_prev (h' t) = t_prev (h t) \<and>
      t_effective_priority (h' t) = t_effective_priority (h t) \<and> t_state (h' t) = t_state (h t)"
  shows "matrix_rep h' m L"
proof -
  have mem: "t \<in> members L" if "t \<in> set (L i)" for t i using that by (auto simp: members_def)
  have "queue_rep h' (rows m ! i) (L i)" if "i < MAX_PRIORITIES" for i
  proof -
    have r: "tq.rep h (q_head (rows m ! i)) (q_tail (rows m ! i)) (L i)"
      using m that by (simp add: matrix_rep_def queue_rep_def)
    show ?thesis unfolding queue_rep_def by (rule tq.rep_cong [OF r]) (simp_all add: assms(2) mem)
  qed
  then show ?thesis using m unfolding matrix_rep_def by (simp add: assms(2) mem)
qed

lemma matrix_rep_bit: "matrix_rep h m L \<Longrightarrow> bit (bitmap m) i \<longleftrightarrow> L i \<noteq> []"
  unfolding matrix_rep_def by blast

lemma matrix_empty_rep: "matrix_rep h m L \<Longrightarrow> matrix_empty m \<longleftrightarrow> members L = {}"
  unfolding matrix_empty_def members_def word_zero_iff_bits by (simp add: matrix_rep_bit)

text \<open>Replacing one row by a queue that represents the updated list of that level.\<close>

lemma matrix_rep_row:
  assumes m: "matrix_rep h m L" and i: "i < MAX_PRIORITIES"
    and q: "queue_rep h' q xs" and d: "same_data h h'"
    and others: "\<And>j. j < MAX_PRIORITIES \<Longrightarrow> j \<noteq> i \<Longrightarrow> queue_rep h' (rows m ! j) (L j)"
    and bm: "\<And>j. bit bm j \<longleftrightarrow> (if j = i then xs \<noteq> [] else bit (bitmap m) j)"
    and xs: "\<And>t. t \<in> set xs \<Longrightarrow> unat (t_effective_priority (h t)) = i \<and> t_state (h t) = Ready"
  shows "matrix_rep h' (m\<lparr>rows := (rows m)[i := q], bitmap := bm\<rparr>) (L(i := xs))"
proof -
  let ?m = "m\<lparr>rows := (rows m)[i := q], bitmap := bm\<rparr>"
  have m': "length (rows m) = MAX_PRIORITIES" "\<And>j. MAX_PRIORITIES \<le> j \<Longrightarrow> L j = []"
    "\<And>j. bit (bitmap m) j \<longleftrightarrow> L j \<noteq> []" using m by (simp_all add: matrix_rep_def)
  have "queue_rep h' (rows ?m ! j) ((L(i := xs)) j)" if "j < MAX_PRIORITIES" for j
    using that q others m'(1) by (cases "j = i") simp_all
  moreover have "bit (bitmap ?m) j \<longleftrightarrow> (L(i := xs)) j \<noteq> []" for j
    using bm [of j] m'(3) [of j] by simp
  moreover have "unat (t_effective_priority (h' t)) = j \<and> t_state (h' t) = Ready"
    if "t \<in> set ((L(i := xs)) j)" for j t
    using that xs [of t] matrix_rep_member [OF m, of t j]
    by (cases "j = i") (auto simp: same_data_sel [OF d])
  ultimately show ?thesis
    using m'(1,2) i unfolding matrix_rep_def by auto
qed

lemma enqueue_thread_rep:
  assumes m: "matrix_rep h m L" and st: "t_state (h p) = Ready" and ne: "\<not> tcb_is_enqueued (h p)"
    and pr: "unat (t_effective_priority (h p)) < MAX_PRIORITIES" and fresh: "p \<notin> members L"
  defines "i \<equiv> unat (t_effective_priority (h p))"
  obtains h' m' where "enqueue_thread p (h, m) = Some (h', m')" "same_data h h'"
    "matrix_rep h' m' (L(i := L i @ [p]))"
    "\<And>x. x \<notin> insert p (members L) \<Longrightarrow> t_next (h' x) = t_next (h x) \<and> t_prev (h' x) = t_prev (h x)"
proof -
  let ?q = "rows m ! i"
  have i: "i < MAX_PRIORITIES" using pr by (simp add: i_def)
  have r: "queue_rep h ?q (L i)" using m i by (simp add: matrix_rep_def)
  have pL: "p \<notin> set (L j)" for j using fresh by (auto simp: members_def)
  obtain q' where pb: "push_back p (h, ?q) = Some (tq.link_back p (q_tail ?q) h, q')"
    and r': "queue_rep (tq.link_back p (q_tail ?q) h) q' (L i @ [p])"
    using push_back_rep [OF r pL ne st] .
  let ?h = "tq.link_back p (q_tail ?q) h"
  have others: "queue_rep ?h (rows m ! j) (L j)" if "j < MAX_PRIORITIES" "j \<noteq> i" for j
    using that r m pL matrix_rep_disjoint [OF m, of i j] unfolding queue_rep_def
    by (intro tq.rep_frame_link_back) (auto simp: matrix_rep_def queue_rep_def)
  have bm: "bit (mask_set (bitmap m) i) j \<longleftrightarrow> (if j = i then L i @ [p] \<noteq> [] else bit (bitmap m) j)" for j
    using i by (auto simp: bit_mask_set MAX_PRIORITIES_def)
  have rep: "matrix_rep ?h (m\<lparr>rows := (rows m)[i := q'], bitmap := mask_set (bitmap m) i\<rparr>)
      (L(i := L i @ [p]))"
    by (rule matrix_rep_row [OF m i r' same_data_link_back others bm])
       (use m st i_def in \<open>auto dest: matrix_rep_member\<close>)
  have en: "enqueue_thread p (h, m) =
      Some (?h, m\<lparr>rows := (rows m)[i := q'], bitmap := mask_set (bitmap m) i\<rparr>)"
    using pr st pb by (simp add: enqueue_thread_def i_def Let_def)
  show thesis
  proof (rule that [OF en same_data_link_back rep])
    fix x assume x: "x \<notin> insert p (members L)"
    have "q_tail ?q \<noteq> Some x"
      using x tq.rep_tail [OF r [unfolded queue_rep_def]] by (auto simp: members_def dest: last_or_mem)
    then show "t_next (?h x) = t_next (h x) \<and> t_prev (?h x) = t_prev (h x)"
      using x tq.link_back_frame [of x p "q_tail ?q" h] by auto
  qed
qed

text \<open>The level that \<^const>\<open>pop_best_thread\<close> serves: the least one in use.\<close>

lemma matrix_rep_best:
  assumes m: "matrix_rep h m L" and ne: "bitmap m \<noteq> 0"
  defines "i \<equiv> countr_zero (bitmap m)"
  shows "i < MAX_PRIORITIES" "L i \<noteq> []" "\<And>j. j < i \<Longrightarrow> L j = []"
proof -
  note z = countr_zero_props [OF ne, folded i_def]
  show Li: "L i \<noteq> []" and "\<And>j. j < i \<Longrightarrow> L j = []"
    using z(1,2) matrix_rep_bit [OF m] by auto
  show "i < MAX_PRIORITIES" using Li m unfolding matrix_rep_def by (meson not_less)
qed

lemma rep_others_unlink:
  assumes m: "matrix_rep h m L" and i: "i < MAX_PRIORITIES" and p: "p \<in> set (L i)"
    and j: "j < MAX_PRIORITIES" "j \<noteq> i"
  shows "queue_rep (tq.unlink p h) (rows m ! j) (L j)"
  using m i p j matrix_rep_disjoint [OF m, of i j] unfolding queue_rep_def
  by (intro tq.rep_frame_unlink [of h _ _ "L j" "q_head (rows m ! i)" "q_tail (rows m ! i)" "L i"])
     (auto simp: matrix_rep_def queue_rep_def)

lemma unlink_frame_members:
  assumes m: "matrix_rep h m L" and i: "i < MAX_PRIORITIES" and p: "p \<in> set (L i)"
    and x: "x \<notin> members L"
  shows "t_next (tq.unlink p h x) = t_next (h x) \<and> t_prev (tq.unlink p h x) = t_prev (h x)"
proof -
  have "tq.rep h (q_head (rows m ! i)) (q_tail (rows m ! i)) (L i)"
    using m i by (simp add: matrix_rep_def queue_rep_def)
  then show ?thesis using tq.unlink_frame [OF _ p, of h] x by (auto simp: members_def)
qed

text \<open>Writing back a row from which one thread was unlinked.\<close>

lemma matrix_rep_unlink:
  assumes m: "matrix_rep h m L" and i: "i < MAX_PRIORITIES" and p: "p \<in> set (L i)"
    and q: "queue_rep (tq.unlink p h) q xs" and xs: "set xs \<subseteq> set (L i)"
  shows "matrix_rep (tq.unlink p h)
    (if queue_empty q then m\<lparr>rows := (rows m)[i := q], bitmap := mask_clear (bitmap m) i\<rparr>
     else m\<lparr>rows := (rows m)[i := q]\<rparr>) (L(i := xs))"
proof -
  let ?bm = "if queue_empty q then mask_clear (bitmap m) i else bitmap m"
  have "L i \<noteq> []" using p by auto
  have bm: "bit ?bm j \<longleftrightarrow> (if j = i then xs \<noteq> [] else bit (bitmap m) j)" for j
    using queue_empty_rep [OF q] matrix_rep_bit [OF m, of i] \<open>L i \<noteq> []\<close> by (auto simp: bit_mask_clear)
  have "matrix_rep (tq.unlink p h) (m\<lparr>rows := (rows m)[i := q], bitmap := ?bm\<rparr>) (L(i := xs))"
    by (rule matrix_rep_row [OF m i q same_data_unlink rep_others_unlink [OF m i p] bm])
       (use m xs in \<open>auto dest: matrix_rep_member\<close>)
  then show ?thesis by (auto split: if_splits)
qed

lemma pop_best_thread_empty:
  assumes "matrix_rep h m L" "members L = {}"
  shows "pop_best_thread (h, m) = Some (None, h, m)"
  using matrix_empty_rep [OF assms(1)] assms(2) by (simp add: pop_best_thread_def matrix_empty_def)

lemma pop_best_thread_rep:
  assumes m: "matrix_rep h m L" and ne: "members L \<noteq> {}"
  obtains i p h' m' where "pop_best_thread (h, m) = Some (Some p, h', m')"
    "i < MAX_PRIORITIES" "L i \<noteq> []" "\<And>j. j < i \<Longrightarrow> L j = []" "p = hd (L i)"
    "same_data h h'" "matrix_rep h' m' (L(i := tl (L i)))" "\<not> tcb_is_enqueued (h' p)"
    "\<And>x. x \<notin> members L \<Longrightarrow> t_next (h' x) = t_next (h x) \<and> t_prev (h' x) = t_prev (h x)"
proof -
  have bm: "bitmap m \<noteq> 0" using matrix_empty_rep [OF m] ne by (simp add: matrix_empty_def)
  define i where "i = countr_zero (bitmap m)"
  note best = matrix_rep_best [OF m bm, folded i_def]
  obtain p xs where L: "L i = p # xs" using best(2) by (cases "L i") auto
  have r: "queue_rep h (rows m ! i) (p # xs)" using m best(1) L by (auto simp: matrix_rep_def)
  obtain q' where pf: "pop_front (h, rows m ! i) = (Some p, tq.unlink p h, q')"
    and r': "queue_rep (tq.unlink p h) q' xs" using pop_front_rep [OF r] .
  have pL: "p \<in> set (L i)" and xsL: "set xs \<subseteq> set (L i)" using L by auto
  have len: "i < length (rows m)" using m best(1) by (simp add: matrix_rep_def)
  have pop: "pop_best_thread (h, m) = Some (Some p, tq.unlink p h,
      if queue_empty q' then m\<lparr>rows := (rows m)[i := q'], bitmap := mask_clear (bitmap m) i\<rparr>
      else m\<lparr>rows := (rows m)[i := q']\<rparr>)"
    using bm len pf by (simp add: pop_best_thread_def Let_def i_def [symmetric])
  show thesis
  proof (rule that [OF pop best(1,2,3)])
    show "matrix_rep (tq.unlink p h)
      (if queue_empty q' then m\<lparr>rows := (rows m)[i := q'], bitmap := mask_clear (bitmap m) i\<rparr>
       else m\<lparr>rows := (rows m)[i := q']\<rparr>) (L(i := tl (L i)))"
      using matrix_rep_unlink [OF m best(1) pL r' xsL] L by simp
    show "\<not> tcb_is_enqueued (tq.unlink p h p)"
      by (simp add: tcb_is_enqueued_def tq.unlink_detached)
  qed (use L unlink_frame_members [OF m best(1) pL] in auto)
qed

lemma remove_thread_rep:
  assumes m: "matrix_rep h m L" and p: "p \<in> set (L i)"
  obtains h' m' where "remove_thread p (h, m) = Some (h', m')" "same_data h h'"
    "matrix_rep h' m' (L(i := remove1 p (L i)))" "\<not> tcb_is_enqueued (h' p)"
proof -
  have i: "unat (t_effective_priority (h p)) = i" "i < MAX_PRIORITIES"
    using matrix_rep_member [OF m p] by auto
  have r: "queue_rep h (rows m ! i) (L i)" and len: "i < length (rows m)"
    using m i by (auto simp: matrix_rep_def)
  obtain q' where qr: "queue_remove p (h, rows m ! i) = Some (tq.unlink p h, q')"
    and r': "queue_rep (tq.unlink p h) q' (remove1 p (L i))" using queue_remove_rep [OF r p] .
  have sub: "set (remove1 p (L i)) \<subseteq> set (L i)" by (rule set_remove1_subset)
  have rm: "remove_thread p (h, m) = Some (tq.unlink p h,
      if queue_empty q' then m\<lparr>rows := (rows m)[i := q'], bitmap := mask_clear (bitmap m) i\<rparr>
      else m\<lparr>rows := (rows m)[i := q']\<rparr>)"
    using i len qr by (simp add: remove_thread_def Let_def)
  show thesis
    by (rule that [OF rm same_data_unlink matrix_rep_unlink [OF m i(2) p r' sub]])
       (simp add: tcb_is_enqueued_def tq.unlink_detached)
qed

lemma peek_best_thread_rep:
  assumes m: "matrix_rep h m L"
  shows "peek_best_thread m = map_option fst (pop_best_thread (h, m))"
proof (cases "bitmap m = 0")
  case True
  then show ?thesis by (simp add: peek_best_thread_def pop_best_thread_def)
next
  case False
  note best = matrix_rep_best [OF m False]
  let ?q = "rows m ! countr_zero (bitmap m)"
  have "queue_rep h ?q (L (countr_zero (bitmap m)))" "countr_zero (bitmap m) < length (rows m)"
    using m best(1) by (auto simp: matrix_rep_def)
  then show ?thesis
    using False by (auto simp: peek_best_thread_def pop_best_thread_def queue_front_def pop_front_def
        Let_def split: option.splits)
qed

section \<open>The matrix satisfies the scheduler's contract\<close>

definition tcb_level :: "tcb_heap \<Rightarrow> tcb_ptr \<Rightarrow> nat" where
  "tcb_level h t = unat (t_effective_priority (h t))"

definition enqueueable :: "tcb_heap \<Rightarrow> tcb_ptr \<Rightarrow> bool" where
  "enqueueable h t \<longleftrightarrow> t_state (h t) = Ready \<and> \<not> tcb_is_enqueued (h t)"

lemma tcb_level_same_data: "same_data h h' \<Longrightarrow> tcb_level h' = tcb_level h"
  by (simp add: tcb_level_def fun_eq_iff same_data_sel)

interpretation rm: ready_structure
  matrix_rep enqueue_thread pop_best_thread tcb_level enqueueable MAX_PRIORITIES
proof
  fix h m L i
  assume "matrix_rep h m L" "MAX_PRIORITIES \<le> i"
  then show "L i = []" by (simp add: matrix_rep_def)
next
  fix h m L t i
  assume "matrix_rep h m L" "t \<in> set (L i)"
  then show "tcb_level h t = i" by (simp add: tcb_level_def matrix_rep_member)
next
  fix h m L t
  assume m: "matrix_rep h m L" and "enqueueable h t" "tcb_level h t < MAX_PRIORITIES"
    and nL: "\<And>i. t \<notin> set (L i)"
  then obtain h' m' where "enqueue_thread t (h, m) = Some (h', m')" "same_data h h'"
    "matrix_rep h' m' (L(tcb_level h t := L (tcb_level h t) @ [t]))"
    "\<And>x. x \<notin> insert t (members L) \<Longrightarrow> t_next (h' x) = t_next (h x) \<and> t_prev (h' x) = t_prev (h x)"
    using enqueue_thread_rep [OF m, of t]
    by (auto simp: enqueueable_def tcb_level_def members_def)
  then show "\<exists>h' m'. enqueue_thread t (h, m) = Some (h', m') \<and>
      matrix_rep h' m' (L(tcb_level h t := L (tcb_level h t) @ [t])) \<and> tcb_level h' = tcb_level h \<and>
      (\<forall>x. x \<noteq> t \<longrightarrow> (\<forall>i. x \<notin> set (L i)) \<longrightarrow> enqueueable h x \<longrightarrow> enqueueable h' x)"
    by (intro exI [of _ h'] exI [of _ m'])
       (auto simp: tcb_level_same_data enqueueable_def tcb_is_enqueued_def members_def same_data_sel)
next
  fix h m L
  assume "matrix_rep h m L" "\<And>i. L i = []"
  then show "pop_best_thread (h, m) = Some (None, h, m)"
    by (intro pop_best_thread_empty) (auto simp: members_def)
next
  fix h m L k
  assume m: "matrix_rep h m L" and "L k \<noteq> []"
  then have ne: "members L \<noteq> {}" by (auto simp: members_def)
  show "\<exists>i h' m'. i < MAX_PRIORITIES \<and> L i \<noteq> [] \<and> (\<forall>j < i. L j = []) \<and>
      pop_best_thread (h, m) = Some (Some (hd (L i)), h', m') \<and>
      matrix_rep h' m' (L(i := tl (L i))) \<and> tcb_level h' = tcb_level h"
    using pop_best_thread_rep [OF m ne] by (metis tcb_level_same_data)
qed

text \<open>
  C15: threads that are made ready in the order \<open>ts\<close> on an empty ready matrix leave it, under
  repeated \<^const>\<open>pop_best_thread\<close>, as the stable sort of \<open>ts\<close> by effective priority: a thread of
  higher priority (smaller number) comes first, threads of one priority in arrival order; no
  assertion fails and the matrix is empty at the end.
\<close>

theorem ready_matrix_priority_fifo:
  assumes "distinct ts"
    and "\<And>t. t \<in> set ts \<Longrightarrow> t_state (h t) = Ready \<and> \<not> tcb_is_enqueued (h t) \<and>
                            unat (t_effective_priority (h t)) < MAX_PRIORITIES"
  shows "\<exists>s h' m'. enqueue_all enqueue_thread ts (h, ThreadReadyMatrix_init) = Some s \<and>
    drain pop_best_thread (length ts) s =
      Some (sort_key (\<lambda>t. unat (t_effective_priority (h t))) ts, h', m') \<and> matrix_empty m'"
proof -
  have "\<And>t. t \<in> set ts \<Longrightarrow> enqueueable h t \<and> tcb_level h t < MAX_PRIORITIES"
    using assms(2) by (simp add: enqueueable_def tcb_level_def)
  from rm.enqueue_then_drain [OF matrix_rep_init assms(1) this]
  obtain s h' m' where "enqueue_all enqueue_thread ts (h, ThreadReadyMatrix_init) = Some s"
    "drain pop_best_thread (length ts) s = Some (sort_key (tcb_level h) ts, h', m')"
    and "matrix_rep h' m' (\<lambda>_. [])" by auto
  moreover have "tcb_level h = (\<lambda>t. unat (t_effective_priority (h t)))"
    by (simp add: tcb_level_def fun_eq_iff)
  ultimately show ?thesis by (auto simp: matrix_empty_rep members_def)
qed

text \<open>A thread store in which every address holds a new thread with the given priority.\<close>

definition demo_abi :: abi where
  "demo_abi = \<lparr>sizeof_tcb = 768, alignof_tcb = 16, alignof_max = 16, offsetof_termination = 512\<rparr>"

definition demo_heap :: "(tcb_ptr \<Rightarrow> u8) \<Rightarrow> tcb_heap" where
  "demo_heap prio t = ThreadControlBlock_init demo_abi t 1 (prio t) AnyCore (0, 0) 0"

lemma demo_heap_sel [simp]:
  "t_state (demo_heap f t) = Ready" "t_effective_priority (demo_heap f t) = f t"
  "t_next (demo_heap f t) = None" "t_prev (demo_heap f t) = None"
  "t_pinned_core (demo_heap f t) = 0" "\<not> tcb_is_enqueued (demo_heap f t)"
  by (simp_all add: demo_heap_def ThreadControlBlock_init_def tcb_is_enqueued_def)

theorem ready_matrix_priority_fifo_witness:
  "\<exists>s h' m'. enqueue_all enqueue_thread [0x100, 0x200, 0x300, 0x400]
       (demo_heap (\<lambda>t. if t = 0x200 then 3 else if t = 0x400 then 30 else 7), ThreadReadyMatrix_init) = Some s \<and>
     drain pop_best_thread 4 s = Some ([0x200, 0x100, 0x300, 0x400], h', m') \<and> matrix_empty m'"
proof -
  let ?ts = "[0x100, 0x200, 0x300, 0x400] :: tcb_ptr list"
  let ?h = "demo_heap (\<lambda>t. if t = 0x200 then 3 else if t = 0x400 then 30 else 7)"
  have k: "sort_key (\<lambda>t. unat (t_effective_priority (?h t))) ?ts = [0x200, 0x100, 0x300, 0x400]"
    by simp
  have l: "length ?ts = 4" by simp
  show ?thesis
    using ready_matrix_priority_fifo [of ?ts ?h] unfolding k l by (simp add: MAX_PRIORITIES_def)
qed

section \<open>Double insertion\<close>

lemma walk_size_self_loop:
  assumes "walk_size h p n = Some k"
  shows "p = Some a \<longrightarrow> t_next (h a) \<noteq> Some a"
  by (rule walk_size.raw_induct [where P = "\<lambda>h p n k. p = Some a \<longrightarrow> t_next (h a) \<noteq> Some a", OF _ assms])
     (auto split: option.splits)

lemma queue_size_self_loop:
  assumes "q_head q = Some p" "t_next (h p) = Some p"
  shows "queue_size h q = None"
  using walk_size_self_loop [of h "q_head q" 0 _ p] assms unfolding queue_size_def
  by (meson not_None_eq)

text \<open>
  C22: \<^const>\<open>tcb_is_enqueued\<close> reads the links only, and a thread that is alone in its queue has none.
  The assertion in \<^const>\<open>push_back\<close> therefore lets the same thread be inserted a second time: the
  links of the thread then point to itself and \<^const>\<open>queue_size\<close> does not return.
\<close>

theorem double_enqueue_undetected:
  assumes "t_state (h p) = Ready" "\<not> tcb_is_enqueued (h p)"
  shows "\<exists>h1 q1 h2 q2. push_back p (h, ThreadReadyQueue_init) = Some (h1, q1) \<and>
    queue_rep h1 q1 [p] \<and> \<not> tcb_is_enqueued (h1 p) \<and> push_back p (h1, q1) = Some (h2, q2) \<and>
    t_next (h2 p) = Some p \<and> t_prev (h2 p) = Some p \<and> queue_size h2 q2 = None"
proof -
  let ?q = "\<lparr>q_head = Some p, q_tail = Some p\<rparr>"
  let ?h1 = "tcb_set_prev p None (tcb_set_next p None h)"
  let ?h2 = "tcb_set_next p (Some p) (tcb_set_prev p (Some p) (tcb_set_next p None ?h1))"
  have st: "t_state (?h1 p) = Ready" using assms(1) by (simp add: tcb_set_next_def tcb_set_prev_def)
  have ne: "\<not> tcb_is_enqueued (?h1 p)" by (simp add: tcb_is_enqueued_def)
  have p1: "push_back p (h, ThreadReadyQueue_init) = Some (?h1, ?q)"
    using assms by (simp add: push_back_def ThreadReadyQueue_init_def)
  have r0: "queue_rep h ThreadReadyQueue_init []"
    by (simp add: queue_rep_def ThreadReadyQueue_init_def tq.rep_empty)
  have r1: "queue_rep ?h1 ?q [p]"
    by (rule push_back_rep [of h ThreadReadyQueue_init "[]" p, OF r0 _ assms(2,1)]) (simp_all add: p1)
  have p2: "push_back p (?h1, ?q) = Some (?h2, ?q)" using st ne by (simp add: push_back_def)
  have nx: "t_next (?h2 p) = Some p" "t_prev (?h2 p) = Some p" by simp_all
  have "queue_size ?h2 ?q = None" by (rule queue_size_self_loop [of ?q p ?h2, OF _ nx(1)]) simp
  then show ?thesis using p1 r1 ne p2 nx by blast
qed

theorem double_enqueue_undetected_witness:
  "\<exists>h1 q1 h2 q2. push_back 0x100 (demo_heap (\<lambda>_. 5), ThreadReadyQueue_init) = Some (h1, q1) \<and>
    queue_rep h1 q1 [0x100] \<and> \<not> tcb_is_enqueued (h1 0x100) \<and> push_back 0x100 (h1, q1) = Some (h2, q2) \<and>
    t_next (h2 0x100) = Some 0x100 \<and> t_prev (h2 0x100) = Some 0x100 \<and> queue_size h2 q2 = None"
  by (rule double_enqueue_undetected) simp_all

end
