(* ===== verification/Waitables.thy ===== *)
theory Waitables
  imports Threading
begin

text \<open>
  waitable.hpp/.cpp and the blocking half of \<^verbatim>\<open>ThreadControlBlock\<close> (threading_subsystem.cpp): the
  queue of wait nodes of a waitable, the choice of the best waiter, blocking a thread on several
  waitables and taking its nodes out again.  The state is the record \<open>wmem\<close>: the thread store, the
  node store and the queue ends of the waitables.  The locks of the waitables are kept apart, in
  theory \<open>Kernel\<close>.
\<close>

section \<open>State\<close>

text \<open>A waitable pointer may be null; the null pointer is address 0.\<close>

abbreviation nullptr :: addr where "nullptr \<equiv> 0"

record Waitable =
  w_head :: "node_ptr option"
  w_tail :: "node_ptr option"

definition Waitable_init :: Waitable where
  "Waitable_init = \<lparr>w_head = None, w_tail = None\<rparr>"

record wmem =
  tcbs :: tcb_heap
  nodes :: node_heap
  waitables :: "waitable_ptr \<Rightarrow> Waitable"

text \<open>
  The constructor of \<^verbatim>\<open>ThreadControlBlock\<close> at address \<open>this\<close>: the block, the nodes of its pool and
  its termination waitable.  The call of \<^verbatim>\<open>cortos_port_context_init\<close> is part of theory \<open>Kernel\<close>.
\<close>

definition construct_TCB ::
  "abi \<Rightarrow> tcb_ptr \<Rightarrow> u32 \<Rightarrow> u8 \<Rightarrow> CoreAffinity \<Rightarrow> span \<Rightarrow> callable \<Rightarrow> wmem \<Rightarrow> wmem" where
  "construct_TCB A this tid priority affinity stack entry m =
     (let tcb = ThreadControlBlock_init A this tid priority affinity stack entry;
          (pool, nh) = make_WaitNodePool this (nodes m)
      in m\<lparr>tcbs := (tcbs m)(this := tcb\<lparr>t_wait_nodes := pool\<rparr>), nodes := nh,
           waitables := (waitables m)(t_termination tcb := Waitable_init)\<rparr>)"

text \<open>\<^verbatim>\<open>Waitable::Result\<close>\<close>

record Result =
  r_index :: int
  r_acquired :: bool

definition Result_init :: Result where
  "Result_init = \<lparr>r_index = -1, r_acquired = False\<rparr>"

section \<open>The waiter queue\<close>

definition node_set_next :: "node_ptr \<Rightarrow> node_ptr option \<Rightarrow> node_heap \<Rightarrow> node_heap" where
  "node_set_next p v h = h(p := (h p)\<lparr>n_next := v\<rparr>)"

definition node_set_prev :: "node_ptr \<Rightarrow> node_ptr option \<Rightarrow> node_heap \<Rightarrow> node_heap" where
  "node_set_prev p v h = h(p := (h p)\<lparr>n_prev := v\<rparr>)"

definition node_set_waitable :: "node_ptr \<Rightarrow> waitable_ptr option \<Rightarrow> node_heap \<Rightarrow> node_heap" where
  "node_set_waitable p v h = h(p := (h p)\<lparr>n_waitable := v\<rparr>)"

definition waitable_empty :: "Waitable \<Rightarrow> bool" where
  "waitable_empty w \<longleftrightarrow> w_head w = None \<and> w_tail w = None"

text \<open>\<^verbatim>\<open>Waitable::add\<close> and \<^verbatim>\<open>Waitable::remove\<close> on the queue at address \<open>this\<close>.\<close>

definition waitable_add ::
  "waitable_ptr \<Rightarrow> node_ptr \<Rightarrow> node_heap \<times> Waitable \<Rightarrow> (node_heap \<times> Waitable) option" where
  "waitable_add this p = (\<lambda>(h, w). do {
     CORTOS_ASSERT (n_waitable (h p) = Some this \<or> n_waitable (h p) = None);
     CORTOS_ASSERT (\<not> node_is_enqueued (h p));
     let h = node_set_waitable p (Some this) h;
     let h = node_set_prev p (w_tail w) h;
     let h = node_set_next p None h;
     let (h, w) = (case w_tail w of
         Some t \<Rightarrow> (node_set_next t (Some p) h, w)
       | None \<Rightarrow> (h, w\<lparr>w_head := Some p\<rparr>));
     Some (h, w\<lparr>w_tail := Some p\<rparr>)
   })"

definition waitable_remove ::
  "waitable_ptr \<Rightarrow> node_ptr \<Rightarrow> node_heap \<times> Waitable \<Rightarrow> node_heap \<times> Waitable" where
  "waitable_remove this p = (\<lambda>(h, w).
     if n_waitable (h p) \<noteq> Some this then (h, w)
     else
       (let (h, w) = (case n_prev (h p) of
             Some y \<Rightarrow> (node_set_next y (n_next (h p)) h, w)
           | None \<Rightarrow> (h, w\<lparr>w_head := n_next (h p)\<rparr>));
            (h, w) = (case n_next (h p) of
             Some z \<Rightarrow> (node_set_prev z (n_prev (h p)) h, w)
           | None \<Rightarrow> (h, w\<lparr>w_tail := n_prev (h p)\<rparr>));
            h = node_set_next p None (node_set_prev p None h);
            h = node_set_waitable p None h
        in (h, w)))"

text \<open>Is the group a node belongs to already satisfied?\<close>

definition node_group_done :: "tcb_heap \<Rightarrow> WaitNode \<Rightarrow> bool" where
  "node_group_done th n =
     (case n_group n of None \<Rightarrow> False | Some g \<Rightarrow> g_done (t_wait_group (th g)))"

text \<open>\<^verbatim>\<open>Waitable::pick_best\<close>: the loop over the queue from \<open>iter\<close> on.\<close>

partial_function (option) pick_best_from ::
  "tcb_heap \<Rightarrow> node_heap \<Rightarrow> waitable_ptr \<Rightarrow> node_ptr option \<Rightarrow> node_ptr option \<Rightarrow> u8
   \<Rightarrow> node_ptr option option" where
  "pick_best_from th nh this iter best best_prio =
     (case iter of
        None \<Rightarrow> Some best
      | Some n \<Rightarrow> do {
          CORTOS_ASSERT (n_active (nh n));
          t \<leftarrow> n_tcb (nh n);
          CORTOS_ASSERT (n_waitable (nh n) = Some this);
          (if node_group_done th (nh n)
           then pick_best_from th nh this (n_next (nh n)) best best_prio
           else if best = None \<or> is_higher_priority_than (th t) best_prio
           then pick_best_from th nh this (n_next (nh n)) (Some n) (t_effective_priority (th t))
           else pick_best_from th nh this (n_next (nh n)) best best_prio)
        })"

definition pick_best :: "waitable_ptr \<Rightarrow> wmem \<Rightarrow> node_ptr option option" where
  "pick_best this m =
     pick_best_from (tcbs m) (nodes m) this (w_head (waitables m this)) None 255"

text \<open>
  \<^verbatim>\<open>Waitable::for_each_waiter\<close>: the snapshots handed to the visitor, in order.
\<close>

partial_function (option) for_each_waiter_from ::
  "tcb_heap \<Rightarrow> node_heap \<Rightarrow> node_ptr option \<Rightarrow> Waiter list \<Rightarrow> Waiter list option" where
  "for_each_waiter_from th nh iter acc =
     (case iter of
        None \<Rightarrow> Some acc
      | Some n \<Rightarrow>
          (if \<not> n_active (nh n) then for_each_waiter_from th nh (n_next (nh n)) acc
           else if node_group_done th (nh n) then for_each_waiter_from th nh (n_next (nh n)) acc
           else (case n_tcb (nh n) of
               None \<Rightarrow> for_each_waiter_from th nh (n_next (nh n)) acc
             | Some t \<Rightarrow> for_each_waiter_from th nh (n_next (nh n)) (acc @ [create_waiter (th t)]))))"

definition for_each_waiter :: "waitable_ptr \<Rightarrow> wmem \<Rightarrow> Waiter list option" where
  "for_each_waiter this m =
     for_each_waiter_from (tcbs m) (nodes m) (w_head (waitables m this)) []"

section \<open>Blocking a thread\<close>

definition set_group :: "tcb_ptr \<Rightarrow> WaitGroup \<Rightarrow> wmem \<Rightarrow> wmem" where
  "set_group t g m = m\<lparr>tcbs := (tcbs m)(t := (tcbs m t)\<lparr>t_wait_group := g\<rparr>)\<rparr>"

definition set_pool :: "tcb_ptr \<Rightarrow> WaitNodePool \<Rightarrow> wmem \<Rightarrow> wmem" where
  "set_pool t p m = m\<lparr>tcbs := (tcbs m)(t := (tcbs m t)\<lparr>t_wait_nodes := p\<rparr>)\<rparr>"

definition set_state :: "tcb_ptr \<Rightarrow> ThreadState \<Rightarrow> wmem \<Rightarrow> wmem" where
  "set_state t s m = m\<lparr>tcbs := tcb_set_state t s (tcbs m)\<rparr>"

text \<open>
  One iteration of the loop of \<^verbatim>\<open>ThreadControlBlock::prepare_block\<close>: allocate a node for the
  \<open>i\<close>-th waitable and add it to its queue.  The index is converted to 8 bits.
\<close>

definition prepare_one :: "tcb_ptr \<Rightarrow> nat \<Rightarrow> waitable_ptr \<Rightarrow> wmem \<Rightarrow> wmem option" where
  "prepare_one t i w m = do {
     CORTOS_ASSERT (w \<noteq> nullptr);
     (p, pool, nh) \<leftarrow> pool_alloc t w (of_nat i) (t_wait_nodes (tcbs m t), nodes m);
     let m = (set_pool t pool m)\<lparr>nodes := nh\<rparr>;
     node \<leftarrow> p;
     (nh, wq) \<leftarrow> waitable_add w node (nodes m, waitables m w);
     Some (m\<lparr>nodes := nh, waitables := (waitables m)(w := wq)\<rparr>)
   }"

fun prepare_loop :: "tcb_ptr \<Rightarrow> nat \<Rightarrow> waitable_ptr list \<Rightarrow> wmem \<Rightarrow> wmem option" where
  "prepare_loop t i [] m = Some m"
| "prepare_loop t i (w # ws) m = do { m' \<leftarrow> prepare_one t i w m; prepare_loop t (Suc i) ws m' }"

definition prepare_block :: "tcb_ptr \<Rightarrow> waitable_ptr list \<Rightarrow> wmem \<Rightarrow> wmem option" where
  "prepare_block t ws m = do {
     CORTOS_ASSERT (t_state (tcbs m t) = Running);
     CORTOS_ASSERT (length ws > 0);
     CORTOS_ASSERT (length ws \<le> MAX_WAIT_NODES);
     let m = set_group t (group_begin (of_nat (length ws)) (t_wait_group (tcbs m t))) m;
     m \<leftarrow> prepare_loop t 0 ws m;
     Some (set_state t Blocked m)
   }"

text \<open>What \<^verbatim>\<open>commence_block\<close> returns when the thread runs again.\<close>

definition block_result :: "tcb_ptr \<Rightarrow> wmem \<Rightarrow> Result" where
  "block_result t m =
     \<lparr>r_index = g_winner_index (t_wait_group (tcbs m t)),
      r_acquired = g_acquired (t_wait_group (tcbs m t))\<rparr>"

section \<open>Tearing down a wait group\<close>

text \<open>
  The first pass of \<^verbatim>\<open>ThreadControlBlock::teardown_wait_group\<close> collects the waitables; the vector
  holds \<^const>\<open>MAX_WAIT_NODES\<close> references.
\<close>

definition collect_visit ::
  "group_ptr \<Rightarrow> node_ptr \<Rightarrow> wmem \<times> waitable_ptr list \<Rightarrow> (wmem \<times> waitable_ptr list) option" where
  "collect_visit g p = (\<lambda>(m, ws).
     if n_group (nodes m p) \<noteq> Some g then Some (m, ws)
     else (case n_waitable (nodes m p) of
         None \<Rightarrow> Some (m, ws)
       | Some w \<Rightarrow> do { CORTOS_ASSERT (length ws < MAX_WAIT_NODES); Some (m, ws @ [w]) }))"

definition collect_waitables :: "tcb_ptr \<Rightarrow> group_ptr \<Rightarrow> wmem \<Rightarrow> waitable_ptr list option" where
  "collect_waitables t g m =
     map_option snd
       (for_each_active (\<lambda>s. nodes (fst s)) t (collect_visit g) (Some g) (m, []))"

text \<open>The second pass unlinks each node from its waitable and frees it.\<close>

definition release_visit :: "tcb_ptr \<Rightarrow> group_ptr \<Rightarrow> node_ptr \<Rightarrow> wmem \<Rightarrow> wmem option" where
  "release_visit t g p m =
     (if n_group (nodes m p) \<noteq> Some g then Some m
      else do {
        let m = (case n_waitable (nodes m p) of
            None \<Rightarrow> m
          | Some w \<Rightarrow> (let (nh, wq) = waitable_remove w p (nodes m, waitables m w)
                       in m\<lparr>nodes := nh, waitables := (waitables m)(w := wq)\<rparr>));
        (pool, nh) \<leftarrow> pool_free p (t_wait_nodes (tcbs m t), nodes m);
        Some ((set_pool t pool m)\<lparr>nodes := nh\<rparr>)
      })"

definition release_nodes :: "tcb_ptr \<Rightarrow> group_ptr \<Rightarrow> wmem \<Rightarrow> wmem option" where
  "release_nodes t g m = for_each_active nodes t (release_visit t g) (Some g) m"

section \<open>The waiter queue implements a list\<close>

lemma node_set_sel [simp]:
  "n_next (node_set_next p v h x) = (if x = p then v else n_next (h x))"
  "n_prev (node_set_next p v h x) = n_prev (h x)"
  "n_next (node_set_prev p v h x) = n_next (h x)"
  "n_prev (node_set_prev p v h x) = (if x = p then v else n_prev (h x))"
  "n_next (node_set_waitable p u h x) = n_next (h x)"
  "n_prev (node_set_waitable p u h x) = n_prev (h x)"
  by (simp_all add: node_set_next_def node_set_prev_def node_set_waitable_def)

interpretation wq: link_heap
  "\<lambda>h p. n_next (h p)" "\<lambda>h p. n_prev (h p)" node_set_next node_set_prev
  by unfold_locales (auto simp: fun_eq_iff)

definition waiter_rep :: "node_heap \<Rightarrow> Waitable \<Rightarrow> node_ptr list \<Rightarrow> bool" where
  "waiter_rep h w xs \<longleftrightarrow> wq.rep h (w_head w) (w_tail w) xs"

lemma waiter_rep_cong:
  assumes "waiter_rep h w xs"
    and "\<And>x. x \<in> set xs \<Longrightarrow> n_next (h' x) = n_next (h x) \<and> n_prev (h' x) = n_prev (h x)"
  shows "waiter_rep h' w xs"
  unfolding waiter_rep_def
  by (rule wq.rep_cong [OF assms(1) [unfolded waiter_rep_def]]) (simp_all add: assms(2))

text \<open>Two node stores that differ in link fields only.\<close>

definition same_node :: "WaitNode \<Rightarrow> WaitNode \<Rightarrow> bool" where
  "same_node a b \<longleftrightarrow> a\<lparr>n_next := None, n_prev := None\<rparr> = b\<lparr>n_next := None, n_prev := None\<rparr>"

lemma same_node_refl [simp]: "same_node a a"
  by (simp add: same_node_def)

lemma same_node_set [simp]:
  "same_node (h x) (node_set_next p v h' x) = same_node (h x) (h' x)"
  "same_node (h x) (node_set_prev p v h' x) = same_node (h x) (h' x)"
  by (simp_all add: same_node_def node_set_next_def node_set_prev_def)

lemma same_node_link_back [simp]: "same_node (h x) (wq.link_back p t h x)"
  by (cases t) (simp_all add: wq.link_back_def)

lemma same_node_unlink [simp]: "same_node (h x) (wq.unlink p h x)"
  by (simp add: wq.unlink_def Let_def split: option.splits)

lemma same_node_sel:
  assumes "same_node a b"
  shows "n_slot b = n_slot a" "n_active b = n_active a" "n_tcb b = n_tcb a"
    "n_waitable b = n_waitable a" "n_group b = n_group a" "n_index b = n_index a"
proof -
  note e = assms [unfolded same_node_def]
  show "n_slot b = n_slot a" using arg_cong [OF e, of n_slot] by simp
  show "n_active b = n_active a" using arg_cong [OF e, of n_active] by simp
  show "n_tcb b = n_tcb a" using arg_cong [OF e, of n_tcb] by simp
  show "n_waitable b = n_waitable a" using arg_cong [OF e, of n_waitable] by simp
  show "n_group b = n_group a" using arg_cong [OF e, of n_group] by simp
  show "n_index b = n_index a" using arg_cong [OF e, of n_index] by simp
qed

lemmas link_back_node_sel = same_node_sel [OF same_node_link_back]
lemmas unlink_node_sel = same_node_sel [OF same_node_unlink]

lemma node_set_next_prev: "node_set_next p a (node_set_prev p b h) = node_set_prev p b (node_set_next p a h)"
  by (simp add: node_set_next_def node_set_prev_def fun_eq_iff)

lemma waitable_add_eq:
  assumes "n_waitable (h p) = Some this" "\<not> node_is_enqueued (h p)"
  shows "waitable_add this p (h, w) = Some (wq.link_back p (w_tail w) h,
    w\<lparr>w_head := (case w_tail w of None \<Rightarrow> Some p | Some _ \<Rightarrow> w_head w), w_tail := Some p\<rparr>)"
proof -
  have "node_set_waitable p (Some this) h = h"
    using assms(1) by (auto simp: node_set_waitable_def fun_eq_iff)
  then show ?thesis
    using assms
    by (cases "w_tail w") (simp_all add: waitable_add_def wq.link_back_def node_set_next_prev)
qed

lemma waitable_add_rep:
  assumes r: "waiter_rep h w xs" and p: "p \<notin> set xs"
    and "n_waitable (h p) = Some this" "\<not> node_is_enqueued (h p)"
  obtains w' where "waitable_add this p (h, w) = Some (wq.link_back p (w_tail w) h, w')"
    "waiter_rep (wq.link_back p (w_tail w) h) w' (xs @ [p])"
proof -
  note e = wq.link_back_rep [OF r [unfolded waiter_rep_def] p]
  show thesis
    by (rule that [OF waitable_add_eq [of h p this w, OF assms(3,4)]]) (simp add: waiter_rep_def e)
qed

lemma waitable_remove_rep:
  assumes r: "waiter_rep h w xs" and p: "p \<in> set xs" and wt: "n_waitable (h p) = Some this"
  obtains w' where "waitable_remove this p (h, w) = (node_set_waitable p None (wq.unlink p h), w')"
    "waiter_rep (node_set_waitable p None (wq.unlink p h)) w' (remove1 p xs)"
proof -
  let ?w = "w\<lparr>w_head := (case n_prev (h p) of None \<Rightarrow> n_next (h p) | Some _ \<Rightarrow> w_head w),
             w_tail := (case n_next (h p) of None \<Rightarrow> n_prev (h p) | Some _ \<Rightarrow> w_tail w)\<rparr>"
  from p obtain ys zs where xs: "xs = ys @ p # zs" by (meson split_list)
  with r have pn: "n_prev (h p) = last_or ys None" "n_next (h p) = first_or zs None"
    and d: "distinct (ys @ p # zs)" by (simp_all add: waiter_rep_def wq.rep_def dll_def)
  have self: "n_prev (h p) \<noteq> Some p" "n_next (h p) \<noteq> Some p"
    using pn d by (auto dest: last_or_mem first_or_mem)
  have eq: "waitable_remove this p (h, w) = (node_set_waitable p None (wq.unlink p h), ?w)"
    using wt self
    by (cases "n_prev (h p)"; cases "n_next (h p)")
       (simp_all add: waitable_remove_def wq.unlink_def Let_def)
  have "waiter_rep (wq.unlink p h) ?w (remove1 p xs)"
    using wq.unlink_rep [OF r [unfolded waiter_rep_def] p] by (simp add: waiter_rep_def)
  then have "waiter_rep (node_set_waitable p None (wq.unlink p h)) ?w (remove1 p xs)"
    by (rule waiter_rep_cong) simp
  with eq show thesis by (rule that)
qed

lemma waitable_empty_rep: "waiter_rep h w xs \<Longrightarrow> waitable_empty w \<longleftrightarrow> xs = []"
  using wq.rep_head [of h "w_head w" "w_tail w" xs] wq.rep_tail [of h "w_head w" "w_tail w" xs]
  by (auto simp: waiter_rep_def waitable_empty_def)

section \<open>The best waiter\<close>

text \<open>
  The specification of \<^const>\<open>pick_best\<close>: among the waiters whose group is not satisfied, the first
  in queue order of those with the best effective priority, which is the head of the stable sort.
\<close>

definition waiter_priority :: "wmem \<Rightarrow> node_ptr \<Rightarrow> u8" where
  "waiter_priority m p =
     (case n_tcb (nodes m p) of None \<Rightarrow> 0 | Some t \<Rightarrow> t_effective_priority (tcbs m t))"

definition pending :: "wmem \<Rightarrow> node_ptr list \<Rightarrow> node_ptr list" where
  "pending m xs = filter (\<lambda>p. \<not> node_group_done (tcbs m) (nodes m p)) xs"

definition best_waiter :: "wmem \<Rightarrow> node_ptr list \<Rightarrow> node_ptr option" where
  "best_waiter m xs =
     (case sort_key (waiter_priority m) (pending m xs) of [] \<Rightarrow> None | p # _ \<Rightarrow> Some p)"

text \<open>The accumulator of the loop: keep the incumbent unless the candidate is strictly better.\<close>

fun scan_best :: "('p \<Rightarrow> 'k::linorder) \<Rightarrow> 'p option \<Rightarrow> 'p list \<Rightarrow> 'p option" where
  "scan_best f b [] = b"
| "scan_best f b (x # xs) =
     scan_best f (case b of None \<Rightarrow> Some x | Some y \<Rightarrow> if f x < f y then Some x else Some y) xs"

lemma insort_key_head:
  "sort_key f (x # xs) = (case sort_key f xs of [] \<Rightarrow> [x]
     | y # ys \<Rightarrow> if f x \<le> f y then x # y # ys else y # insort_key f x ys)"
  by (simp split: list.splits)

lemma scan_best_Some:
  "scan_best f (Some b) xs = (case sort_key f xs of [] \<Rightarrow> Some b
     | y # _ \<Rightarrow> if f y < f b then Some y else Some b)"
proof (induction xs arbitrary: b)
  case Nil
  then show ?case by simp
next
  case (Cons x xs)
  show ?case
    unfolding insort_key_head [of f x xs] using Cons.IH [of x] Cons.IH [of b]
    by (auto split: list.splits)
qed

lemma scan_best_None:
  "scan_best f None xs = (case sort_key f xs of [] \<Rightarrow> None | y # _ \<Rightarrow> Some y)"
proof (cases xs)
  case Nil
  then show ?thesis by simp
next
  case (Cons x ys)
  show ?thesis
    unfolding Cons insort_key_head [of f x ys] using scan_best_Some [of f x ys]
    by (auto split: list.splits)
qed

lemma pick_best_from_chain:
  assumes "chain (\<lambda>p. n_next (nodes m p)) pv b xs None"
    and "\<And>p. p \<in> set xs \<Longrightarrow> n_active (nodes m p) \<and> n_tcb (nodes m p) \<noteq> None \<and>
                            n_waitable (nodes m p) = Some this"
    and "\<And>y. best = Some y \<Longrightarrow> bp = waiter_priority m y"
  shows "pick_best_from (tcbs m) (nodes m) this (first_or xs None) best bp =
         Some (scan_best (waiter_priority m) best (pending m xs))"
  using assms
proof (induction xs arbitrary: b best bp)
  case Nil
  then show ?case by (simp add: pick_best_from.simps pending_def)
next
  case (Cons x xs)
  obtain t where t: "n_tcb (nodes m x) = Some t" using Cons.prems(2) [of x] by auto
  have act: "n_active (nodes m x)" "n_waitable (nodes m x) = Some this"
    using Cons.prems(2) [of x] by auto
  have c: "chain (\<lambda>p. n_next (nodes m p)) pv (Some x) xs None" "n_next (nodes m x) = first_or xs None"
    using Cons.prems(1) by auto
  have wp: "waiter_priority m x = t_effective_priority (tcbs m t)"
    using t by (simp add: waiter_priority_def)
  note IH = Cons.IH [OF c(1)]
  have step: "pick_best_from (tcbs m) (nodes m) this (first_or xs None) best' bp' =
      Some (scan_best (waiter_priority m) best' (pending m xs))"
    if "\<And>y. best' = Some y \<Longrightarrow> bp' = waiter_priority m y" for best' bp'
    using IH [of best' bp'] Cons.prems(2) that by auto
  show ?case
  proof (cases "node_group_done (tcbs m) (nodes m x)")
    case True
    then show ?thesis
      using act t c(2) step [of best bp] Cons.prems(3)
      by (subst pick_best_from.simps) (simp add: pending_def)
  next
    case False
    show ?thesis
    proof (cases "best = None \<or> is_higher_priority_than (tcbs m t) bp")
      case True
      then have "(case best of None \<Rightarrow> Some x
          | Some y \<Rightarrow> if waiter_priority m x < waiter_priority m y then Some x else Some y) = Some x"
        using Cons.prems(3) wp by (auto simp: is_higher_priority_than_def split: option.splits)
      then show ?thesis
        using act t c(2) False True step [of "Some x" "t_effective_priority (tcbs m t)"] wp
        by (subst pick_best_from.simps) (simp add: pending_def)
    next
      case keep: False
      then obtain y where y: "best = Some y" by auto
      with keep have "\<not> waiter_priority m x < waiter_priority m y"
        using Cons.prems(3) [OF y] wp by (simp add: is_higher_priority_than_def)
      then show ?thesis
        using act t c(2) False keep y step [of best bp] Cons.prems(3)
        by (subst pick_best_from.simps) (simp add: pending_def)
    qed
  qed
qed

lemma pick_best_rep:
  assumes r: "waiter_rep (nodes m) (waitables m this) xs"
    and "\<And>p. p \<in> set xs \<Longrightarrow> n_active (nodes m p) \<and> n_tcb (nodes m p) \<noteq> None \<and>
                            n_waitable (nodes m p) = Some this"
  shows "pick_best this m = Some (best_waiter m xs)"
proof -
  have "chain (\<lambda>p. n_next (nodes m p)) (\<lambda>p. n_prev (nodes m p)) None xs None"
    and "w_head (waitables m this) = first_or xs None"
    using r by (simp_all add: waiter_rep_def wq.rep_def dll_def)
  then show ?thesis
    using pick_best_from_chain [OF _ assms(2), where best = None and bp = 255]
    by (simp add: pick_best_def best_waiter_def scan_best_None)
qed

lemma best_waiter_Some:
  assumes "best_waiter m xs = Some p"
  shows "p \<in> set xs" "\<not> node_group_done (tcbs m) (nodes m p)"
    "\<And>q. q \<in> set (pending m xs) \<Longrightarrow> waiter_priority m p \<le> waiter_priority m q"
proof -
  obtain ps where s: "sort_key (waiter_priority m) (pending m xs) = p # ps"
    using assms by (auto simp: best_waiter_def split: list.splits)
  have mem: "set (p # ps) = set (pending m xs)" using set_sort s by metis
  then have "p \<in> set (pending m xs)" by auto
  then show "p \<in> set xs" "\<not> node_group_done (tcbs m) (nodes m p)" by (auto simp: pending_def)
  have "sorted (map (waiter_priority m) (p # ps))" using sorted_sort_key s by metis
  then show "waiter_priority m p \<le> waiter_priority m q" if "q \<in> set (pending m xs)" for q
    using that mem by auto
qed

lemma best_waiter_None: "best_waiter m xs = None \<longleftrightarrow> pending m xs = []"
  by (auto simp: best_waiter_def split: list.splits)
     (metis length_sort list.size(3) length_0_conv)+

section \<open>The wait invariant\<close>

text \<open>
  \<open>wait_inv T X m Q\<close>: for the threads \<open>T\<close> that exist, the nodes and the waiter queues fit together.
  The queue of waitable \<open>w\<close> is the list \<open>Q w\<close>; it holds exactly the active nodes that name \<open>w\<close>; an
  active node belongs to the wait group of its owner; a thread has at most one node per waitable;
  and, except for the threads \<open>X\<close> that are in the middle of blocking or waking, a thread with an
  active node is \<^const>\<open>Blocked\<close> and its group has no winner yet.
\<close>

definition node_ok :: "tcb_ptr set \<Rightarrow> wmem \<Rightarrow> node_ptr \<Rightarrow> bool" where
  "node_ok X m p \<longleftrightarrow>
     n_group (nodes m p) = Some (fst p) \<and> n_index (nodes m p) \<noteq> INVALID_INDEX \<and>
     (\<exists>w. n_waitable (nodes m p) = Some w \<and> w \<noteq> nullptr) \<and>
     (fst p \<notin> X \<longrightarrow> t_state (tcbs m (fst p)) = Blocked \<and> \<not> g_done (t_wait_group (tcbs m (fst p))))"

definition live_node :: "tcb_ptr set \<Rightarrow> wmem \<Rightarrow> node_ptr \<Rightarrow> bool" where
  "live_node T m p \<longleftrightarrow> fst p \<in> T \<and> snd p < MAX_WAIT_NODES \<and> n_active (nodes m p)"

definition wait_inv ::
  "tcb_ptr set \<Rightarrow> tcb_ptr set \<Rightarrow> wmem \<Rightarrow> (waitable_ptr \<Rightarrow> node_ptr list) \<Rightarrow> bool" where
  "wait_inv T X m Q \<longleftrightarrow>
     (\<forall>w. waiter_rep (nodes m) (waitables m w) (Q w)) \<and>
     (\<forall>w p. p \<in> set (Q w) \<longleftrightarrow> live_node T m p \<and> n_waitable (nodes m p) = Some w) \<and>
     (\<forall>t \<in> T. wp_owner (t_wait_nodes (tcbs m t)) = t \<and> pool_inv (t_wait_nodes (tcbs m t), nodes m)) \<and>
     (\<forall>p. live_node T m p \<longrightarrow> node_ok X m p) \<and>
     (\<forall>p q. live_node T m p \<longrightarrow> live_node T m q \<longrightarrow> fst p = fst q \<longrightarrow>
            n_waitable (nodes m p) = n_waitable (nodes m q) \<longrightarrow> p = q)"

lemma wait_invD:
  assumes "wait_inv T X m Q"
  shows "waiter_rep (nodes m) (waitables m w) (Q w)"
    and "p \<in> set (Q w) \<longleftrightarrow> live_node T m p \<and> n_waitable (nodes m p) = Some w"
    and "t \<in> T \<Longrightarrow> wp_owner (t_wait_nodes (tcbs m t)) = t"
    and "t \<in> T \<Longrightarrow> pool_inv (t_wait_nodes (tcbs m t), nodes m)"
    and "live_node T m p \<Longrightarrow> node_ok X m p"
    and "live_node T m p \<Longrightarrow> live_node T m q \<Longrightarrow> fst p = fst q \<Longrightarrow>
         n_waitable (nodes m p) = n_waitable (nodes m q) \<Longrightarrow> p = q"
  using assms unfolding wait_inv_def by blast+

lemma wait_inv_tcb:
  assumes "wait_inv T X m Q" "live_node T m p"
  shows "n_tcb (nodes m p) = Some (fst p)" "n_slot (nodes m p) = of_nat (snd p)"
  using wait_invD(3,4) [OF assms(1), of "fst p"] assms(2)
  by (cases p; auto simp: live_node_def pool_inv_def)+

text \<open>The slots of a thread that are in use.\<close>

definition slots :: "wmem \<Rightarrow> tcb_ptr \<Rightarrow> nat set" where
  "slots m t = {i. i < MAX_WAIT_NODES \<and> n_active (nodes m (t, i))}"

lemma queue_disjoint:
  assumes "wait_inv T X m Q" "w \<noteq> v"
  shows "set (Q w) \<inter> set (Q v) = {}"
  using wait_invD(2) [OF assms(1)] assms(2) by auto

lemma wait_inv_pick_best:
  assumes "wait_inv T X m Q"
  shows "pick_best w m = Some (best_waiter m (Q w))"
  by (rule pick_best_rep [OF wait_invD(1) [OF assms]])
     (auto simp: wait_invD(2) [OF assms] live_node_def wait_inv_tcb [OF assms])

text \<open>A thread that neither is blocked nor is in transit has no nodes.\<close>

lemma wait_inv_no_slots:
  assumes "wait_inv T X m Q" "t \<in> T" "t \<notin> X" "t_state (tcbs m t) \<noteq> Blocked"
  shows "slots m t = {}"
proof -
  have "\<not> n_active (nodes m (t, i))" if "i < MAX_WAIT_NODES" for i
    using wait_invD(5) [OF assms(1), of "(t, i)"] that assms(2-4)
    by (auto simp: live_node_def node_ok_def)
  then show ?thesis by (auto simp: slots_def)
qed

lemma wait_inv_mono: "wait_inv T X m Q \<Longrightarrow> X \<subseteq> Y \<Longrightarrow> wait_inv T Y m Q"
  unfolding wait_inv_def node_ok_def by blast

text \<open>Changes of thread data that the wait structures do not see.\<close>

lemma wait_inv_tcbs_cong:
  assumes inv: "wait_inv T X m Q"
    and m': "nodes m' = nodes m" "waitables m' = waitables m"
    and pool: "\<And>t. t \<in> T \<Longrightarrow> t_wait_nodes (tcbs m' t) = t_wait_nodes (tcbs m t)"
    and st: "\<And>p. live_node T m p \<Longrightarrow> fst p \<notin> Y \<Longrightarrow>
      t_state (tcbs m' (fst p)) = Blocked \<and> \<not> g_done (t_wait_group (tcbs m' (fst p)))"
  shows "wait_inv T Y m' Q"
proof -
  have live: "live_node T m' p = live_node T m p" for p by (simp add: live_node_def m')
  have "node_ok Y m' p" if "live_node T m p" for p
    using wait_invD(5) [OF inv that] st [OF that] by (auto simp: node_ok_def m')
  then show ?thesis
    using inv pool unfolding wait_inv_def live by (simp add: m')
qed

lemma set_pool_sel [simp]:
  "nodes (set_pool t pool m) = nodes m" "waitables (set_pool t pool m) = waitables m"
  "t_state (tcbs (set_pool t pool m) x) = t_state (tcbs m x)"
  "t_wait_group (tcbs (set_pool t pool m) x) = t_wait_group (tcbs m x)"
  "t_wait_nodes (tcbs (set_pool t pool m) x) = (if x = t then pool else t_wait_nodes (tcbs m x))"
  by (simp_all add: set_pool_def)

lemma pool_inv_cong:
  assumes "pool_inv (pool, h)"
    and "\<And>i. i < MAX_WAIT_NODES \<Longrightarrow> n_active (h' (wp_owner pool, i)) = n_active (h (wp_owner pool, i)) \<and>
      n_tcb (h' (wp_owner pool, i)) = n_tcb (h (wp_owner pool, i)) \<and>
      n_slot (h' (wp_owner pool, i)) = n_slot (h (wp_owner pool, i))"
  shows "pool_inv (pool, h')"
  using assms by (simp add: pool_inv_def)

section \<open>Blocking keeps the invariant\<close>

text \<open>Adding one freshly allocated node \<open>p\<close> at the back of the queue of \<open>w\<close>.\<close>

lemma wait_inv_add_node:
  assumes inv: "wait_inv T X m Q" and p: "fst p \<in> T" "fst p \<in> X" "snd p < MAX_WAIT_NODES"
    and idle: "\<not> n_active (nodes m p)" and w0: "w \<noteq> nullptr"
    and N: "n_active N" "n_group N = Some (fst p)" "n_waitable N = Some w" "n_index N \<noteq> INVALID_INDEX"
      "n_next N = None" "n_prev N = None" "n_tcb N = n_tcb (nodes m p)" "n_slot N = n_slot (nodes m p)"
    and pool: "wp_owner pool = fst p" "pool_inv (pool, (nodes m)(p := N))"
    and fresh: "\<And>q. live_node T m q \<Longrightarrow> fst q = fst p \<Longrightarrow> n_waitable (nodes m q) \<noteq> Some w"
    and add: "waitable_add w p ((nodes m)(p := N), waitables m w) = Some (nh, wq)"
  shows "wait_inv T X ((set_pool (fst p) pool m)\<lparr>nodes := nh, waitables := (waitables m)(w := wq)\<rparr>)
           (Q(w := Q w @ [p]))" (is "wait_inv T X ?m ?Q")
    and "\<And>x. same_node (((nodes m)(p := N)) x) (nh x)"
proof -
  let ?h = "(nodes m)(p := N)"
  have pQ: "p \<notin> set (Q v)" for v using idle wait_invD(2) [OF inv] by (simp add: live_node_def)
  have rep0: "waiter_rep ?h (waitables m v) (Q v)" for v
    by (rule waiter_rep_cong [OF wait_invD(1) [OF inv]]) (use pQ in auto)
  have "n_waitable (?h p) = Some w" "\<not> node_is_enqueued (?h p)"
    using N by (simp_all add: node_is_enqueued_def)
  then obtain w' where "waitable_add w p (?h, waitables m w) =
      Some (wq.link_back p (w_tail (waitables m w)) ?h, w')"
    and r': "waiter_rep (wq.link_back p (w_tail (waitables m w)) ?h) w' (Q w @ [p])"
    using waitable_add_rep [OF rep0 pQ] by blast
  with add have nh: "nh = wq.link_back p (w_tail (waitables m w)) ?h"
    and r: "waiter_rep nh wq (Q w @ [p])" by auto
  show same: "same_node (?h x) (nh x)" for x unfolding nh by (rule same_node_link_back)
  note sel = same_node_sel [OF same]
  have live: "live_node T ?m x \<longleftrightarrow> live_node T m x \<or> x = p" for x
    using p idle N(1) sel(2) [of x] by (auto simp: live_node_def)
  have rep: "waiter_rep nh (waitables m v) (Q v)" if "v \<noteq> w" for v
    using that rep0 pQ queue_disjoint [OF inv, of w v] unfolding nh waiter_rep_def
    by (intro wq.rep_frame_link_back [of _ _ _ "Q v" _ _ "Q w"]) auto
  have others: "n_waitable (nodes ?m x) = n_waitable (nodes m x) \<and>
      n_group (nodes ?m x) = n_group (nodes m x) \<and> n_index (nodes ?m x) = n_index (nodes m x)"
    if "x \<noteq> p" for x using that sel [of x] by simp
  have new: "n_waitable (nodes ?m p) = Some w" "n_group (nodes ?m p) = Some (fst p)"
    "n_index (nodes ?m p) \<noteq> INVALID_INDEX" using sel [of p] N by simp_all
  have "waiter_rep (nodes ?m) (waitables ?m v) (?Q v)" for v
    using r rep by (cases "v = w") simp_all
  moreover have "x \<in> set (?Q v) \<longleftrightarrow> live_node T ?m x \<and> n_waitable (nodes ?m x) = Some v" for v x
    unfolding live using wait_invD(2) [OF inv] others [of x] new(1) idle pQ [of v]
    by (cases "x = p") (auto simp: live_node_def)
  moreover have "wp_owner (t_wait_nodes (tcbs ?m t)) = t \<and> pool_inv (t_wait_nodes (tcbs ?m t), nodes ?m)"
    if "t \<in> T" for t
  proof (cases "t = fst p")
    case True
    then show ?thesis
      using pool pool_inv_cong [OF pool(2), of nh] sel by simp
  next
    case False
    then show ?thesis
      using pool_inv_cong [OF wait_invD(4) [OF inv that], of nh] wait_invD(3) [OF inv that] sel
      by (cases p) simp
  qed
  moreover have "node_ok X ?m x" if "live_node T ?m x" for x
    using that wait_invD(5) [OF inv, of x] others [of x] new p(2) w0 unfolding live
    by (cases "x = p") (auto simp: node_ok_def)
  moreover have "x = y" if "live_node T ?m x" "live_node T ?m y" "fst x = fst y"
    "n_waitable (nodes ?m x) = n_waitable (nodes ?m y)" for x y
    using that wait_invD(6) [OF inv, of x y] fresh [of x] fresh [of y] others [of x] others [of y] new(1)
    unfolding live by (cases "x = p"; cases "y = p") auto
  ultimately show "wait_inv T X ?m ?Q" unfolding wait_inv_def by blast
qed

text \<open>The data of a thread that blocking does not touch.\<close>

definition only_pool :: "tcb_ptr \<Rightarrow> wmem \<Rightarrow> wmem \<Rightarrow> bool" where
  "only_pool t m m' \<longleftrightarrow> (\<exists>pool. tcbs m' = (tcbs m)(t := (tcbs m t)\<lparr>t_wait_nodes := pool\<rparr>))"

lemma only_pool_refl [simp]: "only_pool t m m"
  unfolding only_pool_def by (rule exI [of _ "t_wait_nodes (tcbs m t)"]) simp

lemma only_pool_trans: "only_pool t m m' \<Longrightarrow> only_pool t m' m'' \<Longrightarrow> only_pool t m m''"
  unfolding only_pool_def by force

lemma only_pool_sel:
  assumes "only_pool t m m'"
  shows "t_state (tcbs m' x) = t_state (tcbs m x)" "t_wait_group (tcbs m' x) = t_wait_group (tcbs m x)"
    "t_effective_priority (tcbs m' x) = t_effective_priority (tcbs m x)"
    "t_next (tcbs m' x) = t_next (tcbs m x)" "t_prev (tcbs m' x) = t_prev (tcbs m x)"
    "t_pinned_core (tcbs m' x) = t_pinned_core (tcbs m x)"
    "x \<noteq> t \<Longrightarrow> tcbs m' x = tcbs m x"
  using assms by (auto simp: only_pool_def)

lemma small_index: "i < MAX_WAIT_NODES \<Longrightarrow> (of_nat i :: u8) \<noteq> INVALID_INDEX"
proof
  assume "i < MAX_WAIT_NODES" "(of_nat i :: u8) = INVALID_INDEX"
  then have "unat (of_nat i :: u8) = 255" "i < 8" by (simp_all add: INVALID_INDEX_def MAX_WAIT_NODES_def)
  then show False by (simp add: unat_of_nat)
qed

lemma prepare_one_inv:
  assumes inv: "wait_inv T X m Q" and t: "t \<in> T" "t \<in> X" and w: "w \<noteq> nullptr"
    and sl: "slots m t = {0..<i}" and i: "i < MAX_WAIT_NODES"
    and fresh: "\<And>j. j < i \<Longrightarrow> n_waitable (nodes m (t, j)) \<noteq> Some w"
  obtains m' where "prepare_one t i w m = Some m'" "wait_inv T X m' (Q(w := Q w @ [(t, i)]))"
    "slots m' t = {0..<Suc i}" "only_pool t m m'"
    "n_waitable (nodes m' (t, i)) = Some w" "n_index (nodes m' (t, i)) = of_nat i"
    "\<And>j. j < i \<Longrightarrow> n_waitable (nodes m' (t, j)) = n_waitable (nodes m (t, j)) \<and>
                    n_index (nodes m' (t, j)) = n_index (nodes m (t, j))"
proof -
  let ?pool = "t_wait_nodes (tcbs m t)"
  have own: "wp_owner ?pool = t" and pinv: "pool_inv (?pool, nodes m)"
    using wait_invD(3,4) [OF inv t(1)] by auto
  have act: "n_active (nodes m (t, j)) \<longleftrightarrow> j < i" if "j < MAX_WAIT_NODES" for j
  proof -
    have "j \<in> slots m t \<longleftrightarrow> j < i" unfolding sl by simp
    then show ?thesis using that by (simp add: slots_def)
  qed
  have bits: "bit (free_mask ?pool) i" "\<And>j. j < i \<Longrightarrow> \<not> bit (free_mask ?pool) j"
    using pinv act i own by (auto simp: pool_inv_def)
  then have nz: "free_mask ?pool \<noteq> 0" and cz: "countr_zero (free_mask ?pool) = i"
    by (auto intro: countr_zero_eqI)
  define N where "N = (node_reset (nodes m (t, i)))
    \<lparr>n_active := True, n_group := Some t, n_waitable := Some w, n_index := of_nat i\<rparr>"
  define pool' where "pool' = ?pool\<lparr>free_mask := mask_clear (free_mask ?pool) i\<rparr>"
  have al: "pool_alloc t w (of_nat i) (?pool, nodes m) = Some (Some (t, i), pool', (nodes m)((t, i) := N))"
    using pool_alloc_Some [OF pinv nz small_index [OF i], of t w] by (simp add: own cz N_def pool'_def)
  have pool': "wp_owner pool' = t" "pool_inv (pool', (nodes m)((t, i) := N))"
    using pool_alloc_inv [OF pinv al] own by auto
  have idle: "\<not> n_active (nodes m (t, i))" using act i by simp
  have N: "n_active N" "n_group N = Some (fst (t, i))" "n_waitable N = Some w"
    "n_index N \<noteq> INVALID_INDEX" "n_next N = None" "n_prev N = None"
    "n_tcb N = n_tcb (nodes m (t, i))" "n_slot N = n_slot (nodes m (t, i))"
    using small_index [OF i] by (simp_all add: N_def)
  have fr: "n_waitable (nodes m q) \<noteq> Some w" if "live_node T m q" "fst q = fst (t, i)" for q
    using that fresh [of "snd q"] act [of "snd q"] by (cases q) (auto simp: live_node_def)
  have "n_waitable (((nodes m)((t, i) := N)) (t, i)) = Some w"
    "\<not> node_is_enqueued (((nodes m)((t, i) := N)) (t, i))"
    using N by (simp_all add: node_is_enqueued_def)
  then obtain nh wq where add:
    "waitable_add w (t, i) ((nodes m)((t, i) := N), waitables m w) = Some (nh, wq)"
    using waitable_add_eq [of "(nodes m)((t, i) := N)" "(t, i)" w "waitables m w"] by blast
  note res = wait_inv_add_node [OF inv _ _ _ idle w N _ _ fr add]
  let ?m = "(set_pool t pool' m)\<lparr>nodes := nh, waitables := (waitables m)(w := wq)\<rparr>"
  have inv': "wait_inv T X ?m (Q(w := Q w @ [(t, i)]))"
    using res(1) [of pool'] t i pool' by simp
  have same: "same_node (((nodes m)((t, i) := N)) x) (nh x)" for x
    using res(2) [of pool'] t i pool' by simp
  note sel = same_node_sel [OF same]
  have pre: "prepare_one t i w m = Some ?m"
    using w al add by (simp add: prepare_one_def Let_def set_pool_def)
  have act': "n_active (nh (t, j)) \<longleftrightarrow> j < Suc i" if "j < MAX_WAIT_NODES" for j
    using sel(2) [of "(t, j)"] act [OF that] N(1) by (cases "j = i") auto
  show thesis
  proof (rule that [OF pre inv'])
    show "slots ?m t = {0..<Suc i}" using i by (auto simp: slots_def act')
    show "only_pool t m ?m" by (auto simp: only_pool_def set_pool_def)
  qed (use sel N in \<open>simp_all add: N_def\<close>)
qed

text \<open>The queues after the nodes for \<open>ws\<close>, numbered from \<open>i\<close>, have been added.\<close>

fun add_nodes ::
  "tcb_ptr \<Rightarrow> nat \<Rightarrow> waitable_ptr list \<Rightarrow> (waitable_ptr \<Rightarrow> node_ptr list) \<Rightarrow> waitable_ptr \<Rightarrow> node_ptr list"
where
  "add_nodes t i [] Q = Q"
| "add_nodes t i (w # ws) Q = add_nodes t (Suc i) ws (Q(w := Q w @ [(t, i)]))"

lemma add_nodes_notin: "v \<notin> set ws \<Longrightarrow> add_nodes t i ws Q v = Q v"
  by (induction ws arbitrary: i Q) auto

lemma add_nodes_nth:
  "distinct ws \<Longrightarrow> k < length ws \<Longrightarrow> add_nodes t i ws Q (ws ! k) = Q (ws ! k) @ [(t, i + k)]"
proof (induction ws arbitrary: i k Q)
  case Nil
  then show ?case by simp
next
  case (Cons w ws)
  show ?case
  proof (cases k)
    case 0
    with Cons.prems show ?thesis by (simp add: add_nodes_notin)
  next
    case (Suc k')
    with Cons.prems have "ws ! k' \<noteq> w" by (metis distinct.simps(2) length_Cons not_less_eq nth_mem)
    with Suc Cons show ?thesis by simp
  qed
qed

lemma prepare_loop_inv:
  assumes "wait_inv T X m Q" "t \<in> T" "t \<in> X" "slots m t = {0..<i}"
    and "i + length ws \<le> MAX_WAIT_NODES" "nullptr \<notin> set ws" "distinct ws"
    and "\<And>j w. j < i \<Longrightarrow> w \<in> set ws \<Longrightarrow> n_waitable (nodes m (t, j)) \<noteq> Some w"
  shows "\<exists>m'. prepare_loop t i ws m = Some m' \<and> wait_inv T X m' (add_nodes t i ws Q) \<and>
    slots m' t = {0..<i + length ws} \<and> only_pool t m m' \<and>
    (\<forall>k < length ws. n_waitable (nodes m' (t, i + k)) = Some (ws ! k) \<and>
                     n_index (nodes m' (t, i + k)) = of_nat (i + k)) \<and>
    (\<forall>j < i. n_waitable (nodes m' (t, j)) = n_waitable (nodes m (t, j)) \<and>
             n_index (nodes m' (t, j)) = n_index (nodes m (t, j)))"
  using assms
proof (induction ws arbitrary: i m Q)
  case Nil
  then show ?case by simp
next
  case (Cons w ws)
  have "w \<noteq> nullptr" "i < MAX_WAIT_NODES" using Cons.prems(5,6) by auto
  then obtain m1 where m1: "prepare_one t i w m = Some m1" "wait_inv T X m1 (Q(w := Q w @ [(t, i)]))"
    "slots m1 t = {0..<Suc i}" "only_pool t m m1"
    "n_waitable (nodes m1 (t, i)) = Some w" "n_index (nodes m1 (t, i)) = of_nat i"
    "\<And>j. j < i \<Longrightarrow> n_waitable (nodes m1 (t, j)) = n_waitable (nodes m (t, j)) \<and>
                    n_index (nodes m1 (t, j)) = n_index (nodes m (t, j))"
    using prepare_one_inv [OF Cons.prems(1,2,3) _ Cons.prems(4), of w] Cons.prems(8) by auto
  have "n_waitable (nodes m1 (t, j)) \<noteq> Some v" if "j < Suc i" "v \<in> set ws" for j v
    using that m1(5,7) Cons.prems(7) Cons.prems(8) [of j v] by (cases "j = i") auto
  then obtain m2 where m2: "prepare_loop t (Suc i) ws m1 = Some m2"
    "wait_inv T X m2 (add_nodes t (Suc i) ws (Q(w := Q w @ [(t, i)])))"
    "slots m2 t = {0..<Suc i + length ws}" "only_pool t m1 m2"
    "\<And>k. k < length ws \<Longrightarrow> n_waitable (nodes m2 (t, Suc i + k)) = Some (ws ! k) \<and>
       n_index (nodes m2 (t, Suc i + k)) = of_nat (Suc i + k)"
    "\<And>j. j < Suc i \<Longrightarrow> n_waitable (nodes m2 (t, j)) = n_waitable (nodes m1 (t, j)) \<and>
       n_index (nodes m2 (t, j)) = n_index (nodes m1 (t, j))"
    using Cons.IH [OF m1(2) Cons.prems(2,3) m1(3)] Cons.prems(5-7) by fastforce
  have "n_waitable (nodes m2 (t, i + k)) = Some ((w # ws) ! k) \<and>
        n_index (nodes m2 (t, i + k)) = of_nat (i + k)" if "k < length (w # ws)" for k
    using that m2(5) [of "k - 1"] m2(6) [of i] m1(5,6) by (cases k) auto
  moreover have "n_waitable (nodes m2 (t, j)) = n_waitable (nodes m (t, j)) \<and>
        n_index (nodes m2 (t, j)) = n_index (nodes m (t, j))" if "j < i" for j
    using that m2(6) [of j] m1(7) [of j] by simp
  ultimately show ?case
    using m1(1) m2(1-3) only_pool_trans [OF m1(4) m2(4)] by auto
qed

text \<open>
  Blocking a running thread: the nodes are slots 0, 1, \<open>\<dots>\<close> in the order of the waitables, each
  at the back of its queue, and the thread is \<^const>\<open>Blocked\<close> with a fresh group.
\<close>

lemma prepare_block_inv:
  assumes inv: "wait_inv T {} m Q" and t: "t \<in> T" and st: "t_state (tcbs m t) = Running"
    and ws: "ws \<noteq> []" "length ws \<le> MAX_WAIT_NODES" "nullptr \<notin> set ws" "distinct ws"
  shows "\<exists>m'. prepare_block t ws m = Some m' \<and> wait_inv T {} m' (add_nodes t 0 ws Q) \<and>
    t_state (tcbs m' t) = Blocked \<and> (\<forall>x. x \<noteq> t \<longrightarrow> tcbs m' x = tcbs m x) \<and>
    t_wait_group (tcbs m' t) = group_begin (of_nat (length ws)) (t_wait_group (tcbs m t)) \<and>
    t_next (tcbs m' t) = t_next (tcbs m t) \<and> t_prev (tcbs m' t) = t_prev (tcbs m t) \<and>
    t_effective_priority (tcbs m' t) = t_effective_priority (tcbs m t) \<and>
    t_pinned_core (tcbs m' t) = t_pinned_core (tcbs m t) \<and> slots m' t = {0..<length ws} \<and>
    (\<forall>k < length ws. n_waitable (nodes m' (t, k)) = Some (ws ! k) \<and>
                     n_index (nodes m' (t, k)) = of_nat k)"
proof -
  let ?g = "group_begin (of_nat (length ws)) (t_wait_group (tcbs m t))"
  let ?m1 = "set_group t ?g m"
  have none: "slots m t = {}" using wait_inv_no_slots [OF inv t] st by simp
  have dead: "fst p \<noteq> t" if "live_node T m p" for p
  proof
    assume "fst p = t"
    with that have "snd p \<in> slots m t" by (cases p) (auto simp: live_node_def slots_def)
    with none show False by simp
  qed
  have inv1: "wait_inv T {t} ?m1 Q"
  proof (rule wait_inv_tcbs_cong [OF inv])
    fix p assume p: "live_node T m p" "fst p \<notin> {t}"
    then show "t_state (tcbs ?m1 (fst p)) = Blocked \<and> \<not> g_done (t_wait_group (tcbs ?m1 (fst p)))"
      using wait_invD(5) [OF inv, of p] by (auto simp: node_ok_def set_group_def)
  qed (auto simp: set_group_def)
  have sl1: "slots ?m1 t = {0..<0}" using none by (simp add: slots_def set_group_def)
  obtain m2 where m2: "prepare_loop t 0 ws ?m1 = Some m2" "wait_inv T {t} m2 (add_nodes t 0 ws Q)"
    "slots m2 t = {0..<length ws}" "only_pool t ?m1 m2"
    "\<forall>k < length ws. n_waitable (nodes m2 (t, k)) = Some (ws ! k) \<and> n_index (nodes m2 (t, k)) = of_nat k"
    using prepare_loop_inv [OF inv1 t _ sl1, of ws] ws by auto
  note sel = only_pool_sel [OF m2(4)]
  let ?m3 = "set_state t Blocked m2"
  have pb: "prepare_block t ws m = Some ?m3"
    using st ws m2(1) by (simp add: prepare_block_def Let_def)
  have "wait_inv T {} ?m3 (add_nodes t 0 ws Q)"
  proof (rule wait_inv_tcbs_cong [OF m2(2)])
    fix p assume p: "live_node T m2 p" "fst p \<notin> {}"
    then show "t_state (tcbs ?m3 (fst p)) = Blocked \<and> \<not> g_done (t_wait_group (tcbs ?m3 (fst p)))"
      using wait_invD(5) [OF m2(2), of p] sel(2) [of t]
      by (cases "fst p = t")
         (auto simp: node_ok_def set_state_def tcb_set_state_def set_group_def group_begin_def)
  qed (auto simp: set_state_def tcb_set_state_def)
  then show ?thesis
    using pb m2(3,5) sel
    by (auto simp: set_state_def tcb_set_state_def set_group_def slots_def)
qed

text \<open>Blocking does not change what a snapshot of the thread shows.\<close>

lemma prepare_one_waiter:
  "prepare_one t i w m = Some m' \<Longrightarrow> create_waiter (tcbs m' x) = create_waiter (tcbs m x)"
  by (auto simp: prepare_one_def set_pool_def create_waiter_def Let_def split: bind_splits if_splits)

lemma prepare_loop_waiter:
  "prepare_loop t i ws m = Some m' \<Longrightarrow> create_waiter (tcbs m' x) = create_waiter (tcbs m x)"
  by (induction ws arbitrary: i m) (auto simp: prepare_one_waiter split: bind_splits)

lemma prepare_block_waiter:
  "prepare_block t ws m = Some m' \<Longrightarrow> create_waiter (tcbs m' x) = create_waiter (tcbs m x)"
  by (auto simp: prepare_block_def Let_def set_state_def tcb_set_state_def split: bind_splits if_splits
      dest!: prepare_loop_waiter [of _ _ _ _ _ x])
     (auto simp: set_group_def create_waiter_def split: if_splits)

section \<open>Taking a thread's nodes out of all queues\<close>

text \<open>Unlinking and freeing one node: the store after the two calls of the second pass.\<close>

lemma release_visit_eq:
  assumes inv: "wait_inv T X m Q" and p: "live_node T m p" and w: "n_waitable (nodes m p) = Some w"
  obtains wq where "release_visit (fst p) (fst p) p m =
      Some ((set_pool (fst p)
              ((t_wait_nodes (tcbs m (fst p)))
                 \<lparr>free_mask := mask_set (free_mask (t_wait_nodes (tcbs m (fst p)))) (snd p)\<rparr>) m)
            \<lparr>nodes := (wq.unlink p (nodes m))(p := node_reset (nodes m p)),
             waitables := (waitables m)(w := wq)\<rparr>)"
    and "waiter_rep ((wq.unlink p (nodes m))(p := node_reset (nodes m p))) wq (remove1 p (Q w))"
proof -
  let ?h = "node_set_waitable p None (wq.unlink p (nodes m))"
  have pQ: "p \<in> set (Q w)" using p w wait_invD(2) [OF inv] by simp
  obtain wq where rm: "waitable_remove w p (nodes m, waitables m w) = (?h, wq)"
    and r: "waiter_rep ?h wq (remove1 p (Q w))"
    using waitable_remove_rep [OF wait_invD(1) [OF inv] pQ w] .
  have data: "n_active (?h x) = n_active (nodes m x)" "n_tcb (?h x) = n_tcb (nodes m x)"
    "n_slot (?h x) = n_slot (nodes m x)" for x
    by (simp_all add: node_set_waitable_def unlink_node_sel)
  have T: "fst p \<in> T" "snd p < MAX_WAIT_NODES" "n_active (nodes m p)" using p by (auto simp: live_node_def)
  have own: "wp_owner (t_wait_nodes (tcbs m (fst p))) = fst p"
    and pi: "pool_inv (t_wait_nodes (tcbs m (fst p)), nodes m)" using wait_invD(3,4) [OF inv T(1)] by auto
  have pi': "pool_inv (t_wait_nodes (tcbs m (fst p)), ?h)"
    by (rule pool_inv_cong [OF pi]) (simp add: data)
  have "n_active (?h (wp_owner (t_wait_nodes (tcbs m (fst p))), snd p))" using data own T(3) by simp
  from pool_free_Some [OF pi' T(2) this]
  have fr: "pool_free p (t_wait_nodes (tcbs m (fst p)), ?h) =
      Some ((t_wait_nodes (tcbs m (fst p)))
              \<lparr>free_mask := mask_set (free_mask (t_wait_nodes (tcbs m (fst p)))) (snd p)\<rparr>,
            ?h(p := node_reset (?h p)))" using own by simp
  have h': "?h(p := node_reset (?h p)) = (wq.unlink p (nodes m))(p := node_reset (nodes m p))"
  proof
    fix x
    have "node_reset (wq.unlink p (nodes m) p) = node_reset (nodes m p)"
      using same_node_unlink [of "nodes m" p p] unfolding same_node_def
      by (auto simp: node_reset_def unlink_node_sel intro!: WaitNode.equality)
    then show "(?h(p := node_reset (?h p))) x = ((wq.unlink p (nodes m))(p := node_reset (nodes m p))) x"
      by (simp add: node_set_waitable_def node_reset_def)
  qed
  have grp: "n_group (nodes m p) = Some (fst p)" using wait_invD(5) [OF inv p] by (simp add: node_ok_def)
  have "waiter_rep ((wq.unlink p (nodes m))(p := node_reset (nodes m p))) wq (remove1 p (Q w))"
    by (rule waiter_rep_cong [OF r]) (simp add: wq.unlink_detached)
  moreover have "release_visit (fst p) (fst p) p m =
      Some ((set_pool (fst p)
              ((t_wait_nodes (tcbs m (fst p)))
                 \<lparr>free_mask := mask_set (free_mask (t_wait_nodes (tcbs m (fst p)))) (snd p)\<rparr>) m)
            \<lparr>nodes := (wq.unlink p (nodes m))(p := node_reset (nodes m p)),
             waitables := (waitables m)(w := wq)\<rparr>)"
    using grp w rm fr by (simp add: release_visit_def h' set_pool_def)
  ultimately show thesis by (rule that [rotated])
qed

lemma release_visit_inv:
  assumes inv: "wait_inv T X m Q" and p: "live_node T m p" and w: "n_waitable (nodes m p) = Some w"
    and X: "fst p \<in> X"
  obtains m' where "release_visit (fst p) (fst p) p m = Some m'"
    "wait_inv T X m' (Q(w := remove1 p (Q w)))" "only_pool (fst p) m m'"
    "\<And>x. x \<noteq> p \<Longrightarrow> same_node (nodes m x) (nodes m' x)" "\<not> n_active (nodes m' p)"
proof -
  let ?t = "fst p" and ?Q = "Q(w := remove1 p (Q w))"
  let ?pool = "(t_wait_nodes (tcbs m ?t))\<lparr>free_mask := mask_set (free_mask (t_wait_nodes (tcbs m ?t))) (snd p)\<rparr>"
  let ?h = "(wq.unlink p (nodes m))(p := node_reset (nodes m p))"
  obtain wq where rv: "release_visit ?t ?t p m =
      Some ((set_pool ?t ?pool m)\<lparr>nodes := ?h, waitables := (waitables m)(w := wq)\<rparr>)"
    and r: "waiter_rep ?h wq (remove1 p (Q w))" using release_visit_eq [OF inv p w] .
  let ?m = "(set_pool ?t ?pool m)\<lparr>nodes := ?h, waitables := (waitables m)(w := wq)\<rparr>"
  have same: "same_node (nodes m x) (?h x)" if "x \<noteq> p" for x using that by simp
  have sel: "n_active (?h x) = n_active (nodes m x)" "n_tcb (?h x) = n_tcb (nodes m x)"
    "n_slot (?h x) = n_slot (nodes m x)" "n_waitable (?h x) = n_waitable (nodes m x)"
    "n_group (?h x) = n_group (nodes m x)" "n_index (?h x) = n_index (nodes m x)" if "x \<noteq> p" for x
    using that by (simp_all add: unlink_node_sel)
  have selp: "\<not> n_active (?h p)" "n_tcb (?h p) = n_tcb (nodes m p)" "n_slot (?h p) = n_slot (nodes m p)"
    by simp_all
  have live: "live_node T ?m x \<longleftrightarrow> live_node T m x \<and> x \<noteq> p" for x
    using sel(1) by (cases "x = p") (auto simp: live_node_def)
  have pQ: "p \<in> set (Q w)" using p w wait_invD(2) [OF inv] by simp
  have d: "distinct (Q w)" using wq.rep_distinct wait_invD(1) [OF inv, of w] by (auto simp: waiter_rep_def)
  have rep: "waiter_rep ?h (waitables m v) (Q v)" if "v \<noteq> w" for v
  proof -
    have "wq.rep (wq.unlink p (nodes m)) (w_head (waitables m v)) (w_tail (waitables m v)) (Q v)"
      using wait_invD(1) [OF inv] pQ queue_disjoint [OF inv that [symmetric]] unfolding waiter_rep_def
      by (intro wq.rep_frame_unlink [of _ _ _ "Q v" _ _ "Q w"]) auto
    then show ?thesis
      using waiter_rep_cong [of "wq.unlink p (nodes m)" "waitables m v" "Q v" ?h]
      by (simp add: waiter_rep_def wq.unlink_detached)
  qed
  have "waiter_rep (nodes ?m) (waitables ?m v) (?Q v)" for v using r rep by (cases "v = w") simp_all
  moreover have "x \<in> set (?Q v) \<longleftrightarrow> live_node T ?m x \<and> n_waitable (nodes ?m x) = Some v" for v x
    unfolding live using wait_invD(2) [OF inv] sel(4) [of x] d w by (cases "x = p") auto
  moreover have "wp_owner (t_wait_nodes (tcbs ?m t)) = t \<and> pool_inv (t_wait_nodes (tcbs ?m t), nodes ?m)"
    if "t \<in> T" for t
  proof -
    have "wp_owner (t_wait_nodes (tcbs m t)) = t" "pool_inv (t_wait_nodes (tcbs m t), nodes m)"
      using wait_invD(3,4) [OF inv that] by auto
    moreover have "snd p < MAX_WAIT_NODES" using p by (simp add: live_node_def)
    ultimately show ?thesis
      using sel selp by (cases p; cases "t = ?t")
        (auto simp: pool_inv_def bit_mask_set MAX_WAIT_NODES_def unlink_node_sel)
  qed
  moreover have "node_ok X ?m x" if "live_node T ?m x" for x
    using that wait_invD(5) [OF inv, of x] sel [of x] unfolding live by (auto simp: node_ok_def)
  moreover have "x = y" if "live_node T ?m x" "live_node T ?m y" "fst x = fst y"
    "n_waitable (nodes ?m x) = n_waitable (nodes ?m y)" for x y
    using that wait_invD(6) [OF inv, of x y] sel(4) unfolding live by auto
  ultimately have "wait_inv T X ?m ?Q" unfolding wait_inv_def by blast
  then show thesis
    by (rule that [OF rv]) (auto simp: only_pool_def set_pool_def)
qed

text \<open>Queues without the nodes of thread \<open>t\<close> in the slots \<open>S\<close>.\<close>

definition without :: "tcb_ptr \<Rightarrow> nat set \<Rightarrow> (waitable_ptr \<Rightarrow> node_ptr list) \<Rightarrow> waitable_ptr \<Rightarrow> node_ptr list"
where
  "without t S Q v = filter (\<lambda>p. \<not> (fst p = t \<and> snd p \<in> S)) (Q v)"

lemma without_one:
  assumes "distinct (Q w)" "\<And>v. v \<noteq> w \<Longrightarrow> (t, i) \<notin> set (Q v)"
  shows "without t S (Q(w := remove1 (t, i) (Q w))) = without t (insert i S) Q"
proof
  fix v
  have "filter (\<lambda>p. \<not> (fst p = t \<and> snd p \<in> S)) (filter (\<lambda>p. p \<noteq> (t, i)) xs) =
        filter (\<lambda>p. \<not> (fst p = t \<and> snd p \<in> insert i S)) xs" for xs :: "node_ptr list"
    by (auto intro!: filter_cong simp: filter_filter)
  then show "without t S (Q(w := remove1 (t, i) (Q w))) v = without t (insert i S) Q v"
    using assms(1) assms(2) [of v]
    by (cases "v = w") (auto simp: without_def distinct_remove1_removeAll removeAll_filter_not_eq
        eq_commute intro!: filter_cong)
qed

lemma release_from_inv:
  assumes "wait_inv T X m Q" "t \<in> T" "t \<in> X" "distinct is" "\<And>i. i \<in> set is \<Longrightarrow> i < MAX_WAIT_NODES"
  shows "\<exists>m'. for_each_active_from nodes t (release_visit t t) (Some t) is m = Some m' \<and>
    wait_inv T X m' (without t (set is) Q) \<and> only_pool t m m' \<and> slots m' t = slots m t - set is \<and>
    (\<forall>x. fst x \<noteq> t \<longrightarrow> same_node (nodes m x) (nodes m' x))"
  using assms
proof (induction "is" arbitrary: m Q)
  case Nil
  then show ?case by (simp add: without_def)
next
  case (Cons i js)
  let ?p = "(t, i)"
  show ?case
  proof (cases "n_active (nodes m ?p)")
    case False
    then have "without t (set (i # js)) Q = without t (set js) Q"
      using wait_invD(2) [OF Cons.prems(1), of ?p]
      by (auto simp: without_def fun_eq_iff live_node_def intro!: filter_cong)
    then show ?thesis
      using False Cons.IH [OF Cons.prems(1-3)] Cons.prems(4,5) by (auto simp: Let_def slots_def)
  next
    case True
    then have live: "live_node T m ?p" using Cons.prems by (simp add: live_node_def)
    obtain w where w: "n_waitable (nodes m ?p) = Some w" and g: "n_group (nodes m ?p) = Some t"
      using wait_invD(5) [OF Cons.prems(1) live] by (auto simp: node_ok_def)
    obtain m1 where m1: "release_visit t t ?p m = Some m1"
      "wait_inv T X m1 (Q(w := remove1 ?p (Q w)))" "only_pool t m m1"
      "\<And>x. x \<noteq> ?p \<Longrightarrow> same_node (nodes m x) (nodes m1 x)" "\<not> n_active (nodes m1 ?p)"
      using release_visit_inv [OF Cons.prems(1) live w] Cons.prems(3) by auto
    have s1: "slots m1 t = slots m t - {i}"
      using m1(4,5) same_node_sel(2) by (fastforce simp: slots_def)
    have q: "without t (set js) (Q(w := remove1 ?p (Q w))) = without t (set (i # js)) Q"
      using without_one [of Q w t i "set js"] wq.rep_distinct wait_invD(1) [OF Cons.prems(1), of w]
        wait_invD(2) [OF Cons.prems(1), of ?p] w by (auto simp: waiter_rep_def)
    obtain m2 where m2: "for_each_active_from nodes t (release_visit t t) (Some t) js m1 = Some m2"
      "wait_inv T X m2 (without t (set (i # js)) Q)" "only_pool t m1 m2"
      "slots m2 t = slots m1 t - set js" "\<forall>x. fst x \<noteq> t \<longrightarrow> same_node (nodes m1 x) (nodes m2 x)"
      using Cons.IH [OF m1(2) Cons.prems(2,3)] Cons.prems(4,5) unfolding q by auto
    have "same_node (nodes m x) (nodes m2 x)" if "fst x \<noteq> t" for x
    proof -
      have "x \<noteq> ?p" using that by auto
      then have "same_node (nodes m x) (nodes m1 x)" "same_node (nodes m1 x) (nodes m2 x)"
        using that m1(4) m2(5) by blast+
      then show ?thesis by (simp add: same_node_def)
    qed
    then show ?thesis using True g m1(1,3) m2(1-4) s1 only_pool_trans by (auto simp: Let_def)
  qed
qed

text \<open>The second pass takes the thread out of every queue and frees all its nodes.\<close>

lemma release_nodes_inv:
  assumes "wait_inv T X m Q" "t \<in> T" "t \<in> X"
  obtains m' where "release_nodes t t m = Some m'" "only_pool t m m'" "slots m' t = {}"
    "wait_inv T X m' (\<lambda>v. filter (\<lambda>p. fst p \<noteq> t) (Q v))"
    "\<forall>x. fst x \<noteq> t \<longrightarrow> same_node (nodes m x) (nodes m' x)"
proof -
  obtain m' where m': "release_nodes t t m = Some m'"
    "wait_inv T X m' (without t {0..<MAX_WAIT_NODES} Q)" "only_pool t m m'"
    "slots m' t = slots m t - {0..<MAX_WAIT_NODES}"
    "\<forall>x. fst x \<noteq> t \<longrightarrow> same_node (nodes m x) (nodes m' x)"
    using release_from_inv [OF assms, of "[0..<MAX_WAIT_NODES]"]
    unfolding release_nodes_def for_each_active_def by auto
  have "snd p < MAX_WAIT_NODES" if "p \<in> set (Q v)" for p v
    using wait_invD(2) [OF assms(1), of p v] that by (simp add: live_node_def)
  then have "without t {0..<MAX_WAIT_NODES} Q = (\<lambda>v. filter (\<lambda>p. fst p \<noteq> t) (Q v))"
    by (intro ext) (auto simp: without_def intro!: filter_cong)
  moreover have "slots m' t = {}" unfolding m'(4) by (auto simp: slots_def)
  ultimately show thesis using that m' by metis
qed

text \<open>The first pass: the waitables of the active slots, in slot order.\<close>

definition active_waitables :: "wmem \<Rightarrow> tcb_ptr \<Rightarrow> nat list \<Rightarrow> waitable_ptr list" where
  "active_waitables m t is =
     map (\<lambda>i. the (n_waitable (nodes m (t, i)))) (filter (\<lambda>i. n_active (nodes m (t, i))) is)"

lemma collect_from_eq:
  assumes inv: "wait_inv T X m Q" and t: "t \<in> T"
  shows "(\<And>i. i \<in> set is \<Longrightarrow> i < MAX_WAIT_NODES) \<Longrightarrow> length ws + length is \<le> MAX_WAIT_NODES \<Longrightarrow>
    for_each_active_from (\<lambda>s. nodes (fst s)) t (collect_visit t) (Some t) is (m, ws) =
      Some (m, ws @ active_waitables m t is)"
proof (induction "is" arbitrary: ws)
  case Nil
  then show ?case by (simp add: active_waitables_def)
next
  case (Cons i js)
  show ?case
  proof (cases "n_active (nodes m (t, i))")
    case False
    then show ?thesis using Cons by (simp add: active_waitables_def Let_def)
  next
    case True
    then have live: "live_node T m (t, i)" using t Cons.prems by (simp add: live_node_def)
    obtain w where w: "n_waitable (nodes m (t, i)) = Some w" "n_group (nodes m (t, i)) = Some t"
      using wait_invD(5) [OF inv live] by (auto simp: node_ok_def)
    show ?thesis
      using True w Cons.prems Cons.IH [of "ws @ [w]"]
      by (simp add: active_waitables_def Let_def collect_visit_def)
  qed
qed

lemma collect_waitables_eq:
  assumes inv: "wait_inv T X m Q" and t: "t \<in> T"
  shows "collect_waitables t t m = Some (active_waitables m t [0..<MAX_WAIT_NODES])"
  unfolding collect_waitables_def for_each_active_def
  using collect_from_eq [OF inv t, of "[0..<MAX_WAIT_NODES]" "[]"] by simp

lemma active_waitables_props:
  assumes inv: "wait_inv T X m Q" and t: "t \<in> T"
  shows "distinct (active_waitables m t [0..<MAX_WAIT_NODES])"
    and "nullptr \<notin> set (active_waitables m t [0..<MAX_WAIT_NODES])"
    and "length (active_waitables m t [0..<MAX_WAIT_NODES]) \<le> MAX_WAIT_NODES"
    and "set (active_waitables m t [0..<MAX_WAIT_NODES]) = {w. \<exists>i. (t, i) \<in> set (Q w)}"
proof -
  let ?is = "filter (\<lambda>i. n_active (nodes m (t, i))) [0..<MAX_WAIT_NODES]"
  have live: "live_node T m (t, i) \<longleftrightarrow> i \<in> set ?is" for i
    using t by (auto simp: live_node_def)
  have ok: "\<exists>w. n_waitable (nodes m (t, i)) = Some w \<and> w \<noteq> nullptr" if "i \<in> set ?is" for i
    using wait_invD(5) [OF inv, of "(t, i)"] live [of i] that by (auto simp: node_ok_def)
  have "inj_on (\<lambda>i. the (n_waitable (nodes m (t, i)))) (set ?is)"
    using ok live wait_invD(6) [OF inv] by (intro inj_onI) (metis fst_conv option.sel prod.inject)
  then show "distinct (active_waitables m t [0..<MAX_WAIT_NODES])"
    unfolding active_waitables_def by (simp add: distinct_map)
  show "nullptr \<notin> set (active_waitables m t [0..<MAX_WAIT_NODES])"
    using ok unfolding active_waitables_def by fastforce
  show "length (active_waitables m t [0..<MAX_WAIT_NODES]) \<le> MAX_WAIT_NODES"
    unfolding active_waitables_def using length_filter_le [of _ "[0..<MAX_WAIT_NODES]"] by simp
  show "set (active_waitables m t [0..<MAX_WAIT_NODES]) = {w. \<exists>i. (t, i) \<in> set (Q w)}"
    using ok live wait_invD(2) [OF inv] unfolding active_waitables_def
    by (auto simp: image_iff) (metis option.sel)+
qed

section \<open>New threads\<close>

lemma construct_TCB_eq:
  "construct_TCB A t tid pr aff st en m =
     m\<lparr>tcbs := (tcbs m)(t := ThreadControlBlock_init A t tid pr aff st en),
       nodes := snd (make_WaitNodePool t (nodes m)),
       waitables := (waitables m)(t + offsetof_termination A := Waitable_init)\<rparr>"
  by (simp add: construct_TCB_def ThreadControlBlock_init_def make_WaitNodePool_def Let_def)

text \<open>
  A thread built at an address where there was none: it has no wait nodes, and its termination
  waitable, on which nobody waited, is empty.
\<close>

lemma construct_TCB_inv:
  assumes inv: "wait_inv T X m Q" and fresh: "t \<notin> T" and q: "Q (t + offsetof_termination A) = []"
  shows "wait_inv (insert t T) X (construct_TCB A t tid pr aff st en m) Q"
proof -
  let ?m = "construct_TCB A t tid pr aff st en m"
  have nd: "nodes ?m p = (if fst p = t \<and> snd p < MAX_WAIT_NODES
      then WaitNode_init\<lparr>n_tcb := Some t, n_slot := of_nat (snd p)\<rparr> else nodes m p)" for p
    by (simp add: construct_TCB_eq make_WaitNodePool_def)
  have live: "live_node (insert t T) ?m p \<longleftrightarrow> live_node T m p" for p
    using fresh by (auto simp: live_node_def nd WaitNode_init_def)
  have old: "nodes ?m p = nodes m p" "tcbs ?m (fst p) = tcbs m (fst p)" if "live_node T m p" for p
    using that fresh by (auto simp: live_node_def nd) (auto simp: construct_TCB_eq)
  have inQ: "live_node T m p" if "p \<in> set (Q w)" for p w using that wait_invD(2) [OF inv] by blast
  have "waiter_rep (nodes ?m) (waitables ?m w) (Q w)" for w
  proof (cases "w = t + offsetof_termination A")
    case True
    then show ?thesis using q by (simp add: construct_TCB_eq waiter_rep_def Waitable_init_def wq.rep_empty)
  next
    case False
    then have "waitables ?m w = waitables m w" by (simp add: construct_TCB_eq)
    then show ?thesis
      using waiter_rep_cong [OF wait_invD(1) [OF inv, of w], of "nodes ?m"] old(1) inQ by simp
  qed
  moreover have "p \<in> set (Q w) \<longleftrightarrow> live_node (insert t T) ?m p \<and> n_waitable (nodes ?m p) = Some w" for p w
    unfolding live using wait_invD(2) [OF inv, of p w] old(1) [of p] by auto
  moreover have "wp_owner (t_wait_nodes (tcbs ?m x)) = x \<and> pool_inv (t_wait_nodes (tcbs ?m x), nodes ?m)"
    if "x \<in> insert t T" for x
  proof (cases "x = t")
    case True
    then show ?thesis using make_WaitNodePool_inv [of t "nodes m"]
      by (simp add: construct_TCB_eq ThreadControlBlock_init_def make_WaitNodePool_def)
  next
    case False
    then have "x \<in> T" "tcbs ?m x = tcbs m x" using that by (simp_all add: construct_TCB_eq)
    then show ?thesis
      using wait_invD(3,4) [OF inv] pool_inv_cong [of "t_wait_nodes (tcbs m x)" "nodes m" "nodes ?m"] False
      by (simp add: nd)
  qed
  moreover have "node_ok X ?m p" if "live_node (insert t T) ?m p" for p
    using wait_invD(5) [OF inv, of p] that old [of p] unfolding live by (simp add: node_ok_def)
  moreover have "p = r" if "live_node (insert t T) ?m p" "live_node (insert t T) ?m r" "fst p = fst r"
    "n_waitable (nodes ?m p) = n_waitable (nodes ?m r)" for p r
    using that old(1) wait_invD(6) [OF inv, of p r] unfolding live by simp
  ultimately show ?thesis unfolding wait_inv_def by blast
qed

lemma wait_inv_init:
  assumes "\<And>w. waitables m w = Waitable_init"
  shows "wait_inv {} X m (\<lambda>_. [])"
  using assms by (simp add: wait_inv_def live_node_def waiter_rep_def Waitable_init_def wq.rep_empty)

section \<open>Visiting waiters\<close>

lemma for_each_waiter_from_chain:
  assumes "chain (\<lambda>p. n_next (nodes m p)) pv b xs None"
    and "\<And>p. p \<in> set xs \<Longrightarrow> n_active (nodes m p) \<and> n_tcb (nodes m p) = Some (fst p)"
  shows "for_each_waiter_from (tcbs m) (nodes m) (first_or xs None) acc =
    Some (acc @ map (\<lambda>p. create_waiter (tcbs m (fst p))) (pending m xs))"
  using assms
proof (induction xs arbitrary: b acc)
  case Nil
  then show ?case by (subst for_each_waiter_from.simps) (simp add: pending_def)
next
  case (Cons p xs)
  have c: "n_next (nodes m p) = first_or xs None"
    "chain (\<lambda>p. n_next (nodes m p)) pv (Some p) xs None" using Cons.prems(1) by simp_all
  show ?case
    using Cons.IH [OF c(2)] Cons.prems(2)
    by (subst for_each_waiter_from.simps) (simp add: c(1) pending_def)
qed

text \<open>The visitor sees the waiters whose group is not satisfied, in queue order.\<close>

lemma for_each_waiter_rep:
  assumes inv: "wait_inv T X m Q"
  shows "for_each_waiter w m = Some (map (\<lambda>p. create_waiter (tcbs m (fst p))) (pending m (Q w)))"
proof -
  have r: "waiter_rep (nodes m) (waitables m w) (Q w)" using wait_invD(1) [OF inv] .
  then have c: "chain (\<lambda>p. n_next (nodes m p)) (\<lambda>p. n_prev (nodes m p)) None (Q w) None"
    and hd: "w_head (waitables m w) = first_or (Q w) None"
    by (simp_all add: waiter_rep_def wq.rep_def dll_def)
  have "n_active (nodes m p) \<and> n_tcb (nodes m p) = Some (fst p)" if "p \<in> set (Q w)" for p
    using that wait_invD(2) [OF inv, of p w] wait_inv_tcb(1) [OF inv] by (auto simp: live_node_def)
  from for_each_waiter_from_chain [OF c this, of "[]"] show ?thesis by (simp add: for_each_waiter_def hd)
qed

end
