(* ===== verification/Channel_Interface.thy ===== *)
theory Channel_Interface
  imports Main "HOL-Library.Monad_Syntax"
begin

text \<open>
  The contract between a scheduler and its inbox, as a locale: a bounded first-in first-out
  channel whose \<open>send\<close> reports whether there was room.  The client's view is a script of
  operations, whose results are those of a bounded list.
\<close>

datatype 'a chan_op = Send 'a | Receive
datatype 'a chan_result = Sent bool | Received "'a option"

text \<open>The specification: a list of at most \<open>cap\<close> elements.\<close>

fun chan_spec :: "nat \<Rightarrow> 'a chan_op list \<Rightarrow> 'a list \<Rightarrow> 'a chan_result list \<times> 'a list" where
  "chan_spec cap [] xs = ([], xs)"
| "chan_spec cap (Send v # ops) xs =
     (let (rs, ys) = chan_spec cap ops (if length xs < cap then xs @ [v] else xs)
      in (Sent (length xs < cap) # rs, ys))"
| "chan_spec cap (Receive # ops) xs =
     (let (rs, ys) = chan_spec cap ops (tl xs)
      in (Received (case xs of [] \<Rightarrow> None | x # _ \<Rightarrow> Some x) # rs, ys))"

text \<open>The same script on an implementation.\<close>

fun chan_run ::
  "('a \<Rightarrow> 's \<Rightarrow> (bool \<times> 's) option) \<Rightarrow> ('s \<Rightarrow> ('a option \<times> 's) option) \<Rightarrow> 'a chan_op list \<Rightarrow> 's
   \<Rightarrow> ('a chan_result list \<times> 's) option" where
  "chan_run sd rv [] s = Some ([], s)"
| "chan_run sd rv (Send v # ops) s = do {
     (ok, s') \<leftarrow> sd v s; (rs, s'') \<leftarrow> chan_run sd rv ops s'; Some (Sent ok # rs, s'') }"
| "chan_run sd rv (Receive # ops) s = do {
     (r, s') \<leftarrow> rv s; (rs, s'') \<leftarrow> chan_run sd rv ops s'; Some (Received r # rs, s'') }"

locale fifo_channel =
  fixes chan :: "nat \<Rightarrow> 's \<Rightarrow> 'a list \<Rightarrow> bool"
    and send :: "'a \<Rightarrow> 's \<Rightarrow> (bool \<times> 's) option"
    and receive :: "'s \<Rightarrow> ('a option \<times> 's) option"
    and capacity :: nat
    and limit :: nat
  assumes chan_bound: "chan n s xs \<Longrightarrow> length xs \<le> capacity"
    and send_room: "chan n s xs \<Longrightarrow> length xs < capacity \<Longrightarrow>
      \<exists>s'. send v s = Some (True, s') \<and> chan n s' (xs @ [v])"
    and send_full: "chan n s xs \<Longrightarrow> length xs = capacity \<Longrightarrow> send v s = Some (False, s)"
    and receive_empty: "chan n s [] \<Longrightarrow> receive s = Some (None, s)"
    and receive_next: "chan n s (x # xs) \<Longrightarrow> n < limit \<Longrightarrow>
      \<exists>s'. receive s = Some (Some x, s') \<and> chan (Suc n) s' xs"
begin

lemma chan_refines:
  "chan n s xs \<Longrightarrow> n + length ops \<le> limit \<Longrightarrow>
   \<exists>s' n'. chan_run send receive ops s = Some (fst (chan_spec capacity ops xs), s') \<and>
     chan n' s' (snd (chan_spec capacity ops xs)) \<and> n' \<le> n + length ops"
proof (induction ops arbitrary: n s xs)
  case Nil
  then show ?case by auto
next
  case (Cons op ops)
  show ?case
  proof (cases op)
    case (Send v)
    show ?thesis
    proof (cases "length xs < capacity")
      case True
      obtain s1 where s1: "send v s = Some (True, s1)" "chan n s1 (xs @ [v])"
        using send_room [OF Cons.prems(1) True] by blast
      obtain s2 n2 where "chan_run send receive ops s1 = Some (fst (chan_spec capacity ops (xs @ [v])), s2)"
        "chan n2 s2 (snd (chan_spec capacity ops (xs @ [v])))" "n2 \<le> n + length ops"
        using Cons.IH [OF s1(2)] Cons.prems(2) by auto
      then show ?thesis
        using s1 True Send by (intro exI [of _ s2] exI [of _ n2]) (simp add: case_prod_unfold Let_def)
    next
      case False
      then have "send v s = Some (False, s)"
        using send_full chan_bound Cons.prems(1) by (meson le_neq_implies_less)
      moreover obtain s2 n2 where "chan_run send receive ops s = Some (fst (chan_spec capacity ops xs), s2)"
        "chan n2 s2 (snd (chan_spec capacity ops xs))" "n2 \<le> n + length ops"
        using Cons.IH [OF Cons.prems(1)] Cons.prems(2) by auto
      ultimately show ?thesis
        using False Send by (intro exI [of _ s2] exI [of _ n2]) (simp add: case_prod_unfold Let_def)
    qed
  next
    case Receive
    show ?thesis
    proof (cases "xs = []")
      case True
      moreover obtain s2 n2 where "chan_run send receive ops s = Some (fst (chan_spec capacity ops xs), s2)"
        "chan n2 s2 (snd (chan_spec capacity ops xs))" "n2 \<le> n + length ops"
        using Cons.IH [OF Cons.prems(1)] Cons.prems(2) by auto
      ultimately show ?thesis
        using Receive Cons.prems(1) receive_empty [of n s]
        by (intro exI [of _ s2] exI [of _ n2]) (simp add: case_prod_unfold Let_def)
    next
      case False
      then obtain x ys where xs: "xs = x # ys" by (cases xs) auto
      obtain s1 where s1: "receive s = Some (Some x, s1)" "chan (Suc n) s1 ys"
        using receive_next [of n s x ys] Cons.prems xs by auto
      obtain s2 n2 where "chan_run send receive ops s1 = Some (fst (chan_spec capacity ops ys), s2)"
        "chan n2 s2 (snd (chan_spec capacity ops ys))" "n2 \<le> Suc n + length ops"
        using Cons.IH [OF s1(2)] Cons.prems(2) by auto
      then show ?thesis
        using s1 xs Receive by (intro exI [of _ s2] exI [of _ n2]) (simp add: case_prod_unfold Let_def)
    qed
  qed
qed

end

end
