(* ===== verification/Ring_Buffer.thy ===== *)
theory Ring_Buffer
  imports Cortos_Prelude Channel_Interface
begin

text \<open>
  mpsc_ring_buffer.hpp: the bounded ring buffer that carries cross-core requests.  This theory has
  the buffer and its operations as one core executes them without interference, and shows that
  they implement a bounded first-in first-out list; theory \<open>Ring_Buffer_SMP\<close> interleaves the
  atomic accesses of several producers and the consumer.

  The template argument \<open>N\<close> is the length of \<open>cells\<close>.  Positions and sequence numbers are 64-bit
  words that wrap; their difference is computed on \<^verbatim>\<open>intptr_t\<close>, where an overflow is undefined
  behaviour and therefore \<^const>\<open>None\<close>.
\<close>

section \<open>The buffer\<close>

record 'a Cell =
  sequence :: u64
  storage :: "'a option"

record 'a MpscRingBuffer =
  rb_head :: u64
  rb_tail :: u64
  cells :: "'a Cell list"

definition MpscRingBuffer_init :: "nat \<Rightarrow> 'a MpscRingBuffer" where
  "MpscRingBuffer_init N =
     \<lparr>rb_head = 0, rb_tail = 0, cells = map (\<lambda>i. \<lparr>sequence = of_nat i, storage = None\<rparr>) [0..<N]\<rparr>"

text \<open>\<^verbatim>\<open>position & mask\<close> with \<^verbatim>\<open>mask = N - 1\<close>\<close>

definition cell_index :: "nat \<Rightarrow> u64 \<Rightarrow> nat" where
  "cell_index N position = unat (position AND (of_nat N - 1))"

definition seq_diff :: "u64 \<Rightarrow> u64 \<Rightarrow> int option" where
  "seq_diff a b = do {
     let d = sint a - sint b;
     CORTOS_ASSERT (- (2 ^ 63) \<le> d \<and> d < 2 ^ 63);
     Some d }"

definition cell_at :: "'a MpscRingBuffer \<Rightarrow> u64 \<Rightarrow> 'a Cell" where
  "cell_at b position = cells b ! cell_index (length (cells b)) position"

definition set_cell :: "u64 \<Rightarrow> 'a Cell \<Rightarrow> 'a MpscRingBuffer \<Rightarrow> 'a MpscRingBuffer" where
  "set_cell position c b = b\<lparr>cells := (cells b)[cell_index (length (cells b)) position := c]\<rparr>"

definition approx_size :: "'a MpscRingBuffer \<Rightarrow> nat" where
  "approx_size b = (if rb_tail b \<le> rb_head b then unat (rb_head b - rb_tail b) else 0)"

text \<open>
  The loop of \<^verbatim>\<open>push\<close>.  Without interference the compare-exchange succeeds exactly when \<open>position\<close>
  is the head.
\<close>

partial_function (option) push_loop ::
  "'a \<Rightarrow> u64 \<Rightarrow> 'a MpscRingBuffer \<Rightarrow> (bool \<times> 'a MpscRingBuffer) option" where
  "push_loop v position b = do {
     diff \<leftarrow> seq_diff (sequence (cell_at b position)) position;
     (if diff = 0 then
        (if rb_head b = position then do {
           let b = b\<lparr>rb_head := position + 1\<rparr>;
           let b = set_cell position ((cell_at b position)\<lparr>storage := Some v\<rparr>) b;
           let b = set_cell position ((cell_at b position)\<lparr>sequence := position + 1\<rparr>) b;
           Some (True, b) }
         else push_loop v (rb_head b) b)
      else if diff < 0 then Some (False, b)
      else push_loop v (rb_head b) b)
   }"

definition push :: "'a \<Rightarrow> 'a MpscRingBuffer \<Rightarrow> (bool \<times> 'a MpscRingBuffer) option" where
  "push v b = push_loop v (rb_head b) b"

text \<open>
  \<^verbatim>\<open>pop\<close>: the item, when there is one.  Reading a cell whose storage holds no object would be
  undefined behaviour.
\<close>

definition pop :: "'a MpscRingBuffer \<Rightarrow> ('a option \<times> 'a MpscRingBuffer) option" where
  "pop b = do {
     let position = rb_tail b;
     diff \<leftarrow> seq_diff (sequence (cell_at b position)) (position + 1);
     (if diff = 0 then do {
        let b = b\<lparr>rb_tail := position + 1\<rparr>;
        item \<leftarrow> storage (cell_at b position);
        let b = set_cell position ((cell_at b position)\<lparr>storage := None\<rparr>) b;
        let b = set_cell position
                  ((cell_at b position)\<lparr>sequence := position + of_nat (length (cells b))\<rparr>) b;
        Some (Some item, b) }
      else Some (None, b))
   }"

text \<open>The destructor pops until the buffer is empty.\<close>

partial_function (option) ring_destroy :: "'a MpscRingBuffer \<Rightarrow> 'a MpscRingBuffer option" where
  "ring_destroy b = do {
     (r, b') \<leftarrow> pop b;
     (case r of None \<Rightarrow> Some b' | Some _ \<Rightarrow> ring_destroy b')
   }"

section \<open>Positions\<close>

text \<open>The capacities the template admits, less the degenerate capacity 1.\<close>

definition ring_capacity :: "nat \<Rightarrow> bool" where
  "ring_capacity N \<longleftrightarrow> (\<exists>e. N = 2 ^ e \<and> 0 < e \<and> e < 62)"

lemma ring_capacity_bounds: "ring_capacity N \<Longrightarrow> 2 \<le> N \<and> N < 2 ^ 62"
proof -
  assume "ring_capacity N"
  then obtain e where e: "N = 2 ^ e" "0 < e" "e < 62" by (auto simp: ring_capacity_def)
  have "(2::nat) ^ 1 \<le> 2 ^ e" using e by (intro power_increasing) auto
  moreover have "(2::nat) ^ e < 2 ^ 62" using e by (intro power_strict_increasing) auto
  ultimately show ?thesis using e by simp
qed

lemma cell_index_mod [ring_facts]:
  assumes "ring_capacity N" "p < 2 ^ 63"
  shows "cell_index N (of_nat p) = p mod N"
proof -
  obtain e where e: "N = 2 ^ e" "e < 62" using assms(1) by (auto simp: ring_capacity_def)
  have "(of_nat N :: u64) - 1 = mask e" using e by (simp add: mask_eq_exp_minus_1)
  then have "cell_index N (of_nat p) = unat (take_bit e (of_nat p :: u64))"
    by (simp add: cell_index_def take_bit_eq_mask)
  also have "\<dots> = take_bit e (unat (of_nat p :: u64))" by (simp add: unsigned_take_bit_eq)
  also have "unat (of_nat p :: u64) = p" using assms(2) by (simp add: unat_of_nat)
  finally show ?thesis using e by (simp add: take_bit_eq_mod)
qed

lemma sint_of_nat_small [ring_facts]:
  assumes "p < 2 ^ 63"
  shows "sint (of_nat p :: u64) = int p"
proof -
  have "sint (of_nat p :: u64) = signed_take_bit 63 (int p)" by (simp add: signed_of_nat)
  also have "\<dots> = int p" using assms by (intro signed_take_bit_int_eq_self) auto
  finally show ?thesis .
qed

lemma seq_diff_small [ring_facts]:
  assumes "p < 2 ^ 63" "q < 2 ^ 63"
  shows "seq_diff (of_nat p) (of_nat q) = Some (int p - int q)"
  using assms by (simp add: seq_diff_def sint_of_nat_small Let_def)

lemma mod_window_le:
  assumes "p \<le> q" "q < p + N" "p mod N = q mod (N::nat)"
  shows "p = q"
proof -
  have "N dvd q - p" using assms(1,3) by (metis mod_eq_dvd_iff_nat)
  then have "q - p = 0 \<or> N \<le> q - p" using dvd_imp_le by blast
  then show ?thesis using assms by linarith
qed

lemma mod_window_inj:
  assumes "p < q + N" "q < p + N" "p mod N = q mod (N::nat)"
  shows "p = q"
  using assms mod_window_le [of p q N] mod_window_le [of q p N] by (cases "p \<le> q") auto

section \<open>The buffer implements a bounded list\<close>

text \<open>
  \<open>ring_rep T b xs\<close>: \<open>T\<close> elements have been popped so far and the buffer holds \<open>xs\<close>, oldest first.
  The cell of position \<open>p\<close> carries sequence number \<open>p + 1\<close> while it holds the element pushed at
  \<open>p\<close>, and \<open>p\<close> when it is free for the producer of position \<open>p\<close>.  The bound on the positions keeps
  the signed difference in range; it is reached after more than \<open>2 ^ 62\<close> pops.
\<close>

definition ring_rep :: "nat \<Rightarrow> 'a MpscRingBuffer \<Rightarrow> 'a list \<Rightarrow> bool" where
  "ring_rep T b xs \<longleftrightarrow> (let N = length (cells b) in
     ring_capacity N \<and> T \<le> 2 ^ 62 \<and> rb_tail b = of_nat T \<and> rb_head b = of_nat (T + length xs) \<and>
     length xs \<le> N \<and>
     (\<forall>k < length xs. cells b ! ((T + k) mod N) = \<lparr>sequence = of_nat (T + k + 1), storage = Some (xs ! k)\<rparr>) \<and>
     (\<forall>k. length xs \<le> k \<longrightarrow> k < N \<longrightarrow> sequence (cells b ! ((T + k) mod N)) = of_nat (T + k)))"

lemma ring_repD:
  assumes "ring_rep T b xs"
  shows "ring_capacity (length (cells b))" "T \<le> 2 ^ 62" "rb_tail b = of_nat T"
    "rb_head b = of_nat (T + length xs)" "length xs \<le> length (cells b)"
    "k < length xs \<Longrightarrow> cells b ! ((T + k) mod length (cells b)) =
        \<lparr>sequence = of_nat (T + k + 1), storage = Some (xs ! k)\<rparr>"
    "length xs \<le> k \<Longrightarrow> k < length (cells b) \<Longrightarrow>
        sequence (cells b ! ((T + k) mod length (cells b))) = of_nat (T + k)"
    "T + length xs + length (cells b) < 2 ^ 63 + 2 ^ 62"
proof -
  show "ring_capacity (length (cells b))" "T \<le> 2 ^ 62" "rb_tail b = of_nat T"
    "rb_head b = of_nat (T + length xs)" "length xs \<le> length (cells b)"
    "k < length xs \<Longrightarrow> cells b ! ((T + k) mod length (cells b)) =
        \<lparr>sequence = of_nat (T + k + 1), storage = Some (xs ! k)\<rparr>"
    "length xs \<le> k \<Longrightarrow> k < length (cells b) \<Longrightarrow>
        sequence (cells b ! ((T + k) mod length (cells b))) = of_nat (T + k)"
    using assms unfolding ring_rep_def Let_def by blast+
  then show "T + length xs + length (cells b) < 2 ^ 63 + 2 ^ 62"
    using ring_capacity_bounds [of "length (cells b)"] by simp
qed

lemma ring_rep_init:
  assumes "ring_capacity N"
  shows "ring_rep 0 (MpscRingBuffer_init N) []"
  using assms by (simp add: ring_rep_def MpscRingBuffer_init_def)

text \<open>The head cell: free when there is room, still occupied by the oldest element when full.\<close>

lemma ring_head_sequence:
  assumes r: "ring_rep T b xs"
  defines "N \<equiv> length (cells b)"
  shows "sequence (cell_at b (rb_head b)) =
    of_nat (if length xs < N then T + length xs else T + 1)"
proof -
  have i: "cell_index N (rb_head b) = (T + length xs) mod N"
    unfolding ring_repD(4) [OF r] N_def
    using ring_repD(1,2,5) [OF r] ring_capacity_bounds [OF ring_repD(1) [OF r]]
    by (intro cell_index_mod) auto
  show ?thesis
  proof (cases "length xs < N")
    case True
    then show ?thesis using i ring_repD(7) [OF r, of "length xs"] by (simp add: cell_at_def N_def)
  next
    case False
    then have "length xs = N" using ring_repD(5) [OF r] by (simp add: N_def)
    moreover have "0 < N" using ring_capacity_bounds [OF ring_repD(1) [OF r]] unfolding N_def by linarith
    ultimately show ?thesis using i ring_repD(6) [OF r, of 0] by (simp add: cell_at_def N_def)
  qed
qed

lemma push_full:
  assumes r: "ring_rep T b xs" and full: "length xs = length (cells b)"
  shows "push v b = Some (False, b)"
proof -
  note N = ring_capacity_bounds [OF ring_repD(1) [OF r]]
  have sq: "sequence (cell_at b (rb_head b)) = of_nat (T + 1)"
    using ring_head_sequence [OF r] full by simp
  have "seq_diff (sequence (cell_at b (rb_head b))) (rb_head b) =
    Some (int (T + 1) - int (T + length xs))"
    unfolding sq unfolding ring_repD(4) [OF r] using N full ring_repD(2) [OF r]
    by (intro seq_diff_small) auto
  then show ?thesis using N full unfolding push_def by (subst push_loop.simps) simp
qed

lemma Cell_full_update: "c\<lparr>storage := v, sequence := n\<rparr> = (\<lparr>sequence = n, storage = v\<rparr> :: 'a Cell)"
  by (cases c) simp

lemma push_room_eq:
  assumes r: "ring_rep T b xs" and room: "length xs < length (cells b)"
  defines "N \<equiv> length (cells b)" and "H \<equiv> T + length xs"
  shows "push v b = Some (True, b\<lparr>rb_head := of_nat (H + 1),
    cells := (cells b)[H mod N := \<lparr>sequence = of_nat (H + 1), storage = Some v\<rparr>]\<rparr>)"
proof -
  note N = ring_capacity_bounds [OF ring_repD(1) [OF r]]
  have H: "rb_head b = of_nat H" "H < 2 ^ 63" using ring_repD(2,4) [OF r] N room by (auto simp: H_def)
  have i: "cell_index N (of_nat H) = H mod N"
    using cell_index_mod [OF ring_repD(1) [OF r]] H by (simp add: N_def)
  have lt: "H mod N < N" using N unfolding N_def by (intro mod_less_divisor) linarith
  have sq: "sequence (cell_at b (rb_head b)) = of_nat H"
    using ring_head_sequence [OF r] room by (simp add: H_def)
  have "seq_diff (sequence (cell_at b (rb_head b))) (rb_head b) = Some 0"
    unfolding sq unfolding H(1) using seq_diff_small [OF H(2) H(2)] by simp
  then have "push v b = (let b = b\<lparr>rb_head := of_nat H + 1\<rparr>;
      b = set_cell (of_nat H) ((cell_at b (of_nat H))\<lparr>storage := Some v\<rparr>) b;
      b = set_cell (of_nat H) ((cell_at b (of_nat H))\<lparr>sequence := of_nat H + 1\<rparr>) b in Some (True, b))"
    unfolding push_def by (subst push_loop.simps) (simp add: H(1))
  then show ?thesis
    using lt i
    by (simp add: set_cell_def cell_at_def Let_def N_def [symmetric] add.commute Cell_full_update)
qed

lemma push_room:
  assumes r: "ring_rep T b xs" and room: "length xs < length (cells b)"
  obtains b' where "push v b = Some (True, b')" "ring_rep T b' (xs @ [v])"
    "length (cells b') = length (cells b)"
proof -
  let ?N = "length (cells b)" and ?H = "T + length xs"
  let ?b = "b\<lparr>rb_head := of_nat (?H + 1),
    cells := (cells b)[?H mod ?N := \<lparr>sequence = of_nat (?H + 1), storage = Some v\<rparr>]\<rparr>"
  note N = ring_capacity_bounds [OF ring_repD(1) [OF r]]
  have ne: "(T + k) mod ?N \<noteq> ?H mod ?N" if "k < ?N" "k \<noteq> length xs" for k
    using mod_window_inj [of "T + k" ?H ?N] that room by auto
  have lt: "?H mod ?N < ?N" using N by (intro mod_less_divisor) linarith
  have "ring_rep T ?b (xs @ [v])"
    unfolding ring_rep_def Let_def
  proof (intro conjI allI impI)
    fix k assume k: "k < length (xs @ [v])"
    show "cells ?b ! ((T + k) mod length (cells ?b)) =
      \<lparr>sequence = of_nat (T + k + 1), storage = Some ((xs @ [v]) ! k)\<rparr>"
      using k ne [of k] lt room ring_repD(6) [OF r, of k] by (cases "k = length xs") (auto simp: nth_append)
  next
    fix k assume k: "length (xs @ [v]) \<le> k" "k < length (cells ?b)"
    show "sequence (cells ?b ! ((T + k) mod length (cells ?b))) = of_nat (T + k)"
      using k ne [of k] lt ring_repD(7) [OF r, of k] by simp
  qed (use ring_repD(1-4) [OF r] room in \<open>simp_all add: add.assoc\<close>)
  then show thesis by (rule that [OF push_room_eq [OF r room]]) simp
qed

lemma pop_empty:
  assumes r: "ring_rep T b []"
  shows "pop b = Some (None, b)"
proof -
  note N = ring_capacity_bounds [OF ring_repD(1) [OF r]]
  have T: "rb_tail b = of_nat T" "rb_head b = of_nat T" "T + 1 < 2 ^ 63"
    using ring_repD(2-4) [OF r] by auto
  have "sequence (cell_at b (of_nat T)) = of_nat T"
    using ring_head_sequence [OF r] N T(2) by (simp split: if_splits)
  then have "seq_diff (sequence (cell_at b (of_nat T))) (of_nat T + 1) = Some (-1)"
    using seq_diff_small [of T "T + 1"] T(3) by (simp add: add.commute)
  then show ?thesis by (simp add: pop_def T(1))
qed

lemma pop_nonempty_eq:
  assumes r: "ring_rep T b (x # xs)"
  defines "N \<equiv> length (cells b)"
  shows "pop b = Some (Some x, b\<lparr>rb_tail := of_nat (T + 1),
    cells := (cells b)[T mod N := \<lparr>sequence = of_nat (T + N), storage = None\<rparr>]\<rparr>)"
proof -
  note N = ring_capacity_bounds [OF ring_repD(1) [OF r]]
  have T: "rb_tail b = of_nat T" "T + 1 < 2 ^ 63" using ring_repD(2,3) [OF r] by auto
  have i: "cell_index N (of_nat T) = T mod N"
    using cell_index_mod [OF ring_repD(1) [OF r]] T by (simp add: N_def)
  have lt: "T mod N < N" using N unfolding N_def by (intro mod_less_divisor) linarith
  have c: "cell_at b (of_nat T) = \<lparr>sequence = of_nat (T + 1), storage = Some x\<rparr>"
    using ring_repD(6) [OF r, of 0] i by (simp add: cell_at_def N_def)
  have "seq_diff (of_nat (T + 1)) (of_nat T + 1) = Some 0"
    using seq_diff_small [OF T(2) T(2)] by (simp add: add.commute)
  then have d: "seq_diff (sequence (cell_at b (of_nat T))) (of_nat T + 1) = Some 0"
    unfolding c by simp
  have c': "cells b ! (T mod N) = \<lparr>sequence = of_nat (T + 1), storage = Some x\<rparr>"
    using c i by (simp add: cell_at_def N_def)
  have st: "storage (cell_at (b\<lparr>rb_tail := of_nat T + 1\<rparr>) (of_nat T)) = Some x"
    using c' i by (simp add: cell_at_def N_def)
  show ?thesis
    unfolding pop_def Let_def T(1) d using st lt i c'
    by (simp add: set_cell_def cell_at_def N_def [symmetric] add.commute)
qed

lemma pop_nonempty:
  assumes r: "ring_rep T b (x # xs)" and T: "T < 2 ^ 62"
  obtains b' where "pop b = Some (Some x, b')" "ring_rep (Suc T) b' xs"
    "length (cells b') = length (cells b)"
proof -
  let ?N = "length (cells b)"
  let ?b = "b\<lparr>rb_tail := of_nat (T + 1),
    cells := (cells b)[T mod ?N := \<lparr>sequence = of_nat (T + ?N), storage = None\<rparr>]\<rparr>"
  note N = ring_capacity_bounds [OF ring_repD(1) [OF r]]
  have lt: "T mod ?N < ?N" using N by (intro mod_less_divisor) linarith
  have ne: "(T + k) mod ?N \<noteq> T mod ?N" if "0 < k" "k < ?N" for k
    using mod_window_inj [of "T + k" T ?N] that by auto
  have "ring_rep (Suc T) ?b xs"
    unfolding ring_rep_def Let_def
  proof (intro conjI allI impI)
    fix k assume k: "k < length xs"
    show "cells ?b ! ((Suc T + k) mod length (cells ?b)) =
      \<lparr>sequence = of_nat (Suc T + k + 1), storage = Some (xs ! k)\<rparr>"
      using k ne [of "Suc k"] ring_repD(6) [OF r, of "Suc k"] ring_repD(5) [OF r] by simp
  next
    fix k assume k: "length xs \<le> k" "k < length (cells ?b)"
    show "sequence (cells ?b ! ((Suc T + k) mod length (cells ?b))) = of_nat (Suc T + k)"
    proof (cases "Suc k = ?N")
      case True
      then have "(Suc T + k) mod ?N = T mod ?N" by (metis add_Suc_shift mod_add_self2)
      moreover have "(of_nat (T + ?N) :: u64) = of_nat (Suc T + k)" using True by (metis add_Suc_shift)
      ultimately show ?thesis using lt by (simp del: of_nat_add of_nat_Suc)
    next
      case False
      then show ?thesis using k ne [of "Suc k"] ring_repD(7) [OF r, of "Suc k"] by simp
    qed
  qed (use ring_repD(1-5) [OF r] T in simp_all)
  then show thesis by (rule that [OF pop_nonempty_eq [OF r]]) simp
qed

lemma approx_size_rep:
  assumes r: "ring_rep T b xs"
  shows "approx_size b = length xs"
proof -
  note N = ring_capacity_bounds [OF ring_repD(1) [OF r]]
  have b: "T + length xs < 2 ^ 64" using ring_repD(2,5) [OF r] N by simp
  have "(of_nat T :: u64) \<le> of_nat (T + length xs)"
    using b by (simp add: word_le_nat_alt unat_of_nat del: of_nat_add)
  moreover have "(of_nat (T + length xs) :: u64) - of_nat T = of_nat (length xs)" by simp
  ultimately show ?thesis
    using b unfolding approx_size_def ring_repD(3,4) [OF r] by (simp add: unat_of_nat)
qed

text \<open>The destructor returns, with the buffer empty.\<close>

lemma ring_destroy_returns:
  "ring_rep T b xs \<Longrightarrow> T + length xs \<le> 2 ^ 62 \<Longrightarrow>
   \<exists>b'. ring_destroy b = Some b' \<and> ring_rep (T + length xs) b' []"
proof (induction xs arbitrary: T b)
  case Nil
  then show ?case by (subst ring_destroy.simps) (simp add: pop_empty)
next
  case (Cons x xs)
  obtain b' where b': "pop b = Some (Some x, b')" "ring_rep (Suc T) b' xs"
    using pop_nonempty [OF Cons.prems(1)] Cons.prems(2) by auto
  then show ?case using Cons.IH [OF b'(2)] Cons.prems by (subst ring_destroy.simps) simp
qed

section \<open>The inbox contract\<close>

text \<open>The capacity at which the scheduler instantiates the buffer (scheduler.hpp).\<close>

definition INBOX_CAP :: nat where "INBOX_CAP = 64"

definition inbox_rep :: "nat \<Rightarrow> 'a MpscRingBuffer \<Rightarrow> 'a list \<Rightarrow> bool" where
  "inbox_rep n b xs \<longleftrightarrow> ring_rep n b xs \<and> length (cells b) = INBOX_CAP"

lemma inbox_capacity: "ring_capacity INBOX_CAP"
  unfolding ring_capacity_def INBOX_CAP_def by (rule exI [of _ 6]) simp

lemma inbox_rep_init: "inbox_rep 0 (MpscRingBuffer_init INBOX_CAP) []"
  using ring_rep_init [OF inbox_capacity] by (simp add: inbox_rep_def MpscRingBuffer_init_def)

interpretation rb: fifo_channel inbox_rep push pop INBOX_CAP "2 ^ 62"
proof unfold_locales
  fix n and b :: "'a MpscRingBuffer" and xs x v
  show "inbox_rep n b xs \<Longrightarrow> length xs \<le> INBOX_CAP"
    using ring_repD(5) by (fastforce simp: inbox_rep_def)
  show "\<exists>s'. push v b = Some (True, s') \<and> inbox_rep n s' (xs @ [v])"
    if "inbox_rep n b xs" "length xs < INBOX_CAP"
    using that push_room [of n b xs v] by (auto simp: inbox_rep_def)
  show "inbox_rep n b xs \<Longrightarrow> length xs = INBOX_CAP \<Longrightarrow> push v b = Some (False, b)"
    by (rule push_full) (auto simp: inbox_rep_def)
  show "inbox_rep n b [] \<Longrightarrow> pop b = Some (None, b)"
    by (rule pop_empty) (auto simp: inbox_rep_def)
  show "\<exists>s'. pop b = Some (Some x, s') \<and> inbox_rep (Suc n) s' xs"
    if "inbox_rep n b (x # xs)" "n < 2 ^ 62"
    using that pop_nonempty [of n b x xs] by (auto simp: inbox_rep_def)
qed

text \<open>
  C16: any script of pushes and pops on a new inbox of 64 cells, of up to \<open>2 ^ 62\<close> operations,
  returns what the same script returns on a bounded list: a push succeeds exactly when fewer than
  64 elements are held, a pop yields the oldest element or reports emptiness; no signed difference
  overflows and no uninitialised cell is read, across all wrap-arounds of the index.
\<close>

theorem ring_buffer_refines_bounded_fifo:
  assumes "length ops \<le> 2 ^ 62"
  shows "\<exists>b' n'. chan_run push pop ops (MpscRingBuffer_init INBOX_CAP :: 'a MpscRingBuffer) =
      Some (fst (chan_spec INBOX_CAP ops []), b') \<and>
    ring_rep n' b' (snd (chan_spec INBOX_CAP ops [])) \<and>
    approx_size b' = length (snd (chan_spec INBOX_CAP ops []))"
  using rb.chan_refines [OF inbox_rep_init, of ops] assms approx_size_rep
  by (fastforce simp: inbox_rep_def)

theorem ring_buffer_refines_bounded_fifo_witness:
  "\<exists>b' n'. chan_run push pop [Send (7 :: u8), Send 9, Receive]
        (MpscRingBuffer_init INBOX_CAP :: u8 MpscRingBuffer) =
      Some ([Sent True, Sent True, Received (Some 7)], b') \<and>
    ring_rep n' b' [9] \<and> approx_size b' = 1"
  using ring_buffer_refines_bounded_fifo [of "[Send (7 :: u8), Send 9, Receive]"]
  by (simp add: INBOX_CAP_def)

lemma push_code: "push v b = (case seq_diff (sequence (cell_at b (rb_head b))) (rb_head b) of
    None \<Rightarrow> None
  | Some d \<Rightarrow> if d = 0 then Some (True, set_cell (rb_head b) \<lparr>sequence = rb_head b + 1, storage = Some v\<rparr>
                                        (b\<lparr>rb_head := rb_head b + 1\<rparr>))
      else if d < 0 then Some (False, b) else push v b)"
  unfolding push_def
  by (subst push_loop.simps)
     (cases "cell_index (length (cells b)) (rb_head b) < length (cells b)",
      auto simp: set_cell_def cell_at_def Cell_full_update Let_def not_less list_update_beyond
        split: option.split)

text \<open>
  C21: the template admits the capacity 1 (a power of two), but there a cell that holds an element
  for position \<open>p\<close> and a cell that is free for position \<open>p + 1\<close> carry the same sequence number: on
  a new buffer of one cell a second push succeeds and overwrites the first element, which is lost.
\<close>

theorem capacity_one_overwrites:
  "\<exists>b1 b2 b3. push (a :: 'a) (MpscRingBuffer_init 1) = Some (True, b1) \<and> push c b1 = Some (True, b2) \<and>
     approx_size b2 = 2 \<and> storage (cells b2 ! 0) = Some c \<and> pop b2 = Some (None, b3)"
proof -
  let ?b = "\<lambda>n (v :: 'a option). \<lparr>rb_head = n, rb_tail = 0, cells = [\<lparr>sequence = n, storage = v\<rparr>]\<rparr>"
  have i: "cell_index (Suc 0) n = 0" for n by (simp add: cell_index_def)
  have d: "seq_diff n n = Some 0" for n by (simp add: seq_diff_def)
  have p: "push v (?b n w) = Some (True, ?b (n + 1) (Some v))" for n v w
    by (subst push_code) (simp add: cell_at_def set_cell_def i d)
  have e: "pop (?b 2 (Some c)) = Some (None, ?b 2 (Some c))"
    by (simp add: pop_def cell_at_def i seq_diff_def)
  have "MpscRingBuffer_init 1 = ?b 0 None" by (simp add: MpscRingBuffer_init_def)
  then have "push a (MpscRingBuffer_init 1) = Some (True, ?b 1 (Some a))"
    "push c (?b 1 (Some a)) = Some (True, ?b 2 (Some c))"
    using p [of a 0 None] p [of c 1 "Some a"] by simp_all
  moreover have "approx_size (?b 2 (Some c)) = 2" by (simp add: approx_size_def)
  moreover have "storage (cells (?b 2 (Some c)) ! 0) = Some c" by simp
  ultimately show ?thesis using e by blast
qed

end
