(* ===== verification/Scheduler.thy ===== *)
theory Scheduler
  imports Waitables Ring_Buffer
begin

text \<open>
  scheduler.hpp/.cpp: the scheduler of one core.  Its operations work on the thread store and the
  scheduler's own state; what they ask of the port (a context switch, an interrupt to another
  core) is part of their result and is carried out in theory \<open>Kernel\<close>.
\<close>

section \<open>State\<close>

datatype CrossCoreRequest = SetThreadReady (rq_tcb: tcb_ptr)

definition IDLE_THREAD_ID :: u32 where "IDLE_THREAD_ID = 0"

record Scheduler =
  core_id :: nat
  pinned_thread_counter :: u32
  current_thread :: "tcb_ptr option"
  idle_thread :: "tcb_ptr option"
  idle_stack :: span
  ready_matrix :: ThreadReadyMatrix
  preempt_disable_depth :: u32
  inbox_poke_pending :: bool
  inbox :: "CrossCoreRequest MpscRingBuffer"

definition Scheduler_init :: "nat \<Rightarrow> span \<Rightarrow> Scheduler" where
  "Scheduler_init c stack =
     \<lparr>core_id = c, pinned_thread_counter = 0, current_thread = None, idle_thread = None,
      idle_stack = stack, ready_matrix = ThreadReadyMatrix_init, preempt_disable_depth = 0,
      inbox_poke_pending = False, inbox = MpscRingBuffer_init INBOX_CAP\<rparr>"

type_synonym sched_state = "tcb_heap \<times> Scheduler"

section \<open>Operations\<close>

definition current_thread_id :: "sched_state \<Rightarrow> u32" where
  "current_thread_id = (\<lambda>(h, s). case current_thread s of None \<Rightarrow> 0 | Some t \<Rightarrow> t_id (h t))"

definition current_thread_priority :: "sched_state \<Rightarrow> u8" where
  "current_thread_priority =
     (\<lambda>(h, s). case current_thread s of None \<Rightarrow> 0 | Some t \<Rightarrow> t_effective_priority (h t))"

definition pinned_thread_count :: "Scheduler \<Rightarrow> u32" where
  "pinned_thread_count s = pinned_thread_counter s"

definition pin_thread :: "tcb_ptr \<Rightarrow> sched_state \<Rightarrow> sched_state" where
  "pin_thread t = (\<lambda>(h, s).
     (h(t := (h t)\<lparr>t_pinned_core := core_id s\<rparr>),
      s\<lparr>pinned_thread_counter := pinned_thread_counter s + 1\<rparr>))"

definition sched_set_thread_ready :: "tcb_ptr \<Rightarrow> sched_state \<Rightarrow> sched_state option" where
  "sched_set_thread_ready t = (\<lambda>(h, s). do {
     CORTOS_ASSERT (t_pinned_core (h t) = core_id s);
     let h = tcb_set_state t Ready h;
     if idle_thread s = Some t then Some (h, s)
     else do {
       (h, m) \<leftarrow> enqueue_thread t (h, ready_matrix s);
       Some (h, s\<lparr>ready_matrix := m\<rparr>) }
   })"

partial_function (option) drain_inbox_loop :: "sched_state \<Rightarrow> sched_state option" where
  "drain_inbox_loop st = (case st of (h, s) \<Rightarrow> do {
     (r, b) \<leftarrow> pop (inbox s);
     let s = s\<lparr>inbox := b\<rparr>;
     (case r of
        None \<Rightarrow> Some (h, s)
      | Some (SetThreadReady t) \<Rightarrow> do {
          st' \<leftarrow> sched_set_thread_ready t (h, s);
          drain_inbox_loop st' })
   })"

definition drain_inbox :: "sched_state \<Rightarrow> sched_state option" where
  "drain_inbox = (\<lambda>(h, s). drain_inbox_loop (h, s\<lparr>inbox_poke_pending := False\<rparr>))"

text \<open>
  \<^verbatim>\<open>post_to_inbox\<close>: whether the request was accepted, and whether the owning core is to be
  interrupted.
\<close>

definition post_to_inbox :: "CrossCoreRequest \<Rightarrow> Scheduler \<Rightarrow> (bool \<times> bool \<times> Scheduler) option" where
  "post_to_inbox request s = do {
     (ok, b) \<leftarrow> push request (inbox s);
     let s = s\<lparr>inbox := b\<rparr>;
     if \<not> ok then Some (False, False, s)
     else if \<not> inbox_poke_pending s then Some (True, True, s\<lparr>inbox_poke_pending := True\<rparr>)
     else Some (True, False, s)
   }"

text \<open>\<^verbatim>\<open>start\<close> yields the thread whose context is entered first.\<close>

definition sched_start :: "sched_state \<Rightarrow> (tcb_ptr \<times> sched_state) option" where
  "sched_start = (\<lambda>(h, s). do {
     CORTOS_ASSERT (idle_thread s \<noteq> None);
     (r, h, m) \<leftarrow> pop_best_thread (h, ready_matrix s);
     first \<leftarrow> (case r of None \<Rightarrow> idle_thread s | Some t \<Rightarrow> Some t);
     CORTOS_ASSERT (t_state (h first) = Ready);
     let h = tcb_set_state first Running h;
     Some (first, h, s\<lparr>ready_matrix := m, current_thread := Some first\<rparr>)
   })"

text \<open>
  \<^verbatim>\<open>reschedule\<close> yields the thread switched from and the thread switched to.  A previous thread
  that is \<^const>\<open>Ready\<close> after the inbox was drained reaches \<^verbatim>\<open>__builtin_unreachable\<close>; a null idle
  thread would be dereferenced.
\<close>

definition reschedule :: "sched_state \<Rightarrow> (tcb_ptr \<times> tcb_ptr \<times> sched_state) option" where
  "reschedule = (\<lambda>(h, s). do {
     previous \<leftarrow> current_thread s;
     CORTOS_ASSERT (\<not> tcb_is_enqueued (h previous));
     CORTOS_ASSERT (t_state (h previous) \<noteq> Ready);
     (h, s) \<leftarrow> drain_inbox (h, s);
     (h, s) \<leftarrow> (case t_state (h previous) of
         Running \<Rightarrow> sched_set_thread_ready previous (h, s)
       | Blocked \<Rightarrow> Some (h, s)
       | Terminated \<Rightarrow> Some (h, s)
       | Ready \<Rightarrow> None);
     (r, h, m) \<leftarrow> pop_best_thread (h, ready_matrix s);
     next \<leftarrow> (case r of None \<Rightarrow> idle_thread s | Some t \<Rightarrow> Some t);
     let s = s\<lparr>ready_matrix := m, current_thread := Some next\<rparr>;
     let h = tcb_set_state next Running h;
     Some (previous, next, h, s)
   })"

definition disable_preemption :: "Scheduler \<Rightarrow> Scheduler" where
  "disable_preemption s = s\<lparr>preempt_disable_depth := preempt_disable_depth s + 1\<rparr>"

definition enable_preemption :: "Scheduler \<Rightarrow> Scheduler option" where
  "enable_preemption s = do {
     CORTOS_ASSERT (preempt_disable_depth s > 0);
     Some (s\<lparr>preempt_disable_depth := preempt_disable_depth s - 1\<rparr>) }"

definition sched_reset :: "Scheduler \<Rightarrow> Scheduler option" where
  "sched_reset s = do {
     CORTOS_ASSERT (approx_size (inbox s) = 0);
     CORTOS_ASSERT (matrix_empty (ready_matrix s));
     Some (s\<lparr>pinned_thread_counter := 0, inbox_poke_pending := False,
             preempt_disable_depth := 0, current_thread := None\<rparr>) }"

section \<open>Abstract state of a scheduler\<close>

text \<open>
  \<open>sched_rep n st L R\<close>: the ready matrix holds the lists \<open>L\<close>, the inbox the threads \<open>R\<close> that other
  cores have made ready (\<open>n\<close> requests were taken out before).  Every queued or requested thread is
  pinned to this core; requested threads are not yet queued; the idle thread and the current
  thread are in neither.
\<close>

definition sched_rep :: "nat \<Rightarrow> sched_state \<Rightarrow> ready_lists \<Rightarrow> tcb_ptr list \<Rightarrow> bool" where
  "sched_rep n = (\<lambda>(h, s) L R.
     matrix_rep h (ready_matrix s) L \<and>
     inbox_rep n (inbox s) (map SetThreadReady R) \<and> distinct R \<and>
     (\<forall>t \<in> members L \<union> set R. t_pinned_core (h t) = core_id s \<and>
        idle_thread s \<noteq> Some t \<and> current_thread s \<noteq> Some t) \<and>
     (\<forall>t \<in> set R. t \<notin> members L \<and> \<not> tcb_is_enqueued (h t) \<and>
        unat (t_effective_priority (h t)) < MAX_PRIORITIES) \<and>
     (\<forall>i. idle_thread s = Some i \<longrightarrow> t_pinned_core (h i) = core_id s \<and> \<not> tcb_is_enqueued (h i) \<and>
        unat (t_effective_priority (h i)) < MAX_PRIORITIES))"

text \<open>The lists after the threads \<open>ts\<close> have been made ready in this order.\<close>

definition enlist :: "tcb_heap \<Rightarrow> tcb_ptr list \<Rightarrow> ready_lists \<Rightarrow> ready_lists" where
  "enlist h ts L = (\<lambda>i. L i @ filter (\<lambda>t. tcb_level h t = i) ts)"

lemma enlist_Nil [simp]: "enlist h [] L = L"
  by (simp add: enlist_def)

lemma enlist_one: "enlist h [t] L = L(tcb_level h t := L (tcb_level h t) @ [t])"
  by (auto simp: enlist_def fun_eq_iff)

lemma enlist_append: "enlist h us (enlist h ts L) = enlist h (ts @ us) L"
  by (simp add: enlist_def fun_eq_iff)

lemma members_enlist: "members (enlist h ts L) = members L \<union> set ts"
  by (auto simp: members_def enlist_def)

text \<open>Thread stores that differ in links, and in the states of the threads \<open>S\<close> only.\<close>

definition evolves :: "tcb_ptr set \<Rightarrow> tcb_heap \<Rightarrow> tcb_heap \<Rightarrow> bool" where
  "evolves S h h' \<longleftrightarrow> (\<forall>x.
     (h' x)\<lparr>t_next := None, t_prev := None, t_state := Ready\<rparr> =
     (h x)\<lparr>t_next := None, t_prev := None, t_state := Ready\<rparr> \<and>
     (x \<notin> S \<longrightarrow> t_state (h' x) = t_state (h x)))"

lemma evolves_refl [simp]: "evolves S h h"
  by (simp add: evolves_def)

lemma evolves_trans: "evolves S h h' \<Longrightarrow> evolves S' h' h'' \<Longrightarrow> evolves (S \<union> S') h h''"
  by (simp add: evolves_def)

lemma evolves_mono: "evolves S h h' \<Longrightarrow> S \<subseteq> S' \<Longrightarrow> evolves S' h h'"
  by (auto simp: evolves_def)

lemma evolves_set_state: "evolves {t} h (tcb_set_state t s h)"
  by (simp add: evolves_def tcb_set_state_def)

lemma same_data_evolves: "same_data h h' \<Longrightarrow> evolves {} h h'"
  unfolding evolves_def
proof (intro allI conjI impI)
  fix x assume d: "same_data h h'"
  show "t_state (h' x) = t_state (h x)" using same_data_sel(1) [OF d] .
  have "(h' x)\<lparr>t_next := None, t_prev := None\<rparr> = (h x)\<lparr>t_next := None, t_prev := None\<rparr>"
    using d by (simp add: same_data_def)
  from arg_cong [OF this, of "t_state_update (\<lambda>_. Ready)"]
  show "(h' x)\<lparr>t_next := None, t_prev := None, t_state := Ready\<rparr> =
        (h x)\<lparr>t_next := None, t_prev := None, t_state := Ready\<rparr>" by simp
qed

lemma evolves_sel:
  assumes "evolves S h h'"
  shows "t_id (h' x) = t_id (h x)" "t_effective_priority (h' x) = t_effective_priority (h x)"
    "t_pinned_core (h' x) = t_pinned_core (h x)" "t_wait_group (h' x) = t_wait_group (h x)"
    "t_wait_nodes (h' x) = t_wait_nodes (h x)" "t_termination (h' x) = t_termination (h x)"
    "t_terminated (h' x) = t_terminated (h x)" "t_entry (h' x) = t_entry (h x)"
    "x \<notin> S \<Longrightarrow> t_state (h' x) = t_state (h x)" "tcb_level h' x = tcb_level h x"
proof -
  have e: "(h' x)\<lparr>t_next := None, t_prev := None, t_state := Ready\<rparr> =
           (h x)\<lparr>t_next := None, t_prev := None, t_state := Ready\<rparr>"
    using assms by (simp add: evolves_def)
  show "t_id (h' x) = t_id (h x)" using arg_cong [OF e, of t_id] by simp
  show p: "t_effective_priority (h' x) = t_effective_priority (h x)"
    using arg_cong [OF e, of t_effective_priority] by simp
  show "t_pinned_core (h' x) = t_pinned_core (h x)" using arg_cong [OF e, of t_pinned_core] by simp
  show "t_wait_group (h' x) = t_wait_group (h x)" using arg_cong [OF e, of t_wait_group] by simp
  show "t_wait_nodes (h' x) = t_wait_nodes (h x)" using arg_cong [OF e, of t_wait_nodes] by simp
  show "t_termination (h' x) = t_termination (h x)" using arg_cong [OF e, of t_termination] by simp
  show "t_terminated (h' x) = t_terminated (h x)" using arg_cong [OF e, of t_terminated] by simp
  show "t_entry (h' x) = t_entry (h x)" using arg_cong [OF e, of t_entry] by simp
  show "x \<notin> S \<Longrightarrow> t_state (h' x) = t_state (h x)" using assms by (simp add: evolves_def)
  show "tcb_level h' x = tcb_level h x" using p by (simp add: tcb_level_def)
qed

definition same_links :: "tcb_heap \<Rightarrow> tcb_heap \<Rightarrow> tcb_ptr \<Rightarrow> bool" where
  "same_links h h' x \<longleftrightarrow> t_next (h' x) = t_next (h x) \<and> t_prev (h' x) = t_prev (h x)"

lemma same_links_enqueued: "same_links h h' x \<Longrightarrow> tcb_is_enqueued (h' x) = tcb_is_enqueued (h x)"
  by (simp add: same_links_def tcb_is_enqueued_def)

lemma set_state_sel [simp]:
  "t_next (tcb_set_state t v h x) = t_next (h x)" "t_prev (tcb_set_state t v h x) = t_prev (h x)"
  "t_effective_priority (tcb_set_state t v h x) = t_effective_priority (h x)"
  "t_pinned_core (tcb_set_state t v h x) = t_pinned_core (h x)"
  "t_state (tcb_set_state t v h x) = (if x = t then v else t_state (h x))"
  by (simp_all add: tcb_set_state_def)

lemma set_state_level [simp]: "tcb_level (tcb_set_state t v h) x = tcb_level h x"
  by (simp add: tcb_level_def)

lemma set_state_enqueued [simp]: "tcb_is_enqueued (tcb_set_state t v h x) = tcb_is_enqueued (h x)"
  by (simp add: tcb_is_enqueued_def)

lemma matrix_rep_set_state:
  assumes "matrix_rep h m L" "t \<notin> members L"
  shows "matrix_rep (tcb_set_state t v h) m L"
  using assms by (auto intro!: matrix_rep_cong [of h m L "tcb_set_state t v h"])

section \<open>Making threads ready\<close>

lemma sched_set_thread_ready_rep:
  assumes m: "matrix_rep h (ready_matrix s) L" and pin: "t_pinned_core (h t) = core_id s"
    and idle: "idle_thread s \<noteq> Some t" and ne: "\<not> tcb_is_enqueued (h t)"
    and pr: "unat (t_effective_priority (h t)) < MAX_PRIORITIES" and fresh: "t \<notin> members L"
  obtains h' m' where "sched_set_thread_ready t (h, s) = Some (h', s\<lparr>ready_matrix := m'\<rparr>)"
    "matrix_rep h' m' (enlist h [t] L)" "evolves {t} h h'"
    "\<And>x. x \<notin> insert t (members L) \<Longrightarrow> same_links h h' x"
proof -
  let ?h = "tcb_set_state t Ready h"
  have m1: "matrix_rep ?h (ready_matrix s) L"
    using matrix_rep_set_state [OF m fresh] .
  obtain h' m' where e: "enqueue_thread t (?h, ready_matrix s) = Some (h', m')"
    and d: "same_data ?h h'" and rep: "matrix_rep h' m' (enlist h [t] L)"
    and fr: "\<And>x. x \<notin> insert t (members L) \<Longrightarrow> same_links ?h h' x"
    using enqueue_thread_rep [OF m1, of t] ne pr fresh
    unfolding enlist_one tcb_level_def same_links_def by auto
  have "sched_set_thread_ready t (h, s) = Some (h', s\<lparr>ready_matrix := m'\<rparr>)"
    using pin idle e by (simp add: sched_set_thread_ready_def Let_def)
  moreover have "evolves {t} h h'"
    using evolves_trans [OF evolves_set_state same_data_evolves [OF d]] by simp
  ultimately show thesis using rep fr by (intro that [of h' m']) (auto simp: same_links_def)
qed

text \<open>
  Draining the inbox terminates and makes every requested thread ready, in the order of the
  requests.
\<close>

lemma drain_inbox_loop_rep:
  assumes "matrix_rep h (ready_matrix s) L" "inbox_rep n (inbox s) (map SetThreadReady R)"
    and "distinct R" "n + length R \<le> 2 ^ 62"
    and "\<And>t. t \<in> set R \<Longrightarrow> t_pinned_core (h t) = core_id s \<and> idle_thread s \<noteq> Some t \<and>
      \<not> tcb_is_enqueued (h t) \<and> unat (t_effective_priority (h t)) < MAX_PRIORITIES \<and> t \<notin> members L"
  shows "\<exists>h' m' b'. drain_inbox_loop (h, s) = Some (h', s\<lparr>ready_matrix := m', inbox := b'\<rparr>) \<and>
    matrix_rep h' m' (enlist h R L) \<and> inbox_rep (n + length R) b' [] \<and> evolves (set R) h h' \<and>
    (\<forall>x. x \<notin> set R \<union> members L \<longrightarrow> same_links h h' x)"
  using assms
proof (induction R arbitrary: h s L n)
  case Nil
  then have "pop (inbox s) = Some (None, inbox s)" by (simp add: rb.receive_empty)
  then have "drain_inbox_loop (h, s) = Some (h, s)" by (subst drain_inbox_loop.simps) simp
  then show ?case using Nil
    by (intro exI [of _ h] exI [of _ "ready_matrix s"] exI [of _ "inbox s"]) (simp add: same_links_def)
next
  case (Cons t R)
  obtain b1 where b1: "pop (inbox s) = Some (Some (SetThreadReady t), b1)"
    "inbox_rep (Suc n) b1 (map SetThreadReady R)"
    using rb.receive_next [of n "inbox s" "SetThreadReady t" "map SetThreadReady R"] Cons.prems by auto
  let ?s = "s\<lparr>inbox := b1\<rparr>"
  obtain h1 m1 where r1: "sched_set_thread_ready t (h, ?s) = Some (h1, ?s\<lparr>ready_matrix := m1\<rparr>)"
    "matrix_rep h1 m1 (enlist h [t] L)" "evolves {t} h h1"
    "\<And>x. x \<notin> insert t (members L) \<Longrightarrow> same_links h h1 x"
    using sched_set_thread_ready_rep [of h ?s L t] Cons.prems by auto
  let ?s1 = "?s\<lparr>ready_matrix := m1\<rparr>"
  have keep: "t_pinned_core (h1 x) = core_id ?s1 \<and> idle_thread ?s1 \<noteq> Some x \<and>
      \<not> tcb_is_enqueued (h1 x) \<and> unat (t_effective_priority (h1 x)) < MAX_PRIORITIES \<and>
      x \<notin> members (enlist h [t] L)" if "x \<in> set R" for x
    using that Cons.prems(3) Cons.prems(5) [of x] same_links_enqueued [OF r1(4) [of x]]
      evolves_sel(2,3) [OF r1(3)] by (auto simp: members_enlist)
  have lvl: "tcb_level h1 = tcb_level h" using evolves_sel(10) [OF r1(3)] by auto
  then have en: "enlist h1 R (enlist h [t] L) = enlist h (t # R) L"
    using enlist_append [of h R "[t]" L] by (simp add: enlist_def)
  obtain h' m' b' where r2: "drain_inbox_loop (h1, ?s1) = Some (h', ?s1\<lparr>ready_matrix := m', inbox := b'\<rparr>)"
    "matrix_rep h' m' (enlist h (t # R) L)" "inbox_rep (Suc n + length R) b' []" "evolves (set R) h1 h'"
    "\<And>x. x \<notin> set R \<union> members (enlist h [t] L) \<Longrightarrow> same_links h1 h' x"
    using Cons.IH [of h1 ?s1 "enlist h [t] L" "Suc n"] r1(2) b1(2) Cons.prems(3,4) keep
    unfolding en by auto
  have "drain_inbox_loop (h, s) = Some (h', s\<lparr>ready_matrix := m', inbox := b'\<rparr>)"
    using b1(1) r1(1) r2(1) by (subst drain_inbox_loop.simps) simp
  moreover have "evolves (set (t # R)) h h'"
    using evolves_trans [OF r1(3) r2(4)] by simp
  moreover have "same_links h h' x" if "x \<notin> set (t # R) \<union> members L" for x
    using that r1(4) [of x] r2(5) [of x] by (auto simp: members_enlist same_links_def)
  ultimately show ?case using r2(2,3) by auto
qed

section \<open>Choosing the next thread\<close>

definition first_ready :: "ready_lists \<Rightarrow> tcb_ptr option" where
  "first_ready L = (case by_level MAX_PRIORITIES L of [] \<Rightarrow> None | t # _ \<Rightarrow> Some t)"

definition delist :: "tcb_ptr \<Rightarrow> ready_lists \<Rightarrow> ready_lists" where
  "delist t L = (\<lambda>i. remove1 t (L i))"

lemma delist_notin: "t \<notin> members L \<Longrightarrow> delist t L = L"
  by (auto simp: delist_def members_def fun_eq_iff remove1_idem)

lemma members_delist:
  assumes "matrix_rep h m L"
  shows "members (delist t L) = members L - {t}"
  using matrix_rep_distinct [OF assms] by (auto simp: delist_def members_def)

lemma set_by_level: "set (by_level n L) = (\<Union>i < n. set (L i))"
  by (auto simp: by_level_def)

lemma first_ready_member: "first_ready L = Some t \<Longrightarrow> t \<in> members L"
  using set_by_level [of MAX_PRIORITIES L]
  by (auto simp: first_ready_def members_def split: list.splits)

lemma first_ready_None:
  assumes "matrix_rep h m L"
  shows "first_ready L = None \<longleftrightarrow> members L = {}"
proof -
  have "members L = set (by_level MAX_PRIORITIES L)"
    using assms matrix_rep_member [OF assms] unfolding set_by_level members_def by auto
  then show ?thesis by (simp add: first_ready_def split: list.split)
qed

text \<open>The chosen thread has the best effective priority of all ready threads.\<close>

lemma first_ready_best:
  assumes m: "matrix_rep h m L" and f: "first_ready L = Some t" and x: "x \<in> members L"
  shows "tcb_level h t \<le> tcb_level h x"
proof -
  obtain ts where e: "by_level MAX_PRIORITIES L = t # ts"
    using f by (auto simp: first_ready_def split: list.splits)
  have lv: "\<And>i t. t \<in> set (L i) \<Longrightarrow> tcb_level h t = i"
    using matrix_rep_member [OF m] by (simp add: tcb_level_def)
  have "sorted (map (tcb_level h) (t # ts))"
    using by_level_sorted [of L "tcb_level h" MAX_PRIORITIES, OF lv] e by simp
  moreover have "x \<in> set (t # ts)"
    using x matrix_rep_member [OF m] unfolding e [symmetric] set_by_level members_def by auto
  ultimately show ?thesis by auto
qed

lemma pop_best_first:
  assumes m: "matrix_rep h m L"
  obtains h' m' where "pop_best_thread (h, m) = Some (first_ready L, h', m')" "same_data h h'"
    "matrix_rep h' m' (case first_ready L of None \<Rightarrow> L | Some t \<Rightarrow> delist t L)"
    "\<And>t. first_ready L = Some t \<Longrightarrow> \<not> tcb_is_enqueued (h' t)"
    "\<And>x. x \<notin> members L \<Longrightarrow> same_links h h' x"
proof (cases "members L = {}")
  case True
  then have "first_ready L = None" using first_ready_None [OF m] by simp
  then show thesis
    using pop_best_thread_empty [OF m True] m by (intro that [of h m]) (simp_all add: same_links_def)
next
  case False
  obtain i p h' m' where r: "pop_best_thread (h, m) = Some (Some p, h', m')"
    "i < MAX_PRIORITIES" "L i \<noteq> []" "\<And>j. j < i \<Longrightarrow> L j = []" "p = hd (L i)"
    "same_data h h'" "matrix_rep h' m' (L(i := tl (L i)))" "\<not> tcb_is_enqueued (h' p)"
    "\<And>x. x \<notin> members L \<Longrightarrow> same_links h h' x"
    using pop_best_thread_rep [OF m False] unfolding same_links_def by metis
  have Li: "L i = p # tl (L i)" using r(3,5) by simp
  have f: "first_ready L = Some p"
    using by_level_pop [of i _ L, OF r(2) Li r(4)] by (simp add: first_ready_def)
  have "p \<notin> set (L j)" if "j \<noteq> i" for j
    using matrix_rep_disjoint [OF m that] Li by (metis disjoint_iff list.set_intros(1))
  then have "delist p L j = (L(i := tl (L i))) j" for j
    using Li by (cases "j = i") (simp_all add: delist_def remove1_idem, metis remove1.simps(2))
  then have "delist p L = L(i := tl (L i))" by (rule ext)
  then show thesis using r f by (intro that [of h' m']) simp_all
qed

text \<open>The threads that compete at a reschedule: the requested ones, then a preempted one.\<close>

definition rotation :: "tcb_heap \<Rightarrow> Scheduler \<Rightarrow> tcb_ptr \<Rightarrow> tcb_ptr list" where
  "rotation h s p = (if t_state (h p) = Running \<and> idle_thread s \<noteq> Some p then [p] else [])"

definition next_thread :: "tcb_ptr \<Rightarrow> ready_lists \<Rightarrow> tcb_ptr" where
  "next_thread i L = (case first_ready L of None \<Rightarrow> i | Some t \<Rightarrow> t)"

text \<open>
  The step of \<^const>\<open>reschedule\<close> after the inbox is empty: a running thread goes to the back of its
  level, unless it is the idle thread.
\<close>

lemma rotate_rep:
  assumes m: "matrix_rep h (ready_matrix s) L" and p: "p \<notin> members L" "\<not> tcb_is_enqueued (h p)"
    and pin: "t_pinned_core (h p) = core_id s" and pr: "unat (t_effective_priority (h p)) < MAX_PRIORITIES"
    and run: "t_state (h p) = Running"
  obtains h' m' where "sched_set_thread_ready p (h, s) = Some (h', s\<lparr>ready_matrix := m'\<rparr>)"
    "matrix_rep h' m' (enlist h (rotation h s p) L)" "evolves {p} h h'"
    "\<And>x. x \<notin> set (rotation h s p) \<union> members L \<Longrightarrow> same_links h h' x" "t_state (h' p) = Ready"
proof (cases "idle_thread s = Some p")
  case True
  have m1: "matrix_rep (tcb_set_state p Ready h) (ready_matrix s) L"
    using matrix_rep_set_state [OF m p(1)] .
  have "sched_set_thread_ready p (h, s) =
      Some (tcb_set_state p Ready h, s\<lparr>ready_matrix := ready_matrix s\<rparr>)"
    using True pin by (simp add: sched_set_thread_ready_def Let_def)
  then show thesis
    by (rule that)
       (use m1 True in \<open>simp_all add: rotation_def evolves_set_state same_links_def\<close>)
next
  case False
  then have rot: "rotation h s p = [p]" using run by (simp add: rotation_def)
  obtain h' m' where r: "sched_set_thread_ready p (h, s) = Some (h', s\<lparr>ready_matrix := m'\<rparr>)"
    "matrix_rep h' m' (enlist h [p] L)" "evolves {p} h h'"
    "\<And>x. x \<notin> insert p (members L) \<Longrightarrow> same_links h h' x"
    using sched_set_thread_ready_rep [OF m pin False p(2) pr p(1)] by blast
  have "p \<in> set (enlist h [p] L (tcb_level h p))" by (simp add: enlist_one)
  then have "t_state (h' p) = Ready" using matrix_rep_member [OF r(2)] by blast
  then show thesis using r rot by (intro that [of h' m']) simp_all
qed

text \<open>
  What a scheduler keeps of its current thread: it is pinned to this core, has a legal priority
  and is in no ready queue.
\<close>

definition current_ok :: "sched_state \<Rightarrow> tcb_ptr \<Rightarrow> bool" where
  "current_ok = (\<lambda>(h, s) p. current_thread s = Some p \<and> \<not> tcb_is_enqueued (h p) \<and>
     t_pinned_core (h p) = core_id s \<and> unat (t_effective_priority (h p)) < MAX_PRIORITIES)"

lemma reschedule_decompose:
  assumes "current_thread s = Some p" "\<not> tcb_is_enqueued (h p)" "t_state (h p) \<noteq> Ready"
    and "drain_inbox (h, s) = Some (h1, s1)" "t_state (h1 p) = t_state (h p)"
    and "t_state (h p) = Running \<Longrightarrow> sched_set_thread_ready p (h1, s1) = Some (h2, s2)"
    and "t_state (h p) \<noteq> Running \<Longrightarrow> (h2, s2) = (h1, s1)"
    and "pop_best_thread (h2, ready_matrix s2) = Some (r, h3, m3)" "idle_thread s2 = Some i"
  shows "reschedule (h, s) = Some (p, (case r of None \<Rightarrow> i | Some t \<Rightarrow> t),
    tcb_set_state (case r of None \<Rightarrow> i | Some t \<Rightarrow> t) Running h3,
    s2\<lparr>ready_matrix := m3, current_thread := Some (case r of None \<Rightarrow> i | Some t \<Rightarrow> t)\<rparr>)"
  using assms by (cases "t_state (h p)"; cases r) (auto simp: reschedule_def Let_def)

lemma reschedule_rep:
  assumes rep: "sched_rep n (h, s) L R" and n: "n + length R \<le> 2 ^ 62"
    and cur: "current_ok (h, s) p" and idle: "idle_thread s = Some i"
    and st: "t_state (h p) \<noteq> Ready"
  defines "L' \<equiv> enlist h (R @ rotation h s p) L"
  obtains h' s' where "reschedule (h, s) = Some (p, next_thread i L', h', s')"
    "matrix_rep h' (ready_matrix s') (delist (next_thread i L') L')"
    "inbox_rep (n + length R) (inbox s') []" "s' = s\<lparr>ready_matrix := ready_matrix s',
        inbox := inbox s', inbox_poke_pending := False, current_thread := Some (next_thread i L')\<rparr>"
    "evolves (insert p (insert (next_thread i L') (set R))) h h'"
    "t_state (h' (next_thread i L')) = Running"
    "\<not> tcb_is_enqueued (h' (next_thread i L'))"
    "\<And>x. x \<notin> members L' \<Longrightarrow> same_links h h' x"
    "next_thread i L' \<noteq> p \<Longrightarrow>
       t_state (h' p) = (if t_state (h p) = Running then Ready else t_state (h p))"
proof -
  let ?s0 = "s\<lparr>inbox_poke_pending := False\<rparr>"
  have c: "current_thread s = Some p" "\<not> tcb_is_enqueued (h p)" "t_pinned_core (h p) = core_id s"
    "unat (t_effective_priority (h p)) < MAX_PRIORITIES" using cur by (auto simp: current_ok_def)
  have m: "matrix_rep h (ready_matrix s) L" and ib: "inbox_rep n (inbox s) (map SetThreadReady R)"
    and dR: "distinct R" using rep by (auto simp: sched_rep_def)
  have pL: "p \<notin> members L" "p \<notin> set R" using rep c(1) by (auto simp: sched_rep_def)
  have iL: "i \<notin> members L" "i \<notin> set R" "\<not> tcb_is_enqueued (h i)" using rep idle by (auto simp: sched_rep_def)
  have R: "t_pinned_core (h t) = core_id ?s0 \<and> idle_thread ?s0 \<noteq> Some t \<and>
      \<not> tcb_is_enqueued (h t) \<and> unat (t_effective_priority (h t)) < MAX_PRIORITIES \<and> t \<notin> members L"
    if "t \<in> set R" for t using rep that by (auto simp: sched_rep_def)
  obtain h1 m1 b1 where d: "drain_inbox (h, s) = Some (h1, ?s0\<lparr>ready_matrix := m1, inbox := b1\<rparr>)"
    "matrix_rep h1 m1 (enlist h R L)" "inbox_rep (n + length R) b1 []" "evolves (set R) h h1"
    "\<And>x. x \<notin> set R \<union> members L \<Longrightarrow> same_links h h1 x"
    using drain_inbox_loop_rep [of h ?s0 L n R] m ib dR n R unfolding drain_inbox_def by auto
  let ?s1 = "?s0\<lparr>ready_matrix := m1, inbox := b1\<rparr>"
  have st1: "t_state (h1 p) = t_state (h p)" using evolves_sel(9) [OF d(4)] pL by simp
  have rot: "rotation h1 ?s1 p = rotation h s p" using st1 by (simp add: rotation_def)
  have lv: "enlist h1 = enlist h"
    using evolves_sel(10) [OF d(4)] by (auto simp: enlist_def fun_eq_iff)
  have enl: "enlist h1 (rotation h1 ?s1 p) (enlist h R L) = L'"
    unfolding lv rot L'_def using enlist_append by simp
  obtain h2 m2 where r2: "t_state (h p) = Running \<Longrightarrow>
        sched_set_thread_ready p (h1, ?s1) = Some (h2, ?s1\<lparr>ready_matrix := m2\<rparr>)"
    "t_state (h p) \<noteq> Running \<Longrightarrow> h2 = h1 \<and> m2 = m1"
    "matrix_rep h2 m2 L'" "evolves {p} h1 h2"
    "\<And>x. x \<notin> members L' \<Longrightarrow> same_links h1 h2 x"
    "t_state (h2 p) = (if t_state (h p) = Running then Ready else t_state (h p))"
  proof (cases "t_state (h p) = Running")
    case True
    have pm: "p \<notin> members (enlist h R L)" using pL by (simp add: members_enlist)
    have pe: "\<not> tcb_is_enqueued (h1 p)" using same_links_enqueued [OF d(5) [of p]] pL c(2) by simp
    have pp: "t_pinned_core (h1 p) = core_id ?s1" "unat (t_effective_priority (h1 p)) < MAX_PRIORITIES"
      using evolves_sel(2,3) [OF d(4)] c by simp_all
    have m1': "matrix_rep h1 (ready_matrix ?s1) (enlist h R L)" using d(2) by simp
    have run1: "t_state (h1 p) = Running" using st1 True by simp
    obtain h2 m2 where "sched_set_thread_ready p (h1, ?s1) = Some (h2, ?s1\<lparr>ready_matrix := m2\<rparr>)"
      "matrix_rep h2 m2 L'" "evolves {p} h1 h2"
      "\<And>x. x \<notin> set (rotation h1 ?s1 p) \<union> members (enlist h R L) \<Longrightarrow> same_links h1 h2 x"
      "t_state (h2 p) = Ready"
      using rotate_rep [OF m1' pm pe pp run1] unfolding enl by blast
    then show thesis using True rot by (intro that [of h2 m2]) (auto simp: L'_def members_enlist)
  next
    case False
    then have "L' = enlist h R L" by (simp add: L'_def rotation_def)
    then show thesis using d(2) False st1 by (intro that [of h1 m1]) (simp_all add: same_links_def)
  qed
  let ?n = "next_thread i L'"
  obtain h3 m3 where r3: "pop_best_thread (h2, m2) = Some (first_ready L', h3, m3)" "same_data h2 h3"
    "matrix_rep h3 m3 (case first_ready L' of None \<Rightarrow> L' | Some t \<Rightarrow> delist t L')"
    "\<And>t. first_ready L' = Some t \<Longrightarrow> \<not> tcb_is_enqueued (h3 t)"
    "\<And>x. x \<notin> members L' \<Longrightarrow> same_links h2 h3 x"
    using pop_best_first [OF r2(3)] by blast
  have iL': "i \<notin> members L'" using iL idle c by (auto simp: L'_def members_enlist rotation_def)
  have m3: "matrix_rep h3 m3 (delist ?n L')"
    using r3(3) iL' by (cases "first_ready L'") (simp_all add: next_thread_def delist_notin)
  have nd: "?n \<notin> members (delist ?n L')" using members_delist [OF r2(3)] by simp
  have lk: "same_links h h3 x" if "x \<notin> members L'" for x
    using that d(5) [of x] r2(5) [of x] r3(5) [of x] by (auto simp: same_links_def L'_def members_enlist)
  have ev: "evolves (insert p (set R)) h h3"
    using evolves_trans [OF evolves_trans [OF d(4) r2(4)] same_data_evolves [OF r3(2)]] by simp
  let ?s3 = "?s1\<lparr>ready_matrix := m3, current_thread := Some ?n\<rparr>"
  have "reschedule (h, s) = Some (p, ?n, tcb_set_state ?n Running h3, ?s3)"
    using reschedule_decompose [OF c(1,2) st d(1) st1, of h2 "?s1\<lparr>ready_matrix := m2\<rparr>"
        "first_ready L'" h3 m3 i] r2(1,2) r3(1) idle
    by (cases "t_state (h p) = Running") (simp_all add: next_thread_def)
  moreover have "matrix_rep (tcb_set_state ?n Running h3) (ready_matrix ?s3) (delist ?n L')"
    using matrix_rep_set_state [OF m3 nd] by simp
  moreover have "inbox_rep (n + length R) (inbox ?s3) []" using d(3) by simp
  moreover have "evolves (insert p (insert ?n (set R))) h (tcb_set_state ?n Running h3)"
    using evolves_trans [OF ev evolves_set_state] by (rule evolves_mono) auto
  moreover have "\<not> tcb_is_enqueued (tcb_set_state ?n Running h3 ?n)"
    using r3(4) same_links_enqueued [OF lk [OF iL']] iL(3)
    by (cases "first_ready L'") (simp_all add: next_thread_def)
  moreover have "t_state (tcb_set_state ?n Running h3 p) =
      (if t_state (h p) = Running then Ready else t_state (h p))" if "?n \<noteq> p"
    using that r2(6) same_data_sel(1) [OF r3(2)] by simp
  moreover have "same_links h (tcb_set_state ?n Running h3) x" if "x \<notin> members L'" for x
    using lk [OF that] by (simp add: same_links_def)
  moreover have "?s3 = s\<lparr>ready_matrix := ready_matrix ?s3, inbox := inbox ?s3,
      inbox_poke_pending := False, current_thread := Some ?n\<rparr>" by simp
  moreover have "t_state (tcb_set_state ?n Running h3 ?n) = Running" by simp
  ultimately show thesis by (intro that [of "tcb_set_state ?n Running h3" ?s3])
qed

lemma current_not_listed:
  "sched_rep n (h, s) L R \<Longrightarrow> current_thread s = Some p \<Longrightarrow> p \<notin> members L \<and> p \<notin> set R"
  by (auto simp: sched_rep_def)

text \<open>A reschedule keeps the scheduler's representation, with an empty inbox.\<close>

lemma reschedule_keeps:
  assumes rep: "sched_rep n (h, s) L R" and n: "n + length R \<le> 2 ^ 62"
    and cur: "current_ok (h, s) p" and idle: "idle_thread s = Some i" and st: "t_state (h p) \<noteq> Ready"
  defines "L' \<equiv> enlist h (R @ rotation h s p) L"
  obtains h' s' where "reschedule (h, s) = Some (p, next_thread i L', h', s')"
    "sched_rep (n + length R) (h', s') (delist (next_thread i L') L') []"
    "current_ok (h', s') (next_thread i L')" "idle_thread s' = Some i"
    "t_state (h' (next_thread i L')) = Running"
    "core_id s' = core_id s \<and> preempt_disable_depth s' = preempt_disable_depth s"
    "evolves (insert p (insert (next_thread i L') (set R))) h h'"
    "\<And>x. x \<notin> members L' \<Longrightarrow> same_links h h' x"
    "next_thread i L' \<noteq> p \<Longrightarrow>
       t_state (h' p) = (if t_state (h p) = Running then Ready else t_state (h p))"
proof -
  let ?n = "next_thread i L'"
  obtain h' s' where r: "reschedule (h, s) = Some (p, ?n, h', s')"
    "matrix_rep h' (ready_matrix s') (delist ?n L')"
    "inbox_rep (n + length R) (inbox s') []" "s' = s\<lparr>ready_matrix := ready_matrix s',
        inbox := inbox s', inbox_poke_pending := False, current_thread := Some ?n\<rparr>"
    "evolves (insert p (insert ?n (set R))) h h'" "t_state (h' ?n) = Running"
    "\<not> tcb_is_enqueued (h' ?n)" "\<And>x. x \<notin> members L' \<Longrightarrow> same_links h h' x"
    "?n \<noteq> p \<Longrightarrow> t_state (h' p) = (if t_state (h p) = Running then Ready else t_state (h p))"
    using reschedule_rep [OF rep n cur idle st, folded L'_def] by blast
  have sel: "core_id s' = core_id s" "idle_thread s' = idle_thread s" "current_thread s' = Some ?n"
    "preempt_disable_depth s' = preempt_disable_depth s"
    by (subst r(4), simp)+
  have L': "members L' = members L \<union> set R \<union> set (rotation h s p)"
    by (auto simp: L'_def members_enlist)
  have pin: "t_pinned_core (h' x) = core_id s" "idle_thread s \<noteq> Some x" if "x \<in> members L'" for x
    using that rep cur evolves_sel(3) [OF r(5)] unfolding L'
    by (auto simp: sched_rep_def current_ok_def rotation_def split: if_splits)
  have prio: "unat (t_effective_priority (h x)) < MAX_PRIORITIES" if "x \<in> members L'" for x
    using that rep cur matrix_rep_member [of h "ready_matrix s" L x] unfolding L'
    by (auto simp: sched_rep_def current_ok_def rotation_def members_def split: if_splits)
  have i: "i \<notin> members L'" "t_pinned_core (h' i) = core_id s" "\<not> tcb_is_enqueued (h' i)"
    "unat (t_effective_priority (h' i)) < MAX_PRIORITIES"
    using pin(2) [of i] idle rep same_links_enqueued [OF r(8) [of i]] evolves_sel(2,3) [OF r(5)]
    by (auto simp: sched_rep_def)
  have nx: "?n = i \<or> ?n \<in> members L'"
    using first_ready_member by (auto simp: next_thread_def split: option.splits)
  have dm: "members (delist ?n L') \<subseteq> members L'"
    using set_remove1_subset [of ?n] by (fastforce simp: delist_def members_def)
  have nd: "?n \<notin> members (delist ?n L')"
  proof (cases "?n = i")
    case True then show ?thesis using i(1) dm by auto
  next
    case False
    then have "first_ready L' = Some ?n" by (simp add: next_thread_def split: option.splits)
    then show ?thesis using matrix_rep_member [OF r(2)] r(6) by (auto simp: members_def)
  qed
  have "sched_rep (n + length R) (h', s') (delist ?n L') []"
    using r(2,3) pin dm i nd by (auto simp: sched_rep_def sel idle)
  moreover have "current_ok (h', s') ?n"
    using nx r(7) pin(1) [of ?n] i prio [of ?n] evolves_sel(2) [OF r(5), of ?n]
    by (auto simp: current_ok_def sel)
  ultimately show thesis using r sel idle by (intro that [of h' s']) simp_all
qed

text \<open>No competing thread has a better effective priority than the one chosen.\<close>

lemma next_thread_best:
  assumes rep: "sched_rep n (h, s) L R" and cur: "current_ok (h, s) p"
    and t: "t \<in> members (enlist h (R @ rotation h s p) L)"
  shows "tcb_level h (next_thread i (enlist h (R @ rotation h s p) L)) \<le> tcb_level h t"
    and "next_thread i (enlist h (R @ rotation h s p) L) \<in> members (enlist h (R @ rotation h s p) L)"
proof -
  let ?L = "enlist h (R @ rotation h s p) L"
  have lv: "\<And>j t. t \<in> set (?L j) \<Longrightarrow> tcb_level h t = j"
    using rep matrix_rep_member [of h "ready_matrix s" L] by (auto simp: enlist_def sched_rep_def tcb_level_def)
  have "tcb_level h t < MAX_PRIORITIES"
    using t rep cur matrix_rep_member [of h "ready_matrix s" L t] unfolding members_enlist
    by (auto simp: sched_rep_def current_ok_def rotation_def members_def tcb_level_def split: if_splits)
  then have "t \<in> set (by_level MAX_PRIORITIES ?L)"
    using t lv unfolding set_by_level members_def by auto
  then obtain x xs where e: "by_level MAX_PRIORITIES ?L = x # xs" and "t \<in> set (x # xs)"
    by (cases "by_level MAX_PRIORITIES ?L") auto
  moreover have "sorted (map (tcb_level h) (x # xs))"
    using by_level_sorted [of ?L "tcb_level h" MAX_PRIORITIES, OF lv] e by simp
  ultimately show "tcb_level h (next_thread i ?L) \<le> tcb_level h t" by (auto simp: next_thread_def first_ready_def)
  show "next_thread i ?L \<in> members ?L"
    using first_ready_member [of ?L x] e by (simp add: next_thread_def first_ready_def)
qed

text \<open>
  C17: on a scheduler whose data is consistent, \<^const>\<open>reschedule\<close> succeeds from every current
  thread that is not \<^const>\<open>Ready\<close>.  First the threads requested by other cores join the ready
  lists in the order of their requests, then a running thread that is not the idle thread goes to
  the back of its priority level; the thread switched to is the head of the best non-empty level,
  or the idle thread when there is none.  It is \<^const>\<open>Running\<close>, is out of all queues, and no
  competing thread has a better effective priority; the scheduler stays consistent with an empty
  inbox.
\<close>

theorem reschedule_selects_best:
  assumes rep: "sched_rep n (h, s) L R" and n: "n + length R \<le> 2 ^ 62"
    and cur: "current_ok (h, s) p" and idle: "idle_thread s = Some i" and st: "t_state (h p) \<noteq> Ready"
  shows "\<exists>nxt h' s'. reschedule (h, s) = Some (p, nxt, h', s') \<and>
    nxt = next_thread i (enlist h (R @ rotation h s p) L) \<and>
    t_state (h' nxt) = Running \<and> current_ok (h', s') nxt \<and>
    sched_rep (n + length R) (h', s') (delist nxt (enlist h (R @ rotation h s p) L)) [] \<and>
    (\<forall>t \<in> members L \<union> set R \<union> set (rotation h s p). tcb_level h nxt \<le> tcb_level h t)"
proof -
  let ?L = "enlist h (R @ rotation h s p) L"
  obtain h' s' where r: "reschedule (h, s) = Some (p, next_thread i ?L, h', s')"
    "sched_rep (n + length R) (h', s') (delist (next_thread i ?L) ?L) []"
    "current_ok (h', s') (next_thread i ?L)" "t_state (h' (next_thread i ?L)) = Running"
    using reschedule_keeps [OF rep n cur idle st] by blast
  have best: "tcb_level h (next_thread i ?L) \<le> tcb_level h t" if "t \<in> members ?L" for t
    using next_thread_best(1) [OF rep cur that] .
  have mem: "members ?L = members L \<union> set R \<union> set (rotation h s p)" by (auto simp: members_enlist)
  show ?thesis using r best unfolding mem by blast
qed

text \<open>A request for the current thread itself.\<close>

lemma reschedule_own_request:
  assumes m: "matrix_rep h (ready_matrix s) L" and ib: "inbox_rep n (inbox s) [SetThreadReady p]"
    and n: "n < 2 ^ 62" and cur: "current_ok (h, s) p" and blocked: "t_state (h p) = Blocked"
    and other: "p \<notin> members L" "idle_thread s \<noteq> Some p"
  shows "reschedule (h, s) = None"
proof -
  let ?s0 = "s\<lparr>inbox_poke_pending := False\<rparr>"
  have c: "current_thread s = Some p" "\<not> tcb_is_enqueued (h p)" "t_pinned_core (h p) = core_id s"
    "unat (t_effective_priority (h p)) < MAX_PRIORITIES" using cur by (auto simp: current_ok_def)
  obtain h1 m1 b1 where d: "drain_inbox (h, s) = Some (h1, ?s0\<lparr>ready_matrix := m1, inbox := b1\<rparr>)"
    "matrix_rep h1 m1 (enlist h [p] L)"
    using drain_inbox_loop_rep [of h ?s0 L n "[p]"] m ib n c other unfolding drain_inbox_def by auto
  have "p \<in> set (enlist h [p] L (tcb_level h p))" by (simp add: enlist_one)
  then have "t_state (h1 p) = Ready" using matrix_rep_member [OF d(2)] by blast
  then show ?thesis using c d(1) blocked by (simp add: reschedule_def)
qed

text \<open>
  A thread that has prepared to block but has not yet been switched away from can be woken by
  another core: its request is then in the inbox of its own scheduler.  The \<^const>\<open>reschedule\<close> by
  which the thread gives up the core drains that request, makes the thread \<^const>\<open>Ready\<close>, and runs
  into \<^verbatim>\<open>__builtin_unreachable\<close>: the call has no defined result.
\<close>

theorem reschedule_after_remote_wake_undefined:
  assumes m: "matrix_rep h (ready_matrix s) L" and ib: "inbox_rep n (inbox s) [SetThreadReady p]"
    and n: "n < 2 ^ 62" and cur: "current_ok (h, s) p" and blocked: "t_state (h p) = Blocked"
    and other: "p \<notin> members L" "idle_thread s \<noteq> Some p"
  shows "reschedule (h, s) = None"
  by (rule reschedule_own_request [OF assms])

section \<open>Concrete schedulers\<close>

text \<open>
  Core 0 with an idle thread at \<open>0x10\<close>, which runs thread \<open>0x100\<close> and whose inbox holds a request
  for the thread \<open>t\<close>.
\<close>

definition demo_scheduler :: "tcb_ptr \<Rightarrow> Scheduler" where
  "demo_scheduler t = (Scheduler_init 0 (0, 0))
     \<lparr>idle_thread := Some 0x10, current_thread := Some 0x100,
      inbox := (case push (SetThreadReady t) (MpscRingBuffer_init INBOX_CAP) of
          Some (_, b) \<Rightarrow> b | None \<Rightarrow> MpscRingBuffer_init INBOX_CAP)\<rparr>"

definition demo_threads :: "ThreadState \<Rightarrow> tcb_heap" where
  "demo_threads st = tcb_set_state 0x100 st (demo_heap (\<lambda>t. if t = 0x200 then 3 else 7))"

lemma demo_threads_sel [simp]:
  "t_state (demo_threads st t) = (if t = 0x100 then st else Ready)"
  "t_effective_priority (demo_threads st t) = (if t = 0x200 then 3 else 7)"
  "t_pinned_core (demo_threads st t) = 0" "\<not> tcb_is_enqueued (demo_threads st t)"
  "tcb_level (demo_threads st) t = (if t = 0x200 then 3 else 7)"
  by (simp_all add: demo_threads_def tcb_level_def)

lemma demo_scheduler_sel [simp]:
  "core_id (demo_scheduler t) = 0" "idle_thread (demo_scheduler t) = Some 0x10"
  "current_thread (demo_scheduler t) = Some 0x100"
  "ready_matrix (demo_scheduler t) = ThreadReadyMatrix_init"
  by (simp_all add: demo_scheduler_def Scheduler_init_def)

lemma demo_scheduler_inbox: "inbox_rep 0 (inbox (demo_scheduler t)) [SetThreadReady t]"
proof -
  obtain b where "push (SetThreadReady t) (MpscRingBuffer_init INBOX_CAP) = Some (True, b)"
    "inbox_rep 0 b [SetThreadReady t]"
    using rb.send_room [OF inbox_rep_init, of "SetThreadReady t"] by (auto simp: INBOX_CAP_def)
  then show ?thesis by (simp add: demo_scheduler_def)
qed

theorem reschedule_selects_best_witness:
  "\<exists>h' s'. reschedule (demo_threads Running, demo_scheduler 0x200) = Some (0x100, 0x200, h', s') \<and>
     t_state (h' 0x200) = Running \<and>
     sched_rep 1 (h', s') (\<lambda>i. if i = 7 then [0x100] else []) []"
proof -
  let ?h = "demo_threads Running" and ?s = "demo_scheduler 0x200"
  have rep: "sched_rep 0 (?h, ?s) (\<lambda>_. []) [0x200]"
    using demo_scheduler_inbox [of "0x200"] matrix_rep_init [of ?h]
    by (simp add: sched_rep_def members_def MAX_PRIORITIES_def)
  have rot: "rotation ?h ?s 0x100 = [0x100]" by (simp add: rotation_def)
  have L: "enlist ?h ([0x200] @ [0x100]) (\<lambda>_. []) = (\<lambda>i. if i = 3 then [0x200] else if i = 7 then [0x100] else [])"
    by (auto simp: enlist_def fun_eq_iff)
  have "[0..<MAX_PRIORITIES] = [0, 1, 2, 3] @ [4..<MAX_PRIORITIES]"
    by (simp add: MAX_PRIORITIES_def upt_rec)
  then have nxt: "next_thread 0x10 (enlist ?h ([0x200] @ [0x100]) (\<lambda>_. [])) = 0x200"
    unfolding L by (simp add: next_thread_def first_ready_def by_level_def)
  have d: "delist 0x200 (enlist ?h ([0x200] @ [0x100]) (\<lambda>_. [])) = (\<lambda>i. if i = 7 then [0x100] else [])"
    unfolding L by (auto simp: delist_def fun_eq_iff)
  have "current_ok (?h, ?s) 0x100" by (simp add: current_ok_def MAX_PRIORITIES_def)
  from reschedule_selects_best [OF rep _ this, of "0x10"] show ?thesis
    unfolding rot using nxt d by (auto simp del: append.simps)
qed

theorem reschedule_after_remote_wake_undefined_witness:
  "reschedule (demo_threads Blocked, demo_scheduler 0x100) = None"
  by (rule reschedule_after_remote_wake_undefined [where L = "\<lambda>_. []", OF _ demo_scheduler_inbox])
     (simp_all add: matrix_rep_init current_ok_def MAX_PRIORITIES_def members_def)

end
