(* ===== verification/Port_Linux.thy ===== *)
theory Port_Linux
  imports Wait_Subsystem
begin

text \<open>
  port_linux_boost.cpp: the simulation port.  A simulated core is an OS thread that runs a
  scheduler fiber; kernel threads are fibers entered from it.  The third-party fiber library
  (boost::context) is seen through what the port relies on: a fiber object is non-empty while its
  fiber is suspended and empty while it runs and after it has returned.  A port context is a
  member of its thread control block and is named by the block's address.

  The second half interleaves \<^verbatim>\<open>cortos_port_send_reschedule_ipi\<close> with \<^verbatim>\<open>cortos_port_idle\<close> and shows
  that no wake-up is lost.
\<close>

section \<open>State\<close>

record port_state =
  shutdown_requested :: bool
  active_contexts :: u32
  handler_registered :: bool
  cores_count :: nat
  poke_pending :: "nat \<Rightarrow> bool"
  current_context :: "nat \<Rightarrow> tcb_ptr option"
  fiber_suspended :: "tcb_ptr \<Rightarrow> bool"
  tls_pointer :: "nat \<Rightarrow> tcb_ptr option"
  interrupt_disable_depth :: "nat \<Rightarrow> u32"

definition port_state_init :: port_state where
  "port_state_init =
     \<lparr>shutdown_requested = False, active_contexts = 0, handler_registered = False, cores_count = 0,
      poke_pending = (\<lambda>_. False), current_context = (\<lambda>_. None), fiber_suspended = (\<lambda>_. False),
      tls_pointer = (\<lambda>_. None), interrupt_disable_depth = (\<lambda>_. 0)\<rparr>"

text \<open>\<^verbatim>\<open>GlobalState::reset\<close>\<close>

definition port_reset :: "port_state \<Rightarrow> port_state" where
  "port_reset p =
     p\<lparr>shutdown_requested := False, active_contexts := 0, handler_registered := False,
       cores_count := 0, poke_pending := (\<lambda>_. False)\<rparr>"

definition cortos_port_init :: "port_state \<Rightarrow> port_state" where
  "cortos_port_init p = p\<lparr>handler_registered := True\<rparr>"

section \<open>Critical sections\<close>

definition set_irq_depth :: "nat \<Rightarrow> u32 \<Rightarrow> port_state \<Rightarrow> port_state" where
  "set_irq_depth c d p = p\<lparr>interrupt_disable_depth := (interrupt_disable_depth p)(c := d)\<rparr>"

definition cortos_port_disable_interrupts :: "nat \<Rightarrow> port_state \<Rightarrow> port_state" where
  "cortos_port_disable_interrupts c p = set_irq_depth c (interrupt_disable_depth p c + 1) p"

definition cortos_port_enable_interrupts :: "nat \<Rightarrow> port_state \<Rightarrow> port_state" where
  "cortos_port_enable_interrupts c p =
     (if interrupt_disable_depth p c > 0
      then set_irq_depth c (interrupt_disable_depth p c - 1) p else p)"

definition cortos_port_interrupts_enabled :: "nat \<Rightarrow> port_state \<Rightarrow> bool" where
  "cortos_port_interrupts_enabled c p \<longleftrightarrow> interrupt_disable_depth p c = 0"

definition cortos_port_irq_save :: "nat \<Rightarrow> port_state \<Rightarrow> u32 \<times> port_state" where
  "cortos_port_irq_save c p =
     (let prev_enabled = (if interrupt_disable_depth p c = 0 then 1 else 0)
      in (prev_enabled, set_irq_depth c (interrupt_disable_depth p c + 1) p))"

definition cortos_port_irq_restore :: "nat \<Rightarrow> u32 \<Rightarrow> port_state \<Rightarrow> port_state" where
  "cortos_port_irq_restore c state p =
     (if interrupt_disable_depth p c > 0
      then set_irq_depth c (interrupt_disable_depth p c - 1) p else p)"

section \<open>Contexts\<close>

definition cortos_port_context_init :: "tcb_ptr \<Rightarrow> port_state \<Rightarrow> port_state" where
  "cortos_port_context_init t p =
     p\<lparr>active_contexts := active_contexts p + 1, fiber_suspended := (fiber_suspended p)(t := True)\<rparr>"

definition cortos_port_context_destroy :: "tcb_ptr \<Rightarrow> port_state \<Rightarrow> unit option" where
  "cortos_port_context_destroy t p = CORTOS_ASSERT (\<not> fiber_suspended p t)"

text \<open>
  \<^verbatim>\<open>cortos_port_switch\<close> resumes the fiber of \<open>to\<close> from the scheduler fiber of core \<open>c\<close>; control comes
  back when that fiber yields (\<open>fiber_yield\<close>) or returns (\<open>fiber_return\<close>).
\<close>

definition cortos_port_switch :: "nat \<Rightarrow> tcb_ptr \<Rightarrow> port_state \<Rightarrow> port_state option" where
  "cortos_port_switch c to p = do {
     CORTOS_ASSERT (fiber_suspended p to);
     Some (p\<lparr>current_context := (current_context p)(c := Some to),
             fiber_suspended := (fiber_suspended p)(to := False)\<rparr>) }"

definition fiber_yield :: "nat \<Rightarrow> port_state \<Rightarrow> port_state" where
  "fiber_yield c p =
     (case current_context p c of
        None \<Rightarrow> p
      | Some t \<Rightarrow> p\<lparr>current_context := (current_context p)(c := None),
                     fiber_suspended := (fiber_suspended p)(t := True)\<rparr>)"

definition fiber_return :: "nat \<Rightarrow> port_state \<Rightarrow> port_state" where
  "fiber_return c p = p\<lparr>current_context := (current_context p)(c := None)\<rparr>"

definition cortos_port_start_first :: "nat \<Rightarrow> tcb_ptr \<Rightarrow> port_state \<Rightarrow> port_state option" where
  "cortos_port_start_first c first p = cortos_port_switch c first p"

definition cortos_port_thread_exit :: "port_state \<Rightarrow> port_state option" where
  "cortos_port_thread_exit p = do {
     CORTOS_ASSERT (active_contexts p \<noteq> 0);
     Some (p\<lparr>active_contexts := active_contexts p - 1\<rparr>) }"

definition cortos_port_set_tls_pointer :: "nat \<Rightarrow> tcb_ptr \<Rightarrow> port_state \<Rightarrow> port_state" where
  "cortos_port_set_tls_pointer c t p = p\<lparr>tls_pointer := (tls_pointer p)(c := Some t)\<rparr>"

definition cortos_port_get_tls_pointer :: "nat \<Rightarrow> port_state \<Rightarrow> tcb_ptr option" where
  "cortos_port_get_tls_pointer c p = tls_pointer p c"

section \<open>Several cores\<close>

text \<open>
  The calling core is an argument of every operation of the port, so that it exists once the cores are launched is part of
  the call.
\<close>

definition cortos_port_get_core_id :: "nat \<Rightarrow> port_state \<Rightarrow> nat" where
  "cortos_port_get_core_id c p = (if cores_count p = 0 then 0 else c)"

text \<open>
  \<^verbatim>\<open>cortos_port_send_reschedule_ipi\<close> as the calling core \<open>c\<close> executes it; the flag says that the
  target is the calling core itself, inside a thread, which then yields.
\<close>

definition cortos_port_send_reschedule_ipi ::
  "nat \<Rightarrow> nat \<Rightarrow> port_state \<Rightarrow> (bool \<times> port_state) option" where
  "cortos_port_send_reschedule_ipi c target p = do {
     CORTOS_ASSERT (target < cores_count p);
     Some (target = c \<and> current_context p c \<noteq> None,
           p\<lparr>poke_pending := (poke_pending p)(target := True)\<rparr>) }"

text \<open>
  The scheduler fiber pumps \<^verbatim>\<open>pend_reschedule_handler\<close> while more contexts than idle threads are
  active; the first core that sees the end asks the others to wake up.
\<close>

definition pump_continues :: "port_state \<Rightarrow> bool" where
  "pump_continues p \<longleftrightarrow> unat (active_contexts p) > cores_count p"

definition request_shutdown :: "port_state \<Rightarrow> port_state" where
  "request_shutdown p =
     (if shutdown_requested p then p
      else p\<lparr>shutdown_requested := True,
             poke_pending := (\<lambda>c. if c < cores_count p then True else poke_pending p c)\<rparr>)"

definition cortos_port_start_cores :: "nat \<Rightarrow> port_state \<Rightarrow> port_state option" where
  "cortos_port_start_cores cores_to_use p = do {
     CORTOS_ASSERT (cores_to_use > 0);
     CORTOS_ASSERT (cores_to_use \<le> CORTOS_PORT_CORE_COUNT);
     Some (p\<lparr>cores_count := cores_to_use, poke_pending := (\<lambda>_. False)\<rparr>) }"

text \<open>\<^verbatim>\<open>pending.exchange(false)\<close> at the start of \<^verbatim>\<open>cortos_port_idle\<close>\<close>

definition poke_exchange :: "nat \<Rightarrow> port_state \<Rightarrow> bool \<times> port_state" where
  "poke_exchange c p = (poke_pending p c, p\<lparr>poke_pending := (poke_pending p)(c := False)\<rparr>)"

section \<open>Nesting of critical sections\<close>

fun irq_save_n :: "nat \<Rightarrow> nat \<Rightarrow> port_state \<Rightarrow> u32 list \<times> port_state" where
  "irq_save_n c 0 p = ([], p)"
| "irq_save_n c (Suc n) p =
     (let (s, p1) = cortos_port_irq_save c p; (ss, p2) = irq_save_n c n p1 in (s # ss, p2))"

fun irq_restore_all :: "nat \<Rightarrow> u32 list \<Rightarrow> port_state \<Rightarrow> port_state" where
  "irq_restore_all c [] p = p"
| "irq_restore_all c (s # ss) p = irq_restore_all c ss (cortos_port_irq_restore c s p)"

lemma irq_save_n_eq:
  "snd (irq_save_n c n p) = set_irq_depth c (interrupt_disable_depth p c + of_nat n) p \<and>
   length (fst (irq_save_n c n p)) = n"
  by (induction n arbitrary: p)
     (simp_all add: cortos_port_irq_save_def set_irq_depth_def case_prod_unfold Let_def ac_simps)

lemma irq_restore_all_eq:
  "length ss \<le> unat (interrupt_disable_depth p c) \<Longrightarrow>
   irq_restore_all c ss p = set_irq_depth c (interrupt_disable_depth p c - of_nat (length ss)) p"
proof (induction ss arbitrary: p)
  case Nil
  then show ?case by (simp add: set_irq_depth_def)
next
  case (Cons s ss)
  let ?d = "interrupt_disable_depth p c"
  have pos: "?d > 0" using Cons.prems by (simp add: word_less_nat_alt)
  then have "unat (?d - 1) = unat ?d - 1" by (simp add: unat_minus_one)
  then have "length ss \<le> unat (interrupt_disable_depth (set_irq_depth c (?d - 1) p) c)"
    using Cons.prems by (simp add: set_irq_depth_def)
  then show ?case
    using pos Cons.IH [of "set_irq_depth c (?d - 1) p"]
    by (simp add: cortos_port_irq_restore_def set_irq_depth_def diff_diff_eq)
qed

text \<open>
  C23: critical sections nest: after \<open>n\<close> saves interrupts are disabled (for \<open>n > 0\<close>), and \<open>n\<close> restores,
  whatever the saved states, give back the port state from before; the depth is 32 bits wide and
  must not wrap.
\<close>

theorem irq_save_restore_nested:
  assumes "unat (interrupt_disable_depth p c) + n < 2 ^ 32"
  shows "irq_restore_all c (fst (irq_save_n c n p)) (snd (irq_save_n c n p)) = p \<and>
    (n > 0 \<longrightarrow> \<not> cortos_port_interrupts_enabled c (snd (irq_save_n c n p)))"
proof -
  let ?d = "interrupt_disable_depth p c"
  have u: "unat (?d + of_nat n) = unat ?d + n"
    using assms by (simp add: unat_add_lem [THEN iffD1] unat_of_nat)
  have s: "snd (irq_save_n c n p) = set_irq_depth c (?d + of_nat n) p"
    "length (fst (irq_save_n c n p)) = n" using irq_save_n_eq by blast+
  have "irq_restore_all c (fst (irq_save_n c n p)) (snd (irq_save_n c n p)) = set_irq_depth c ?d p"
    unfolding s(1) using u s(2) by (subst irq_restore_all_eq) (simp_all add: set_irq_depth_def)
  moreover have "set_irq_depth c ?d p = p" by (simp add: set_irq_depth_def)
  moreover have "?d + of_nat n \<noteq> 0" if "n > 0" using u that by (metis add_is_0 less_numeral_extra(3) unat_0)
  ultimately show ?thesis by (simp add: cortos_port_interrupts_enabled_def s(1) set_irq_depth_def)
qed

theorem irq_save_restore_nested_witness:
  "irq_restore_all 1 (fst (irq_save_n 1 3 port_state_init)) (snd (irq_save_n 1 3 port_state_init)) =
     port_state_init \<and>
   \<not> cortos_port_interrupts_enabled 1 (snd (irq_save_n 1 3 port_state_init))"
  using irq_save_restore_nested [of port_state_init 1 3] by (simp add: port_state_init_def)

section \<open>The wake-up protocol\<close>

text \<open>
  The core that idles and the cores that poke it, one atomic action at a time: the accesses to
  \<^verbatim>\<open>pending\<close>, the mutex, and the condition variable (\<^verbatim>\<open>pthread_cond_wait\<close> releases the mutex and
  sleeps in one action, may wake up spuriously, and takes the mutex again before it returns).
\<close>

datatype idler_pc =
  I_out | I_fast | I_lock | I_recheck | I_sleep | I_waiting | I_relock | I_unlock

datatype sender_pc = S_out | S_store | S_lock | S_signal | S_unlock

datatype mutex_owner = Free | ByIdler | BySender nat

record poke_sys =
  poke_flag :: bool
  mutex :: mutex_owner
  idler :: idler_pc
  sender :: "nat \<Rightarrow> sender_pc"

definition poke_init :: poke_sys where
  "poke_init = \<lparr>poke_flag = False, mutex = Free, idler = I_out, sender = (\<lambda>_. S_out)\<rparr>"

inductive idle_step :: "poke_sys \<Rightarrow> poke_sys \<Rightarrow> bool" where
  idle_call: "idler s = I_out \<Longrightarrow> idle_step s (s\<lparr>idler := I_fast\<rparr>)"
| idle_fast_hit: "idler s = I_fast \<Longrightarrow> poke_flag s \<Longrightarrow> idle_step s (s\<lparr>poke_flag := False, idler := I_out\<rparr>)"
| idle_fast_miss: "idler s = I_fast \<Longrightarrow> \<not> poke_flag s \<Longrightarrow> idle_step s (s\<lparr>idler := I_lock\<rparr>)"
| idle_lock: "idler s = I_lock \<Longrightarrow> mutex s = Free \<Longrightarrow> idle_step s (s\<lparr>mutex := ByIdler, idler := I_recheck\<rparr>)"
| idle_recheck_hit:
    "idler s = I_recheck \<Longrightarrow> poke_flag s \<Longrightarrow> idle_step s (s\<lparr>poke_flag := False, idler := I_unlock\<rparr>)"
| idle_recheck_miss: "idler s = I_recheck \<Longrightarrow> \<not> poke_flag s \<Longrightarrow> idle_step s (s\<lparr>idler := I_sleep\<rparr>)"
| idle_sleep: "idler s = I_sleep \<Longrightarrow> idle_step s (s\<lparr>mutex := Free, idler := I_waiting\<rparr>)"
| idle_spurious: "idler s = I_waiting \<Longrightarrow> idle_step s (s\<lparr>idler := I_relock\<rparr>)"
| idle_relock: "idler s = I_relock \<Longrightarrow> mutex s = Free \<Longrightarrow> idle_step s (s\<lparr>mutex := ByIdler, idler := I_recheck\<rparr>)"
| idle_unlock: "idler s = I_unlock \<Longrightarrow> idle_step s (s\<lparr>mutex := Free, idler := I_out\<rparr>)"

inductive ipi_step :: "nat \<Rightarrow> poke_sys \<Rightarrow> poke_sys \<Rightarrow> bool" for k :: nat where
  ipi_call: "sender s k = S_out \<Longrightarrow> ipi_step k s (s\<lparr>sender := (sender s)(k := S_store)\<rparr>)"
| ipi_store: "sender s k = S_store \<Longrightarrow>
    ipi_step k s (s\<lparr>poke_flag := True, sender := (sender s)(k := S_lock)\<rparr>)"
| ipi_lock: "sender s k = S_lock \<Longrightarrow> mutex s = Free \<Longrightarrow>
    ipi_step k s (s\<lparr>mutex := BySender k, sender := (sender s)(k := S_signal)\<rparr>)"
| ipi_signal: "sender s k = S_signal \<Longrightarrow>
    ipi_step k s (s\<lparr>idler := (if idler s = I_waiting then I_relock else idler s),
                     sender := (sender s)(k := S_unlock)\<rparr>)"
| ipi_unlock: "sender s k = S_unlock \<Longrightarrow>
    ipi_step k s (s\<lparr>mutex := Free, sender := (sender s)(k := S_out)\<rparr>)"

inductive poke_reachable :: "poke_sys \<Rightarrow> bool" where
  poke_start: "poke_reachable poke_init"
| poke_idle: "poke_reachable s \<Longrightarrow> idle_step s s' \<Longrightarrow> poke_reachable s'"
| poke_ipi: "poke_reachable s \<Longrightarrow> ipi_step k s s' \<Longrightarrow> poke_reachable s'"

inductive_cases idle_stepE: "idle_step s s'"
inductive_cases ipi_stepE: "ipi_step k s s'"

text \<open>
  The mutex is held by whoever is inside its critical section, and a pending poke that the idler
  may miss is carried by a sender that has yet to signal.
\<close>

definition idler_inside :: "poke_sys \<Rightarrow> bool" where
  "idler_inside s \<longleftrightarrow> idler s \<in> {I_recheck, I_sleep, I_unlock}"

definition sender_inside :: "poke_sys \<Rightarrow> nat \<Rightarrow> bool" where
  "sender_inside s k \<longleftrightarrow> sender s k \<in> {S_signal, S_unlock}"

definition poke_mutex :: "poke_sys \<Rightarrow> bool" where
  "poke_mutex s \<longleftrightarrow>
     (idler_inside s \<longleftrightarrow> mutex s = ByIdler) \<and> (\<forall>k. sender_inside s k \<longleftrightarrow> mutex s = BySender k)"

definition poke_carried :: "poke_sys \<Rightarrow> bool" where
  "poke_carried s \<longleftrightarrow>
     (poke_flag s \<and> idler s \<in> {I_sleep, I_waiting} \<longrightarrow> (\<exists>k. sender s k \<in> {S_lock, S_signal}))"

lemma poke_mutex_idle:
  assumes "idle_step s s'" "poke_mutex s"
  shows "poke_mutex s'"
proof -
  have "sender_inside s' = sender_inside s"
    using assms(1) by cases (simp_all add: sender_inside_def fun_eq_iff)
  moreover have "mutex s' = mutex s \<and> idler_inside s' = idler_inside s \<or>
      mutex s' = ByIdler \<and> mutex s = Free \<and> idler_inside s' \<or>
      mutex s' = Free \<and> idler_inside s \<and> \<not> idler_inside s'"
    using assms(1) by cases (simp_all add: idler_inside_def)
  ultimately show ?thesis using assms(2) unfolding poke_mutex_def
    by (elim disjE conjE) simp_all
qed

lemma poke_mutex_ipi:
  assumes "ipi_step k s s'" "poke_mutex s"
  shows "poke_mutex s'"
proof -
  have "idler_inside s' = idler_inside s"
    using assms(1) by cases (simp_all add: idler_inside_def)
  moreover have "mutex s' = mutex s \<and> sender_inside s' = sender_inside s \<or>
      mutex s' = BySender k \<and> mutex s = Free \<and> sender_inside s' = (sender_inside s)(k := True) \<or>
      mutex s' = Free \<and> sender_inside s k \<and> sender_inside s' = (sender_inside s)(k := False)"
    using assms(1) by cases (simp_all add: sender_inside_def fun_eq_iff)
  ultimately show ?thesis using assms(2) unfolding poke_mutex_def
    by (elim disjE conjE) simp_all
qed

lemma poke_carried_idle: "idle_step s s' \<Longrightarrow> poke_carried s \<Longrightarrow> poke_carried s'"
  by (erule idle_stepE) (auto simp: poke_carried_def)

text \<open>A sender that moves on hands the wake-up over only when the idler is awake.\<close>

lemma poke_carried_ipi:
  assumes st: "ipi_step k s s'" and mx: "poke_mutex s" and car: "poke_carried s"
  shows "poke_carried s'"
  unfolding poke_carried_def
proof
  assume p: "poke_flag s' \<and> idler s' \<in> {I_sleep, I_waiting}"
  show "\<exists>k. sender s' k \<in> {S_lock, S_signal}"
  proof (cases "sender s' k \<in> {S_lock, S_signal}")
    case False
    have sl: "idler s \<noteq> I_sleep" if "sender s k \<in> {S_signal, S_unlock}"
      using mx that by (auto simp: poke_mutex_def idler_inside_def sender_inside_def)
    have "poke_flag s \<and> idler s \<in> {I_sleep, I_waiting}"
      using st p False sl by (auto elim!: ipi_stepE split: if_splits)
    then obtain j where j: "sender s j \<in> {S_lock, S_signal}" using car by (auto simp: poke_carried_def)
    moreover have "j \<noteq> k" using st j False p sl by (auto elim!: ipi_stepE split: if_splits)
    moreover have "sender s' j = sender s j" if "j \<noteq> k" using st that by (auto elim!: ipi_stepE)
    ultimately show ?thesis by metis
  qed blast
qed

lemma poke_inv_reachable: "poke_reachable s \<Longrightarrow> poke_mutex s \<and> poke_carried s"
proof (induction rule: poke_reachable.induct)
  case poke_start
  then show ?case by (simp add: poke_init_def poke_mutex_def poke_carried_def idler_inside_def sender_inside_def)
qed (blast intro: poke_mutex_idle poke_mutex_ipi poke_carried_idle poke_carried_ipi)+

text \<open>Only the senders move.\<close>

inductive ipi_steps :: "poke_sys \<Rightarrow> poke_sys \<Rightarrow> bool" where
  ipi_done: "ipi_steps s s"
| ipi_more: "ipi_step k s s' \<Longrightarrow> ipi_steps s' s'' \<Longrightarrow> ipi_steps s s''"

lemma signal_wakes:
  assumes "sender s k = S_signal" "idler s = I_waiting"
  shows "\<exists>s'. ipi_step k s s' \<and> idler s' = I_relock"
  using ipi_step.ipi_signal [OF assms(1)] assms(2) by (intro exI conjI) auto

lemma lock_then_signal:
  assumes "sender s k = S_lock" "mutex s = Free" "idler s = I_waiting"
  shows "\<exists>s'. ipi_steps s s' \<and> idler s' = I_relock"
proof -
  let ?s = "s\<lparr>mutex := BySender k, sender := (sender s)(k := S_signal)\<rparr>"
  have 1: "ipi_step k s ?s" by (rule ipi_step.ipi_lock [OF assms(1,2)])
  obtain s' where 2: "ipi_step k ?s s'" "idler s' = I_relock" using signal_wakes [of ?s k] assms(3) by auto
  then show ?thesis using ipi_more [OF 1 ipi_more [OF 2(1) ipi_done]] by blast
qed

text \<open>
  C24: no wake-up is lost: in every reachable state in which a poke is pending while the core sleeps
  on the condition variable, some sender has still to signal it, and the senders on their own can
  reach a state in which the core has been woken.
\<close>

theorem idle_no_lost_wakeup:
  assumes "poke_reachable s" "poke_flag s" "idler s = I_waiting"
  shows "(\<exists>k. sender s k \<in> {S_lock, S_signal}) \<and> (\<exists>s'. ipi_steps s s' \<and> idler s' = I_relock)"
proof -
  have mx: "poke_mutex s" and car: "poke_carried s" using poke_inv_reachable [OF assms(1)] by auto
  obtain k where k: "sender s k \<in> {S_lock, S_signal}" using car assms(2,3) by (auto simp: poke_carried_def)
  have own: "mutex s = BySender j" if "sender s j \<in> {S_signal, S_unlock}" for j
    using mx that unfolding poke_mutex_def sender_inside_def by blast
  have "\<exists>s'. ipi_steps s s' \<and> idler s' = I_relock"
  proof (cases "mutex s")
    case Free
    then have "sender s k = S_lock" using k own [of k] by auto
    then show ?thesis using lock_then_signal [OF _ Free assms(3)] by blast
  next
    case ByIdler
    then show ?thesis using mx assms(3) unfolding poke_mutex_def idler_inside_def by auto
  next
    case (BySender j)
    then have "sender s j \<in> {S_signal, S_unlock}" using mx unfolding poke_mutex_def sender_inside_def by blast
    then consider "sender s j = S_signal" | "sender s j = S_unlock" by blast
    then show ?thesis
    proof cases
      case 1
      then show ?thesis using signal_wakes [OF 1 assms(3)] ipi_more ipi_done by blast
    next
      case 2
      let ?s = "s\<lparr>mutex := Free, sender := (sender s)(j := S_out)\<rparr>"
      have kj: "k \<noteq> j" using k 2 by auto
      then have "sender s k = S_lock" using k own [of k] BySender by auto
      then obtain s' where "ipi_steps ?s s'" "idler s' = I_relock"
        using lock_then_signal [of ?s k] kj assms(3) by auto
      then show ?thesis using ipi_more [OF ipi_step.ipi_unlock [OF 2]] by blast
    qed
  qed
  then show ?thesis using k by blast
qed

text \<open>A sleeping core, poked: the run that leads there.\<close>

lemma poke_reachable_sleeping:
  "poke_reachable \<lparr>poke_flag = True, mutex = Free, idler = I_waiting, sender = (\<lambda>_. S_out)(7 := S_lock)\<rparr>"
proof -
  let ?s = "\<lambda>pn mx id sd. \<lparr>poke_flag = pn, mutex = mx, idler = id, sender = (\<lambda>_. S_out)(7 := sd)\<rparr>"
  have 0: "poke_reachable (?s False Free I_out S_out)" using poke_start by (simp add: poke_init_def fun_upd_idem)
  have 1: "poke_reachable (?s False Free I_fast S_out)" using poke_idle [OF 0 idle_call] by simp
  have 2: "poke_reachable (?s False Free I_lock S_out)" using poke_idle [OF 1 idle_fast_miss] by simp
  have 3: "poke_reachable (?s False ByIdler I_recheck S_out)" using poke_idle [OF 2 idle_lock] by simp
  have 4: "poke_reachable (?s False ByIdler I_sleep S_out)" using poke_idle [OF 3 idle_recheck_miss] by simp
  have 5: "poke_reachable (?s False ByIdler I_sleep S_store)" using poke_ipi [OF 4 ipi_call [of _ 7]] by simp
  have 6: "poke_reachable (?s False Free I_waiting S_store)" using poke_idle [OF 5 idle_sleep] by simp
  show ?thesis using poke_ipi [OF 6 ipi_store [of _ 7]] by simp
qed

theorem idle_no_lost_wakeup_witness:
  "\<exists>s'. ipi_steps \<lparr>poke_flag = True, mutex = Free, idler = I_waiting, sender = (\<lambda>_. S_out)(7 := S_lock)\<rparr> s' \<and>
     idler s' = I_relock"
  using idle_no_lost_wakeup [OF poke_reachable_sleeping] by simp

end
