(* ===== verification/Kernel_State.thy ===== *)
theory Kernel_State
  imports Scheduler Port_Linux
begin

text \<open>
  The state of the kernel (kernel.cpp), the spin locks and the group lock over several waitables
  (spin_lock.hpp, waitable_utilities.hpp).

  Every operation has the number of the calling core as its first argument.  A kernel call runs
  here without interference from other cores, so a spin lock that is taken when it is requested
  would never be released: the call does not return, which is \<^const>\<open>None\<close>.  The interleaving of
  lock acquisitions by several cores is the subject of theory \<open>Group_Lock\<close>.
\<close>

section \<open>State\<close>

text \<open>
  The hooks of a waitable are virtual functions that do nothing unless an application overrides
  them; the kernel's part, which hook is called with which snapshot in which order, is recorded.
\<close>

datatype hook_event =
    on_thread_blocked waitable_ptr Waiter
  | on_thread_removed waitable_ptr Waiter

record kernel =
  mem :: wmem
  wait_locked :: "waitable_ptr \<Rightarrow> bool"
  k_locked :: bool
  schedulers :: "Scheduler list"
  initialised :: bool
  running :: bool
  active_threads :: u32
  thread_id_generator :: u32
  port :: port_state
  hooks :: "hook_event list"

definition this_core :: "nat \<Rightarrow> kernel \<Rightarrow> nat" where
  "this_core c k = cortos_port_get_core_id c (port k)"

definition scheduler_for_core :: "nat \<Rightarrow> kernel \<Rightarrow> Scheduler option" where
  "scheduler_for_core c k =
     do { CORTOS_ASSERT (c < length (schedulers k)); Some (schedulers k ! c) }"

definition set_scheduler :: "nat \<Rightarrow> Scheduler \<Rightarrow> kernel \<Rightarrow> kernel" where
  "set_scheduler c s k = k\<lparr>schedulers := (schedulers k)[c := s]\<rparr>"

definition set_tcbs :: "tcb_heap \<Rightarrow> kernel \<Rightarrow> kernel" where
  "set_tcbs h k = k\<lparr>mem := (mem k)\<lparr>tcbs := h\<rparr>\<rparr>"

definition set_port :: "port_state \<Rightarrow> kernel \<Rightarrow> kernel" where
  "set_port p k = k\<lparr>port := p\<rparr>"

text \<open>An operation on the scheduler of core \<open>c\<close> alone.\<close>

definition on_scheduler :: "nat \<Rightarrow> (Scheduler \<Rightarrow> Scheduler option) \<Rightarrow> kernel \<Rightarrow> kernel option" where
  "on_scheduler c f k = do {
     s \<leftarrow> scheduler_for_core c k;
     s' \<leftarrow> f s;
     Some (set_scheduler c s' k) }"

section \<open>Spin locks\<close>

text \<open>\<^verbatim>\<open>Spinlock::lock\<close> and \<^verbatim>\<open>unlock\<close> on the lock of the waitable \<open>w\<close>; a null waitable has no lock.\<close>

definition lock_waitable :: "nat \<Rightarrow> waitable_ptr \<Rightarrow> kernel \<Rightarrow> kernel option" where
  "lock_waitable c w k = do {
     CORTOS_ASSERT (w \<noteq> nullptr);
     k \<leftarrow> on_scheduler (this_core c k) (\<lambda>s. Some (disable_preemption s)) k;
     CORTOS_ASSERT (\<not> wait_locked k w);
     Some (k\<lparr>wait_locked := (wait_locked k)(w := True)\<rparr>) }"

definition unlock_waitable :: "nat \<Rightarrow> waitable_ptr \<Rightarrow> kernel \<Rightarrow> kernel option" where
  "unlock_waitable c w k =
     on_scheduler (this_core c k) enable_preemption
       (k\<lparr>wait_locked := (wait_locked k)(w := False)\<rparr>)"

text \<open>The lock of the kernel object.\<close>

definition lock_kernel :: "nat \<Rightarrow> kernel \<Rightarrow> kernel option" where
  "lock_kernel c k = do {
     k \<leftarrow> on_scheduler (this_core c k) (\<lambda>s. Some (disable_preemption s)) k;
     CORTOS_ASSERT (\<not> k_locked k);
     Some (k\<lparr>k_locked := True\<rparr>) }"

definition unlock_kernel :: "nat \<Rightarrow> kernel \<Rightarrow> kernel option" where
  "unlock_kernel c k = on_scheduler (this_core c k) enable_preemption (k\<lparr>k_locked := False\<rparr>)"

text \<open>\<^verbatim>\<open>try_lock\<close> does not touch the preemption depth.\<close>

definition try_lock_waitable :: "waitable_ptr \<Rightarrow> kernel \<Rightarrow> bool \<times> kernel" where
  "try_lock_waitable w k = (\<not> wait_locked k w, k\<lparr>wait_locked := (wait_locked k)(w := True)\<rparr>)"

section \<open>The group lock\<close>

text \<open>\<^verbatim>\<open>WaitableRefVector\<close> is a list of at most \<^const>\<open>MAX_WAIT_NODES\<close> references.\<close>

definition vec_push_range :: "waitable_ptr list \<Rightarrow> waitable_ptr list \<Rightarrow> waitable_ptr list option" where
  "vec_push_range v ws = do {
     CORTOS_ASSERT (length v + length ws \<le> MAX_WAIT_NODES);
     Some (v @ ws) }"

definition vec_sort_by_address :: "waitable_ptr list \<Rightarrow> waitable_ptr list" where
  "vec_sort_by_address v = (if length v < 2 then v else sort v)"

fun neighbours_differ :: "waitable_ptr list \<Rightarrow> bool" where
  "neighbours_differ [] = True"
| "neighbours_differ [w] = True"
| "neighbours_differ (w # v # ws) = (v \<noteq> w \<and> neighbours_differ (v # ws))"

fun lock_all :: "nat \<Rightarrow> waitable_ptr list \<Rightarrow> kernel \<Rightarrow> kernel option" where
  "lock_all c [] k = Some k"
| "lock_all c (w # ws) k = do { k' \<leftarrow> lock_waitable c w k; lock_all c ws k' }"

fun unlock_all :: "nat \<Rightarrow> waitable_ptr list \<Rightarrow> kernel \<Rightarrow> kernel option" where
  "unlock_all c [] k = Some k"
| "unlock_all c (w # ws) k = do { k' \<leftarrow> unlock_waitable c w k; unlock_all c ws k' }"

text \<open>The constructor yields the group to be unlocked; the destructor unlocks from the last on.\<close>

definition WaitableGroupLock ::
  "nat \<Rightarrow> waitable_ptr list \<Rightarrow> kernel \<Rightarrow> (waitable_ptr list \<times> kernel) option" where
  "WaitableGroupLock c ws k = do {
     v \<leftarrow> vec_push_range [] ws;
     let v = vec_sort_by_address v;
     CORTOS_ASSERT (neighbours_differ v);
     k \<leftarrow> lock_all c v k;
     Some (v, k) }"

definition WaitableGroupUnlock :: "nat \<Rightarrow> waitable_ptr list \<Rightarrow> kernel \<Rightarrow> kernel option" where
  "WaitableGroupUnlock c v k = unlock_all c (rev v) k"

section \<open>Lemmas on the group lock\<close>

lemma neighbours_differ_sorted: "sorted ws \<Longrightarrow> neighbours_differ ws \<longleftrightarrow> distinct ws"
proof (induction ws rule: neighbours_differ.induct)
  case (3 w v ws)
  then have "neighbours_differ (v # ws) = distinct (v # ws)" by simp
  moreover have "w \<notin> set ws" if "v \<noteq> w"
  proof
    assume "w \<in> set ws"
    then have "v \<le> w" "w \<le> v" using "3.prems" by auto
    then show False using that by simp
  qed
  ultimately show ?case by auto
qed simp_all

lemma vec_sort_eq: "vec_sort_by_address v = sort v"
  by (cases v rule: neighbours_differ.cases) (simp_all add: vec_sort_by_address_def)

definition core_ready :: "nat \<Rightarrow> nat \<Rightarrow> kernel \<Rightarrow> bool" where
  "core_ready c n k \<longleftrightarrow> this_core c k = c \<and> c < length (schedulers k) \<and>
     unat (preempt_disable_depth (schedulers k ! c)) + n < 2 ^ 32"

text \<open>What holding the locks of \<open>ws\<close> on core \<open>c\<close> adds to a state.\<close>

definition holding :: "nat \<Rightarrow> waitable_ptr list \<Rightarrow> kernel \<Rightarrow> kernel" where
  "holding c ws k =
     set_scheduler c ((schedulers k ! c)
        \<lparr>preempt_disable_depth := preempt_disable_depth (schedulers k ! c) + of_nat (length ws)\<rparr>)
       (k\<lparr>wait_locked := (\<lambda>w. w \<in> set ws \<or> wait_locked k w)\<rparr>)"

lemma holding_Nil [simp]: "c < length (schedulers k) \<Longrightarrow> holding c [] k = k"
  by (simp add: holding_def set_scheduler_def)

lemma this_core_holding [simp]: "this_core c (holding c ws k) = this_core c k"
  by (simp add: this_core_def holding_def set_scheduler_def)

lemma holding_sel [simp]:
  "mem (holding c ws k) = mem k" "port (holding c ws k) = port k" "hooks (holding c ws k) = hooks k"
  "length (schedulers (holding c ws k)) = length (schedulers k)"
  "wait_locked (holding c ws k) = (\<lambda>w. w \<in> set ws \<or> wait_locked k w)"
  "running (holding c ws k) = running k" "active_threads (holding c ws k) = active_threads k"
  by (simp_all add: holding_def set_scheduler_def)

lemma lock_waitable_holding:
  assumes "core_ready c 1 k" "w \<noteq> nullptr" "\<not> wait_locked k w"
  shows "lock_waitable c w k = Some (holding c [w] k)"
proof -
  have "(\<lambda>v. v = w \<or> wait_locked k v) = (wait_locked k)(w := True)" by (auto simp: fun_eq_iff)
  then show ?thesis
    using assms by (simp add: lock_waitable_def on_scheduler_def scheduler_for_core_def core_ready_def
        holding_def set_scheduler_def disable_preemption_def)
qed

lemma holding_Cons:
  assumes "c < length (schedulers k)"
  shows "holding c ws (holding c [w] k) = holding c (w # ws) k"
  using assms by (auto simp: holding_def set_scheduler_def fun_eq_iff ac_simps)

lemma core_ready_holding:
  assumes "core_ready c (Suc n) k"
  shows "core_ready c n (holding c [w] k)"
proof -
  let ?d = "preempt_disable_depth (schedulers k ! c)"
  have "unat (?d + 1) \<le> unat ?d + 1" by (simp add: unat_word_ariths(1))
  moreover have "schedulers (holding c [w] k) ! c = (schedulers k ! c)\<lparr>preempt_disable_depth := ?d + 1\<rparr>"
    using assms by (simp add: core_ready_def holding_def set_scheduler_def)
  ultimately show ?thesis using assms by (simp add: core_ready_def)
qed

lemma lock_all_holding:
  "core_ready c (length ws) k \<Longrightarrow> distinct ws \<Longrightarrow> nullptr \<notin> set ws \<Longrightarrow>
   (\<And>w. w \<in> set ws \<Longrightarrow> \<not> wait_locked k w) \<Longrightarrow> lock_all c ws k = Some (holding c ws k)"
proof (induction ws arbitrary: k)
  case Nil
  then show ?case by (simp add: core_ready_def)
next
  case (Cons w ws)
  have "core_ready c 1 k" using Cons.prems(1) by (simp add: core_ready_def)
  then have "lock_waitable c w k = Some (holding c [w] k)"
    using Cons.prems by (intro lock_waitable_holding) auto
  moreover have "lock_all c ws (holding c [w] k) = Some (holding c ws (holding c [w] k))"
    using Cons.prems core_ready_holding [of c "length ws" k w] by (intro Cons.IH) auto
  ultimately show ?case using holding_Cons [of c k ws w] Cons.prems(1) by (simp add: core_ready_def)
qed

text \<open>Taking the group lock on free waitables succeeds and holds exactly these locks.\<close>

lemma WaitableGroupLock_holding:
  assumes "core_ready c (length ws) k" "distinct ws" "nullptr \<notin> set ws" "length ws \<le> MAX_WAIT_NODES"
    and "\<And>w. w \<in> set ws \<Longrightarrow> \<not> wait_locked k w"
  shows "WaitableGroupLock c ws k = Some (sort ws, holding c (sort ws) k)"
proof -
  have "neighbours_differ (sort ws)" using neighbours_differ_sorted [of "sort ws"] assms(2) by simp
  moreover have "lock_all c (sort ws) k = Some (holding c (sort ws) k)"
    using assms by (intro lock_all_holding) auto
  ultimately show ?thesis using assms(4) by (simp add: WaitableGroupLock_def vec_push_range_def vec_sort_eq Let_def)
qed

text \<open>A waitable that is named twice is refused.\<close>

lemma WaitableGroupLock_duplicate: "\<not> distinct ws \<Longrightarrow> WaitableGroupLock c ws k = None"
  using neighbours_differ_sorted [of "sort ws"]
  by (auto simp: WaitableGroupLock_def vec_push_range_def vec_sort_eq)

lemma unlock_waitable_eq:
  assumes "this_core c k = c" "c < length (schedulers k)" "preempt_disable_depth (schedulers k ! c) > 0"
  shows "unlock_waitable c w k = Some (set_scheduler c ((schedulers k ! c)
      \<lparr>preempt_disable_depth := preempt_disable_depth (schedulers k ! c) - 1\<rparr>)
    (k\<lparr>wait_locked := (wait_locked k)(w := False)\<rparr>))"
  using assms by (simp add: unlock_waitable_def on_scheduler_def scheduler_for_core_def
      enable_preemption_def set_scheduler_def this_core_def)

text \<open>Releasing locks, whatever else changed in between.\<close>

lemma unlock_all_eq:
  assumes "this_core c k = c" "c < length (schedulers k)"
    and "length ws \<le> unat (preempt_disable_depth (schedulers k ! c))"
  shows "unlock_all c ws k = Some (set_scheduler c ((schedulers k ! c)
      \<lparr>preempt_disable_depth := preempt_disable_depth (schedulers k ! c) - of_nat (length ws)\<rparr>)
    (k\<lparr>wait_locked := (\<lambda>w. w \<notin> set ws \<and> wait_locked k w)\<rparr>))"
  using assms
proof (induction ws arbitrary: k)
  case Nil
  then show ?case by (simp add: set_scheduler_def)
next
  case (Cons w ws)
  let ?d = "preempt_disable_depth (schedulers k ! c)"
  let ?k = "set_scheduler c ((schedulers k ! c)\<lparr>preempt_disable_depth := ?d - 1\<rparr>)
    (k\<lparr>wait_locked := (wait_locked k)(w := False)\<rparr>)"
  have pos: "?d > 0" using Cons.prems(3) by (simp add: word_less_nat_alt)
  have sc: "schedulers ?k ! c = (schedulers k ! c)\<lparr>preempt_disable_depth := ?d - 1\<rparr>"
    "wait_locked ?k = (wait_locked k)(w := False)" "length (schedulers ?k) = length (schedulers k)"
    "this_core c ?k = this_core c k"
    using Cons.prems(2) by (simp_all add: set_scheduler_def this_core_def)
  have "unat (?d - 1) = unat ?d - 1" using pos by (simp add: unat_minus_one)
  then have "unlock_all c ws ?k = Some (set_scheduler c ((schedulers k ! c)
      \<lparr>preempt_disable_depth := ?d - 1 - of_nat (length ws)\<rparr>)
    (k\<lparr>wait_locked := (\<lambda>v. v \<notin> set ws \<and> ((wait_locked k)(w := False)) v)\<rparr>))"
    using Cons.IH [of ?k] Cons.prems unfolding sc
    by (simp add: set_scheduler_def)
  moreover have "(\<lambda>v. v \<notin> set ws \<and> ((wait_locked k)(w := False)) v) =
      (\<lambda>v. v \<notin> set (w # ws) \<and> wait_locked k v)" by auto
  ultimately show ?case
    using unlock_waitable_eq [OF Cons.prems(1,2) pos] by (simp add: diff_diff_eq)
qed

end
