(* ===== verification/Kernel.thy ===== *)
theory Kernel
  imports Kernel_State
begin

text \<open>
  kernel.cpp, with the parts of waitable.cpp and threading_subsystem.cpp that run through the
  kernel: making threads ready, switching, signalling, waiting, the life of a thread, and starting
  and stopping the kernel.

  A call in which the running thread gives up its core ends, here, when another thread has been
  switched to; what the caller does when it runs again is a separate definition (\<open>wait_resume\<close>,
  \<open>thread_launcher_rest\<close>).  \<^verbatim>\<open>wait_until\<close> goes on after each wake-up: what the rest of the system does while the
  caller is blocked is an argument of it.
\<close>

section \<open>Switching threads\<close>

text \<open>\<^verbatim>\<open>reschedule_this_core\<close>, the handler registered with the port\<close>

definition reschedule_this_core :: "nat \<Rightarrow> kernel \<Rightarrow> kernel option" where
  "reschedule_this_core c k = do {
     s \<leftarrow> scheduler_for_core (this_core c k) k;
     (previous, next, h, s) \<leftarrow> reschedule (tcbs (mem k), s);
     p \<leftarrow> cortos_port_switch c next (port k);
     Some (set_port p (set_scheduler (this_core c k) s (set_tcbs h k))) }"

text \<open>One round of the scheduler fiber's loop.\<close>

definition pump :: "nat \<Rightarrow> kernel \<Rightarrow> kernel option" where
  "pump c k =
     (if pump_continues (port k)
      then do { CORTOS_ASSERT (handler_registered (port k)); reschedule_this_core c k }
      else Some (set_port (request_shutdown (port k)) k))"

definition cortos_port_pend_reschedule :: "nat \<Rightarrow> kernel \<Rightarrow> kernel option" where
  "cortos_port_pend_reschedule c k =
     (if current_context (port k) c = None then Some k
      else pump c (set_port (fiber_yield c (port k)) k))"

definition core_entry :: "nat \<Rightarrow> kernel \<Rightarrow> kernel option" where
  "core_entry c k = do {
     s \<leftarrow> scheduler_for_core (this_core c k) k;
     (first, h, s) \<leftarrow> sched_start (tcbs (mem k), s);
     p \<leftarrow> cortos_port_start_first c first (port k);
     Some (set_port p (set_scheduler (this_core c k) s (set_tcbs h k))) }"

section \<open>Making threads ready\<close>

definition set_thread_ready :: "nat \<Rightarrow> tcb_ptr \<Rightarrow> kernel \<Rightarrow> (ReadyAction \<times> kernel) option" where
  "set_thread_ready c t k = do {
     CORTOS_ASSERT (t_state (tcbs (mem k) t) \<noteq> Terminated);
     let owner = t_pinned_core (tcbs (mem k) t);
     s \<leftarrow> scheduler_for_core owner k;
     (if \<not> running k then do {
        (h, s) \<leftarrow> sched_set_thread_ready t (tcbs (mem k), s);
        Some (RA_None, set_scheduler owner s (set_tcbs h k)) }
      else if this_core c k = owner then do {
        (h, s) \<leftarrow> sched_set_thread_ready t (tcbs (mem k), s);
        let k' = set_scheduler owner s (set_tcbs h k);
        Some (if is_higher_priority_than (h t) (current_thread_priority (h, s))
              then RA_Reschedule else RA_None, k') }
      else do {
        (posted, poke, s) \<leftarrow> post_to_inbox (SetThreadReady t) s;
        let k' = set_scheduler owner s k;
        k' \<leftarrow> (if poke then do {
               (self, p) \<leftarrow> cortos_port_send_reschedule_ipi c (core_id s) (port k');
               (if self then cortos_port_pend_reschedule c (set_port p k')
                else Some (set_port p k')) }
             else Some k');
        CORTOS_ASSERT posted;
        Some (RA_None, k') })
   }"

text \<open>\<^verbatim>\<open>pin_thread_to_core\<close>: the loop over the cores keeps the best core and its load.\<close>

fun pick_core :: "CoreAffinity \<Rightarrow> Scheduler list \<Rightarrow> nat \<Rightarrow> nat option \<Rightarrow> u32 \<Rightarrow> nat option" where
  "pick_core aff [] core best best_load = best"
| "pick_core aff (s # ss) core best best_load =
     (if \<not> allows aff core then pick_core aff ss (Suc core) best best_load
      else if pinned_thread_count s < best_load
      then pick_core aff ss (Suc core) (Some core) (pinned_thread_count s)
      else pick_core aff ss (Suc core) best best_load)"

definition pin_thread_to_core :: "tcb_ptr \<Rightarrow> kernel \<Rightarrow> kernel option" where
  "pin_thread_to_core t k = do {
     core \<leftarrow> pick_core (t_affinity (tcbs (mem k) t)) (schedulers k) 0 None 0xFFFFFFFF;
     s \<leftarrow> scheduler_for_core core k;
     let (h, s) = pin_thread t (tcbs (mem k), s);
     Some (set_scheduler core s (set_tcbs h k)) }"

definition register_thread :: "nat \<Rightarrow> tcb_ptr \<Rightarrow> kernel \<Rightarrow> kernel option" where
  "register_thread c t k = do {
     let k = k\<lparr>active_threads := active_threads k + 1\<rparr>;
     k \<leftarrow> lock_kernel c k;
     k \<leftarrow> pin_thread_to_core t k;
     k \<leftarrow> unlock_kernel c k;
     (action, k) \<leftarrow> set_thread_ready c t k;
     (if action = RA_Reschedule then cortos_port_pend_reschedule c k else Some k) }"

definition unregister_thread :: "kernel \<Rightarrow> kernel option" where
  "unregister_thread k = do {
     CORTOS_ASSERT (active_threads k \<noteq> 0);
     Some (k\<lparr>active_threads := active_threads k - 1\<rparr>) }"

definition generate_thread_id :: "kernel \<Rightarrow> u32 \<times> kernel" where
  "generate_thread_id k =
     (thread_id_generator k, k\<lparr>thread_id_generator := thread_id_generator k + 1\<rparr>)"

section \<open>Signalling\<close>

definition log_hooks :: "hook_event list \<Rightarrow> kernel \<Rightarrow> kernel" where
  "log_hooks es k = k\<lparr>hooks := hooks k @ es\<rparr>"

definition teardown_wait_group :: "nat \<Rightarrow> tcb_ptr \<Rightarrow> group_ptr \<Rightarrow> kernel \<Rightarrow> kernel option" where
  "teardown_wait_group c t g k = do {
     let waiter = create_waiter (tcbs (mem k) t);
     ws \<leftarrow> collect_waitables t g (mem k);
     (v, k) \<leftarrow> WaitableGroupLock c ws k;
     m \<leftarrow> release_nodes t g (mem k);
     k \<leftarrow> WaitableGroupUnlock c v (k\<lparr>mem := m\<rparr>);
     Some (log_hooks (map (\<lambda>w. on_thread_removed w waiter) ws) k) }"

definition wake_thread :: "nat \<Rightarrow> node_ptr \<Rightarrow> bool \<Rightarrow> kernel \<Rightarrow> (ReadyAction \<times> kernel) option" where
  "wake_thread c p acquired k = do {
     let node = nodes (mem k) p;
     t \<leftarrow> n_tcb node;
     g \<leftarrow> n_group node;
     _ \<leftarrow> n_waitable node;
     CORTOS_ASSERT (n_index node \<noteq> INVALID_INDEX);
     CORTOS_ASSERT (t_state (tcbs (mem k) t) = Blocked);
     let (won, grp) = try_win (int (unat (n_index node))) acquired (t_wait_group (tcbs (mem k) g));
     let k = k\<lparr>mem := set_group g grp (mem k)\<rparr>;
     (if \<not> won then Some (RA_None, k)
      else do {
        k \<leftarrow> teardown_wait_group c t g k;
        set_thread_ready c t k }) }"

text \<open>The guarded block of \<^verbatim>\<open>signal_one\<close> and \<^verbatim>\<open>signal_all\<close>.\<close>

definition pick_best_locked :: "nat \<Rightarrow> waitable_ptr \<Rightarrow> kernel \<Rightarrow> (node_ptr option \<times> kernel) option" where
  "pick_best_locked c w k = do {
     k \<leftarrow> lock_waitable c w k;
     best \<leftarrow> pick_best w (mem k);
     k \<leftarrow> unlock_waitable c w k;
     Some (best, k) }"

definition signal_one :: "nat \<Rightarrow> waitable_ptr \<Rightarrow> bool \<Rightarrow> kernel \<Rightarrow> kernel option" where
  "signal_one c w acquired k = do {
     (best, k) \<leftarrow> pick_best_locked c w k;
     (case best of
        None \<Rightarrow> Some k
      | Some p \<Rightarrow> do {
          (action, k) \<leftarrow> wake_thread c p acquired k;
          (if action = RA_Reschedule then cortos_port_pend_reschedule c k else Some k) }) }"

partial_function (option) signal_loop ::
  "nat \<Rightarrow> waitable_ptr \<Rightarrow> bool \<Rightarrow> bool \<Rightarrow> kernel \<Rightarrow> (bool \<times> kernel) option" where
  "signal_loop c w acquired resched k = do {
     (best, k) \<leftarrow> pick_best_locked c w k;
     (case best of
        None \<Rightarrow> Some (resched, k)
      | Some p \<Rightarrow> do {
          (action, k) \<leftarrow> wake_thread c p acquired k;
          signal_loop c w acquired (resched \<or> action = RA_Reschedule) k }) }"

definition signal_all :: "nat \<Rightarrow> waitable_ptr \<Rightarrow> bool \<Rightarrow> kernel \<Rightarrow> kernel option" where
  "signal_all c w acquired k = do {
     (resched, k) \<leftarrow> signal_loop c w acquired False k;
     (if resched then cortos_port_pend_reschedule c k else Some k) }"

section \<open>Waiting\<close>

text \<open>The current thread of a scheduler; using a null one would be undefined.\<close>

definition current_of :: "nat \<Rightarrow> kernel \<Rightarrow> tcb_ptr option" where
  "current_of c k = do { s \<leftarrow> scheduler_for_core (this_core c k) k; current_thread s }"

definition prepare_block_current_thread :: "nat \<Rightarrow> waitable_ptr list \<Rightarrow> kernel \<Rightarrow> kernel option" where
  "prepare_block_current_thread c ws k = do {
     t \<leftarrow> current_of c k;
     m \<leftarrow> prepare_block t ws (mem k);
     Some (k\<lparr>mem := m\<rparr>) }"

definition notify_block_current_thread :: "nat \<Rightarrow> waitable_ptr list \<Rightarrow> kernel \<Rightarrow> kernel option" where
  "notify_block_current_thread c ws k = do {
     t \<leftarrow> current_of c k;
     let waiter = create_waiter (tcbs (mem k) t);
     Some (log_hooks (map (\<lambda>w. on_thread_blocked w waiter) ws) k) }"

text \<open>
  \<^verbatim>\<open>wait_for_any\<close> in three parts: under the group lock the thread is put on the wait queues; the
  hooks run; the thread gives up the core.  Another core may act between the parts.
\<close>

definition wait_prepare :: "nat \<Rightarrow> waitable_ptr list \<Rightarrow> kernel \<Rightarrow> kernel option" where
  "wait_prepare c ws k = do {
     CORTOS_ASSERT (length ws > 0);
     CORTOS_ASSERT (length ws \<le> MAX_WAIT_NODES);
     (v, k) \<leftarrow> WaitableGroupLock c ws k;
     k \<leftarrow> prepare_block_current_thread c ws k;
     WaitableGroupUnlock c v k }"

definition wait_commence :: "nat \<Rightarrow> waitable_ptr list \<Rightarrow> kernel \<Rightarrow> kernel option" where
  "wait_commence c ws k = do {
     k \<leftarrow> notify_block_current_thread c ws k;
     cortos_port_pend_reschedule c k }"

definition wait_for_any :: "nat \<Rightarrow> waitable_ptr list \<Rightarrow> kernel \<Rightarrow> kernel option" where
  "wait_for_any c ws k = do { k \<leftarrow> wait_prepare c ws k; wait_commence c ws k }"

text \<open>When the thread runs again: the result of \<^verbatim>\<open>commence_block\<close>.\<close>

definition wait_resume :: "nat \<Rightarrow> kernel \<Rightarrow> Result option" where
  "wait_resume c k = do { t \<leftarrow> current_of c k; Some (block_result t (mem k)) }"

text \<open>
  \<^verbatim>\<open>wait_until\<close>: one round of its loop; the first component is the result when the call returns in
  this round.  The predicate is code of the caller and reads the state.
\<close>

definition wait_until_round ::
  "nat \<Rightarrow> (kernel \<Rightarrow> bool) \<Rightarrow> waitable_ptr list \<Rightarrow> Result \<Rightarrow> kernel \<Rightarrow> (Result option \<times> kernel) option"
where
  "wait_until_round c predicate ws result k = do {
     (v, k) \<leftarrow> WaitableGroupLock c ws k;
     (if predicate k then do { k \<leftarrow> WaitableGroupUnlock c v k; Some (Some result, k) }
      else do {
        k \<leftarrow> prepare_block_current_thread c ws k;
        k \<leftarrow> WaitableGroupUnlock c v k;
        k \<leftarrow> notify_block_current_thread c ws k;
        k \<leftarrow> cortos_port_pend_reschedule c k;
        Some (None, k) }) }"

text \<open>
  The loop: \<open>env i\<close> is what the rest of the system does from the \<open>i\<close>-th time that the caller gives up its core until the caller
  runs again on that core; then the result of \<^verbatim>\<open>commence_block\<close> is taken and the next round begins.
\<close>

partial_function (option) wait_until_loop ::
  "(nat \<Rightarrow> kernel \<Rightarrow> kernel option) \<Rightarrow> nat \<Rightarrow> nat \<Rightarrow> (kernel \<Rightarrow> bool) \<Rightarrow> waitable_ptr list \<Rightarrow> Result \<Rightarrow> kernel \<Rightarrow>
   (Result \<times> kernel) option" where
  "wait_until_loop env i c predicate ws result k = do {
     (r, k) \<leftarrow> wait_until_round c predicate ws result k;
     (case r of
        Some result \<Rightarrow> Some (result, k)
      | None \<Rightarrow> do {
          k \<leftarrow> env i k;
          result \<leftarrow> wait_resume c k;
          wait_until_loop env (Suc i) c predicate ws result k }) }"

definition wait_until ::
  "(nat \<Rightarrow> kernel \<Rightarrow> kernel option) \<Rightarrow> nat \<Rightarrow> (kernel \<Rightarrow> bool) \<Rightarrow> waitable_ptr list \<Rightarrow> kernel \<Rightarrow> (Result \<times> kernel) option" where
  "wait_until env c predicate ws k = do {
     CORTOS_ASSERT (length ws > 0);
     CORTOS_ASSERT (length ws \<le> MAX_WAIT_NODES);
     CORTOS_ASSERT (nullptr \<notin> set ws);
     (if predicate k then Some (Result_init, k)
      else wait_until_loop env 0 c predicate ws Result_init k) }"

definition yield :: "nat \<Rightarrow> kernel \<Rightarrow> kernel option" where
  "yield c k = cortos_port_pend_reschedule c k"

definition this_thread_id :: "nat \<Rightarrow> kernel \<Rightarrow> u32 option" where
  "this_thread_id c k = do {
     s \<leftarrow> scheduler_for_core (this_core c k) k; Some (current_thread_id (tcbs (mem k), s)) }"

definition this_thread_priority :: "nat \<Rightarrow> kernel \<Rightarrow> u8 option" where
  "this_thread_priority c k = do {
     s \<leftarrow> scheduler_for_core (this_core c k) k; Some (current_thread_priority (tcbs (mem k), s)) }"

text \<open>One round of the loop of \<^verbatim>\<open>idle_task\<close> once \<^verbatim>\<open>cortos_port_idle\<close> has returned with the poke taken.\<close>

definition idle_task_round :: "nat \<Rightarrow> kernel \<Rightarrow> kernel option" where
  "idle_task_round c k =
     (if running k
      then cortos_port_pend_reschedule c (set_port (snd (poke_exchange c (port k))) k)
      else Some k)"

section \<open>The life of a thread\<close>

definition set_terminated :: "tcb_ptr \<Rightarrow> kernel \<Rightarrow> kernel" where
  "set_terminated t k =
     set_tcbs ((tcbs (mem k))(t := (tcbs (mem k) t)\<lparr>t_terminated := True\<rparr>)) k"

definition has_terminated :: "tcb_ptr \<Rightarrow> kernel \<Rightarrow> bool" where
  "has_terminated t k = t_terminated (tcbs (mem k) t)"

text \<open>\<^verbatim>\<open>ThreadTermination::terminate\<close>\<close>

definition terminate :: "nat \<Rightarrow> tcb_ptr \<Rightarrow> kernel \<Rightarrow> kernel option" where
  "terminate c t k = do {
     CORTOS_ASSERT (\<not> has_terminated t k);
     signal_all c (t_termination (tcbs (mem k) t)) False (set_terminated t k) }"

text \<open>
  \<^verbatim>\<open>thread_launcher\<close> after the entry function has returned.  When signalling the joiners switches to
  another thread, the remainder waits until the thread is resumed; when the launcher returns, its
  fiber ends and the scheduler fiber goes on.
\<close>

definition thread_launcher_rest :: "nat \<Rightarrow> tcb_ptr \<Rightarrow> kernel \<Rightarrow> kernel option" where
  "thread_launcher_rest c t k = do {
     k \<leftarrow> (if t_id (tcbs (mem k) t) = IDLE_THREAD_ID then Some k
          else do {
            k \<leftarrow> unregister_thread k;
            p \<leftarrow> cortos_port_thread_exit (port k);
            Some (set_port p k) });
     pump c (set_port (fiber_return c (port k)) k) }"

definition thread_launcher_begin :: "nat \<Rightarrow> tcb_ptr \<Rightarrow> kernel \<Rightarrow> kernel" where
  "thread_launcher_begin c t k = set_port (cortos_port_set_tls_pointer c t (port k)) k"

definition thread_launcher_end :: "nat \<Rightarrow> tcb_ptr \<Rightarrow> kernel \<Rightarrow> kernel option" where
  "thread_launcher_end c t k = do {
     let k = k\<lparr>mem := set_state t Terminated (mem k)\<rparr>;
     k \<leftarrow> terminate c t k;
     (if current_context (port k) c = Some t then thread_launcher_rest c t k else Some k) }"

text \<open>The handle; \<^const>\<open>None\<close> is the empty handle.\<close>

type_synonym Thread = "tcb_ptr option"

definition make_Thread ::
  "abi \<Rightarrow> nat \<Rightarrow> callable \<Rightarrow> span \<Rightarrow> u8 \<Rightarrow> CoreAffinity \<Rightarrow> kernel \<Rightarrow> (Thread \<times> kernel) option" where
  "make_Thread A c entry stack priority affinity k = do {
     slayout \<leftarrow> make_StackLayout A stack 0;
     let t = sl_tcb slayout;
     let (tid, k) = generate_thread_id k;
     let k = k\<lparr>mem := construct_TCB A t tid priority affinity (sl_user_stack slayout) entry (mem k)\<rparr>;
     let k = set_port (cortos_port_context_init t (port k)) k;
     k \<leftarrow> register_thread c t k;
     Some (Some t, k) }"

definition destroy_Thread :: "Thread \<Rightarrow> kernel \<Rightarrow> unit option" where
  "destroy_Thread th k =
     (case th of None \<Rightarrow> Some ()
      | Some t \<Rightarrow> CORTOS_ASSERT (t_state (tcbs (mem k) t) = Terminated))"

text \<open>Moving: the new handle and what is left of the other.\<close>

definition move_construct :: "Thread \<Rightarrow> Thread \<times> Thread" where
  "move_construct other = (other, None)"

definition move_assign :: "Thread \<Rightarrow> Thread \<Rightarrow> Thread \<times> Thread" where
  "move_assign this other = (other, None)"

definition join :: "(nat \<Rightarrow> kernel \<Rightarrow> kernel option) \<Rightarrow> nat \<Rightarrow> Thread \<Rightarrow> kernel \<Rightarrow> kernel option" where
  "join env c th k = do {
     t \<leftarrow> th;
     (result, k) \<leftarrow> wait_until env c (has_terminated t) [t_termination (tcbs (mem k) t)] k;
     Some k }"

section \<open>Starting and stopping\<close>

definition init_idle_thread :: "abi \<Rightarrow> callable \<Rightarrow> nat \<Rightarrow> kernel \<Rightarrow> kernel option" where
  "init_idle_thread A idle_task c k = do {
     s \<leftarrow> scheduler_for_core c k;
     slayout \<leftarrow> make_StackLayout A (idle_stack s) 0;
     let t = sl_tcb slayout;
     let m = construct_TCB A t IDLE_THREAD_ID (of_nat (MAX_PRIORITIES - 1)) (from_id (core_id s))
               (sl_user_stack slayout) idle_task (mem k);
     let k = set_port (cortos_port_context_init t (port k)) (k\<lparr>mem := m\<rparr>);
     let h = (tcbs m)(t := (tcbs m t)\<lparr>t_pinned_core := core_id s\<rparr>);
     Some (set_scheduler c (s\<lparr>idle_thread := Some t\<rparr>) (set_tcbs h k)) }"

fun init_idle_threads :: "abi \<Rightarrow> callable \<Rightarrow> nat list \<Rightarrow> kernel \<Rightarrow> kernel option" where
  "init_idle_threads A idle_task [] k = Some k"
| "init_idle_threads A idle_task (c # cs) k =
     do { k' \<leftarrow> init_idle_thread A idle_task c k; init_idle_threads A idle_task cs k' }"

definition initialise :: "abi \<Rightarrow> callable \<Rightarrow> kernel \<Rightarrow> kernel option" where
  "initialise A idle_task k = do {
     CORTOS_ASSERT (\<not> initialised k);
     let k = set_port (cortos_port_init (port k)) k;
     k \<leftarrow> init_idle_threads A idle_task [0..<length (schedulers k)] k;
     Some (k\<lparr>initialised := True\<rparr>) }"

text \<open>\<^verbatim>\<open>start\<close> up to the launch of the cores, which then run \<^const>\<open>core_entry\<close> each.\<close>

definition start :: "kernel \<Rightarrow> kernel option" where
  "start k = do {
     CORTOS_ASSERT (initialised k);
     CORTOS_ASSERT (active_threads k > 0);
     let k = k\<lparr>running := True\<rparr>;
     p \<leftarrow> cortos_port_start_cores CORES (port k);
     Some (set_port p k) }"

fun reset_schedulers :: "Scheduler list \<Rightarrow> Scheduler list option" where
  "reset_schedulers [] = Some []"
| "reset_schedulers (s # ss) =
     do { s' \<leftarrow> sched_reset s; ss' \<leftarrow> reset_schedulers ss; Some (s' # ss') }"

definition finalise :: "kernel \<Rightarrow> kernel option" where
  "finalise k = do {
     CORTOS_ASSERT (initialised k);
     let k = k\<lparr>running := False, thread_id_generator := 1, active_threads := 0, initialised := False\<rparr>;
     ss \<leftarrow> reset_schedulers (schedulers k);
     Some (k\<lparr>schedulers := ss\<rparr>) }"

text \<open>
  The static kernel object before \<^verbatim>\<open>initialise\<close>: \<open>stacks\<close> gives the addresses of the idle stacks, and
  \<open>m\<close> is the memory at that time, in which no thread exists yet.
\<close>

definition Kernel_init :: "(nat \<Rightarrow> span) \<Rightarrow> wmem \<Rightarrow> kernel" where
  "Kernel_init stacks m =
     \<lparr>mem = m, wait_locked = (\<lambda>_. False), k_locked = False,
      schedulers = map (\<lambda>c. Scheduler_init c (stacks c)) [0..<CORES],
      initialised = False, running = False, active_threads = 0, thread_id_generator = 1,
      port = port_state_init, hooks = []\<rparr>"

end
