(* ===== verification/Kernel_Inv.thy ===== *)
theory Kernel_Inv
  imports Kernel
begin

text \<open>
  The invariant of the running kernel and its preservation: by the context switch, by waiting on
  several waitables and by signalling.
\<close>

section \<open>Group locks around an update of the store\<close>

text \<open>
  Releasing a group lock that was taken on free waitables gives back the state from before, with
  whatever was done to the store meanwhile.
\<close>

lemma holding_release:
  assumes r: "core_ready c (length v) k" and free: "\<And>w. w \<in> set v \<Longrightarrow> \<not> wait_locked k w"
  shows "WaitableGroupUnlock c v ((holding c v k)\<lparr>mem := m\<rparr>) = Some (k\<lparr>mem := m\<rparr>)"
proof -
  let ?k = "(holding c v k)\<lparr>mem := m\<rparr>" and ?d = "preempt_disable_depth (schedulers k ! c)"
  have c: "this_core c k = c" "c < length (schedulers k)" "unat ?d + length v < 2 ^ 32"
    using r by (auto simp: core_ready_def)
  have s: "schedulers ?k ! c = (schedulers k ! c)\<lparr>preempt_disable_depth := ?d + of_nat (length v)\<rparr>"
    "this_core c ?k = c" "length (schedulers ?k) = length (schedulers k)"
    using c by (simp_all add: holding_def set_scheduler_def this_core_def)
  have "unat (?d + of_nat (length v)) = unat ?d + length v"
    using c(3) by (simp add: unat_add_lem [THEN iffD1] unat_of_nat)
  then have "length (rev v) \<le> unat (preempt_disable_depth (schedulers ?k ! c))" unfolding s by simp
  moreover have "(\<lambda>w. w \<notin> set v \<and> (w \<in> set v \<or> wait_locked k w)) = wait_locked k"
    using free by auto
  ultimately show ?thesis
    using unlock_all_eq [of c ?k "rev v"] c s unfolding WaitableGroupUnlock_def
    by (simp add: holding_def set_scheduler_def)
qed

lemma lock_unlock_waitable:
  assumes "core_ready c 1 k" "w \<noteq> nullptr" "\<not> wait_locked k w"
  shows "lock_waitable c w k = Some (holding c [w] k)"
    and "unlock_waitable c w (holding c [w] k) = Some k"
proof -
  show "lock_waitable c w k = Some (holding c [w] k)" by (rule lock_waitable_holding [OF assms])
  have e: "(holding c [w] k)\<lparr>mem := mem k\<rparr> = holding c [w] k" "k\<lparr>mem := mem k\<rparr> = k"
    by (simp_all add: holding_def set_scheduler_def)
  have u: "unlock_waitable c w k' = WaitableGroupUnlock c [w] k'" for k'
    by (cases "unlock_waitable c w k'") (simp_all add: WaitableGroupUnlock_def)
  show "unlock_waitable c w (holding c [w] k) = Some k"
    using holding_release [of c "[w]" k "mem k"] assms unfolding e u by simp
qed

text \<open>Choosing the best waiter under the lock changes nothing.\<close>

lemma pick_best_locked_eq:
  assumes "core_ready c 1 k" "w \<noteq> nullptr" "\<not> wait_locked k w" "wait_inv T X (mem k) Q"
  shows "pick_best_locked c w k = Some (best_waiter (mem k) (Q w), k)"
  using lock_unlock_waitable [OF assms(1-3)] wait_inv_pick_best [OF assms(4), of w]
  by (simp add: pick_best_locked_def)

section \<open>Blocking\<close>

lemma current_of_holding [simp]: "c < length (schedulers k) \<Longrightarrow> this_core c k = c \<Longrightarrow>
    current_of c (holding c v k) = current_thread (schedulers k ! c)"
  by (simp add: current_of_def scheduler_for_core_def holding_def set_scheduler_def this_core_def)

text \<open>The first part of \<^verbatim>\<open>wait_for_any\<close> puts the current thread on all queues and keeps the invariant.\<close>

lemma wait_prepare_inv:
  assumes inv: "wait_inv T {} (mem k) Q" and cr: "core_ready c (length ws) k"
    and cur: "current_thread (schedulers k ! c) = Some t" "t \<in> T" "t_state (tcbs (mem k) t) = Running"
    and ws: "ws \<noteq> []" "length ws \<le> MAX_WAIT_NODES" "nullptr \<notin> set ws" "distinct ws"
    and free: "\<And>w. w \<in> set ws \<Longrightarrow> \<not> wait_locked k w"
  obtains m' where "wait_prepare c ws k = Some (k\<lparr>mem := m'\<rparr>)" "prepare_block t ws (mem k) = Some m'"
    "wait_inv T {} m' (add_nodes t 0 ws Q)"
proof -
  obtain m' where m': "prepare_block t ws (mem k) = Some m'" "wait_inv T {} m' (add_nodes t 0 ws Q)"
    using prepare_block_inv [OF inv cur(2,3) ws] by blast
  have c: "c < length (schedulers k)" "this_core c k = c" using cr by (auto simp: core_ready_def)
  have "WaitableGroupLock c ws k = Some (sort ws, holding c (sort ws) k)"
    using WaitableGroupLock_holding [OF cr ws(4,3,2)] free by simp
  moreover have "prepare_block_current_thread c ws (holding c (sort ws) k) =
      Some ((holding c (sort ws) k)\<lparr>mem := m'\<rparr>)"
    using c cur(1) m'(1) by (simp add: prepare_block_current_thread_def)
  moreover have "WaitableGroupUnlock c (sort ws) ((holding c (sort ws) k)\<lparr>mem := m'\<rparr>) = Some (k\<lparr>mem := m'\<rparr>)"
    using cr free by (intro holding_release) simp_all
  ultimately have "wait_prepare c ws k = Some (k\<lparr>mem := m'\<rparr>)"
    using ws by (simp add: wait_prepare_def)
  then show thesis using m' by (rule that)
qed

section \<open>Waking\<close>

text \<open>A thread without nodes is no exception to the wait invariant.\<close>

lemma wait_inv_shrink:
  assumes "wait_inv T X m Q" "slots m t = {}"
  shows "wait_inv T (X - {t}) m Q"
proof -
  have "\<not> live_node T m p" if "fst p = t" for p
    using assms(2) that by (cases p) (auto simp: live_node_def slots_def)
  then show ?thesis using assms(1) by (auto simp: wait_inv_def node_ok_def)
qed

text \<open>
  The store when the winner has been decided and all nodes of the thread are out of the queues.
\<close>

lemma teardown_inv:
  assumes inv: "wait_inv T {t} (mem k) Q" and t: "t \<in> T" and cr: "core_ready c MAX_WAIT_NODES k"
    and free: "\<And>w. \<not> wait_locked k w"
  obtains m' ws where "teardown_wait_group c t t k =
      Some (log_hooks (map (\<lambda>w. on_thread_removed w (create_waiter (tcbs (mem k) t))) ws) (k\<lparr>mem := m'\<rparr>))"
    "only_pool t (mem k) m'" "slots m' t = {}" "wait_inv T {} m' (\<lambda>v. filter (\<lambda>p. fst p \<noteq> t) (Q v))"
    "distinct ws" "set ws = {w. \<exists>i. (t, i) \<in> set (Q w)}"
    "\<forall>x. fst x \<noteq> t \<longrightarrow> same_node (nodes (mem k) x) (nodes m' x)"
proof -
  let ?ws = "active_waitables (mem k) t [0..<MAX_WAIT_NODES]"
  note ws = active_waitables_props [OF inv t]
  have cr': "core_ready c (length ?ws) k" using cr ws(3) by (auto simp: core_ready_def)
  obtain m' where m': "release_nodes t t (mem k) = Some m'" "only_pool t (mem k) m'" "slots m' t = {}"
    "wait_inv T {t} m' (\<lambda>v. filter (\<lambda>p. fst p \<noteq> t) (Q v))"
    "\<forall>x. fst x \<noteq> t \<longrightarrow> same_node (nodes (mem k) x) (nodes m' x)"
    by (rule release_nodes_inv [OF inv t]) simp_all
  have "WaitableGroupLock c ?ws k = Some (sort ?ws, holding c (sort ?ws) k)"
    using WaitableGroupLock_holding [OF cr' ws(1,2,3)] free by simp
  moreover have "WaitableGroupUnlock c (sort ?ws) ((holding c (sort ?ws) k)\<lparr>mem := m'\<rparr>) = Some (k\<lparr>mem := m'\<rparr>)"
    using cr' free by (intro holding_release) simp_all
  ultimately have "teardown_wait_group c t t k =
      Some (log_hooks (map (\<lambda>w. on_thread_removed w (create_waiter (tcbs (mem k) t))) ?ws) (k\<lparr>mem := m'\<rparr>))"
    using collect_waitables_eq [OF inv t] m'(1) by (simp add: teardown_wait_group_def Let_def)
  moreover have "wait_inv T {} m' (\<lambda>v. filter (\<lambda>p. fst p \<noteq> t) (Q v))"
    using wait_inv_shrink [OF m'(4,3)] by simp
  ultimately show thesis using m'(2,3,5) ws(1,4) by (intro that [of ?ws m']) simp_all
qed

text \<open>The wait group of a woken thread records the winner.\<close>

definition won_group :: "node_ptr \<Rightarrow> bool \<Rightarrow> wmem \<Rightarrow> WaitGroup" where
  "won_group p acquired m = (t_wait_group (tcbs m (fst p)))
     \<lparr>g_done := True, g_winner_index := int (unat (n_index (nodes m p))), g_acquired := acquired\<rparr>"

lemma wake_thread_inv:
  assumes inv: "wait_inv T {} (mem k) Q" and p: "p \<in> set (Q w)"
    and cr: "core_ready c MAX_WAIT_NODES k" and free: "\<And>w. \<not> wait_locked k w"
  obtains m' ws pool where "wake_thread c p acquired k = set_thread_ready c (fst p)
      (log_hooks (map (\<lambda>w. on_thread_removed w (create_waiter (tcbs (mem k) (fst p)))) ws) (k\<lparr>mem := m'\<rparr>))"
    "tcbs m' = (tcbs (mem k))(fst p := (tcbs (mem k) (fst p))
       \<lparr>t_wait_group := won_group p acquired (mem k), t_wait_nodes := pool\<rparr>)"
    "slots m' (fst p) = {}" "wait_inv T {} m' (\<lambda>v. filter (\<lambda>q. fst q \<noteq> fst p) (Q v))"
    "distinct ws" "set ws = {w. \<exists>i. (fst p, i) \<in> set (Q w)}"
    "\<forall>x. fst x \<noteq> fst p \<longrightarrow> same_node (nodes (mem k) x) (nodes m' x)"
proof -
  let ?t = "fst p" and ?g = "won_group p acquired (mem k)"
  have live: "live_node T (mem k) p" and w: "n_waitable (nodes (mem k) p) = Some w"
    using p wait_invD(2) [OF inv] by auto
  have t: "?t \<in> T" using live by (simp add: live_node_def)
  have ok: "n_group (nodes (mem k) p) = Some ?t" "n_index (nodes (mem k) p) \<noteq> INVALID_INDEX"
    "t_state (tcbs (mem k) ?t) = Blocked" "\<not> g_done (t_wait_group (tcbs (mem k) ?t))"
    using wait_invD(5) [OF inv live] by (auto simp: node_ok_def)
  let ?k = "k\<lparr>mem := set_group ?t ?g (mem k)\<rparr>"
  have inv1: "wait_inv T {?t} (mem ?k) Q"
    using wait_inv_mono [OF inv, of "{?t}"] wait_invD(5) [OF inv]
    by (intro wait_inv_tcbs_cong [OF inv]) (auto simp: set_group_def node_ok_def)
  have cr1: "core_ready c MAX_WAIT_NODES ?k" using cr by (simp add: core_ready_def this_core_def)
  have free1: "\<And>w. \<not> wait_locked ?k w" using free by simp
  have w1: "create_waiter (tcbs (mem ?k) ?t) = create_waiter (tcbs (mem k) ?t)"
    by (simp add: set_group_def create_waiter_def)
  obtain m' ws where td: "teardown_wait_group c ?t ?t ?k =
      Some (log_hooks (map (\<lambda>w. on_thread_removed w (create_waiter (tcbs (mem k) ?t))) ws) (?k\<lparr>mem := m'\<rparr>))"
    and r: "only_pool ?t (mem ?k) m'" "slots m' ?t = {}"
      "wait_inv T {} m' (\<lambda>v. filter (\<lambda>q. fst q \<noteq> ?t) (Q v))"
      "distinct ws" "set ws = {w. \<exists>i. (?t, i) \<in> set (Q w)}"
      "\<forall>x. fst x \<noteq> ?t \<longrightarrow> same_node (nodes (mem ?k) x) (nodes m' x)"
    by (rule teardown_inv [OF inv1 t cr1 free1, unfolded w1])
  have "wake_thread c p acquired k = set_thread_ready c ?t
      (log_hooks (map (\<lambda>w. on_thread_removed w (create_waiter (tcbs (mem k) ?t))) ws) (k\<lparr>mem := m'\<rparr>))"
    using td wait_inv_tcb(1) [OF inv live] ok w
    by (simp add: wake_thread_def Let_def try_win_def won_group_def)
  moreover obtain pool where "tcbs m' = (tcbs (mem k))(?t := (tcbs (mem k) ?t)
       \<lparr>t_wait_group := ?g, t_wait_nodes := pool\<rparr>)"
    using r(1) by (auto simp: only_pool_def set_group_def)
  moreover have "nodes (mem ?k) = nodes (mem k)" by (simp add: set_group_def)
  ultimately show thesis using r(2-6) by (intro that [of ws m' pool]) simp_all
qed

section \<open>The kernel invariant\<close>

text \<open>
  \<open>kernel_inv A T k Q L R n\<close>: the running kernel with threads \<open>T\<close> (the idle threads among them),
  waiter queues \<open>Q\<close>, and for each core \<open>c\<close> the ready lists \<open>L c\<close> and the inbox contents \<open>R c\<close>, from
  which \<open>n c\<close> requests have been taken so far.  Every core executes its current thread, which is
  \<^const>\<open>Running\<close> except on the cores \<open>A\<close> that are about to give up their thread.  A thread on wait
  queues is in no ready structure, and every thread that is not executing and not terminated has a
  suspended fiber.
\<close>

definition core_inv ::
  "bool \<Rightarrow> tcb_ptr set \<Rightarrow> kernel \<Rightarrow> nat \<Rightarrow> ready_lists \<Rightarrow> tcb_ptr list \<Rightarrow> nat \<Rightarrow> bool" where
  "core_inv leaving T k c L R n \<longleftrightarrow>
     core_id (schedulers k ! c) = c \<and> preempt_disable_depth (schedulers k ! c) = 0 \<and>
     sched_rep n (tcbs (mem k), schedulers k ! c) L R \<and> members L \<union> set R \<subseteq> T \<and>
     (\<forall>t \<in> set R. t_state (tcbs (mem k) t) \<noteq> Terminated) \<and>
     (\<exists>i \<in> T. idle_thread (schedulers k ! c) = Some i \<and> t_state (tcbs (mem k) i) \<noteq> Terminated) \<and>
     (\<exists>p \<in> T. current_ok (tcbs (mem k), schedulers k ! c) p \<and>
        current_context (port k) c = Some p \<and> t_state (tcbs (mem k) p) \<noteq> Ready \<and>
        (\<not> leaving \<longrightarrow> t_state (tcbs (mem k) p) = Running))"

definition thread_inv :: "kernel \<Rightarrow> (nat \<Rightarrow> tcb_ptr list) \<Rightarrow> tcb_ptr \<Rightarrow> bool" where
  "thread_inv k R t \<longleftrightarrow> (let h = tcbs (mem k); d = t_pinned_core (h t) in
     d < CORES \<and> unat (t_effective_priority (h t)) < MAX_PRIORITIES \<and>
     (slots (mem k) t \<noteq> {} \<longrightarrow>
        \<not> tcb_is_enqueued (h t) \<and> t \<notin> set (R d) \<and> idle_thread (schedulers k ! d) \<noteq> Some t) \<and>
     ((\<forall>c < CORES. current_thread (schedulers k ! c) \<noteq> Some t) \<longrightarrow> t_state (h t) \<noteq> Terminated \<longrightarrow>
        fiber_suspended (port k) t))"

definition port_inv :: "kernel \<Rightarrow> bool" where
  "port_inv k \<longleftrightarrow> length (schedulers k) = CORES \<and> (\<forall>w. \<not> wait_locked k w) \<and> \<not> k_locked k \<and> running k \<and>
     cores_count (port k) = CORES \<and> handler_registered (port k) \<and> pump_continues (port k)"

definition kernel_inv ::
  "nat set \<Rightarrow> tcb_ptr set \<Rightarrow> kernel \<Rightarrow> (waitable_ptr \<Rightarrow> node_ptr list) \<Rightarrow> (nat \<Rightarrow> ready_lists) \<Rightarrow>
   (nat \<Rightarrow> tcb_ptr list) \<Rightarrow> (nat \<Rightarrow> nat) \<Rightarrow> bool" where
  "kernel_inv A T k Q L R n \<longleftrightarrow>
     wait_inv T {} (mem k) Q \<and> port_inv k \<and>
     (\<forall>c < CORES. core_inv (c \<in> A) T k c (L c) (R c) (n c)) \<and> (\<forall>t \<in> T. thread_inv k R t)"

lemma kernel_invD:
  assumes "kernel_inv A T k Q L R n"
  shows "wait_inv T {} (mem k) Q" "port_inv k"
    "c < CORES \<Longrightarrow> core_inv (c \<in> A) T k c (L c) (R c) (n c)" "t \<in> T \<Longrightarrow> thread_inv k R t"
  using assms by (simp_all add: kernel_inv_def)

lemma kernel_inv_core_ready:
  assumes "kernel_inv A T k Q L R n" "c < CORES" "m < 2 ^ 32"
  shows "core_ready c m k" "this_core c k = c" "c < length (schedulers k)"
  using kernel_invD(2,3) [OF assms(1)] assms(2,3)
  by (auto simp: core_ready_def port_inv_def core_inv_def this_core_def cortos_port_get_core_id_def
      CORES_def)

text \<open>Threads of one core are not threads of another.\<close>

lemma sched_rep_pinned:
  "sched_rep n (h, s) L R \<Longrightarrow> t \<in> members L \<union> set R \<Longrightarrow> t_pinned_core (h t) = core_id s"
  by (auto simp: sched_rep_def)

text \<open>A scheduler does not see changes to threads it does not hold.\<close>

lemma sched_rep_frame:
  assumes rep: "sched_rep n (h, s) L R" and ev: "evolves S h h'"
    and st: "S \<inter> members L = {}"
    and lk: "\<And>x. x \<in> members L \<union> set R \<or> idle_thread s = Some x \<Longrightarrow> same_links h h' x"
  shows "sched_rep n (h', s) L R"
proof -
  have "matrix_rep h' (ready_matrix s) L"
  proof (rule matrix_rep_cong [of h])
    show "matrix_rep h (ready_matrix s) L" using rep by (simp add: sched_rep_def)
    fix t assume t: "t \<in> members L"
    then have "same_links h h' t" "t \<notin> S" using lk st by auto
    then show "t_next (h' t) = t_next (h t) \<and> t_prev (h' t) = t_prev (h t) \<and>
      t_effective_priority (h' t) = t_effective_priority (h t) \<and> t_state (h' t) = t_state (h t)"
      using evolves_sel(2,9) [OF ev] by (simp add: same_links_def)
  qed
  then show ?thesis
    using rep lk [THEN same_links_enqueued] evolves_sel(2,3) [OF ev] by (auto simp: sched_rep_def)
qed

lemma current_ok_frame:
  assumes "current_ok (h, s) p" "evolves S h h'" "same_links h h' p"
  shows "current_ok (h', s) p"
  using assms same_links_enqueued [OF assms(3)] evolves_sel(2,3) [OF assms(2)] by (simp add: current_ok_def)

section \<open>Switching keeps the invariant\<close>

text \<open>What a reschedule on core \<open>c\<close> does to the thread store, seen from the whole kernel.\<close>

definition switched ::
  "nat \<Rightarrow> tcb_ptr \<Rightarrow> tcb_ptr \<Rightarrow> tcb_heap \<Rightarrow> tcb_heap \<Rightarrow> tcb_ptr set \<Rightarrow> bool" where
  "switched c p nxt h h' M \<longleftrightarrow>
     evolves (insert p (insert nxt M)) h h' \<and> (\<forall>x. x \<notin> insert nxt M \<longrightarrow> x \<noteq> p \<longrightarrow> same_links h h' x) \<and>
     (\<forall>x \<in> insert p (insert nxt M). t_pinned_core (h x) = c) \<and> t_state (h' nxt) = Running \<and>
     (nxt \<noteq> p \<longrightarrow> t_state (h' p) = (if t_state (h p) = Running then Ready else t_state (h p)) \<and>
        (t_state (h p) \<noteq> Running \<longrightarrow> same_links h h' p))"

text \<open>The fibers around a switch from \<open>p\<close> to \<open>nxt\<close>.\<close>

definition switched_port :: "nat \<Rightarrow> tcb_ptr \<Rightarrow> tcb_ptr \<Rightarrow> port_state \<Rightarrow> port_state" where
  "switched_port c p nxt q =
     q\<lparr>current_context := (current_context q)(c := Some nxt),
       fiber_suspended := ((fiber_suspended q)(p := True))(nxt := False)\<rparr>"

lemma core_inv_other:
  assumes ci: "core_inv b T k d L R n" and d: "d \<noteq> c" and sw: "switched c p nxt (tcbs (mem k)) h' M"
    and k': "mem k' = (mem k)\<lparr>tcbs := h'\<rparr>" "schedulers k' ! d = schedulers k ! d"
      "port k' = switched_port c p nxt (port k)"
  shows "core_inv b T k' d L R n"
proof -
  let ?h = "tcbs (mem k)" and ?s = "schedulers k ! d" and ?S = "insert p (insert nxt M)"
  obtain i q where c: "core_id ?s = d" "preempt_disable_depth ?s = 0" "sched_rep n (?h, ?s) L R"
    "members L \<union> set R \<subseteq> T" "\<forall>t \<in> set R. t_state (?h t) \<noteq> Terminated"
    "i \<in> T" "idle_thread ?s = Some i" "t_state (?h i) \<noteq> Terminated"
    "q \<in> T" "current_ok (?h, ?s) q" "current_context (port k) d = Some q" "t_state (?h q) \<noteq> Ready"
    "\<not> b \<longrightarrow> t_state (?h q) = Running" using ci by (auto simp: core_inv_def)
  have ev: "evolves ?S ?h h'" and pin: "\<And>x. x \<in> ?S \<Longrightarrow> t_pinned_core (?h x) = c"
    using sw by (auto simp: switched_def)
  have out: "x \<notin> ?S" if "x \<in> members L \<union> set R \<or> idle_thread ?s = Some x \<or> x = q" for x
    using that pin [of x] d c(1,3,10) by (auto simp: sched_rep_def current_ok_def)
  have lk: "same_links ?h h' x" if "x \<notin> ?S" for x using sw that by (simp add: switched_def)
  have st: "t_state (h' x) = t_state (?h x)" if "x \<notin> ?S" for x using evolves_sel(9) [OF ev that] .
  have "sched_rep n (h', ?s) L R"
    using out lk by (intro sched_rep_frame [OF c(3) ev]) auto
  moreover have "current_ok (h', ?s) q"
    using current_ok_frame [OF c(10) ev] lk out by blast
  moreover have "\<forall>t \<in> set R. t_state (h' t) \<noteq> Terminated" using c(5) st out by fastforce
  moreover have "t_state (h' i) = t_state (?h i)" "t_state (h' q) = t_state (?h q)"
    using st out c(7) by blast+
  moreover have "current_context (port k') d = Some q" using c(11) d by (simp add: k'(3) switched_port_def)
  ultimately show ?thesis
    unfolding core_inv_def k' using c by (auto simp: k')
qed

lemma thread_inv_switched:
  assumes ti: "thread_inv k R t" and sw: "switched c p nxt (tcbs (mem k)) h' M"
    and k': "mem k' = (mem k)\<lparr>tcbs := h'\<rparr>" "\<And>d. idle_thread (schedulers k' ! d) = idle_thread (schedulers k ! d)"
      "port k' = switched_port c p nxt (port k)"
      "\<And>d. d \<noteq> c \<Longrightarrow> current_thread (schedulers k' ! d) = current_thread (schedulers k ! d)"
      "c < CORES" "current_thread (schedulers k' ! c) = Some nxt" "current_thread (schedulers k ! c) = Some p"
    and wait: "slots (mem k) t \<noteq> {} \<Longrightarrow> t \<notin> insert nxt M \<and> (t = p \<longrightarrow> t_state (tcbs (mem k) p) \<noteq> Running)"
    and dead: "t_state (tcbs (mem k) t) = Terminated \<Longrightarrow> t \<notin> insert nxt M"
    and R': "\<And>d. set (R' d) \<subseteq> set (R d)"
  shows "thread_inv k' R' t"
proof -
  let ?h = "tcbs (mem k)"
  have ev: "evolves (insert p (insert nxt M)) ?h h'" using sw by (simp add: switched_def)
  have sl: "slots (mem k') t = slots (mem k) t" by (simp add: slots_def k'(1))
  have lk: "same_links ?h h' t" if "slots (mem k) t \<noteq> {}"
    using wait [OF that] sw by (cases "t = p") (auto simp: switched_def)
  have "fiber_suspended (port k') t"
    if nc: "\<forall>d < CORES. current_thread (schedulers k' ! d) \<noteq> Some t" and nt: "t_state (h' t) \<noteq> Terminated"
  proof (cases "t = p")
    case True
    then show ?thesis using nc k'(5,6) by (auto simp: k'(3) switched_port_def)
  next
    case False
    have "current_thread (schedulers k ! d) \<noteq> Some t" if "d < CORES" for d
      using nc k'(4,7) that False by (cases "d = c") auto
    moreover have "t_state (?h t) \<noteq> Terminated"
      using nt dead evolves_sel(9) [OF ev, of t] False by auto
    ultimately have "fiber_suspended (port k) t" using ti by (simp add: thread_inv_def Let_def)
    then show ?thesis using nc k'(5,6) by (auto simp: k'(3) switched_port_def)
  qed
  then show ?thesis
    using ti R' lk [THEN same_links_enqueued] evolves_sel(2,3) [OF ev]
    unfolding thread_inv_def Let_def sl by (auto simp: k'(1,2))
qed

lemma wait_inv_switched:
  assumes wv: "wait_inv T {} m Q" and sw: "switched c p nxt (tcbs m) h' M"
    and wait: "\<And>t. slots m t \<noteq> {} \<Longrightarrow> t \<in> T \<Longrightarrow>
      t \<notin> insert nxt M \<and> (t = p \<longrightarrow> t_state (tcbs m p) \<noteq> Running)"
  shows "wait_inv T {} (m\<lparr>tcbs := h'\<rparr>) Q"
proof (rule wait_inv_tcbs_cong [OF wv])
  fix q assume lv: "live_node T m q"
  have ev: "evolves (insert p (insert nxt M)) (tcbs m) h'" using sw by (simp add: switched_def)
  have "fst q \<in> T" "slots m (fst q) \<noteq> {}" using lv by (cases q; auto simp: live_node_def slots_def)+
  then have "t_state (h' (fst q)) = t_state (tcbs m (fst q))"
    using wait [of "fst q"] sw evolves_sel(9) [OF ev, of "fst q"] by (cases "fst q = p") (auto simp: switched_def)
  then show "t_state (tcbs (m\<lparr>tcbs := h'\<rparr>) (fst q)) = Blocked \<and>
      \<not> g_done (t_wait_group (tcbs (m\<lparr>tcbs := h'\<rparr>) (fst q)))"
    using wait_invD(5) [OF wv lv] evolves_sel(4) [OF ev] by (simp add: node_ok_def)
qed (use sw evolves_sel(5) in \<open>auto simp: switched_def\<close>)

text \<open>The abstract effect of giving up core \<open>c\<close>: who competes and who wins.\<close>

definition competing :: "kernel \<Rightarrow> nat \<Rightarrow> tcb_ptr \<Rightarrow> ready_lists \<Rightarrow> tcb_ptr list \<Rightarrow> ready_lists" where
  "competing k c p L R = enlist (tcbs (mem k)) (R @ rotation (tcbs (mem k)) (schedulers k ! c) p) L"

definition winner :: "kernel \<Rightarrow> nat \<Rightarrow> ready_lists \<Rightarrow> tcb_ptr" where
  "winner k c L' = next_thread (the (idle_thread (schedulers k ! c))) L'"

lemma core_reschedule:
  assumes ci: "core_inv b T k c L R n" and n: "n + length R \<le> 2 ^ 62"
    and cur: "current_thread (schedulers k ! c) = Some p"
  defines "L' \<equiv> competing k c p L R"
  obtains h' s' where "reschedule (tcbs (mem k), schedulers k ! c) = Some (p, winner k c L', h', s')"
    "switched c p (winner k c L') (tcbs (mem k)) h' (members L')" "members L' \<subseteq> T" "winner k c L' \<in> T"
    "sched_rep (n + length R) (h', s') (delist (winner k c L') L') []"
    "current_ok (h', s') (winner k c L')" "idle_thread s' = idle_thread (schedulers k ! c)"
    "core_id s' = c" "preempt_disable_depth s' = 0"
    "\<And>i. idle_thread s' = Some i \<Longrightarrow> i \<in> T \<and> t_state (h' i) \<noteq> Terminated"
    "\<And>x. x \<in> insert (winner k c L') (members L') \<Longrightarrow>
       x = p \<and> t_state (tcbs (mem k) p) = Running \<or> t_state (tcbs (mem k) x) = Ready \<or>
       x \<in> set R \<and> t_state (tcbs (mem k) x) \<noteq> Terminated \<or>
       idle_thread (schedulers k ! c) = Some x \<and> t_state (tcbs (mem k) x) \<noteq> Terminated"
proof -
  let ?h = "tcbs (mem k)" and ?s = "schedulers k ! c"
  obtain i where c: "core_id ?s = c" "preempt_disable_depth ?s = 0" "sched_rep n (?h, ?s) L R"
    "members L \<union> set R \<subseteq> T" "\<forall>t \<in> set R. t_state (?h t) \<noteq> Terminated"
    "i \<in> T" "idle_thread ?s = Some i" "t_state (?h i) \<noteq> Terminated"
    "p \<in> T" "current_ok (?h, ?s) p" "t_state (?h p) \<noteq> Ready"
    using ci cur by (auto simp: core_inv_def current_ok_def)
  let ?n = "next_thread i L'"
  have w: "winner k c L' = ?n" by (simp add: winner_def c(7))
  obtain h' s' where r: "reschedule (?h, ?s) = Some (p, ?n, h', s')"
    "sched_rep (n + length R) (h', s') (delist ?n L') []"
    "current_ok (h', s') ?n" "idle_thread s' = Some i" "t_state (h' ?n) = Running"
    "core_id s' = core_id ?s \<and> preempt_disable_depth s' = preempt_disable_depth ?s"
    "evolves (insert p (insert ?n (set R))) ?h h'" "\<And>x. x \<notin> members L' \<Longrightarrow> same_links ?h h' x"
    "?n \<noteq> p \<Longrightarrow> t_state (h' p) = (if t_state (?h p) = Running then Ready else t_state (?h p))"
    using reschedule_keeps [OF c(3) n c(10,7,11), folded competing_def, folded L'_def] by blast
  have mem: "members L' = members L \<union> set R \<union> set (rotation ?h ?s p)"
    by (auto simp: L'_def competing_def members_enlist)
  have rot: "set (rotation ?h ?s p) \<subseteq> {p}" "set (rotation ?h ?s p) = {} \<or> t_state (?h p) = Running"
    by (auto simp: rotation_def)
  have nx: "?n = i \<or> ?n \<in> members L'"
    using first_ready_member by (auto simp: next_thread_def split: option.splits)
  have pin: "t_pinned_core (?h x) = c" if "x \<in> insert p (insert ?n (members L'))" for x
    using that nx rot(1) c(1,3,7,10) by (auto simp: mem sched_rep_def current_ok_def)
  have pL: "p \<notin> members L'" if "t_state (?h p) \<noteq> Running"
    using that rot current_not_listed [OF c(3) cur] by (auto simp: mem)
  have "switched c p ?n ?h h' (members L')"
    unfolding switched_def
    using r(5,8,9) pin pL by (auto intro!: evolves_mono [OF r(7)] simp: mem)
  moreover have "members L' \<subseteq> T" using c(4,9) rot(1) by (auto simp: mem)
  moreover have "x = p \<and> t_state (?h p) = Running \<or> t_state (?h x) = Ready \<or>
      x \<in> set R \<and> t_state (?h x) \<noteq> Terminated \<or> idle_thread ?s = Some x \<and> t_state (?h x) \<noteq> Terminated"
    if x: "x \<in> insert ?n (members L')" for x
  proof -
    have "t_state (?h x) = Ready" if "x \<in> members L" for x
      using that c(3) matrix_rep_member [of ?h "ready_matrix ?s" L x] by (auto simp: sched_rep_def members_def)
    then show ?thesis using x nx rot c(5,7,8) by (auto simp: mem)
  qed
  moreover have "t_state (h' i) \<noteq> Terminated"
  proof (cases "i = ?n")
    case True
    show ?thesis using r(5) unfolding True [symmetric] by simp
  next
    case False
    have "i \<notin> set R" using c(3,7) by (auto simp: sched_rep_def)
    then show ?thesis
      using False r(9) evolves_sel(9) [OF r(7), of i] c(8) by (cases "i = p") (auto split: if_splits)
  qed
  ultimately show thesis
    using r(1-6) nx c(1,2,6,7) by (intro that [of h' s']) (auto simp: w)
qed

lemma fiber_switch:
  assumes "current_context q c = Some p" "fiber_suspended (fiber_yield c q) nxt"
  shows "cortos_port_switch c nxt (fiber_yield c q) = Some (switched_port c p nxt q)"
  using assms by (simp add: cortos_port_switch_def fiber_yield_def switched_port_def)

lemma kernel_inv_current:
  assumes "kernel_inv A T k Q L R n" "c < CORES"
  obtains p where "current_thread (schedulers k ! c) = Some p" "p \<in> T" "current_context (port k) c = Some p"
    "current_ok (tcbs (mem k), schedulers k ! c) p" "c \<notin> A \<Longrightarrow> t_state (tcbs (mem k) p) = Running"
  using kernel_invD(3) [OF assms] by (auto simp: core_inv_def current_ok_def)

text \<open>The kernel state after the switch.\<close>

definition switched_kernel :: "nat \<Rightarrow> tcb_ptr \<Rightarrow> tcb_ptr \<Rightarrow> tcb_heap \<Rightarrow> Scheduler \<Rightarrow> kernel \<Rightarrow> kernel" where
  "switched_kernel c p nxt h' s' k =
     set_port (switched_port c p nxt (port k)) (set_scheduler c s' (set_tcbs h' k))"

lemma switched_kernel_sel:
  assumes "c < length (schedulers k)"
  shows "mem (switched_kernel c p nxt h' s' k) = (mem k)\<lparr>tcbs := h'\<rparr>"
    "port (switched_kernel c p nxt h' s' k) = switched_port c p nxt (port k)"
    "schedulers (switched_kernel c p nxt h' s' k) ! d = (if d = c then s' else schedulers k ! d)"
    "hooks (switched_kernel c p nxt h' s' k) = hooks k"
  using assms by (auto simp: switched_kernel_def set_port_def set_scheduler_def set_tcbs_def)

lemma port_inv_switched: "port_inv k \<Longrightarrow> port_inv (switched_kernel c p nxt h' s' k)"
  by (simp add: port_inv_def switched_kernel_def set_port_def set_scheduler_def set_tcbs_def
      switched_port_def pump_continues_def)

lemma pend_reschedule_eq:
  assumes pv: "port_inv k" and c: "c < CORES" and ctx: "current_context (port k) c = Some p"
    and r: "reschedule (tcbs (mem k), schedulers k ! c) = Some (p, nxt, h', s')"
    and susp: "fiber_suspended (fiber_yield c (port k)) nxt"
  shows "cortos_port_pend_reschedule c k = Some (switched_kernel c p nxt h' s' k)"
proof -
  let ?k0 = "set_port (fiber_yield c (port k)) k"
  have y: "cores_count (fiber_yield c (port k)) = CORES" "handler_registered (fiber_yield c (port k))"
    "pump_continues (fiber_yield c (port k))"
    using pv ctx by (simp_all add: port_inv_def fiber_yield_def pump_continues_def)
  then have tc: "this_core c ?k0 = c"
    by (simp add: this_core_def set_port_def cortos_port_get_core_id_def CORES_def)
  have "reschedule_this_core c ?k0 = Some (switched_kernel c p nxt h' s' k)"
    unfolding reschedule_this_core_def tc
    using r fiber_switch [OF ctx susp] c pv
    by (simp add: scheduler_for_core_def set_port_def set_scheduler_def set_tcbs_def switched_kernel_def
        port_inv_def)
  then show ?thesis using y ctx by (simp add: cortos_port_pend_reschedule_def pump_def set_port_def)
qed

text \<open>
  A thread that gives up its core: some competing thread takes over and the invariant holds with
  the core no longer in transit.
\<close>

lemma pend_reschedule_inv:
  assumes inv: "kernel_inv A T k Q L R n" and c: "c < CORES" and n: "n c + length (R c) \<le> 2 ^ 62"
    and cur: "current_thread (schedulers k ! c) = Some p"
  defines "L' \<equiv> competing k c p (L c) (R c)"
  obtains k' where "cortos_port_pend_reschedule c k = Some k'"
    "kernel_inv (A - {c}) T k' Q (L(c := delist (winner k c L') L')) (R(c := []))
       (n(c := n c + length (R c)))"
    "current_thread (schedulers k' ! c) = Some (winner k c L')"
    "switched c p (winner k c L') (tcbs (mem k)) (tcbs (mem k')) (members L')"
    "nodes (mem k') = nodes (mem k)" "hooks k' = hooks k"
proof -
  let ?h = "tcbs (mem k)" and ?s = "schedulers k ! c" and ?w = "winner k c L'"
  note ci = kernel_invD(3) [OF inv c] and pv = kernel_invD(2) [OF inv] and wv = kernel_invD(1) [OF inv]
  obtain h' s' where r: "reschedule (?h, ?s) = Some (p, ?w, h', s')"
    "switched c p ?w ?h h' (members L')" "members L' \<subseteq> T" "?w \<in> T"
    "sched_rep (n c + length (R c)) (h', s') (delist ?w L') []" "current_ok (h', s') ?w"
    "idle_thread s' = idle_thread ?s" "core_id s' = c" "preempt_disable_depth s' = 0"
    "\<And>i. idle_thread s' = Some i \<Longrightarrow> i \<in> T \<and> t_state (h' i) \<noteq> Terminated"
    and st: "\<And>x. x \<in> insert ?w (members L') \<Longrightarrow>
       x = p \<and> t_state (?h p) = Running \<or> t_state (?h x) = Ready \<or>
       x \<in> set (R c) \<and> t_state (?h x) \<noteq> Terminated \<or> idle_thread ?s = Some x \<and> t_state (?h x) \<noteq> Terminated"
    using core_reschedule [OF ci n cur, folded L'_def] by blast
  obtain i where i: "idle_thread ?s = Some i" using ci by (auto simp: core_inv_def)
  have ctx: "current_context (port k) c = Some p" using ci cur by (auto simp: core_inv_def current_ok_def)
  have pinw: "t_pinned_core (?h ?w) = c" using r(2) by (simp add: switched_def)
  have notcur: "current_thread (schedulers k ! d) \<noteq> Some ?w" if "d < CORES" "?w \<noteq> p" for d
    using that pinw cur kernel_invD(3) [OF inv that(1)]
    by (cases "d = c") (auto simp: core_inv_def current_ok_def)
  have susp: "fiber_suspended (fiber_yield c (port k)) ?w"
    using kernel_invD(4) [OF inv r(4)] notcur st [of ?w] ctx
    by (cases "?w = p") (auto simp: fiber_yield_def thread_inv_def Let_def)
  let ?k = "switched_kernel c p ?w h' s' k"
  have len: "c < length (schedulers k)" using pv c by (simp add: port_inv_def)
  note k = switched_kernel_sel [OF len, of p ?w h' s']
  have wait: "t \<notin> insert ?w (members L') \<and> (t = p \<longrightarrow> t_state (?h p) \<noteq> Running)"
    if sl: "slots (mem k) t \<noteq> {}" "t \<in> T" for t
  proof -
    have b: "t_state (?h t) = Blocked" using wait_inv_no_slots [OF wv sl(2)] sl(1) by auto
    moreover have "t \<notin> set (R c)" "idle_thread ?s \<noteq> Some t"
      using kernel_invD(4) [OF inv sl(2)] sl(1) ci by (auto simp: thread_inv_def Let_def core_inv_def sched_rep_def)
    ultimately have "False" if "t \<in> insert ?w (members L')"
      using st [OF that] by (elim disjE conjE) simp_all
    then show ?thesis using b by (intro conjI notI impI) simp_all
  qed
  have "wait_inv T {} (mem ?k) Q" using wait_inv_switched [OF wv r(2) wait] by (simp add: k)
  moreover have "port_inv ?k" using port_inv_switched [OF pv] .
  moreover have "core_inv (d \<in> A - {c}) T ?k d ((L(c := delist ?w L')) d) ((R(c := [])) d)
      ((n(c := n c + length (R c))) d)" if d: "d < CORES" for d
  proof (cases "d = c")
    case True
    have "members (delist ?w L') \<subseteq> T" using r(3) set_remove1_subset [of ?w] by (fastforce simp: delist_def members_def)
    moreover have "t_state (h' ?w) = Running" using r(2) by (simp add: switched_def)
    moreover have "i \<in> T \<and> t_state (h' i) \<noteq> Terminated" using r(7,10) i by simp
    ultimately show ?thesis
      unfolding True core_inv_def using r(4-9) i
      by (simp add: k switched_port_def bexI [of _ i] bexI [of _ ?w])
  next
    case False
    then show ?thesis using core_inv_other [OF kernel_invD(3) [OF inv d] False r(2), of ?k] by (simp add: k)
  qed
  moreover have "thread_inv ?k (R(c := [])) t" if t: "t \<in> T" for t
  proof (rule thread_inv_switched [OF kernel_invD(4) [OF inv t] r(2)])
    show "t \<notin> insert ?w (members L')" if "t_state (?h t) = Terminated"
    proof
      assume "t \<in> insert ?w (members L')"
      from st [OF this] that show False by (elim disjE conjE) simp_all
    qed
    show "current_thread (schedulers ?k ! c) = Some ?w" using r(6) by (simp add: k current_ok_def)
  qed (use c cur r(7) wait [OF _ t] in \<open>simp_all add: k\<close>)
  ultimately have "kernel_inv (A - {c}) T ?k Q (L(c := delist ?w L')) (R(c := [])) (n(c := n c + length (R c)))"
    by (simp add: kernel_inv_def)
  then show thesis
    by (rule that [OF pend_reschedule_eq [OF pv c ctx r(1) susp]]) (use r(2,6) in \<open>simp_all add: k current_ok_def\<close>)
qed

section \<open>Waiting keeps the invariant\<close>

text \<open>A scheduler does not look at the data of a thread that it does not hold.\<close>

lemma sched_rep_update:
  assumes rep: "sched_rep n (h, s) L R" and t: "t \<notin> members L \<union> set R" "idle_thread s \<noteq> Some t"
    and h': "\<And>x. x \<noteq> t \<Longrightarrow> h' x = h x"
  shows "sched_rep n (h', s) L R"
proof -
  have "matrix_rep h' (ready_matrix s) L"
  proof (rule matrix_rep_cong [of h])
    show "matrix_rep h (ready_matrix s) L" using rep by (simp add: sched_rep_def)
    fix x assume "x \<in> members L"
    then have "x \<noteq> t" using t(1) by auto
    then have "h' x = h x" by (rule h')
    then show "t_next (h' x) = t_next (h x) \<and> t_prev (h' x) = t_prev (h x) \<and>
      t_effective_priority (h' x) = t_effective_priority (h x) \<and> t_state (h' x) = t_state (h x)" by simp
  qed
  moreover have "h' x = h x" if "x \<in> members L \<union> set R \<or> idle_thread s = Some x" for x
    using that t h' by metis
  ultimately show ?thesis using rep by (auto simp: sched_rep_def)
qed

lemma core_inv_update:
  assumes ci: "core_inv b T k c L R n" and t: "t \<notin> members L \<union> set R" "idle_thread (schedulers k ! c) \<noteq> Some t"
    and cur: "current_thread (schedulers k ! c) \<noteq> Some t"
    and k': "\<And>x. x \<noteq> t \<Longrightarrow> tcbs (mem k') x = tcbs (mem k) x" "schedulers k' = schedulers k"
      "current_context (port k') = current_context (port k)"
  shows "core_inv b T k' c L R n"
proof -
  let ?h = "tcbs (mem k)" and ?h' = "tcbs (mem k')" and ?s = "schedulers k ! c"
  have rep: "sched_rep n (?h', ?s) L R"
    using ci by (intro sched_rep_update [OF _ t k'(1)]) (simp_all add: core_inv_def)
  obtain i p where ip: "i \<in> T" "idle_thread ?s = Some i" "t_state (?h i) \<noteq> Terminated" "p \<in> T"
    "current_ok (?h, ?s) p" "current_context (port k) c = Some p" "t_state (?h p) \<noteq> Ready"
    "\<not> b \<longrightarrow> t_state (?h p) = Running" using ci by (auto simp: core_inv_def)
  have "?h' i = ?h i" "?h' p = ?h p" using k'(1) ip(2,5) t(2) cur by (auto simp: current_ok_def)
  moreover have "t_state (?h' x) \<noteq> Terminated" if "x \<in> set R" for x
  proof -
    have "x \<noteq> t" using that t(1) by auto
    then show ?thesis using k'(1) [of x] that ci unfolding core_inv_def by simp
  qed
  ultimately show ?thesis
    unfolding core_inv_def k'(2,3) using rep ci ip
    by (auto simp: core_inv_def current_ok_def)
qed

text \<open>The slots of a thread, read off the queues.\<close>

lemma slots_queues:
  assumes "wait_inv T X m Q" "t \<in> T"
  shows "i \<in> slots m t \<longleftrightarrow> (\<exists>w. (t, i) \<in> set (Q w))"
proof -
  have "i \<in> slots m t \<longleftrightarrow> live_node T m (t, i)" using assms(2) by (auto simp: slots_def live_node_def)
  moreover have "\<exists>w. n_waitable (nodes m (t, i)) = Some w" if "live_node T m (t, i)"
    using wait_invD(5) [OF assms(1) that] by (auto simp: node_ok_def)
  ultimately show ?thesis using wait_invD(2) [OF assms(1), of "(t, i)"] by blast
qed

lemma add_nodes_other: "x \<noteq> t \<Longrightarrow> (x, i) \<in> set (add_nodes t j ws Q w) \<longleftrightarrow> (x, i) \<in> set (Q w)"
  by (induction ws arbitrary: j Q) auto

text \<open>The running thread of core \<open>c\<close> leaves the state \<^const>\<open>Running\<close>; its core is then in transit.\<close>

lemma kernel_inv_leave:
  assumes inv: "kernel_inv {} T k Q L R n" and c: "c < CORES"
    and cur: "current_thread (schedulers k ! c) = Some t" "idle_thread (schedulers k ! c) \<noteq> Some t"
    and wv': "wait_inv T {} m' Q'" and sl: "\<And>x. x \<in> T \<Longrightarrow> x \<noteq> t \<Longrightarrow> slots m' x = slots (mem k) x"
    and eff: "t_state (tcbs m' t) \<noteq> Ready" "\<And>x. x \<noteq> t \<Longrightarrow> tcbs m' x = tcbs (mem k) x"
      "t_next (tcbs m' t) = t_next (tcbs (mem k) t)" "t_prev (tcbs m' t) = t_prev (tcbs (mem k) t)"
      "t_effective_priority (tcbs m' t) = t_effective_priority (tcbs (mem k) t)"
      "t_pinned_core (tcbs m' t) = t_pinned_core (tcbs (mem k) t)"
  shows "kernel_inv {c} T (k\<lparr>mem := m'\<rparr>) Q' L R n"
proof -
  let ?h = "tcbs (mem k)" and ?k = "k\<lparr>mem := m'\<rparr>"
  note pv = kernel_invD(2) [OF inv]
  have t: "t \<in> T" "current_context (port k) c = Some t" "current_ok (?h, schedulers k ! c) t"
    using kernel_inv_current [OF inv c] cur(1) by (metis option.inject)+
  have pinc: "t_pinned_core (?h t) = c" using t(3) kernel_invD(3) [OF inv c] by (auto simp: current_ok_def core_inv_def)
  have "port_inv ?k" using pv by (simp add: port_inv_def)
  moreover have "core_inv (d \<in> {c}) T ?k d (L d) (R d) (n d)" if d: "d < CORES" for d
  proof (cases "d = c")
    case True
    have ci: "core_inv False T k c (L c) (R c) (n c)" using kernel_invD(3) [OF inv c] by simp
    have nt: "t \<notin> members (L c) \<union> set (R c)"
      using ci current_not_listed [of "n c" ?h "schedulers k ! c" "L c" "R c" t] cur(1) by (auto simp: core_inv_def)
    have "sched_rep (n c) (tcbs m', schedulers k ! c) (L c) (R c)"
    proof (rule sched_rep_update [OF _ nt cur(2)])
      show "sched_rep (n c) (?h, schedulers k ! c) (L c) (R c)" using ci by (simp add: core_inv_def)
    qed (rule eff(2))
    moreover have "current_ok (tcbs m', schedulers k ! c) t"
      using t(3) eff by (simp add: current_ok_def tcb_is_enqueued_def)
    moreover obtain i where i: "i \<in> T" "idle_thread (schedulers k ! c) = Some i"
      "t_state (?h i) \<noteq> Terminated" "tcbs m' i = ?h i"
    proof -
      obtain i where i: "i \<in> T" "idle_thread (schedulers k ! c) = Some i" "t_state (?h i) \<noteq> Terminated"
        using ci by (auto simp: core_inv_def)
      then have "i \<noteq> t" using cur(2) by auto
      then show thesis using that [OF i eff(2)] by simp
    qed
    moreover have "tcbs m' x = ?h x" if "x \<in> set (R c)" for x using that eff(2) nt by (metis UnI2)
    ultimately show ?thesis
      unfolding True core_inv_def using ci t(1,2) eff(1)
      by (simp add: core_inv_def bexI [of _ i] bexI [of _ t])
  next
    case False
    have ci: "core_inv False T k d (L d) (R d) (n d)" using kernel_invD(3) [OF inv d] by simp
    then have "t \<notin> members (L d) \<union> set (R d)" "idle_thread (schedulers k ! d) \<noteq> Some t"
      "current_thread (schedulers k ! d) \<noteq> Some t"
      using pinc False by (auto simp: core_inv_def sched_rep_def current_ok_def)
    then show ?thesis using core_inv_update [OF ci, of t ?k] eff(2) False by simp
  qed
  moreover have "thread_inv ?k R x" if x: "x \<in> T" for x
  proof (cases "x = t")
    case True
    have "t \<notin> set (R c)" using kernel_invD(3) [OF inv c] cur(1) by (auto simp: core_inv_def sched_rep_def)
    then show ?thesis using kernel_invD(4) [OF inv x] True eff t(3) pinc cur c
      by (auto simp: thread_inv_def Let_def current_ok_def tcb_is_enqueued_def)
  next
    case False
    have "slots m' x = slots (mem k) x" by (rule sl [OF x False])
    then show ?thesis using kernel_invD(4) [OF inv x] eff(2) [OF False] by (simp add: thread_inv_def Let_def)
  qed
  ultimately show ?thesis using wv' by (simp add: kernel_inv_def)
qed


lemma wait_prepare_kernel_inv:
  assumes inv: "kernel_inv {} T k Q L R n" and c: "c < CORES"
    and cur: "current_thread (schedulers k ! c) = Some t" "idle_thread (schedulers k ! c) \<noteq> Some t"
    and ws: "ws \<noteq> []" "length ws \<le> MAX_WAIT_NODES" "nullptr \<notin> set ws" "distinct ws"
  obtains m' where "wait_prepare c ws k = Some (k\<lparr>mem := m'\<rparr>)" "prepare_block t ws (mem k) = Some m'"
    "kernel_inv {c} T (k\<lparr>mem := m'\<rparr>) (add_nodes t 0 ws Q) L R n"
proof -
  let ?h = "tcbs (mem k)" and ?Q = "add_nodes t 0 ws Q"
  note wv = kernel_invD(1) [OF inv] and pv = kernel_invD(2) [OF inv]
  have t: "t \<in> T" "current_context (port k) c = Some t" "current_ok (?h, schedulers k ! c) t"
    "t_state (?h t) = Running"
    using kernel_inv_current [OF inv c] cur(1) by (metis empty_iff option.inject)+
  have cr: "core_ready c (length ws) k"
    using kernel_inv_core_ready [OF inv c] ws(2) by (simp add: MAX_WAIT_NODES_def)
  have free: "\<And>w. \<not> wait_locked k w" using pv by (simp add: port_inv_def)
  obtain m' where m': "wait_prepare c ws k = Some (k\<lparr>mem := m'\<rparr>)" "prepare_block t ws (mem k) = Some m'"
    "wait_inv T {} m' ?Q" using wait_prepare_inv [OF wv cr cur(1) t(1,4) ws free] by metis
  have eff: "t_state (tcbs m' t) = Blocked" "\<And>x. x \<noteq> t \<Longrightarrow> tcbs m' x = ?h x"
    "t_next (tcbs m' t) = t_next (?h t)" "t_prev (tcbs m' t) = t_prev (?h t)"
    "t_effective_priority (tcbs m' t) = t_effective_priority (?h t)"
    "t_pinned_core (tcbs m' t) = t_pinned_core (?h t)"
    using prepare_block_inv [OF wv t(1,4) ws] m'(2) by auto
  have sl: "slots m' x = slots (mem k) x" if "x \<in> T" "x \<noteq> t" for x
    using slots_queues [OF m'(3) that(1)] slots_queues [OF wv that(1)] add_nodes_other [OF that(2)] by blast
  have "kernel_inv {c} T (k\<lparr>mem := m'\<rparr>) ?Q L R n"
    by (rule kernel_inv_leave [OF inv c cur m'(3) sl]) (use eff in simp_all)
  then show thesis using m'(1,2) by (intro that)
qed

lemma kernel_inv_hooks [simp]: "kernel_inv A T (log_hooks es k) Q L R n = kernel_inv A T k Q L R n"
  by (simp add: kernel_inv_def log_hooks_def port_inv_def core_inv_def thread_inv_def)

text \<open>\<^verbatim>\<open>wait_for_any\<close> as a whole.\<close>

lemma wait_for_any_switches:
  assumes inv: "kernel_inv {} T k Q L R n" and c: "c < CORES" and n: "n c + length (R c) \<le> 2 ^ 62"
    and cur: "current_thread (schedulers k ! c) = Some t" "idle_thread (schedulers k ! c) \<noteq> Some t"
    and ws: "ws \<noteq> []" "length ws \<le> MAX_WAIT_NODES" "nullptr \<notin> set ws" "distinct ws"
  obtains k' nxt L' where "wait_for_any c ws k = Some k'"
    "kernel_inv {} T k' (add_nodes t 0 ws Q) L' (R(c := [])) (n(c := n c + length (R c)))"
    "current_thread (schedulers k' ! c) = Some nxt" "nxt \<noteq> t" "t_state (tcbs (mem k') t) = Blocked"
    "hooks k' = hooks k @ map (\<lambda>w. on_thread_blocked w (create_waiter (tcbs (mem k) t))) ws"
    "\<forall>i < length ws. n_index (nodes (mem k') (t, i)) = of_nat i"
    "\<forall>x. t_effective_priority (tcbs (mem k') x) = t_effective_priority (tcbs (mem k) x) \<and>
       t_pinned_core (tcbs (mem k') x) = t_pinned_core (tcbs (mem k) x)"
    "\<forall>x \<in> members (L c) \<union> set (R c). t_effective_priority (tcbs (mem k) nxt) \<le> t_effective_priority (tcbs (mem k) x)"
    "members (L c) \<union> set (R c) \<noteq> {} \<longrightarrow> nxt \<in> members (L c) \<union> set (R c)"
    "\<forall>x. x \<noteq> t \<longrightarrow> t_id (tcbs (mem k') x) = t_id (tcbs (mem k) x) \<and>
       t_termination (tcbs (mem k') x) = t_termination (tcbs (mem k) x) \<and> t_terminated (tcbs (mem k') x) = t_terminated (tcbs (mem k) x)"
proof -
  obtain m1 where k1: "wait_prepare c ws k = Some (k\<lparr>mem := m1\<rparr>)" "prepare_block t ws (mem k) = Some m1"
    "kernel_inv {c} T (k\<lparr>mem := m1\<rparr>) (add_nodes t 0 ws Q) L R n"
    using wait_prepare_kernel_inv [OF inv c cur ws] by metis
  have run: "t \<in> T" "t_state (tcbs (mem k) t) = Running"
    using kernel_inv_current [OF inv c] cur(1) by (metis empty_iff option.inject)+
  have eff: "t_state (tcbs m1 t) = Blocked" "\<forall>i < length ws. n_index (nodes m1 (t, i)) = of_nat i"
    "t_effective_priority (tcbs m1 t) = t_effective_priority (tcbs (mem k) t)"
    "t_pinned_core (tcbs m1 t) = t_pinned_core (tcbs (mem k) t)" "\<And>x. x \<noteq> t \<Longrightarrow> tcbs m1 x = tcbs (mem k) x"
    using prepare_block_inv [OF kernel_invD(1) [OF inv] run ws] k1(2) by auto
  have wtr: "create_waiter (tcbs m1 t) = create_waiter (tcbs (mem k) t)"
    using prepare_block_waiter [OF k1(2)] .
  let ?es = "map (\<lambda>w. on_thread_blocked w (create_waiter (tcbs (mem k) t))) ws"
  let ?k1 = "log_hooks ?es (k\<lparr>mem := m1\<rparr>)"
  have inv1: "kernel_inv {c} T ?k1 (add_nodes t 0 ws Q) L R n" using k1(3) by simp
  have cur1: "current_thread (schedulers ?k1 ! c) = Some t" using cur(1) by (simp add: log_hooks_def)
  obtain k' where k': "cortos_port_pend_reschedule c ?k1 = Some k'"
    "kernel_inv ({c} - {c}) T k' (add_nodes t 0 ws Q)
       (L(c := delist (winner ?k1 c (competing ?k1 c t (L c) (R c))) (competing ?k1 c t (L c) (R c))))
       (R(c := [])) (n(c := n c + length (R c)))"
    "current_thread (schedulers k' ! c) = Some (winner ?k1 c (competing ?k1 c t (L c) (R c)))"
    "switched c t (winner ?k1 c (competing ?k1 c t (L c) (R c))) (tcbs (mem ?k1)) (tcbs (mem k'))
       (members (competing ?k1 c t (L c) (R c)))" "hooks k' = hooks ?k1" "nodes (mem k') = nodes (mem ?k1)"
    using pend_reschedule_inv [OF inv1 c n cur1] by metis
  have "current_of c (k\<lparr>mem := m1\<rparr>) = Some t"
    using kernel_inv_core_ready [OF inv c, of 0] cur(1)
    by (simp add: current_of_def scheduler_for_core_def this_core_def)
  then have "wait_commence c ws (k\<lparr>mem := m1\<rparr>) = Some k'"
    using k'(1) wtr by (simp add: wait_commence_def notify_block_current_thread_def)
  then have w: "wait_for_any c ws k = Some k'" using k1(1) by (simp add: wait_for_any_def)
  let ?w = "winner ?k1 c (competing ?k1 c t (L c) (R c))"
  have mem: "members (competing ?k1 c t (L c) (R c)) = members (L c) \<union> set (R c)"
    using eff(1) by (simp add: competing_def members_enlist rotation_def log_hooks_def)
  have ne: "?w \<noteq> t"
  proof
    assume "?w = t"
    moreover have "?w = the (idle_thread (schedulers k ! c)) \<or> ?w \<in> members (competing ?k1 c t (L c) (R c))"
      using first_ready_member by (auto simp: winner_def next_thread_def log_hooks_def split: option.splits)
    moreover note mem
    moreover have "t \<notin> members (L c) \<union> set (R c)" "idle_thread (schedulers k ! c) \<noteq> None"
      using kernel_invD(3) [OF inv c] cur(1) by (auto simp: core_inv_def sched_rep_def)
    ultimately show False using cur(2) by auto
  qed
  then have "t_state (tcbs (mem k') t) = Blocked"
    using k'(4) eff(1) by (simp add: switched_def log_hooks_def)
  moreover have "t_effective_priority (tcbs (mem k') x) = t_effective_priority (tcbs (mem k) x) \<and>
       t_pinned_core (tcbs (mem k') x) = t_pinned_core (tcbs (mem k) x)" for x
  proof -
    have ev: "evolves (insert t (insert ?w (members (competing ?k1 c t (L c) (R c))))) (tcbs m1) (tcbs (mem k'))"
      using k'(4) by (simp add: switched_def log_hooks_def)
    have "t_effective_priority (tcbs m1 x) = t_effective_priority (tcbs (mem k) x) \<and>
       t_pinned_core (tcbs m1 x) = t_pinned_core (tcbs (mem k) x)"
      using eff(3,4) eff(5) [of x] by (cases "x = t") simp_all
    then show ?thesis by (simp add: evolves_sel(2,3) [OF ev])
  qed
  moreover have best: "t_effective_priority (tcbs (mem k) ?w) \<le> t_effective_priority (tcbs (mem k) x)"
    "?w \<in> members (L c) \<union> set (R c)" if "x \<in> members (L c) \<union> set (R c)" for x
  proof -
    have rep: "sched_rep (n c) (tcbs (mem ?k1), schedulers ?k1 ! c) (L c) (R c)" "current_ok (tcbs (mem ?k1), schedulers ?k1 ! c) t"
      using kernel_invD(3) [OF inv1 c] cur1 by (auto simp: core_inv_def current_ok_def)
    have x: "x \<in> members (enlist (tcbs (mem ?k1)) (R c @ rotation (tcbs (mem ?k1)) (schedulers ?k1 ! c) t) (L c))"
      using that unfolding mem [symmetric] competing_def .
    have "tcb_level (tcbs (mem ?k1)) ?w \<le> tcb_level (tcbs (mem ?k1)) x"
      using next_thread_best(1) [OF rep x] unfolding winner_def competing_def by blast
    moreover have "t_effective_priority (tcbs m1 x) = t_effective_priority (tcbs (mem k) x)" for x
      using eff(3) eff(5) [of x] by (cases "x = t") simp_all
    ultimately show "t_effective_priority (tcbs (mem k) ?w) \<le> t_effective_priority (tcbs (mem k) x)"
      by (simp add: tcb_level_def log_hooks_def word_le_nat_alt)
    show "?w \<in> members (L c) \<union> set (R c)"
      using next_thread_best(2) [OF rep x] unfolding mem [symmetric] winner_def competing_def by blast
  qed
  moreover have "t_id (tcbs (mem k') x) = t_id (tcbs (mem k) x) \<and> t_termination (tcbs (mem k') x) = t_termination (tcbs (mem k) x) \<and>
      t_terminated (tcbs (mem k') x) = t_terminated (tcbs (mem k) x)" if "x \<noteq> t" for x
  proof -
    have ev: "evolves (insert t (insert ?w (members (competing ?k1 c t (L c) (R c))))) (tcbs m1) (tcbs (mem k'))"
      using k'(4) by (simp add: switched_def log_hooks_def)
    show ?thesis using eff(5) [OF that] by (simp add: evolves_sel(1,6,7) [OF ev])
  qed
  moreover have some_member: "members (L c) \<union> set (R c) \<noteq> {} \<longrightarrow> ?w \<in> members (L c) \<union> set (R c)"
    using best(2) by (metis ex_in_conv)
  ultimately show thesis
    using w k'(2,3,5,6) ne eff(2) some_member
    by (intro that [where k' = k' and nxt = ?w and L' = "L(c := delist ?w (competing ?k1 c t (L c) (R c)))"])
      (simp_all only: Diff_cancel, simp_all add: log_hooks_def)
qed

corollary wait_for_any_kernel_inv:
  assumes inv: "kernel_inv {} T k Q L R n" and c: "c < CORES" and n: "n c + length (R c) \<le> 2 ^ 62"
    and cur: "current_thread (schedulers k ! c) = Some t" "idle_thread (schedulers k ! c) \<noteq> Some t"
    and ws: "ws \<noteq> []" "length ws \<le> MAX_WAIT_NODES" "nullptr \<notin> set ws" "distinct ws"
  obtains k' nxt L' where "wait_for_any c ws k = Some k'"
    "kernel_inv {} T k' (add_nodes t 0 ws Q) L' (R(c := [])) (n(c := n c + length (R c)))"
    "current_thread (schedulers k' ! c) = Some nxt" "nxt \<noteq> t" "t_state (tcbs (mem k') t) = Blocked"
    "hooks k' = hooks k @ map (\<lambda>w. on_thread_blocked w (create_waiter (tcbs (mem k) t))) ws"
    "\<forall>i < length ws. n_index (nodes (mem k') (t, i)) = of_nat i"
    "\<forall>x. t_effective_priority (tcbs (mem k') x) = t_effective_priority (tcbs (mem k) x) \<and>
       t_pinned_core (tcbs (mem k') x) = t_pinned_core (tcbs (mem k) x)"
  by (rule wait_for_any_switches [OF assms]) (rule that)

section \<open>Waking keeps the invariant\<close>

text \<open>A thread that some scheduler may be asked to make ready: no scheduler holds it.\<close>

definition parked :: "kernel \<Rightarrow> (nat \<Rightarrow> ready_lists) \<Rightarrow> (nat \<Rightarrow> tcb_ptr list) \<Rightarrow> tcb_ptr \<Rightarrow> bool" where
  "parked k L R t \<longleftrightarrow> \<not> tcb_is_enqueued (tcbs (mem k) t) \<and> t_state (tcbs (mem k) t) = Blocked \<and>
     (\<forall>d < CORES. t \<notin> members (L d) \<union> set (R d) \<and> idle_thread (schedulers k ! d) \<noteq> Some t \<and>
        current_thread (schedulers k ! d) \<noteq> Some t)"

lemma waiting_parked:
  assumes inv: "kernel_inv A T k Q L R n" and t: "t \<in> T" "slots (mem k) t \<noteq> {}"
    and A: "\<And>d. d \<in> A \<Longrightarrow> current_thread (schedulers k ! d) \<noteq> Some t"
  shows "parked k L R t"
  unfolding parked_def
proof (intro conjI allI impI)
  let ?h = "tcbs (mem k)"
  have b: "t_state (?h t) = Blocked" using wait_inv_no_slots [OF kernel_invD(1) [OF inv] t(1)] t(2) by auto
  then show "t_state (?h t) = Blocked" .
  have ti: "\<not> tcb_is_enqueued (?h t)" "t \<notin> set (R (t_pinned_core (?h t)))"
    "idle_thread (schedulers k ! t_pinned_core (?h t)) \<noteq> Some t"
    using kernel_invD(4) [OF inv t(1)] t(2) by (simp_all add: thread_inv_def Let_def)
  show "\<not> tcb_is_enqueued (?h t)" by (rule ti)
  fix d assume d: "d < CORES"
  have ci: "sched_rep (n d) (?h, schedulers k ! d) (L d) (R d)" "core_id (schedulers k ! d) = d"
    using kernel_invD(3) [OF inv d] by (auto simp: core_inv_def)
  have pin: "t_pinned_core (?h t) = d" if "t \<in> members (L d) \<union> set (R d) \<or> idle_thread (schedulers k ! d) = Some t"
    using that ci by (auto simp: sched_rep_def)
  have "t_state (?h t) = Ready" if "t \<in> members (L d)"
    using that ci(1) matrix_rep_member [of ?h "ready_matrix (schedulers k ! d)" "L d" t]
    by (auto simp: sched_rep_def members_def)
  then show "t \<notin> members (L d) \<union> set (R d)" using b pin ti(2) by auto
  show "idle_thread (schedulers k ! d) \<noteq> Some t" using pin ti(3) by auto
  show "current_thread (schedulers k ! d) \<noteq> Some t"
  proof (cases "d \<in> A")
    case False
    obtain p where "current_thread (schedulers k ! d) = Some p" "t_state (?h p) = Running"
      by (rule kernel_inv_current [OF inv d]) (use False in simp)
    then show ?thesis using b by auto
  qed (rule A)
qed

text \<open>The state after the teardown: the thread is off all queues, nothing else has changed.\<close>

lemma kernel_inv_torn_down:
  assumes inv: "kernel_inv A T k Q L R n" and t: "t \<in> T" and pk: "parked k L R t"
    and m': "tcbs m' = (tcbs (mem k))(t := (tcbs (mem k) t)\<lparr>t_wait_group := g, t_wait_nodes := pool\<rparr>)"
      "slots m' t = {}" "wait_inv T {} m' (\<lambda>v. filter (\<lambda>q. fst q \<noteq> t) (Q v))"
  shows "kernel_inv A T (k\<lparr>mem := m'\<rparr>) (\<lambda>v. filter (\<lambda>q. fst q \<noteq> t) (Q v)) L R n"
    and "parked (k\<lparr>mem := m'\<rparr>) L R t"
proof -
  let ?k = "k\<lparr>mem := m'\<rparr>"
  have "port_inv ?k" using kernel_invD(2) [OF inv] by (simp add: port_inv_def)
  moreover have "core_inv (c \<in> A) T ?k c (L c) (R c) (n c)" if c: "c < CORES" for c
    using kernel_invD(3) [OF inv c] pk c m'(1)
    by (intro core_inv_update [of _ T k c "L c" "R c" "n c" t ?k]) (auto simp: parked_def)
  moreover have "thread_inv ?k R x" if x: "x \<in> T" for x
  proof (cases "x = t")
    case True
    then show ?thesis using kernel_invD(4) [OF inv t] m'(1,2) by (simp add: thread_inv_def Let_def)
  next
    case False
    have "slots m' x = slots (mem k) x"
      using slots_queues [OF m'(3) x] slots_queues [OF kernel_invD(1) [OF inv] x] False by auto
    then show ?thesis using kernel_invD(4) [OF inv x] m'(1) False by (simp add: thread_inv_def Let_def)
  qed
  ultimately show "kernel_inv A T ?k (\<lambda>v. filter (\<lambda>q. fst q \<noteq> t) (Q v)) L R n"
    using m'(3) by (simp add: kernel_inv_def)
  show "parked ?k L R t" using pk m'(1) by (simp add: parked_def tcb_is_enqueued_def)
qed

lemma sched_rep_separate:
  assumes "sched_rep n (h, s) L R" "x \<in> set R \<or> idle_thread s = Some x \<or> current_thread s = Some x"
  shows "x \<notin> members L"
  using assms by (auto simp: sched_rep_def)

lemma sched_rep_core:
  assumes "sched_rep n (h, s) L R" "x \<in> members L \<or> x \<in> set R \<or> idle_thread s = Some x"
  shows "t_pinned_core (h x) = core_id s"
  using assms by (auto simp: sched_rep_def)

lemma kernel_inv_made_ready:
  assumes inv: "kernel_inv A T k Q L R n" and t: "t \<in> T" "slots (mem k) t = {}" and pk: "parked k L R t"
    and c: "c < CORES" "t_pinned_core (tcbs (mem k) t) = c"
    and r: "matrix_rep h' m' (enlist (tcbs (mem k)) [t] (L c))" "evolves {t} (tcbs (mem k)) h'"
      "\<And>x. x \<notin> insert t (members (L c)) \<Longrightarrow> same_links (tcbs (mem k)) h' x" "t_state (h' t) = Ready"
    and k': "mem k' = (mem k)\<lparr>tcbs := h'\<rparr>" "port k' = port k" "port_inv k'"
      "\<And>d. schedulers k' ! d =
        (if d = c then (schedulers k ! c)\<lparr>ready_matrix := m'\<rparr> else schedulers k ! d)"
  shows "kernel_inv A T k' Q (L(c := enlist (tcbs (mem k)) [t] (L c))) R n"
proof -
  let ?h = "tcbs (mem k)" and ?L = "L(c := enlist (tcbs (mem k)) [t] (L c))"
  have st: "t_state (h' x) = t_state (?h x)" if "x \<noteq> t" for x using evolves_sel(9) [OF r(2)] that by simp
  have out: "t \<notin> members (L d) \<union> set (R d)" "idle_thread (schedulers k ! d) \<noteq> Some t"
    "current_thread (schedulers k ! d) \<noteq> Some t" if "d < CORES" for d using pk that by (auto simp: parked_def)
  have lc: "x \<in> members (L c) \<Longrightarrow> t_pinned_core (?h x) = c \<and> t_state (?h x) = Ready" for x
    using kernel_invD(3) [OF inv c(1)] matrix_rep_member [of ?h "ready_matrix (schedulers k ! c)" "L c" x]
    by (auto simp: core_inv_def sched_rep_def members_def)
  have "wait_inv T {} (mem k') Q"
    unfolding k'(1)
  proof (rule wait_inv_tcbs_cong [OF kernel_invD(1) [OF inv]])
    fix q assume lv: "live_node T (mem k) q"
    then have "fst q \<noteq> t" using t(2) by (cases q) (auto simp: live_node_def slots_def)
    then show "t_state (tcbs ((mem k)\<lparr>tcbs := h'\<rparr>) (fst q)) = Blocked \<and>
        \<not> g_done (t_wait_group (tcbs ((mem k)\<lparr>tcbs := h'\<rparr>) (fst q)))"
      using wait_invD(5) [OF kernel_invD(1) [OF inv] lv] st evolves_sel(4) [OF r(2)] by (simp add: node_ok_def)
  qed (use evolves_sel(5) [OF r(2)] in simp_all)
  moreover have "core_inv (d \<in> A) T k' d (?L d) (R d) (n d)" if d: "d < CORES" for d
  proof -
    let ?s = "schedulers k ! d"
    have ci: "core_inv (d \<in> A) T k d (L d) (R d) (n d)" using kernel_invD(3) [OF inv d] by simp
    obtain i p where ip: "i \<in> T" "idle_thread ?s = Some i" "t_state (?h i) \<noteq> Terminated" "p \<in> T"
      "current_ok (?h, ?s) p" "current_context (port k) d = Some p" "t_state (?h p) \<noteq> Ready"
      "d \<notin> A \<longrightarrow> t_state (?h p) = Running" and rep: "sched_rep (n d) (?h, ?s) (L d) (R d)" "core_id ?s = d"
      and R: "\<And>x. x \<in> set (R d) \<Longrightarrow> t_state (?h x) \<noteq> Terminated" "members (L d) \<union> set (R d) \<subseteq> T"
      "preempt_disable_depth ?s = 0" using ci by (auto simp: core_inv_def)
    have lk: "same_links ?h h' x" if "x \<in> set (R d) \<or> idle_thread ?s = Some x \<or> x = p \<or> d \<noteq> c \<and> x \<in> members (L d)" for x
    proof (rule r(3))
      have cp: "current_thread ?s = Some p" "t_pinned_core (?h p) = d" using ip(5) rep(2) by (auto simp: current_ok_def)
      have "x \<noteq> t" using that out [OF d] cp by auto
      moreover have "x \<notin> members (L c)"
      proof (cases "d = c")
        case True
        then show ?thesis using that cp(1) sched_rep_separate [OF rep(1), of x] by auto
      next
        case False
        then have "t_pinned_core (?h x) = d"
          using that cp(2) sched_rep_core [OF rep(1), of x] rep(2) by auto
        then show ?thesis using lc [of x] False by auto
      qed
      ultimately show "x \<notin> insert t (members (L c))" by simp
    qed
    have "sched_rep (n d) (h', schedulers k' ! d) (?L d) (R d)"
    proof (cases "d = c")
      case False
      have "sched_rep (n d) (h', ?s) (L d) (R d)"
      proof (rule sched_rep_frame [OF rep(1) r(2)])
        show "{t} \<inter> members (L d) = {}" using out(1) [OF d] by simp
        show "same_links ?h h' x" if "x \<in> members (L d) \<union> set (R d) \<or> idle_thread ?s = Some x" for x
          using that False by (intro lk) auto
      qed
      then show ?thesis using False by (simp add: k'(4))
    next
      case True
      then show ?thesis
        using rep r(1) lk [THEN same_links_enqueued] evolves_sel(2,3) [OF r(2)] out [OF d] c(2)
        by (auto simp: sched_rep_def k'(4) members_enlist)
    qed
    moreover have "current_ok (h', schedulers k' ! d) p"
      using current_ok_frame [OF ip(5) r(2) lk] by (auto simp: current_ok_def k'(4))
    moreover have "p \<noteq> t" "i \<noteq> t" using out [OF d] ip(2,5) by (auto simp: current_ok_def)
    moreover have "t_state (h' x) \<noteq> Terminated" if "x \<in> set (R d)" for x
      using that R(1) st [of x] out(1) [OF d] by (cases "x = t") auto
    moreover have "members (?L d) \<union> set (R d) \<subseteq> T" using R(2) t(1) by (auto simp: members_enlist)
    moreover have "core_id (schedulers k' ! d) = d" "preempt_disable_depth (schedulers k' ! d) = 0"
      "idle_thread (schedulers k' ! d) = Some i"
      using rep(2) R(3) ip(2) by (cases "d = c"; simp add: k'(4))+
    ultimately show ?thesis
      unfolding core_inv_def k'(1,2) using ip st by (simp add: bexI [of _ i] bexI [of _ p])
  qed
  moreover have "thread_inv k' R x" if x: "x \<in> T" for x
  proof -
    have "same_links ?h h' x" if "slots (mem k) x \<noteq> {}"
    proof (rule r(3))
      have "t_state (?h x) = Blocked" using that wait_inv_no_slots [OF kernel_invD(1) [OF inv] x] by auto
      then show "x \<notin> insert t (members (L c))" using that t(2) lc [of x] by auto
    qed
    moreover have "slots (mem k') x = slots (mem k) x" by (simp add: slots_def k'(1))
    moreover have "idle_thread (schedulers k' ! d) = idle_thread (schedulers k ! d)"
      "current_thread (schedulers k' ! d) = current_thread (schedulers k ! d)" for d by (simp_all add: k'(4))
    moreover have "t_state (h' x) \<noteq> Terminated \<longleftrightarrow> t_state (?h x) \<noteq> Terminated"
      using st [of x] r(4) pk by (cases "x = t") (auto simp: parked_def)
    ultimately show ?thesis
      using kernel_invD(4) [OF inv x] evolves_sel(2,3) [OF r(2)] same_links_enqueued [of ?h h' x]
      by (simp add: thread_inv_def Let_def k'(1,2))
  qed
  ultimately show ?thesis using k'(3) by (simp add: kernel_inv_def)
qed

text \<open>Making a parked thread of this core ready.\<close>

lemma set_thread_ready_local:
  assumes inv: "kernel_inv A T k Q L R n" and t: "t \<in> T" "slots (mem k) t = {}" and pk: "parked k L R t"
    and c: "c < CORES" "t_pinned_core (tcbs (mem k) t) = c"
    and cur: "current_thread (schedulers k ! c) = Some p"
  obtains k' where "set_thread_ready c t k =
      Some (if t_effective_priority (tcbs (mem k) t) < t_effective_priority (tcbs (mem k) p)
            then RA_Reschedule else RA_None, k')"
    "kernel_inv A T k' Q (L(c := enlist (tcbs (mem k)) [t] (L c))) R n"
    "nodes (mem k') = nodes (mem k)" "evolves {t} (tcbs (mem k)) (tcbs (mem k'))"
    "t_state (tcbs (mem k') t) = Ready" "hooks k' = hooks k" "schedulers k' = (schedulers k)[c := schedulers k' ! c]"
    "current_thread (schedulers k' ! c) = Some p"
proof -
  let ?h = "tcbs (mem k)" and ?s = "schedulers k ! c"
  have ci: "core_inv (c \<in> A) T k c (L c) (R c) (n c)" using kernel_invD(3) [OF inv c(1)] by simp
  then have rep: "sched_rep (n c) (?h, ?s) (L c) (R c)" "core_id ?s = c" by (auto simp: core_inv_def)
  have m: "matrix_rep ?h (ready_matrix ?s) (L c)" using rep by (simp add: sched_rep_def)
  have pr: "unat (t_effective_priority (?h t)) < MAX_PRIORITIES"
    using kernel_invD(4) [OF inv t(1)] by (simp add: thread_inv_def Let_def)
  have pk': "\<not> tcb_is_enqueued (?h t)" "t_state (?h t) = Blocked" "t \<notin> members (L c)" "t \<notin> set (R c)"
    "idle_thread ?s \<noteq> Some t" "current_thread ?s \<noteq> Some t" using pk c(1) by (auto simp: parked_def)
  obtain h' m' where r: "sched_set_thread_ready t (?h, ?s) = Some (h', ?s\<lparr>ready_matrix := m'\<rparr>)"
    "matrix_rep h' m' (enlist ?h [t] (L c))" "evolves {t} ?h h'"
    "\<And>x. x \<notin> insert t (members (L c)) \<Longrightarrow> same_links ?h h' x"
    using sched_set_thread_ready_rep [OF m _ pk'(5,1) pr pk'(3)] c(2) rep(2) by auto
  have rdy: "t_state (h' t) = Ready"
    using matrix_rep_member [OF r(2), of t "tcb_level ?h t"] by (simp add: enlist_one)
  let ?s' = "?s\<lparr>ready_matrix := m'\<rparr>" and ?k = "set_scheduler c (?s\<lparr>ready_matrix := m'\<rparr>) (set_tcbs h' k)"
  have tc: "this_core c k = c" "c < length (schedulers k)" "running k"
    using kernel_inv_core_ready [OF inv c(1), of 0] kernel_invD(2) [OF inv] by (auto simp: port_inv_def)
  have k: "mem ?k = (mem k)\<lparr>tcbs := h'\<rparr>" "port ?k = port k" "hooks ?k = hooks k"
    "\<And>d. schedulers ?k ! d = (if d = c then ?s' else schedulers k ! d)" "schedulers ?k = (schedulers k)[c := ?s']"
    using tc by (auto simp: set_scheduler_def set_tcbs_def)
  have eq: "set_thread_ready c t k =
      Some (if t_effective_priority (?h t) < t_effective_priority (?h p) then RA_Reschedule else RA_None, ?k)"
    using pk'(2) tc c(2) r(1) cur evolves_sel(2) [OF r(3)]
    by (simp add: set_thread_ready_def scheduler_for_core_def Let_def is_higher_priority_than_def
        current_thread_priority_def)
  have inv': "kernel_inv A T ?k Q (L(c := enlist ?h [t] (L c))) R n"
  proof (rule kernel_inv_made_ready [OF inv t pk c r(2-4) rdy k(1,2) _ k(4)])
    show "port_inv ?k" using kernel_invD(2) [OF inv] by (simp add: port_inv_def set_scheduler_def set_tcbs_def)
  qed
  show thesis
    by (rule that [OF eq inv']) (use r(3) rdy cur tc in \<open>simp_all add: set_scheduler_def set_tcbs_def\<close>)
qed

text \<open>Asking another core to make a parked thread ready.\<close>

lemma post_to_inbox_room:
  assumes "inbox_rep n (inbox s) xs" "length xs < INBOX_CAP"
  obtains b' where "post_to_inbox r s = Some (True, \<not> inbox_poke_pending s,
      s\<lparr>inbox := b', inbox_poke_pending := True\<rparr>)" "inbox_rep n b' (xs @ [r])"
proof -
  obtain b' where b: "push r (inbox s) = Some (True, b')" "inbox_rep n b' (xs @ [r])"
    using rb.send_room [OF assms] by blast
  have "s\<lparr>inbox := b', inbox_poke_pending := True\<rparr> = s\<lparr>inbox := b'\<rparr>" if "inbox_poke_pending s"
    using that by simp
  then show thesis using b by (intro that [of b']) (auto simp: post_to_inbox_def Let_def)
qed

lemma set_thread_ready_remote:
  assumes inv: "kernel_inv A T k Q L R n" and t: "t \<in> T" "slots (mem k) t = {}" and pk: "parked k L R t"
    and c: "c < CORES" "t_pinned_core (tcbs (mem k) t) = d" "d \<noteq> c"
    and room: "length (R d) < INBOX_CAP"
  obtains k' where "set_thread_ready c t k = Some (RA_None, k')"
    "kernel_inv A T k' Q L (R(d := R d @ [t])) n" "mem k' = mem k" "hooks k' = hooks k"
    "\<And>e. current_thread (schedulers k' ! e) = current_thread (schedulers k ! e)"
    "inbox_poke_pending (schedulers k' ! d)"
    "\<not> inbox_poke_pending (schedulers k ! d) \<Longrightarrow> poke_pending (port k') d"
proof -
  let ?h = "tcbs (mem k)" and ?s = "schedulers k ! d"
  have d: "d < CORES" using kernel_invD(4) [OF inv t(1)] c(2) by (simp add: thread_inv_def Let_def)
  have ci: "core_inv (d \<in> A) T k d (L d) (R d) (n d)" using kernel_invD(3) [OF inv d] by simp
  then have rep: "sched_rep (n d) (?h, ?s) (L d) (R d)" "core_id ?s = d" by (auto simp: core_inv_def)
  have ib: "inbox_rep (n d) (inbox ?s) (map SetThreadReady (R d))" using rep by (simp add: sched_rep_def)
  obtain b' where b: "post_to_inbox (SetThreadReady t) ?s =
      Some (True, \<not> inbox_poke_pending ?s, ?s\<lparr>inbox := b', inbox_poke_pending := True\<rparr>)"
    "inbox_rep (n d) b' (map SetThreadReady (R d @ [t]))"
    using post_to_inbox_room [OF ib, of "SetThreadReady t"] room by auto
  let ?s' = "?s\<lparr>inbox := b', inbox_poke_pending := True\<rparr>"
  let ?p = "if inbox_poke_pending ?s then port k else (port k)\<lparr>poke_pending := (poke_pending (port k))(d := True)\<rparr>"
  let ?k = "set_port ?p (set_scheduler d ?s' k)"
  have pv: "this_core c k = c" "d < length (schedulers k)" "running k" "cores_count (port k) = CORES"
    using kernel_inv_core_ready [OF inv c(1), of 0] kernel_invD(2) [OF inv] d by (auto simp: port_inv_def)
  have pk': "\<not> tcb_is_enqueued (?h t)" "t_state (?h t) = Blocked" "t \<notin> members (L d) \<union> set (R d)"
    "idle_thread ?s \<noteq> Some t" "current_thread ?s \<noteq> Some t" using pk d by (auto simp: parked_def)
  have eq: "set_thread_ready c t k = Some (RA_None, ?k)"
    using pk'(2) pv c(2,3) b(1) d rep(2)
    by (simp add: set_thread_ready_def scheduler_for_core_def Let_def cortos_port_send_reschedule_ipi_def
        set_port_def set_scheduler_def)
  have k: "mem ?k = mem k" "hooks ?k = hooks k"
    "\<And>e. schedulers ?k ! e = (if e = d then ?s' else schedulers k ! e)"
    "current_context (port ?k) = current_context (port k)" "fiber_suspended (port ?k) = fiber_suspended (port k)"
    using pv by (auto simp: set_port_def set_scheduler_def)
  have "port_inv ?k"
    using kernel_invD(2) [OF inv] by (simp add: port_inv_def set_port_def set_scheduler_def pump_continues_def)
  moreover have "core_inv (e \<in> A) T ?k e (L e) ((R(d := R d @ [t])) e) (n e)" if e: "e < CORES" for e
  proof (cases "e = d")
    case False
    then show ?thesis using kernel_invD(3) [OF inv e] by (simp add: core_inv_def k)
  next
    case True
    have pr: "unat (t_effective_priority (?h t)) < MAX_PRIORITIES"
      using kernel_invD(4) [OF inv t(1)] by (simp add: thread_inv_def Let_def)
    have "sched_rep (n d) (?h, ?s') (L d) (R d @ [t])"
      using rep b(2) pk' pr c(2) by (auto simp: sched_rep_def)
    then show ?thesis using ci pk'(2) t(1) True by (auto simp: core_inv_def k current_ok_def)
  qed
  moreover have "thread_inv ?k (R(d := R d @ [t])) x" if x: "x \<in> T" for x
    using kernel_invD(4) [OF inv x] t(2) by (auto simp: thread_inv_def Let_def k)
  ultimately have "kernel_inv A T ?k Q L (R(d := R d @ [t])) n"
    using kernel_invD(1) [OF inv] by (simp add: kernel_inv_def k)
  then show thesis by (rule that [OF eq]) (simp_all add: k, simp add: set_port_def)
qed

end
