(* ===== verification/Kernel_Signal.thy ===== *)
theory Kernel_Signal
  imports Kernel_Inv
begin

text \<open>
  Signalling a waitable: what \<^verbatim>\<open>signal_one\<close> and \<^verbatim>\<open>signal_all\<close> do to the waiting threads, on the
  signalling core and on the cores the threads are pinned to.
\<close>

section \<open>Waking one thread\<close>

text \<open>The ready lists and inboxes after a wake-up of \<open>t\<close> by core \<open>c\<close>.\<close>

definition lists_woken :: "nat \<Rightarrow> tcb_heap \<Rightarrow> tcb_ptr \<Rightarrow> (nat \<Rightarrow> ready_lists) \<Rightarrow> nat \<Rightarrow> ready_lists" where
  "lists_woken c h t L = (if t_pinned_core (h t) = c then L(c := enlist h [t] (L c)) else L)"

definition inboxes_woken :: "nat \<Rightarrow> tcb_heap \<Rightarrow> tcb_ptr \<Rightarrow> (nat \<Rightarrow> tcb_ptr list) \<Rightarrow> nat \<Rightarrow> tcb_ptr list" where
  "inboxes_woken c h t R =
     (if t_pinned_core (h t) = c then R else R(t_pinned_core (h t) := R (t_pinned_core (h t)) @ [t]))"

text \<open>The data of a thread that a wake-up leaves alone.\<close>

definition same_thread :: "ThreadControlBlock \<Rightarrow> ThreadControlBlock \<Rightarrow> bool" where
  "same_thread a b \<longleftrightarrow> t_effective_priority b = t_effective_priority a \<and>
     t_pinned_core b = t_pinned_core a \<and> t_id b = t_id a \<and> t_termination b = t_termination a \<and>
     t_terminated b = t_terminated a"

lemma same_thread_trans: "same_thread a b \<Longrightarrow> same_thread b c \<Longrightarrow> same_thread a c"
  by (simp add: same_thread_def)

lemma evolves_same_thread: "evolves S h h' \<Longrightarrow> same_thread (h x) (h' x)"
  using evolves_sel by (simp add: same_thread_def)

text \<open>The effect on the stores of waking the owner of \<open>p\<close> on core \<open>c\<close>.\<close>

definition wake_effect :: "nat \<Rightarrow> node_ptr \<Rightarrow> bool \<Rightarrow> wmem \<Rightarrow> wmem \<Rightarrow> bool" where
  "wake_effect c p acquired m m' \<longleftrightarrow>
     t_wait_group (tcbs m' (fst p)) = won_group p acquired m \<and>
     t_state (tcbs m' (fst p)) = (if t_pinned_core (tcbs m (fst p)) = c then Ready else Blocked) \<and>
     (\<forall>x. same_thread (tcbs m x) (tcbs m' x)) \<and>
     (\<forall>x. x \<noteq> fst p \<longrightarrow> t_wait_group (tcbs m' x) = t_wait_group (tcbs m x) \<and>
                        t_state (tcbs m' x) = t_state (tcbs m x)) \<and>
     (\<forall>x. fst x \<noteq> fst p \<longrightarrow> n_index (nodes m' x) = n_index (nodes m x))"

lemma wake_leaving_inv:
  assumes inv: "kernel_inv A T k Q L R n" and p: "p \<in> set (Q w)" and c: "c < CORES"
    and cur: "current_thread (schedulers k ! c) = Some u"
    and A: "A \<subseteq> {c}" "c \<in> A \<Longrightarrow> slots (mem k) u = {}"
  defines "h \<equiv> tcbs (mem k)" and "t \<equiv> fst p"
  assumes room: "t_pinned_core (h t) \<noteq> c \<Longrightarrow> length (R (t_pinned_core (h t))) < INBOX_CAP"
  obtains a k' where "wake_thread c p acquired k = Some (a, k')"
    "a = (if t_pinned_core (h t) = c \<and> t_effective_priority (h t) < t_effective_priority (h u)
          then RA_Reschedule else RA_None)"
    "kernel_inv A T k' (\<lambda>v. filter (\<lambda>q. fst q \<noteq> t) (Q v)) (lists_woken c h t L) (inboxes_woken c h t R) n"
    "wake_effect c p acquired (mem k) (mem k')" "current_thread (schedulers k' ! c) = Some u"
proof -
  note wv = kernel_invD(1) [OF inv]
  have live: "live_node T (mem k) p" using p wait_invD(2) [OF wv] by blast
  have t: "t \<in> T" "snd p \<in> slots (mem k) t"
    using live by (simp_all add: live_node_def slots_def t_def)
  have pk: "parked k L R t" by (rule waiting_parked [OF inv t(1)]) (use t(2) A cur in auto)
  have cr: "core_ready c MAX_WAIT_NODES k" using kernel_inv_core_ready [OF inv c] by (simp add: MAX_WAIT_NODES_def)
  have free: "\<And>w. \<not> wait_locked k w" using kernel_invD(2) [OF inv] by (simp add: port_inv_def)
  obtain m1 ws pool where e: "wake_thread c p acquired k = set_thread_ready c t
      (log_hooks (map (\<lambda>w. on_thread_removed w (create_waiter (h t))) ws) (k\<lparr>mem := m1\<rparr>))"
    "tcbs m1 = h(t := (h t)\<lparr>t_wait_group := won_group p acquired (mem k), t_wait_nodes := pool\<rparr>)"
    "slots m1 t = {}" "wait_inv T {} m1 (\<lambda>v. filter (\<lambda>q. fst q \<noteq> t) (Q v))"
    "distinct ws" "set ws = {w. \<exists>i. (t, i) \<in> set (Q w)}"
    "\<forall>x. fst x \<noteq> t \<longrightarrow> same_node (nodes (mem k) x) (nodes m1 x)"
    by (rule wake_thread_inv [OF wv p cr free, of acquired, folded t_def h_def])
  let ?k1 = "log_hooks (map (\<lambda>w. on_thread_removed w (create_waiter (h t))) ws) (k\<lparr>mem := m1\<rparr>)"
  let ?Q = "\<lambda>v. filter (\<lambda>q. fst q \<noteq> t) (Q v)"
  note td = kernel_inv_torn_down [OF inv t(1) pk e(2)[unfolded h_def] e(3,4)]
  have inv1: "kernel_inv A T ?k1 ?Q L R n" using td(1) by simp
  have k1: "mem ?k1 = m1" "schedulers ?k1 = schedulers k" "port ?k1 = port k" by (simp_all add: log_hooks_def)
  have pk1: "parked ?k1 L R t" using td(2) by (simp add: parked_def k1)
  have m1: "t_pinned_core (tcbs m1 x) = t_pinned_core (h x)" "same_thread (h x) (tcbs m1 x)"
    "t_effective_priority (tcbs m1 x) = t_effective_priority (h x)" "t_state (tcbs m1 x) = t_state (h x)"
    "x \<noteq> t \<Longrightarrow> tcbs m1 x = h x" for x
    by (simp_all add: e(2) same_thread_def)
  have lvl: "tcb_level (tcbs m1) = tcb_level h" using m1(3) by (auto simp: tcb_level_def fun_eq_iff)
  then have enl: "enlist (tcbs m1) = enlist h" by (simp add: enlist_def fun_eq_iff)
  have blk: "t_state (h t) = Blocked" using pk by (simp add: parked_def h_def)
  have wg1: "t_wait_group (tcbs m1 t) = won_group p acquired (mem k)" by (simp add: e(2))
  have cur1: "current_thread (schedulers ?k1 ! c) = Some u" using cur by (simp add: k1)
  have idx: "n_index (nodes m1 x) = n_index (nodes (mem k) x)" if "fst x \<noteq> t" for x
    using same_node_sel(6) e(7) that by blast
  have sl1: "slots (mem ?k1) t = {}" using e(3) by (simp add: k1)
  show thesis
  proof (cases "t_pinned_core (h t) = c")
    case True
    then have pin1: "t_pinned_core (tcbs (mem ?k1) t) = c" using m1(1) by (simp add: k1)
    obtain k' where r: "set_thread_ready c t ?k1 =
        Some (if t_effective_priority (tcbs m1 t) < t_effective_priority (tcbs m1 u)
              then RA_Reschedule else RA_None, k')"
      "kernel_inv A T k' ?Q (L(c := enlist (tcbs m1) [t] (L c))) R n"
      "evolves {t} (tcbs m1) (tcbs (mem k'))" "t_state (tcbs (mem k') t) = Ready"
      "current_thread (schedulers k' ! c) = Some u" "nodes (mem k') = nodes m1"
      using set_thread_ready_local [OF inv1 t(1) sl1 pk1 c pin1 cur1] unfolding k1 by metis
    show thesis
    proof (rule that)
      show "wake_thread c p acquired k =
          Some (if t_pinned_core (h t) = c \<and> t_effective_priority (h t) < t_effective_priority (h u)
                then RA_Reschedule else RA_None, k')"
        using e(1) r(1) True by (simp add: m1(3))
      show "kernel_inv A T k' ?Q (lists_woken c h t L) (inboxes_woken c h t R) n"
        using r(2) True by (simp add: lists_woken_def inboxes_woken_def enl)
      have "same_thread (h x) (tcbs (mem k') x)" for x
        using same_thread_trans [OF m1(2) evolves_same_thread [OF r(3)]] .
      then show "wake_effect c p acquired (mem k) (mem k')"
        unfolding wake_effect_def h_def [symmetric] t_def [symmetric]
        using r(4,6) True evolves_sel(4,9) [OF r(3)] wg1 m1(4,5) idx by simp
    qed (use r(5) in simp_all)
  next
    case False
    obtain k' where r: "set_thread_ready c t ?k1 = Some (RA_None, k')"
      "kernel_inv A T k' ?Q L (R(t_pinned_core (h t) := R (t_pinned_core (h t)) @ [t])) n" "mem k' = m1"
      "current_thread (schedulers k' ! c) = Some u"
      using set_thread_ready_remote [OF inv1 t(1) sl1 pk1 c, of "t_pinned_core (h t)"] False room m1(1) cur
      unfolding k1 by metis
    show thesis
    proof (rule that)
      show "wake_thread c p acquired k =
          Some (if t_pinned_core (h t) = c \<and> t_effective_priority (h t) < t_effective_priority (h u)
                then RA_Reschedule else RA_None, k')"
        using e(1) r(1) False by simp
      show "kernel_inv A T k' ?Q (lists_woken c h t L) (inboxes_woken c h t R) n"
        using r(2) False by (simp add: lists_woken_def inboxes_woken_def)
      show "wake_effect c p acquired (mem k) (mem k')"
        unfolding wake_effect_def h_def [symmetric] t_def [symmetric]
        using r(3) False wg1 m1 blk idx by simp
    qed (use r(4) in simp_all)
  qed
qed

lemma wake_kernel_inv:
  assumes inv: "kernel_inv {} T k Q L R n" and p: "p \<in> set (Q w)" and c: "c < CORES"
    and cur: "current_thread (schedulers k ! c) = Some u"
  defines "h \<equiv> tcbs (mem k)" and "t \<equiv> fst p"
  assumes room: "t_pinned_core (h t) \<noteq> c \<Longrightarrow> length (R (t_pinned_core (h t))) < INBOX_CAP"
  obtains a k' where "wake_thread c p acquired k = Some (a, k')"
    "a = (if t_pinned_core (h t) = c \<and> t_effective_priority (h t) < t_effective_priority (h u)
          then RA_Reschedule else RA_None)"
    "kernel_inv {} T k' (\<lambda>v. filter (\<lambda>q. fst q \<noteq> t) (Q v)) (lists_woken c h t L) (inboxes_woken c h t R) n"
    "wake_effect c p acquired (mem k) (mem k')" "current_thread (schedulers k' ! c) = Some u"
  using wake_leaving_inv [OF inv p c cur _ _ room [unfolded h_def t_def], of acquired thesis] unfolding h_def t_def by simp

section \<open>Signalling one waiter\<close>

lemma kernel_pick_best:
  assumes inv: "kernel_inv A T k Q L R n" and c: "c < CORES" and w: "w \<noteq> nullptr"
  shows "pick_best_locked c w k = Some (best_waiter (mem k) (Q w), k)"
  using kernel_inv_core_ready(1) [OF inv c, of 1] kernel_invD(1,2) [OF inv] w
  by (intro pick_best_locked_eq) (auto simp: port_inv_def)

text \<open>Waiting threads have unsatisfied groups, so every queued node is a candidate.\<close>

lemma wait_inv_pending:
  assumes "wait_inv T {} m Q"
  shows "pending m (Q w) = Q w"
proof -
  have "\<not> node_group_done (tcbs m) (nodes m p)" if "p \<in> set (Q w)" for p
  proof -
    have "live_node T m p" using that wait_invD(2) [OF assms] by blast
    then show ?thesis using wait_invD(5) [OF assms] by (auto simp: node_ok_def node_group_done_def)
  qed
  then show ?thesis unfolding pending_def by (simp add: filter_id_conv)
qed

lemma kernel_best_waiter:
  assumes "kernel_inv A T k Q L R n"
  shows "best_waiter (mem k) (Q w) = None \<longleftrightarrow> Q w = []"
    and "best_waiter (mem k) (Q w) = Some p \<Longrightarrow> p \<in> set (Q w)"
  using wait_inv_pending [OF kernel_invD(1) [OF assms], of w] best_waiter_None [of "mem k" "Q w"]
    best_waiter_Some(1) [of "mem k" "Q w" p] by auto

text \<open>What the owner of the node \<open>p\<close> finds when it runs again.\<close>

definition wake_result :: "wmem \<Rightarrow> node_ptr \<Rightarrow> bool \<Rightarrow> Result" where
  "wake_result m p acquired = \<lparr>r_index = int (unat (n_index (nodes m p))), r_acquired = acquired\<rparr>"

lemma won_group_result:
  "t_wait_group (tcbs m' (fst p)) = won_group p acquired m \<Longrightarrow> block_result (fst p) m' = wake_result m p acquired"
  by (simp add: block_result_def won_group_def wake_result_def)

definition inbox_room :: "nat \<Rightarrow> tcb_heap \<Rightarrow> (nat \<Rightarrow> tcb_ptr list) \<Rightarrow> node_ptr list \<Rightarrow> bool" where
  "inbox_room c h R ps \<longleftrightarrow> (\<forall>d. d \<noteq> c \<longrightarrow>
     length (R d) + length (filter (\<lambda>p. t_pinned_core (h (fst p)) = d) ps) \<le> INBOX_CAP)"

lemma inbox_room_one:
  assumes "inbox_room c h R ps" "p \<in> set ps" "t_pinned_core (h (fst p)) \<noteq> c"
  shows "length (R (t_pinned_core (h (fst p)))) < INBOX_CAP"
proof -
  let ?d = "t_pinned_core (h (fst p))"
  have "filter (\<lambda>q. t_pinned_core (h (fst q)) = ?d) ps \<noteq> []" using assms(2) by (auto simp: filter_empty_conv)
  then have "0 < length (filter (\<lambda>q. t_pinned_core (h (fst q)) = ?d) ps)" by simp
  moreover have "length (R ?d) + length (filter (\<lambda>q. t_pinned_core (h (fst q)) = ?d) ps) \<le> INBOX_CAP"
    using assms(1,3) unfolding inbox_room_def by blast
  ultimately show ?thesis by linarith
qed

lemma signal_one_kernel_inv:
  assumes inv: "kernel_inv {} T k Q L R n" and c: "c < CORES" and w: "w \<noteq> nullptr"
    and n: "n c + length (R c) \<le> 2 ^ 62" and best: "best_waiter (mem k) (Q w) = Some p"
    and room: "t_pinned_core (tcbs (mem k) (fst p)) \<noteq> c \<Longrightarrow>
      length (R (t_pinned_core (tcbs (mem k) (fst p)))) < INBOX_CAP"
  obtains k' L' R' n' where "signal_one c w acquired k = Some k'"
    "kernel_inv {} T k' (\<lambda>v. filter (\<lambda>q. fst q \<noteq> fst p) (Q v)) L' R' n'"
    "block_result (fst p) (mem k') = wake_result (mem k) p acquired"
    "t_pinned_core (tcbs (mem k) (fst p)) \<noteq> c \<Longrightarrow>
       R' (t_pinned_core (tcbs (mem k) (fst p))) = R (t_pinned_core (tcbs (mem k) (fst p))) @ [fst p]"
    "t_pinned_core (tcbs (mem k) (fst p)) = c \<Longrightarrow>
       t_state (tcbs (mem k') (fst p)) \<in> {Ready, Running}"
    "\<And>u. t_pinned_core (tcbs (mem k) (fst p)) = c \<Longrightarrow> current_thread (schedulers k ! c) = Some u \<Longrightarrow>
       t_effective_priority (tcbs (mem k) (fst p)) < t_effective_priority (tcbs (mem k) u) \<Longrightarrow>
       t_state (tcbs (mem k') u) = Ready \<or> idle_thread (schedulers k ! c) = Some u"
    "\<And>d. n' d + length (R' d) \<le> n d + length (R d) + 1" "\<And>x. same_thread (tcbs (mem k) x) (tcbs (mem k') x)"
proof -
  let ?h = "tcbs (mem k)" and ?t = "fst p" and ?Q = "\<lambda>v. filter (\<lambda>q. fst q \<noteq> fst p) (Q v)"
  obtain u where u: "current_thread (schedulers k ! c) = Some u" "u \<in> T" "t_state (?h u) = Running"
    by (rule kernel_inv_current [OF inv c]) simp
  have p: "p \<in> set (Q w)" using kernel_best_waiter(2) [OF inv best] .
  obtain a k1 where r: "wake_thread c p acquired k = Some (a, k1)"
    "a = (if t_pinned_core (?h ?t) = c \<and> t_effective_priority (?h ?t) < t_effective_priority (?h u)
          then RA_Reschedule else RA_None)"
    "kernel_inv {} T k1 ?Q (lists_woken c ?h ?t L) (inboxes_woken c ?h ?t R) n"
    "wake_effect c p acquired (mem k) (mem k1)" "current_thread (schedulers k1 ! c) = Some u"
    by (rule wake_kernel_inv [OF inv p c u(1) room])
  have we: "t_wait_group (tcbs (mem k1) ?t) = won_group p acquired (mem k)"
    "t_state (tcbs (mem k1) ?t) = (if t_pinned_core (?h ?t) = c then Ready else Blocked)"
    "\<And>x. same_thread (?h x) (tcbs (mem k1) x)" using r(4) by (simp_all add: wake_effect_def)
  have s1: "signal_one c w acquired k =
      (if a = RA_Reschedule then cortos_port_pend_reschedule c k1 else Some k1)"
    using kernel_pick_best [OF inv c w] best r(1) by (simp add: signal_one_def)
  have res1: "block_result ?t (mem k1) = wake_result (mem k) p acquired"
    using won_group_result [OF we(1)] .
  have bk: "t_state (?h ?t) = Blocked"
    using wait_invD(2,5) [OF kernel_invD(1) [OF inv], of p] p by (auto simp: node_ok_def)
  show thesis
  proof (cases "a = RA_Reschedule")
    case False
    then show thesis using that [OF _ r(3) res1] s1 r(2) we(2,3) u(1)
      by (auto simp: inboxes_woken_def split: if_splits)
  next
    case True
    then have up: "t_pinned_core (?h ?t) = c" "t_effective_priority (?h ?t) < t_effective_priority (?h u)"
      using r(2) by (auto split: if_splits)
    have n1: "n c + length (inboxes_woken c ?h ?t R c) \<le> 2 ^ 62" using n up(1) by (simp add: inboxes_woken_def)
    let ?L = "competing k1 c u (lists_woken c ?h ?t L c) (inboxes_woken c ?h ?t R c)"
    obtain k' where k': "cortos_port_pend_reschedule c k1 = Some k'"
      "kernel_inv ({} - {c}) T k' ?Q ((lists_woken c ?h ?t L)(c := delist (winner k1 c ?L) ?L))
         ((inboxes_woken c ?h ?t R)(c := [])) (n(c := n c + length (inboxes_woken c ?h ?t R c)))"
      "current_thread (schedulers k' ! c) = Some (winner k1 c ?L)"
      "switched c u (winner k1 c ?L) (tcbs (mem k1)) (tcbs (mem k')) (members ?L)"
      "nodes (mem k') = nodes (mem k1)" "hooks k' = hooks k1"
      by (rule pend_reschedule_inv [OF r(3) c n1 r(5)])
    have ev: "evolves (insert u (insert (winner k1 c ?L) (members ?L))) (tcbs (mem k1)) (tcbs (mem k'))"
      using k'(4) by (simp add: switched_def)
    have res: "block_result ?t (mem k') = wake_result (mem k) p acquired"
      using res1 evolves_sel(4) [OF ev] by (simp add: block_result_def)
    have th: "same_thread (?h x) (tcbs (mem k') x)" for x
      by (rule same_thread_trans [OF we(3) evolves_same_thread [OF ev]])
    have ut: "u \<noteq> ?t" using u(3) bk by auto
    have tm: "?t \<in> members ?L" using up(1) by (simp add: competing_def members_enlist lists_woken_def)
    have "tcb_level (tcbs (mem k1)) (winner k1 c ?L) \<le> tcb_level (tcbs (mem k1)) ?t"
    proof -
      have "sched_rep (n c) (tcbs (mem k1), schedulers k1 ! c) (lists_woken c ?h ?t L c) (inboxes_woken c ?h ?t R c)"
        "current_ok (tcbs (mem k1), schedulers k1 ! c) u"
        using kernel_invD(3) [OF r(3) c] r(5) by (auto simp: core_inv_def current_ok_def)
      from next_thread_best(1) [OF this tm [unfolded competing_def]] show ?thesis
        by (simp add: winner_def competing_def)
    qed
    moreover have "tcb_level (tcbs (mem k1)) ?t < tcb_level (tcbs (mem k1)) u"
      using up(2) we(3) by (simp add: tcb_level_def same_thread_def word_less_nat_alt)
    ultimately have wu: "winner k1 c ?L \<noteq> u" by auto
    have "t_state (tcbs (mem k1) u) = Running"
      using kernel_invD(3) [OF r(3) c] r(5) by (auto simp: core_inv_def current_ok_def)
    then have ur: "t_state (tcbs (mem k') u) = Ready" using wu k'(4) by (simp add: switched_def)
    have tr: "t_state (tcbs (mem k') ?t) \<in> {Ready, Running}"
    proof (cases "winner k1 c ?L = ?t")
      case True
      then show ?thesis using k'(4) by (simp add: switched_def)
    next
      case False
      then obtain j where "?t \<in> set (delist (winner k1 c ?L) ?L j)"
        using tm by (auto simp: members_def delist_def)
      moreover have "matrix_rep (tcbs (mem k')) (ready_matrix (schedulers k' ! c)) (delist (winner k1 c ?L) ?L)"
        using kernel_invD(3) [OF k'(2) c] by (simp add: core_inv_def sched_rep_def)
      ultimately show ?thesis using matrix_rep_member by blast
    qed
    show thesis
      by (rule that [of k' _ "(inboxes_woken c ?h ?t R)(c := [])" "n(c := n c + length (inboxes_woken c ?h ?t R c))"])
         (use s1 True k'(1,2) res up ur tr u(1) th in \<open>simp_all add: inboxes_woken_def\<close>)
  qed
qed

section \<open>Signalling all waiters\<close>

lemma distinct_queue: "wait_inv T X m Q \<Longrightarrow> distinct (Q w)"
  using wq.rep_distinct wait_invD(1) [of T X m Q w] by (auto simp: waiter_rep_def)

text \<open>A thread has one node per waitable: waking it shortens the queue by one.\<close>

lemma filter_owner:
  assumes "wait_inv T X m Q" "p \<in> set (Q w)"
  shows "filter (\<lambda>q. fst q \<noteq> fst p) (Q w) = remove1 p (Q w)"
proof -
  have "q = p" if q: "q \<in> set (Q w)" "fst q = fst p" for q
    using q assms wait_invD(2) [OF assms(1), of _ w] wait_invD(6) [OF assms(1), of q p] by auto
  then have "filter (\<lambda>q. fst q \<noteq> fst p) (Q w) = filter (\<lambda>q. q \<noteq> p) (Q w)"
    by (intro filter_cong) auto
  moreover have "distinct (Q w)"
    using wq.rep_distinct wait_invD(1) [OF assms(1), of w] by (auto simp: waiter_rep_def)
  ultimately show ?thesis
    by (simp add: distinct_remove1_removeAll removeAll_filter_not_eq eq_commute)
qed

lemma inbox_room_step:
  assumes room: "inbox_room c h R ps" and p: "p \<in> set ps"
    and same: "\<And>x. t_pinned_core (h' x) = t_pinned_core (h x)"
  shows "inbox_room c h' (inboxes_woken c h (fst p) R) (remove1 p ps)"
  unfolding inbox_room_def
proof (intro allI impI)
  fix d assume d: "d \<noteq> c"
  let ?P = "\<lambda>q. t_pinned_core (h (fst q)) = d"
  have le: "length (R d) + length (filter ?P ps) \<le> INBOX_CAP" using room d by (simp add: inbox_room_def)
  have f: "filter ?P (remove1 p ps) = (if ?P p then remove1 p (filter ?P ps) else filter ?P ps)"
    by (induction ps) auto
  show "length (inboxes_woken c h (fst p) R d) +
      length (filter (\<lambda>q. t_pinned_core (h' (fst q)) = d) (remove1 p ps)) \<le> INBOX_CAP"
  proof (cases "?P p")
    case True
    then have "0 < length (filter ?P ps)" using p by (auto simp: filter_empty_conv)
    moreover have "length (remove1 p (filter ?P ps)) = length (filter ?P ps) - 1"
      using True p by (simp add: length_remove1)
    moreover have "inboxes_woken c h (fst p) R d = R d @ [fst p]" using True d by (auto simp: inboxes_woken_def)
    ultimately show ?thesis using le True unfolding same f
      by (simp del: length_0_conv length_greater_0_conv)
  next
    case False
    then show ?thesis using le by (auto simp: same f inboxes_woken_def)
  qed
qed

text \<open>A woken thread: ready on the signalling core, or requested in the inbox of its own core.\<close>

definition made_ready :: "nat \<Rightarrow> tcb_heap \<Rightarrow> (nat \<Rightarrow> tcb_ptr list) \<Rightarrow> tcb_ptr \<Rightarrow> bool" where
  "made_ready c h R t \<longleftrightarrow>
     (if t_pinned_core (h t) = c then t_state (h t) = Ready else t \<in> set (R (t_pinned_core (h t))))"

text \<open>
  The loop of \<^verbatim>\<open>signal_all\<close> ends, with every waiter of \<open>w\<close> woken: off all queues, with the result
  of its own node, ready on this core or requested on its own.
\<close>

lemma signal_loop_leaving_inv:
  assumes "kernel_inv A T k Q L R n" and c: "c < CORES" and w: "w \<noteq> nullptr"
    and "current_thread (schedulers k ! c) = Some u" and "inbox_room c (tcbs (mem k)) R (Q w)"
    and A: "A \<subseteq> {c}" and "c \<in> A \<longrightarrow> slots (mem k) u = {}"
  shows "\<exists>b' k' L' R'. signal_loop c w acquired b k = Some (b', k') \<and>
    kernel_inv A T k' (\<lambda>v. filter (\<lambda>q. fst q \<notin> fst ` set (Q w)) (Q v)) L' R' n \<and>
    current_thread (schedulers k' ! c) = Some u \<and> R' c = R c \<and>
    (\<forall>p \<in> set (Q w). block_result (fst p) (mem k') = wake_result (mem k) p acquired) \<and>
    (\<forall>x. x \<notin> fst ` set (Q w) \<longrightarrow> t_wait_group (tcbs (mem k') x) = t_wait_group (tcbs (mem k) x)) \<and>
    (\<forall>x. same_thread (tcbs (mem k) x) (tcbs (mem k') x)) \<and>
    (\<forall>d. length (R' d) \<le> length (R d) + length (Q w) \<and> set (R d) \<subseteq> set (R' d)) \<and>
    (\<forall>x. x \<notin> fst ` set (Q w) \<longrightarrow> t_state (tcbs (mem k') x) = t_state (tcbs (mem k) x)) \<and>
    (\<forall>p \<in> set (Q w). made_ready c (tcbs (mem k')) R' (fst p)) \<and>
    (b' \<longleftrightarrow> b \<or> (\<exists>p \<in> set (Q w). t_pinned_core (tcbs (mem k) (fst p)) = c \<and>
        t_effective_priority (tcbs (mem k) (fst p)) < t_effective_priority (tcbs (mem k) u)))"
  using assms(1,4,5,7)
proof (induction "length (Q w)" arbitrary: k Q L R b)
  case 0
  then have "Q w = []" by simp
  then have "best_waiter (mem k) (Q w) = None" using kernel_best_waiter(1) [OF 0(2), of w] by blast
  then have "signal_loop c w acquired b k = Some (b, k)"
    using kernel_pick_best [OF 0(2) c w] by (subst signal_loop.simps) simp
  then show ?case using 0 by (intro exI [of _ b] exI [of _ k] exI [of _ L] exI [of _ R]) (simp add: same_thread_def)
next
  case (Suc len)
  note inv = Suc.prems(1) and wv = kernel_invD(1) [OF Suc.prems(1)]
  obtain p where best: "best_waiter (mem k) (Q w) = Some p" and p: "p \<in> set (Q w)"
    using kernel_best_waiter [OF inv] Suc.hyps(2) by (metis length_0_conv nat.distinct(1) option.exhaust)
  let ?h = "tcbs (mem k)" and ?t = "fst p" and ?Q = "\<lambda>v. filter (\<lambda>q. fst q \<noteq> fst p) (Q v)"
  obtain a k1 where r: "wake_thread c p acquired k = Some (a, k1)"
    "a = (if t_pinned_core (?h ?t) = c \<and> t_effective_priority (?h ?t) < t_effective_priority (?h u)
          then RA_Reschedule else RA_None)"
    "kernel_inv A T k1 ?Q (lists_woken c ?h ?t L) (inboxes_woken c ?h ?t R) n"
    "wake_effect c p acquired (mem k) (mem k1)" "current_thread (schedulers k1 ! c) = Some u"
    by (rule wake_leaving_inv [OF inv p c Suc.prems(2) A _ inbox_room_one [OF Suc.prems(3) p], of acquired])
      (use Suc.prems(4) in blast)+
  have we: "t_wait_group (tcbs (mem k1) ?t) = won_group p acquired (mem k)"
    "\<And>x. same_thread (?h x) (tcbs (mem k1) x)"
    "\<And>x. x \<noteq> ?t \<Longrightarrow> t_wait_group (tcbs (mem k1) x) = t_wait_group (?h x)"
    "\<And>x. fst x \<noteq> ?t \<Longrightarrow> n_index (nodes (mem k1) x) = n_index (nodes (mem k) x)"
    "t_state (tcbs (mem k1) ?t) = (if t_pinned_core (?h ?t) = c then Ready else Blocked)"
    "\<And>x. x \<noteq> ?t \<Longrightarrow> t_state (tcbs (mem k1) x) = t_state (?h x)"
    using r(4) unfolding wake_effect_def by blast+
  have same: "t_pinned_core (tcbs (mem k1) x) = t_pinned_core (?h x)"
    "t_effective_priority (tcbs (mem k1) x) = t_effective_priority (?h x)" for x
    using we(2) [of x] by (simp_all add: same_thread_def)
  have Qw: "?Q w = remove1 p (Q w)" using filter_owner [OF wv p] .
  then have len: "len = length (?Q w)" using Suc.hyps(2) p by (simp add: length_remove1)
  have room1: "inbox_room c (tcbs (mem k1)) (inboxes_woken c ?h ?t R) (?Q w)"
    unfolding Qw by (rule inbox_room_step [OF Suc.prems(3) p same(1)])
  have idx: "wake_result (mem k1) q acquired = wake_result (mem k) q acquired" if "q \<in> set (?Q w)" for q
    using we(4) [of q] that by (auto simp: wake_result_def)
  have uT: "u \<in> T" using kernel_inv_current [OF inv c] Suc.prems(2) by (metis option.inject)
  have quiet: "c \<in> A \<longrightarrow> slots (mem k1) u = {}"
    using Suc.prems(4) slots_queues [OF wv uT] slots_queues [OF kernel_invD(1) [OF r(3)] uT] by auto
  obtain b' k' L' R' where l: "signal_loop c w acquired (b \<or> a = RA_Reschedule) k1 = Some (b', k')"
    "kernel_inv A T k' (\<lambda>v. filter (\<lambda>q. fst q \<notin> fst ` set (?Q w)) (?Q v)) L' R' n"
    "current_thread (schedulers k' ! c) = Some u" "R' c = inboxes_woken c ?h ?t R c"
    "\<forall>q \<in> set (?Q w). block_result (fst q) (mem k') = wake_result (mem k1) q acquired"
    "\<forall>x. x \<notin> fst ` set (?Q w) \<longrightarrow> t_wait_group (tcbs (mem k') x) = t_wait_group (tcbs (mem k1) x)"
    "\<forall>x. same_thread (tcbs (mem k1) x) (tcbs (mem k') x)"
    "\<forall>d. length (R' d) \<le> length (inboxes_woken c ?h ?t R d) + length (?Q w) \<and>
       set (inboxes_woken c ?h ?t R d) \<subseteq> set (R' d)"
    "\<forall>x. x \<notin> fst ` set (?Q w) \<longrightarrow> t_state (tcbs (mem k') x) = t_state (tcbs (mem k1) x)"
    "\<forall>q \<in> set (?Q w). made_ready c (tcbs (mem k')) R' (fst q)"
    "b' \<longleftrightarrow> (b \<or> a = RA_Reschedule) \<or> (\<exists>q \<in> set (?Q w). t_pinned_core (tcbs (mem k1) (fst q)) = c \<and>
        t_effective_priority (tcbs (mem k1) (fst q)) < t_effective_priority (tcbs (mem k1) u))"
    using Suc.hyps(1) [OF len r(3) r(5) room1 quiet, of "b \<or> a = RA_Reschedule"] by blast
  have eq: "signal_loop c w acquired b k = Some (b', k')"
    using kernel_pick_best [OF inv c w] best r(1) l(1) by (subst signal_loop.simps) simp
  have own: "fst ` set (Q w) = insert ?t (fst ` set (?Q w))" using p by auto
  have Qs: "(\<lambda>v. filter (\<lambda>q. fst q \<notin> fst ` set (?Q w)) (?Q v)) =
      (\<lambda>v. filter (\<lambda>q. fst q \<notin> fst ` set (Q w)) (Q v))"
    unfolding own by (auto simp: filter_filter fun_eq_iff intro!: filter_cong)
  have Rc: "R' c = R c" using l(4) by (simp add: inboxes_woken_def)
  have res: "block_result (fst q) (mem k') = wake_result (mem k) q acquired" if q: "q \<in> set (Q w)" for q
  proof (cases "q \<in> set (?Q w)")
    case True
    then show ?thesis using l(5) idx [of q] by metis
  next
    case False
    then have "q = p" using q Qw by (metis in_set_remove1)
    moreover have "block_result ?t (mem k') = block_result ?t (mem k1)"
      using l(6) by (auto simp: block_result_def)
    ultimately show ?thesis using won_group_result [OF we(1)] by simp
  qed
  have wg: "t_wait_group (tcbs (mem k') x) = t_wait_group (?h x)" if "x \<notin> fst ` set (Q w)" for x
  proof -
    have "x \<noteq> ?t" "x \<notin> fst ` set (?Q w)" using that unfolding own by auto
    then show ?thesis using l(6) we(3) by simp
  qed
  have th: "same_thread (?h x) (tcbs (mem k') x)" for x using same_thread_trans [OF we(2)] l(7) by blast
  have "b' \<longleftrightarrow> b \<or> (\<exists>q \<in> set (Q w). t_pinned_core (?h (fst q)) = c \<and>
      t_effective_priority (?h (fst q)) < t_effective_priority (?h u))"
  proof -
    have S: "set (Q w) = insert p (set (?Q w))"
      unfolding Qw using p by (simp add: set_remove1_eq [OF distinct_queue [OF wv]] insert_absorb)
    have ex: "(\<exists>q \<in> set (Q w). P q) \<longleftrightarrow> P p \<or> (\<exists>q \<in> set (?Q w). P q)" for P
      by (subst S) (rule bex_simps(5))
    have "a = RA_Reschedule \<longleftrightarrow> t_pinned_core (?h ?t) = c \<and> t_effective_priority (?h ?t) < t_effective_priority (?h u)"
      by (simp add: r(2))
    then show ?thesis unfolding l(11) same ex by blast
  qed
  moreover have "length (R' d) \<le> length (R d) + length (Q w) \<and> set (R d) \<subseteq> set (R' d)" for d
    using l(8) [rule_format, of d] Suc.hyps(2) len by (auto simp: inboxes_woken_def split: if_splits)
  moreover have "t_state (tcbs (mem k') x) = t_state (?h x)" if "x \<notin> fst ` set (Q w)" for x
  proof -
    have "x \<noteq> ?t" "x \<notin> fst ` set (?Q w)" using that unfolding own by auto
    then show ?thesis using l(9) we(6) by simp
  qed
  moreover have "made_ready c (tcbs (mem k')) R' (fst q)" if q: "q \<in> set (Q w)" for q
  proof (cases "q \<in> set (?Q w)")
    case True
    then show ?thesis using l(10) by blast
  next
    case False
    then have qp: "q = p" using q Qw by (metis in_set_remove1)
    have "?t \<notin> fst ` set (?Q w)" by auto
    then have "t_state (tcbs (mem k') ?t) = t_state (tcbs (mem k1) ?t)" using l(9) by blast
    moreover have "t_pinned_core (tcbs (mem k') ?t) = t_pinned_core (?h ?t)" using th [of ?t] by (simp add: same_thread_def)
    moreover have "?t \<in> set (R' (t_pinned_core (?h ?t)))" if "t_pinned_core (?h ?t) \<noteq> c"
      using l(8) [rule_format, of "t_pinned_core (?h ?t)"] that by (auto simp: inboxes_woken_def)
    ultimately show ?thesis using we(5) qp by (simp add: made_ready_def)
  qed
  ultimately show ?case using eq l(2,3) Rc res wg th unfolding Qs by blast
qed

lemma signal_loop_kernel_inv:
  assumes "kernel_inv {} T k Q L R n" and c: "c < CORES" and w: "w \<noteq> nullptr"
    and "current_thread (schedulers k ! c) = Some u" and "inbox_room c (tcbs (mem k)) R (Q w)"
  shows "\<exists>b' k' L' R'. signal_loop c w acquired b k = Some (b', k') \<and>
    kernel_inv {} T k' (\<lambda>v. filter (\<lambda>q. fst q \<notin> fst ` set (Q w)) (Q v)) L' R' n \<and>
    current_thread (schedulers k' ! c) = Some u \<and> R' c = R c \<and>
    (\<forall>p \<in> set (Q w). block_result (fst p) (mem k') = wake_result (mem k) p acquired) \<and>
    (\<forall>x. x \<notin> fst ` set (Q w) \<longrightarrow> t_wait_group (tcbs (mem k') x) = t_wait_group (tcbs (mem k) x)) \<and>
    (\<forall>x. same_thread (tcbs (mem k) x) (tcbs (mem k') x)) \<and>
    (\<forall>d. length (R' d) \<le> length (R d) + length (Q w) \<and> set (R d) \<subseteq> set (R' d)) \<and>
    (\<forall>x. x \<notin> fst ` set (Q w) \<longrightarrow> t_state (tcbs (mem k') x) = t_state (tcbs (mem k) x)) \<and>
    (\<forall>p \<in> set (Q w). made_ready c (tcbs (mem k')) R' (fst p)) \<and>
    (b' \<longleftrightarrow> b \<or> (\<exists>p \<in> set (Q w). t_pinned_core (tcbs (mem k) (fst p)) = c \<and>
        t_effective_priority (tcbs (mem k) (fst p)) < t_effective_priority (tcbs (mem k) u)))"
  by (rule signal_loop_leaving_inv [OF assms]) simp_all

end
