(* ===== verification/Kernel_Boot.thy ===== *)
theory Kernel_Boot
  imports Kernel_Signal
begin

text \<open>
  Bringing the kernel up: \<^verbatim>\<open>initialise\<close> builds the idle threads, \<^verbatim>\<open>Thread\<close> objects are created and
  pinned, \<^verbatim>\<open>start\<close> launches the cores, and each core enters its first thread.  The state before the
  start is described by \<open>boot_inv\<close>; when all cores have entered, the invariant \<^const>\<open>kernel_inv\<close> of the
  running kernel holds.
\<close>

section \<open>The state before the cores run\<close>

text \<open>A core that has not entered its first thread; \<open>i\<close> says whether it has its idle thread.\<close>

definition idle_core :: "bool \<Rightarrow> tcb_ptr set \<Rightarrow> kernel \<Rightarrow> nat \<Rightarrow> ready_lists \<Rightarrow> bool" where
  "idle_core i T k c L \<longleftrightarrow>
     core_id (schedulers k ! c) = c \<and> preempt_disable_depth (schedulers k ! c) = 0 \<and>
     current_thread (schedulers k ! c) = None \<and>
     sched_rep 0 (tcbs (mem k), schedulers k ! c) L [] \<and> members L \<subseteq> T \<and>
     (if i then \<exists>t \<in> T. idle_thread (schedulers k ! c) = Some t \<and> t_state (tcbs (mem k) t) = Ready
      else idle_thread (schedulers k ! c) = None)"

text \<open>
  \<open>boot_inv I S T k L\<close>: the cores \<open>I\<close> have their idle threads, the cores \<open>S\<close> run their first thread,
  the threads \<open>T\<close> exist and nobody waits.
\<close>

definition boot_inv :: "nat set \<Rightarrow> nat set \<Rightarrow> tcb_ptr set \<Rightarrow> kernel \<Rightarrow> (nat \<Rightarrow> ready_lists) \<Rightarrow> bool" where
  "boot_inv I S T k L \<longleftrightarrow>
     wait_inv T {} (mem k) (\<lambda>_. []) \<and> length (schedulers k) = CORES \<and>
     (\<forall>w. \<not> wait_locked k w) \<and> \<not> k_locked k \<and>
     (\<forall>c < CORES. if c \<in> S then core_inv False T k c (L c) [] 0 else idle_core (c \<in> I) T k c (L c)) \<and>
     (\<forall>t \<in> T. thread_inv k (\<lambda>_. []) t)"

lemma boot_invD:
  assumes "boot_inv I S T k L"
  shows "wait_inv T {} (mem k) (\<lambda>_. [])" "length (schedulers k) = CORES" "\<And>w. \<not> wait_locked k w"
    "\<not> k_locked k" "c < CORES \<Longrightarrow> c \<notin> S \<Longrightarrow> idle_core (c \<in> I) T k c (L c)"
    "c < CORES \<Longrightarrow> c \<in> S \<Longrightarrow> core_inv False T k c (L c) [] 0" "t \<in> T \<Longrightarrow> thread_inv k (\<lambda>_. []) t"
  using assms unfolding boot_inv_def by auto

lemma boot_no_slots: "wait_inv T {} m (\<lambda>_. []) \<Longrightarrow> t \<in> T \<Longrightarrow> slots m t = {}"
  using slots_queues [of T "{}" m "\<lambda>_. []" t] by auto

text \<open>A core does not see what happens to a thread it does not hold.\<close>

lemma idle_core_update:
  assumes ic: "idle_core i T k c L" and t: "t \<notin> members L" "idle_thread (schedulers k ! c) \<noteq> Some t"
    and k': "\<And>x. x \<noteq> t \<Longrightarrow> tcbs (mem k') x = tcbs (mem k) x" "schedulers k' ! c = schedulers k ! c"
    and T': "T \<subseteq> T'"
  shows "idle_core i T' k' c L"
proof -
  have rep: "sched_rep 0 (tcbs (mem k'), schedulers k ! c) L []"
    using ic t by (intro sched_rep_update [OF _ _ t(2) k'(1)]) (auto simp: idle_core_def)
  show ?thesis
  proof (cases i)
    case True
    then obtain x where x: "x \<in> T" "idle_thread (schedulers k ! c) = Some x" "t_state (tcbs (mem k) x) = Ready"
      using ic by (auto simp: idle_core_def)
    then have "tcbs (mem k') x = tcbs (mem k) x" using k'(1) t(2) by metis
    then show ?thesis using ic rep x T' True unfolding idle_core_def k'(2) by auto
  next
    case False
    then show ?thesis using ic rep T' unfolding idle_core_def k'(2) by auto
  qed
qed

text \<open>The thread stores a thread that nobody holds may be changed in.\<close>

lemma thread_inv_other:
  assumes "thread_inv k R x" "tcbs (mem k') x = tcbs (mem k) x" "slots (mem k') x = {}"
    and "\<And>c. c < CORES \<Longrightarrow> current_thread (schedulers k' ! c) = current_thread (schedulers k ! c)"
    and "fiber_suspended (port k) x \<Longrightarrow> fiber_suspended (port k') x"
  shows "thread_inv k' R x"
  using assms unfolding thread_inv_def Let_def by auto

section \<open>New threads\<close>

lemma construct_TCB_sel [simp]:
  "tcbs (construct_TCB A t tid pr aff st en m) =
     (tcbs m)(t := ThreadControlBlock_init A t tid pr aff st en)"
  by (simp add: construct_TCB_eq)

lemma init_TCB_sel [simp]:
  "t_state (ThreadControlBlock_init A t tid pr aff st en) = Ready"
  "t_effective_priority (ThreadControlBlock_init A t tid pr aff st en) = pr"
  "t_pinned_core (ThreadControlBlock_init A t tid pr aff st en) = 0"
  "t_affinity (ThreadControlBlock_init A t tid pr aff st en) = aff"
  "t_id (ThreadControlBlock_init A t tid pr aff st en) = tid"
  "t_termination (ThreadControlBlock_init A t tid pr aff st en) = t + offsetof_termination A"
  "t_terminated (ThreadControlBlock_init A t tid pr aff st en) = False"
  "\<not> tcb_is_enqueued (ThreadControlBlock_init A t tid pr aff st en)"
  by (simp_all add: ThreadControlBlock_init_def tcb_is_enqueued_def)

text \<open>A thread is built and gets its context; no scheduler knows it yet.\<close>

definition with_new_thread ::
  "abi \<Rightarrow> tcb_ptr \<Rightarrow> u32 \<Rightarrow> u8 \<Rightarrow> CoreAffinity \<Rightarrow> span \<Rightarrow> callable \<Rightarrow> kernel \<Rightarrow> kernel" where
  "with_new_thread A t tid pr aff st en k =
     set_port (cortos_port_context_init t (port k)) (k\<lparr>mem := construct_TCB A t tid pr aff st en (mem k)\<rparr>)"

lemma with_new_thread_sel [simp]:
  "mem (with_new_thread A t tid pr aff st en k) = construct_TCB A t tid pr aff st en (mem k)"
  "port (with_new_thread A t tid pr aff st en k) = cortos_port_context_init t (port k)"
  "schedulers (with_new_thread A t tid pr aff st en k) = schedulers k"
  "wait_locked (with_new_thread A t tid pr aff st en k) = wait_locked k"
  "k_locked (with_new_thread A t tid pr aff st en k) = k_locked k"
  "running (with_new_thread A t tid pr aff st en k) = running k"
  "active_threads (with_new_thread A t tid pr aff st en k) = active_threads k"
  by (simp_all add: with_new_thread_def set_port_def)

lemma boot_inv_new_thread:
  assumes b: "boot_inv I {} T k L" and t: "t \<notin> T" and pr: "unat pr < MAX_PRIORITIES"
  shows "boot_inv I {} (insert t T) (with_new_thread A t tid pr aff st en k) L"
    (is "boot_inv I {} ?T ?k L")
proof -
  have w: "wait_inv ?T {} (mem ?k) (\<lambda>_. [])"
    using construct_TCB_inv [OF boot_invD(1) [OF b] t] by simp
  have ic: "idle_core (c \<in> I) ?T ?k c (L c)" if c: "c < CORES" for c
  proof (rule idle_core_update [of _ T k c])
    show "idle_core (c \<in> I) T k c (L c)" using boot_invD(5) [OF b c] by simp
    then show "t \<notin> members (L c)" "idle_thread (schedulers k ! c) \<noteq> Some t"
      using t by (auto simp: idle_core_def split: if_splits)
  qed auto
  have "thread_inv ?k (\<lambda>_. []) x" if x: "x \<in> ?T" for x
  proof (cases "x = t")
    case True
    have "slots (mem ?k) t = {}" using boot_no_slots [OF w x] True by simp
    then show ?thesis using pr True
      by (simp add: thread_inv_def Let_def cortos_port_context_init_def CORES_def)
  next
    case False
    show ?thesis
    proof (rule thread_inv_other)
      show "thread_inv k (\<lambda>_. []) x" using x False by (intro boot_invD(7) [OF b]) simp
      show "slots (mem ?k) x = {}" by (rule boot_no_slots [OF w x])
    qed (use False in \<open>simp_all add: cortos_port_context_init_def\<close>)
  qed
  then show ?thesis using w ic boot_invD(2-4) [OF b] unfolding boot_inv_def by auto
qed

text \<open>A thread in no list.\<close>

definition unlisted :: "kernel \<Rightarrow> (nat \<Rightarrow> ready_lists) \<Rightarrow> tcb_ptr \<Rightarrow> bool" where
  "unlisted k L t \<longleftrightarrow> \<not> tcb_is_enqueued (tcbs (mem k) t) \<and> t_state (tcbs (mem k) t) = Ready \<and>
     (\<forall>c < CORES. t \<notin> members (L c) \<and> idle_thread (schedulers k ! c) \<noteq> Some t)"

lemma unlisted_new_thread:
  assumes b: "boot_inv I {} T k L" and t: "t \<notin> T"
  shows "unlisted (with_new_thread A t tid pr aff st en k) L t"
proof -
  have "t \<notin> members (L c) \<and> idle_thread (schedulers k ! c) \<noteq> Some t" if "c < CORES" for c
    using boot_invD(5) [OF b that] t by (auto simp: idle_core_def split: if_splits)
  then show ?thesis by (simp add: unlisted_def)
qed

definition set_pinned :: "tcb_ptr \<Rightarrow> nat \<Rightarrow> kernel \<Rightarrow> kernel" where
  "set_pinned t c k = set_tcbs ((tcbs (mem k))(t := (tcbs (mem k) t)\<lparr>t_pinned_core := c\<rparr>)) k"

lemma set_pinned_sel [simp]:
  "tcbs (mem (set_pinned t c k)) = (tcbs (mem k))(t := (tcbs (mem k) t)\<lparr>t_pinned_core := c\<rparr>)"
  "nodes (mem (set_pinned t c k)) = nodes (mem k)" "waitables (mem (set_pinned t c k)) = waitables (mem k)"
  "schedulers (set_pinned t c k) = schedulers k" "port (set_pinned t c k) = port k"
  "wait_locked (set_pinned t c k) = wait_locked k" "k_locked (set_pinned t c k) = k_locked k"
  "running (set_pinned t c k) = running k" "active_threads (set_pinned t c k) = active_threads k"
  by (simp_all add: set_pinned_def set_tcbs_def)

lemma boot_inv_pinned:
  assumes b: "boot_inv I {} T k L" and t: "t \<in> T" and u: "unlisted k L t" and d: "d < CORES"
  shows "boot_inv I {} T (set_pinned t d k) L" "unlisted (set_pinned t d k) L t"
proof -
  let ?k = "set_pinned t d k"
  have w: "wait_inv T {} (mem ?k) (\<lambda>_. [])"
  proof (rule wait_inv_tcbs_cong [OF boot_invD(1) [OF b]])
    fix p assume "live_node T (mem k) p"
    then have "snd p \<in> slots (mem k) (fst p)" "fst p \<in> T" by (auto simp: live_node_def slots_def)
    then show "t_state (tcbs (mem ?k) (fst p)) = Blocked \<and> \<not> g_done (t_wait_group (tcbs (mem ?k) (fst p)))"
      using boot_no_slots [OF boot_invD(1) [OF b]] by simp
  qed auto
  have ic: "idle_core (c \<in> I) T ?k c (L c)" if c: "c < CORES" for c
    by (rule idle_core_update [of _ T k c _ t]) (use boot_invD(5) [OF b c] u c in \<open>auto simp: unlisted_def\<close>)
  have "thread_inv ?k (\<lambda>_. []) x" if x: "x \<in> T" for x
    using boot_invD(7) [OF b x] boot_no_slots [OF w x] d by (auto simp: thread_inv_def Let_def)
  then show "boot_inv I {} T ?k L" using w ic boot_invD(2-4) [OF b] unfolding boot_inv_def by auto
  show "unlisted ?k L t" using u by (simp add: unlisted_def tcb_is_enqueued_def)
qed

text \<open>Changing the scheduler of one core.\<close>

lemma set_scheduler_sel [simp]:
  "mem (set_scheduler c s k) = mem k" "port (set_scheduler c s k) = port k"
  "wait_locked (set_scheduler c s k) = wait_locked k" "k_locked (set_scheduler c s k) = k_locked k"
  "running (set_scheduler c s k) = running k" "active_threads (set_scheduler c s k) = active_threads k"
  "length (schedulers (set_scheduler c s k)) = length (schedulers k)"
  "c < length (schedulers k) \<Longrightarrow> schedulers (set_scheduler c s k) ! d = (if d = c then s else schedulers k ! d)"
  by (simp_all add: set_scheduler_def nth_list_update)

lemma boot_inv_scheduler:
  assumes b: "boot_inv I {} T k L" and c: "c < CORES"
    and ic: "idle_core (c \<in> J) T (set_scheduler c s k) c (L' c)"
    and J: "\<And>d. d \<noteq> c \<Longrightarrow> d \<in> J \<longleftrightarrow> d \<in> I" and L': "\<And>d. d \<noteq> c \<Longrightarrow> L' d = L d"
  shows "boot_inv J {} T (set_scheduler c s k) L'"
proof -
  have c': "c < length (schedulers k)" using c boot_invD(2) [OF b] by simp
  have cur: "current_thread s = None" using ic c' by (simp add: idle_core_def)
  have "idle_core (d \<in> J) T (set_scheduler c s k) d (L' d)" if d: "d < CORES" for d
    using boot_invD(5) [OF b d] ic J L' c' by (cases "d = c") (auto simp: idle_core_def)
  moreover have "thread_inv (set_scheduler c s k) (\<lambda>_. []) x" if x: "x \<in> T" for x
  proof -
    have "current_thread (schedulers (set_scheduler c s k) ! d) = current_thread (schedulers k ! d)" if "d < CORES" for d
      using cur boot_invD(5) [OF b c] c' by (simp add: idle_core_def)
    then show ?thesis using boot_invD(7) [OF b x] boot_no_slots [OF boot_invD(1) [OF b] x]
      by (simp add: thread_inv_def Let_def)
  qed
  ultimately show ?thesis using boot_invD(1-4) [OF b] unfolding boot_inv_def by auto
qed

section \<open>The idle threads\<close>

definition with_idle_thread :: "abi \<Rightarrow> callable \<Rightarrow> nat \<Rightarrow> StackLayout \<Rightarrow> kernel \<Rightarrow> kernel" where
  "with_idle_thread A idle_task c sl k =
     set_scheduler c ((schedulers k ! c)\<lparr>idle_thread := Some (sl_tcb sl)\<rparr>)
       (set_pinned (sl_tcb sl) c (with_new_thread A (sl_tcb sl) IDLE_THREAD_ID (of_nat (MAX_PRIORITIES - 1))
          (from_id c) (sl_user_stack sl) idle_task k))"

lemma init_idle_thread_eq:
  assumes "make_StackLayout A (idle_stack (schedulers k ! c)) 0 = Some sl"
    and "c < length (schedulers k)" "core_id (schedulers k ! c) = c"
  shows "init_idle_thread A idle_task c k = Some (with_idle_thread A idle_task c sl k)"
  using assms
  by (simp add: init_idle_thread_def scheduler_for_core_def with_idle_thread_def with_new_thread_def
      set_pinned_def Let_def set_tcbs_def set_port_def set_scheduler_def)

lemma idle_priority: "unat (of_nat (MAX_PRIORITIES - 1) :: u8) = MAX_PRIORITIES - 1"
  by (simp add: MAX_PRIORITIES_def)

lemma boot_inv_idle_thread:
  assumes b: "boot_inv I {} T k L" and c: "c < CORES" "c \<notin> I" and t: "sl_tcb sl \<notin> T"
  shows "boot_inv (insert c I) {} (insert (sl_tcb sl) T) (with_idle_thread A idle_task c sl k) L"
proof -
  let ?t = "sl_tcb sl"
  let ?n = "with_new_thread A ?t IDLE_THREAD_ID (of_nat (MAX_PRIORITIES - 1)) (from_id c) (sl_user_stack sl) idle_task k"
  let ?s = "(schedulers k ! c)\<lparr>idle_thread := Some ?t\<rparr>"
  have n: "boot_inv I {} (insert ?t T) ?n L" "unlisted ?n L ?t"
    using boot_inv_new_thread [OF b t] unlisted_new_thread [OF b t] idle_priority by (simp_all add: MAX_PRIORITIES_def)
  have p: "boot_inv I {} (insert ?t T) (set_pinned ?t c ?n) L" "unlisted (set_pinned ?t c ?n) L ?t"
    using boot_inv_pinned [OF n(1) _ n(2) c(1)] by simp_all
  have ic: "idle_core False (insert ?t T) (set_pinned ?t c ?n) c (L c)"
    using boot_invD(5) [OF p(1) c(1)] c(2) by simp
  have "idle_core True (insert ?t T) (set_scheduler c ?s (set_pinned ?t c ?n)) c (L c)"
    using ic p(2) c boot_invD(2) [OF b] idle_priority
    by (auto simp: idle_core_def sched_rep_def unlisted_def MAX_PRIORITIES_def)
  then show ?thesis unfolding with_idle_thread_def
    using c by (intro boot_inv_scheduler [OF p(1) c(1)]) auto
qed

text \<open>The addresses the idle threads get.\<close>

definition idle_tcb :: "abi \<Rightarrow> (nat \<Rightarrow> span) \<Rightarrow> nat \<Rightarrow> tcb_ptr" where
  "idle_tcb A stacks c = (case make_StackLayout A (stacks c) 0 of None \<Rightarrow> 0 | Some sl \<Rightarrow> sl_tcb sl)"

text \<open>
  The books after \<open>n\<close> threads, the first \<^const>\<open>CORES\<close> of them idle threads: the idle threads share one
  identity and the others take the next ones from \<open>1\<close> on.
\<close>

definition boot_port :: "nat \<Rightarrow> kernel \<Rightarrow> bool" where
  "boot_port n k \<longleftrightarrow> active_contexts (port k) = of_nat n \<and> cores_count (port k) = 0 \<and>
     handler_registered (port k) \<and> \<not> running k \<and> thread_id_generator k = of_nat (Suc (n - CORES))"

lemma init_idle_threads_boot:
  assumes "boot_inv I {} T k L" "boot_port n k" "distinct cs" "\<And>c. c \<in> set cs \<Longrightarrow> c < CORES \<and> c \<notin> I"
    and "\<And>c. c \<in> set cs \<Longrightarrow> idle_stack (schedulers k ! c) = stacks c \<and> make_StackLayout A (stacks c) 0 \<noteq> None"
    and "inj_on (idle_tcb A stacks) (set cs)" "idle_tcb A stacks ` set cs \<inter> T = {}" "n + length cs \<le> CORES"
  shows "\<exists>k'. init_idle_threads A idle_task cs k = Some k' \<and>
    boot_inv (I \<union> set cs) {} (T \<union> idle_tcb A stacks ` set cs) k' L \<and> boot_port (n + length cs) k' \<and>
    active_threads k' = active_threads k \<and> thread_id_generator k' = thread_id_generator k \<and>
    (\<forall>c. pinned_thread_counter (schedulers k' ! c) = pinned_thread_counter (schedulers k ! c)) \<and>
    (\<forall>c \<in> set cs. idle_thread (schedulers k' ! c) = Some (idle_tcb A stacks c)) \<and>
    (\<forall>c. c \<notin> set cs \<longrightarrow> idle_thread (schedulers k' ! c) = idle_thread (schedulers k ! c))"
  using assms
proof (induction cs arbitrary: I T k n)
  case Nil
  then show ?case by auto
next
  case (Cons c cs)
  obtain sl where sl: "make_StackLayout A (stacks c) 0 = Some sl" using Cons.prems(5) [of c] by auto
  have c: "c < CORES" "c \<notin> I" using Cons.prems(4) [of c] by auto
  have t: "idle_tcb A stacks c = sl_tcb sl" using sl by (simp add: idle_tcb_def)
  let ?k = "with_idle_thread A idle_task c sl k"
  have lc: "c < length (schedulers k)" "core_id (schedulers k ! c) = c"
    using boot_invD(2,5) [OF Cons.prems(1)] c by (auto simp: idle_core_def)
  have e: "init_idle_thread A idle_task c k = Some ?k"
    using init_idle_thread_eq sl lc Cons.prems(5) [of c] by simp
  have b: "boot_inv (insert c I) {} (insert (idle_tcb A stacks c) T) ?k L"
    using boot_inv_idle_thread [OF Cons.prems(1) c] Cons.prems(7) t by simp
  have p: "boot_port (Suc n) ?k"
    using Cons.prems(2,8)
    by (simp add: boot_port_def with_idle_thread_def cortos_port_context_init_def set_scheduler_def set_pinned_def
        set_tcbs_def with_new_thread_def set_port_def)
  have sel: "schedulers ?k ! d = (if d = c then (schedulers k ! c)\<lparr>idle_thread := Some (sl_tcb sl)\<rparr> else schedulers k ! d)" for d
    using lc by (simp add: with_idle_thread_def)
  have g: "active_threads ?k = active_threads k" "thread_id_generator ?k = thread_id_generator k"
    by (simp_all add: with_idle_thread_def set_scheduler_def set_pinned_def set_tcbs_def with_new_thread_def set_port_def)
  have "\<exists>k'. init_idle_threads A idle_task cs ?k = Some k' \<and>
    boot_inv (insert c I \<union> set cs) {} (insert (idle_tcb A stacks c) T \<union> idle_tcb A stacks ` set cs) k' L \<and>
    boot_port (Suc n + length cs) k' \<and>
    active_threads k' = active_threads ?k \<and> thread_id_generator k' = thread_id_generator ?k \<and>
    (\<forall>d. pinned_thread_counter (schedulers k' ! d) = pinned_thread_counter (schedulers ?k ! d)) \<and>
    (\<forall>d \<in> set cs. idle_thread (schedulers k' ! d) = Some (idle_tcb A stacks d)) \<and>
    (\<forall>d. d \<notin> set cs \<longrightarrow> idle_thread (schedulers k' ! d) = idle_thread (schedulers ?k ! d))"
  proof (rule Cons.IH [OF b p])
    show "idle_tcb A stacks ` set cs \<inter> insert (idle_tcb A stacks c) T = {}"
      using Cons.prems(3,6,7) by (auto simp: inj_on_def)
  qed (use Cons.prems sel in \<open>auto simp: inj_on_def\<close>)
  then obtain k' where k': "init_idle_threads A idle_task cs ?k = Some k'"
    "boot_inv (insert c I \<union> set cs) {} (insert (idle_tcb A stacks c) T \<union> idle_tcb A stacks ` set cs) k' L"
    "boot_port (Suc n + length cs) k'"
    "active_threads k' = active_threads ?k" "thread_id_generator k' = thread_id_generator ?k"
    "\<forall>d. pinned_thread_counter (schedulers k' ! d) = pinned_thread_counter (schedulers ?k ! d)"
    "\<forall>d \<in> set cs. idle_thread (schedulers k' ! d) = Some (idle_tcb A stacks d)"
    "\<forall>d. d \<notin> set cs \<longrightarrow> idle_thread (schedulers k' ! d) = idle_thread (schedulers ?k ! d)" by blast
  have "\<forall>d. pinned_thread_counter (schedulers k' ! d) = pinned_thread_counter (schedulers k ! d)"
    "\<forall>d \<in> set (c # cs). idle_thread (schedulers k' ! d) = Some (idle_tcb A stacks d)"
    "\<forall>d. d \<notin> set (c # cs) \<longrightarrow> idle_thread (schedulers k' ! d) = idle_thread (schedulers k ! d)"
    using k'(6-8) Cons.prems(3) by (auto simp: sel t)
  then show ?case using k'(1-5) e g by (simp add: Un_commute insert_commute)
qed

lemma Kernel_init_boot:
  assumes "\<And>w. waitables m w = Waitable_init"
  shows "boot_inv {} {} {} (Kernel_init stacks m) (\<lambda>_ _. [])"
proof -
  have "idle_core False {} (Kernel_init stacks m) c (\<lambda>_. [])" if "c < CORES" for c
    using that inbox_rep_init
    by (simp add: idle_core_def Kernel_init_def Scheduler_init_def sched_rep_def matrix_rep_init members_def)
  then show ?thesis using wait_inv_init [OF assms] by (simp add: boot_inv_def Kernel_init_def)
qed

text \<open>The parts of the kernel state that the boot invariant reads.\<close>

lemma boot_inv_cong:
  assumes "mem k' = mem k" "schedulers k' = schedulers k" "wait_locked k' = wait_locked k" "k_locked k' = k_locked k"
    and "fiber_suspended (port k') = fiber_suspended (port k)" "current_context (port k') = current_context (port k)"
  shows "boot_inv I S T k' L = boot_inv I S T k L"
  by (simp only: boot_inv_def idle_core_def core_inv_def thread_inv_def assms)

text \<open>What an application provides for the idle threads: stacks that can be carved and are apart.\<close>

definition idle_stacks_ok :: "abi \<Rightarrow> (nat \<Rightarrow> span) \<Rightarrow> bool" where
  "idle_stacks_ok A stacks \<longleftrightarrow> (\<forall>c < CORES. make_StackLayout A (stacks c) 0 \<noteq> None) \<and>
     inj_on (idle_tcb A stacks) {..<CORES}"

lemma initialise_boot:
  assumes w: "\<And>w. waitables m w = Waitable_init" and st: "idle_stacks_ok A stacks"
  obtains k where "initialise A idle_task (Kernel_init stacks m) = Some k"
    "boot_inv {..<CORES} {} (idle_tcb A stacks ` {..<CORES}) k (\<lambda>_ _. [])" "boot_port CORES k"
    "initialised k" "active_threads k = 0" "\<forall>c < CORES. pinned_thread_counter (schedulers k ! c) = 0"
    "\<forall>c < CORES. idle_thread (schedulers k ! c) = Some (idle_tcb A stacks c)"
proof -
  let ?k = "set_port (cortos_port_init (port (Kernel_init stacks m))) (Kernel_init stacks m)"
  have b: "boot_inv {} {} {} ?k (\<lambda>_ _. [])"
    using Kernel_init_boot [OF w] boot_inv_cong [of ?k "Kernel_init stacks m"]
    by (simp add: cortos_port_init_def set_port_def)
  have p: "boot_port 0 ?k"
    by (simp add: boot_port_def set_port_def cortos_port_init_def Kernel_init_def port_state_init_def)
  have s: "schedulers ?k ! c = Scheduler_init c (stacks c)" if "c < CORES" for c
    using that by (simp add: set_port_def Kernel_init_def)
  have at: "active_threads ?k = 0" "length (schedulers ?k) = CORES" "\<not> initialised (Kernel_init stacks m)"
    by (simp_all add: set_port_def Kernel_init_def)
  have "\<exists>k'. init_idle_threads A idle_task [0..<CORES] ?k = Some k' \<and>
    boot_inv ({} \<union> set [0..<CORES]) {} ({} \<union> idle_tcb A stacks ` set [0..<CORES]) k' (\<lambda>_ _. []) \<and>
    boot_port (0 + length [0..<CORES]) k' \<and>
    active_threads k' = active_threads ?k \<and> thread_id_generator k' = thread_id_generator ?k \<and>
    (\<forall>c. pinned_thread_counter (schedulers k' ! c) = pinned_thread_counter (schedulers ?k ! c)) \<and>
    (\<forall>c \<in> set [0..<CORES]. idle_thread (schedulers k' ! c) = Some (idle_tcb A stacks c)) \<and>
    (\<forall>c. c \<notin> set [0..<CORES] \<longrightarrow> idle_thread (schedulers k' ! c) = idle_thread (schedulers ?k ! c))"
    by (rule init_idle_threads_boot [OF b p])
      (use st s in \<open>auto simp: idle_stacks_ok_def Scheduler_init_def lessThan_atLeast0\<close>)
  then obtain k' where k': "init_idle_threads A idle_task [0..<CORES] ?k = Some k'"
    "boot_inv {0..<CORES} {} (idle_tcb A stacks ` {0..<CORES}) k' (\<lambda>_ _. [])" "boot_port CORES k'"
    "active_threads k' = 0" "\<forall>c. pinned_thread_counter (schedulers k' ! c) = pinned_thread_counter (schedulers ?k ! c)"
    "\<forall>c < CORES. idle_thread (schedulers k' ! c) = Some (idle_tcb A stacks c)" using at by auto
  let ?r = "k'\<lparr>initialised := True\<rparr>"
  have "initialise A idle_task (Kernel_init stacks m) = Some ?r"
    using k'(1) at(2,3) by (simp add: initialise_def Let_def)
  moreover have "boot_inv {..<CORES} {} (idle_tcb A stacks ` {..<CORES}) ?r (\<lambda>_ _. [])"
    using k'(2) boot_inv_cong [of ?r k'] by (simp add: lessThan_atLeast0)
  moreover have "boot_port CORES ?r" using k'(3) by (simp add: boot_port_def)
  moreover have "\<forall>c < CORES. pinned_thread_counter (schedulers ?r ! c) = 0"
    using k'(5) s by (simp add: Scheduler_init_def)
  ultimately show ?thesis using that k'(4,6) by simp
qed

section \<open>Pinning\<close>

text \<open>
  The core a thread is pinned to: an allowed one with the least load, the first of these; there is
  none only when no allowed core has a load below the initial bound.
\<close>

lemma pick_core_None:
  "pick_core aff ss d best load = None \<longleftrightarrow>
     best = None \<and> (\<forall>j < length ss. allows aff (d + j) \<longrightarrow> load \<le> pinned_thread_count (ss ! j))"
  by (induction ss arbitrary: d best load) (auto simp: All_less_Suc2 not_less)

lemma pick_core_Some:
  assumes "pick_core aff ss d best load = Some c"
  shows "best = Some c \<and> (\<forall>j < length ss. allows aff (d + j) \<longrightarrow> load \<le> pinned_thread_count (ss ! j)) \<or>
    (\<exists>j < length ss. c = d + j \<and> allows aff c \<and> pinned_thread_count (ss ! j) < load \<and>
       (\<forall>i < length ss. allows aff (d + i) \<longrightarrow> pinned_thread_count (ss ! j) \<le> pinned_thread_count (ss ! i)) \<and>
       (\<forall>i < j. allows aff (d + i) \<longrightarrow> pinned_thread_count (ss ! j) < pinned_thread_count (ss ! i)))"
  using assms
proof (induction ss arbitrary: d best load)
  case Nil
  then show ?case by simp
next
  case (Cons s ss)
  show ?case
  proof (cases "allows aff d \<and> pinned_thread_count s < load")
    case True
    then have "pick_core aff ss (Suc d) (Some d) (pinned_thread_count s) = Some c" using Cons.prems by simp
    from Cons.IH [OF this] consider
        "d = c" "\<forall>j < length ss. allows aff (Suc d + j) \<longrightarrow> pinned_thread_count s \<le> pinned_thread_count (ss ! j)"
      | j where "j < length ss" "c = Suc d + j" "allows aff c" "pinned_thread_count (ss ! j) < pinned_thread_count s"
        "\<forall>i < length ss. allows aff (Suc d + i) \<longrightarrow> pinned_thread_count (ss ! j) \<le> pinned_thread_count (ss ! i)"
        "\<forall>i < j. allows aff (Suc d + i) \<longrightarrow> pinned_thread_count (ss ! j) < pinned_thread_count (ss ! i)" by auto
    then show ?thesis
    proof cases
      case 1
      then show ?thesis using True by (intro disjI2 exI [of _ 0]) (auto simp: All_less_Suc2)
    next
      case 2
      then show ?thesis using True by (intro disjI2 exI [of _ "Suc j"]) (auto simp: All_less_Suc2)
    qed
  next
    case False
    then have f: "allows aff d \<longrightarrow> load \<le> pinned_thread_count s" by auto
    have "pick_core aff ss (Suc d) best load = Some c" using Cons.prems False by (auto split: if_splits)
    from Cons.IH [OF this] consider
        "best = Some c" "\<forall>j < length ss. allows aff (Suc d + j) \<longrightarrow> load \<le> pinned_thread_count (ss ! j)"
      | j where "j < length ss" "c = Suc d + j" "allows aff c" "pinned_thread_count (ss ! j) < load"
        "\<forall>i < length ss. allows aff (Suc d + i) \<longrightarrow> pinned_thread_count (ss ! j) \<le> pinned_thread_count (ss ! i)"
        "\<forall>i < j. allows aff (Suc d + i) \<longrightarrow> pinned_thread_count (ss ! j) < pinned_thread_count (ss ! i)" by auto
    then show ?thesis
    proof cases
      case 1
      then show ?thesis using f by (intro disjI1) (auto simp: All_less_Suc2)
    next
      case 2
      then show ?thesis using f
        by (intro disjI2 exI [of _ "Suc j"]) (auto simp: All_less_Suc2 intro: less_le_trans less_imp_le)
    qed
  qed
qed

section \<open>Creating threads\<close>

text \<open>A core does not see what happens to threads that are pinned elsewhere.\<close>

lemma idle_core_frame:
  assumes ic: "idle_core i T k c L" and ev: "evolves S (tcbs (mem k)) (tcbs (mem k'))"
    and S: "\<And>x. x \<in> S \<Longrightarrow> t_pinned_core (tcbs (mem k) x) \<noteq> c"
    and lk: "\<And>x. t_pinned_core (tcbs (mem k) x) = c \<Longrightarrow> same_links (tcbs (mem k)) (tcbs (mem k')) x"
    and s: "schedulers k' ! c = schedulers k ! c"
  shows "idle_core i T k' c L"
proof -
  have rep: "sched_rep 0 (tcbs (mem k), schedulers k ! c) L []" and cid: "core_id (schedulers k ! c) = c"
    using ic by (simp_all add: idle_core_def)
  have pin: "t_pinned_core (tcbs (mem k) x) = c" if "x \<in> members L \<or> idle_thread (schedulers k ! c) = Some x" for x
    using sched_rep_core [OF rep] that cid by auto
  have "sched_rep 0 (tcbs (mem k'), schedulers k ! c) L []"
    by (rule sched_rep_frame [OF rep ev]) (use S pin lk in auto)
  moreover have "t_state (tcbs (mem k') x) = t_state (tcbs (mem k) x)" if "idle_thread (schedulers k ! c) = Some x" for x
    using evolves_sel(9) [OF ev] S pin that by blast
  ultimately show ?thesis using ic unfolding idle_core_def s by auto
qed

lemma core_inv_frame:
  assumes ci: "core_inv l T k c L [] n" and ev: "evolves S (tcbs (mem k)) (tcbs (mem k'))"
    and S: "\<And>x. x \<in> S \<Longrightarrow> t_pinned_core (tcbs (mem k) x) \<noteq> c"
    and lk: "\<And>x. t_pinned_core (tcbs (mem k) x) = c \<Longrightarrow> same_links (tcbs (mem k)) (tcbs (mem k')) x"
    and s: "schedulers k' ! c = schedulers k ! c" "current_context (port k') c = current_context (port k) c"
  shows "core_inv l T k' c L [] n"
proof -
  let ?h = "tcbs (mem k)" and ?h' = "tcbs (mem k')" and ?s = "schedulers k ! c"
  have rep: "sched_rep n (?h, ?s) L []" and cid: "core_id ?s = c"
    using ci by (simp_all add: core_inv_def)
  obtain i p where ip: "i \<in> T" "idle_thread ?s = Some i" "t_state (?h i) \<noteq> Terminated" "p \<in> T"
    "current_ok (?h, ?s) p" "current_context (port k) c = Some p" "t_state (?h p) \<noteq> Ready"
    "\<not> l \<longrightarrow> t_state (?h p) = Running" using ci by (auto simp: core_inv_def)
  have pin: "t_pinned_core (?h x) = c" if "x \<in> members L \<or> idle_thread ?s = Some x \<or> x = p" for x
    using sched_rep_core [OF rep] that cid ip(5) by (auto simp: current_ok_def)
  have "sched_rep n (?h', ?s) L []" by (rule sched_rep_frame [OF rep ev]) (use S pin lk in auto)
  moreover have "t_state (?h' i) = t_state (?h i)" "t_state (?h' p) = t_state (?h p)"
    using evolves_sel(9) [OF ev] S pin ip(2) by blast+
  moreover have "current_ok (?h', ?s) p" by (rule current_ok_frame [OF ip(5) ev lk]) (use pin in simp)
  ultimately show ?thesis using ci ip unfolding core_inv_def s by auto
qed

lemma boot_inv_enlisted:
  assumes b: "boot_inv I {} T k L" and t: "t \<in> T" "unlisted k L t" and r: "\<not> running k"
  defines "d \<equiv> t_pinned_core (tcbs (mem k) t)"
  obtains k' m' where "set_thread_ready c t k = Some (RA_None, k')"
    "boot_inv I {} T k' (L(d := enlist (tcbs (mem k)) [t] (L d)))"
    "evolves {} (tcbs (mem k)) (tcbs (mem k'))" "port k' = port k" "\<not> running k'"
    "schedulers k' = (schedulers k)[d := (schedulers k ! d)\<lparr>ready_matrix := m'\<rparr>]"
    "active_threads k' = active_threads k" "initialised k' = initialised k" "thread_id_generator k' = thread_id_generator k"
proof -
  let ?h = "tcbs (mem k)" and ?s = "schedulers k ! d"
  have d: "d < CORES" "d < length (schedulers k)" and pr: "unat (t_effective_priority (?h t)) < MAX_PRIORITIES"
    using boot_invD(7) [OF b t(1)] boot_invD(2) [OF b] by (auto simp: thread_inv_def Let_def d_def)
  have ic: "idle_core (d \<in> I) T k d (L d)" using boot_invD(5) [OF b d(1)] by simp
  have u: "\<not> tcb_is_enqueued (?h t)" "t_state (?h t) = Ready" "idle_thread ?s \<noteq> Some t" "t \<notin> members (L d)"
    using t(2) d by (auto simp: unlisted_def)
  obtain h' m' where e: "sched_set_thread_ready t (?h, ?s) = Some (h', ?s\<lparr>ready_matrix := m'\<rparr>)"
    "matrix_rep h' m' (enlist ?h [t] (L d))" "evolves {t} ?h h'"
    "\<And>x. x \<notin> insert t (members (L d)) \<Longrightarrow> same_links ?h h' x"
  proof (rule sched_set_thread_ready_rep)
    show "matrix_rep ?h (ready_matrix ?s) (L d)" using ic by (simp add: idle_core_def sched_rep_def)
    show "t_pinned_core (?h t) = core_id ?s" using ic by (simp add: idle_core_def d_def)
  qed (use u pr in auto)
  let ?k = "set_scheduler d (?s\<lparr>ready_matrix := m'\<rparr>) (set_tcbs h' k)"
  let ?L = "L(d := enlist ?h [t] (L d))"
  have th: "tcbs (mem ?k) = h'" "mem ?k = (mem k)\<lparr>tcbs := h'\<rparr>" by (simp_all add: set_tcbs_def)
  have sc: "schedulers ?k ! c = (if c = d then ?s\<lparr>ready_matrix := m'\<rparr> else schedulers k ! c)" for c
    using d(2) by (simp add: set_tcbs_def set_scheduler_def nth_list_update)
  have tL: "t \<in> members (enlist ?h [t] (L d))" by (simp add: members_enlist)
  have st: "t_state (h' x) = t_state (?h x)" for x
  proof (cases "x = t")
    case True
    have "t_state (h' t) = Ready" using matrix_rep_member [OF e(2)] tL by (auto simp: members_def)
    then show ?thesis using u True by simp
  next
    case False
    then show ?thesis using evolves_sel(9) [OF e(3)] by simp
  qed
  then have ev: "evolves {} ?h h'" using e(3) by (simp add: evolves_def)
  have w: "wait_inv T {} (mem ?k) (\<lambda>_. [])"
    by (rule wait_inv_tcbs_cong [OF boot_invD(1) [OF b]])
      (use evolves_sel [OF ev] wait_invD(5) [OF boot_invD(1) [OF b]] in \<open>auto simp: th set_tcbs_def node_ok_def\<close>)
  have "idle_core (c \<in> I) T ?k c (?L c)" if c: "c < CORES" for c
  proof (cases "c = d")
    case True
    have "sched_rep 0 (h', ?s\<lparr>ready_matrix := m'\<rparr>) (enlist ?h [t] (L d)) []"
    proof -
      have "same_links ?h h' i" if "idle_thread ?s = Some i" for i
        using e(4) [of i] ic that u(3) by (auto simp: idle_core_def sched_rep_def)
      then have "\<not> tcb_is_enqueued (h' i)" if "idle_thread ?s = Some i" for i
        using same_links_enqueued [of ?h h' i] that ic by (auto simp: idle_core_def sched_rep_def)
      moreover have "sched_rep 0 (?h, ?s) (L d) []" "current_thread ?s = None" "t_pinned_core (?h t) = core_id ?s"
        using ic by (simp_all add: idle_core_def d_def)
      ultimately show ?thesis using e(2) u(3) unfolding sched_rep_def
        by (auto simp: members_enlist evolves_sel(2,3) [OF ev])
    qed
    then show ?thesis using ic True t(1) st unfolding idle_core_def th sc by (auto simp: members_enlist)
  next
    case False
    have o: "idle_core (c \<in> I) T k c (L c)" using boot_invD(5) [OF b c] by simp
    have out: "x \<notin> insert t (members (L d))" if "t_pinned_core (?h x) = c" for x
    proof -
      have "t_pinned_core (?h y) = d" if "y \<in> members (L d)" for y
        using ic that unfolding idle_core_def sched_rep_def by auto
      moreover have "t_pinned_core (?h t) = d" by (simp add: d_def)
      ultimately show ?thesis using that False by auto
    qed
    have "idle_core (c \<in> I) T ?k c (L c)"
    proof (rule idle_core_frame [OF o])
      show "evolves {} ?h (tcbs (mem ?k))" using ev by (simp only: th(1))
      show "schedulers ?k ! c = schedulers k ! c" using False by (simp only: sc if_False)
      show "same_links ?h (tcbs (mem ?k)) x" if "t_pinned_core (?h x) = c" for x
        using e(4) [OF out [OF that]] by (simp only: th(1))
    qed simp
    then show ?thesis using False by simp
  qed
  moreover have "thread_inv ?k (\<lambda>_. []) x" if x: "x \<in> T" for x
  proof -
    have "current_thread (schedulers ?k ! c) = current_thread (schedulers k ! c)" for c by (simp add: sc)
    then show ?thesis using boot_invD(7) [OF b x] boot_no_slots [OF w x] evolves_sel [OF ev]
      by (simp add: thread_inv_def Let_def th st set_tcbs_def)
  qed
  ultimately have "boot_inv I {} T ?k ?L"
    using w boot_invD(2-4) [OF b] by (simp add: boot_inv_def set_tcbs_def)
  moreover have "set_thread_ready c t k = Some (RA_None, ?k)"
    using u(2) d(2) r e(1) by (simp add: set_thread_ready_def scheduler_for_core_def d_def Let_def)
  ultimately show ?thesis using that [of ?k m'] ev r by (simp add: th set_tcbs_def set_scheduler_def)
qed

text \<open>Pinning happens under the kernel lock, which is free before and after.\<close>

lemma pick_core_counts:
  "map pinned_thread_count ss = map pinned_thread_count ss' \<Longrightarrow>
   pick_core aff ss d best load = pick_core aff ss' d best load"
proof (induction ss arbitrary: ss' d best load)
  case (Cons s ss)
  then obtain s' ss'' where "ss' = s' # ss''" by (cases ss') auto
  then show ?case using Cons by simp
qed simp

definition pinned_state :: "tcb_ptr \<Rightarrow> nat \<Rightarrow> kernel \<Rightarrow> kernel" where
  "pinned_state t d k =
     set_scheduler d ((schedulers k ! d)\<lparr>pinned_thread_counter := pinned_thread_counter (schedulers k ! d) + 1\<rparr>)
       (set_pinned t d k)"

lemma pin_under_lock:
  assumes c: "this_core c k = e" "e < length (schedulers k)" "preempt_disable_depth (schedulers k ! e) = 0" "\<not> k_locked k"
    and d: "pick_core (t_affinity (tcbs (mem k) t)) (schedulers k) 0 None 0xFFFFFFFF = Some d"
      "d < length (schedulers k)" "core_id (schedulers k ! d) = d"
  obtains k1 k2 where "lock_kernel c k = Some k1" "pin_thread_to_core t k1 = Some k2"
    "unlock_kernel c k2 = Some (pinned_state t d k)"
proof -
  let ?s = "(schedulers k ! e)\<lparr>preempt_disable_depth := 1\<rparr>"
  let ?k1 = "(set_scheduler e ?s k)\<lparr>k_locked := True\<rparr>"
  have l: "lock_kernel c k = Some ?k1"
    using c by (simp add: lock_kernel_def on_scheduler_def scheduler_for_core_def disable_preemption_def set_scheduler_def)
  have s1: "schedulers ?k1 = (schedulers k)[e := ?s]" "tcbs (mem ?k1) = tcbs (mem k)"
    by (simp_all add: set_scheduler_def)
  have "map pinned_thread_count ((schedulers k)[e := ?s]) = map pinned_thread_count (schedulers k)"
    using c(2) by (simp add: list_eq_iff_nth_eq pinned_thread_count_def nth_list_update)
  then have pc: "pick_core (t_affinity (tcbs (mem k) t)) ((schedulers k)[e := ?s]) 0 None 0xFFFFFFFF = Some d"
    using d(1) pick_core_counts by metis
  let ?c = "pinned_thread_counter (schedulers k ! d) + 1"
  let ?s2 = "((schedulers k)[e := ?s] ! d)\<lparr>pinned_thread_counter := ?c\<rparr>"
  let ?k2 = "set_scheduler d ?s2 (set_pinned t d ?k1)"
  have p: "pin_thread_to_core t ?k1 = Some ?k2"
    using pc d c(2)
    by (simp add: pin_thread_to_core_def scheduler_for_core_def pin_thread_def set_pinned_def set_tcbs_def
        set_scheduler_def nth_list_update Let_def)
  have id: "s\<lparr>preempt_disable_depth := 0\<rparr> = s" if "preempt_disable_depth s = 0" for s :: Scheduler
    using that by (cases s) simp
  let ?s3 = "((schedulers k)[e := ?s, d := ?s2] ! e)\<lparr>preempt_disable_depth := 0\<rparr>"
  have l3: "(schedulers k)[e := ?s, d := ?s2, e := ?s3] =
      (schedulers k)[d := (schedulers k ! d)\<lparr>pinned_thread_counter := ?c\<rparr>]"
    using c(2,3) d(2) id by (intro nth_equalityI) (auto simp: nth_list_update)
  have s3: "preempt_disable_depth ((schedulers k)[e := ?s, d := ?s2] ! e) = 1"
    using c(2) d(2) by (auto simp: nth_list_update)
  have "unlock_kernel c ?k2 = Some (set_scheduler e ?s3 (?k2\<lparr>k_locked := False\<rparr>))"
    using c(1,2) s3
    by (simp add: unlock_kernel_def on_scheduler_def scheduler_for_core_def enable_preemption_def this_core_def
        set_pinned_def set_tcbs_def set_scheduler_def)
  moreover have "set_scheduler e ?s3 (?k2\<lparr>k_locked := False\<rparr>) = pinned_state t d k"
    using l3 c(4) by (intro kernel.equality) (simp_all add: pinned_state_def set_pinned_def set_tcbs_def set_scheduler_def)
  ultimately have "unlock_kernel c ?k2 = Some (pinned_state t d k)" by simp
  then show ?thesis using that l p by blast
qed

lemma pinned_state_sel:
  assumes "d < length (schedulers k)"
  shows "tcbs (mem (pinned_state t d k)) = (tcbs (mem k))(t := (tcbs (mem k) t)\<lparr>t_pinned_core := d\<rparr>)"
    "port (pinned_state t d k) = port k" "running (pinned_state t d k) = running k"
    "active_threads (pinned_state t d k) = active_threads k" "initialised (pinned_state t d k) = initialised k"
    "thread_id_generator (pinned_state t d k) = thread_id_generator k"
    "schedulers (pinned_state t d k) ! e = (if e = d then (schedulers k ! d)
       \<lparr>pinned_thread_counter := pinned_thread_counter (schedulers k ! d) + 1\<rparr> else schedulers k ! e)"
    "length (schedulers (pinned_state t d k)) = length (schedulers k)"
  using assms by (simp_all add: pinned_state_def set_pinned_def set_tcbs_def set_scheduler_def nth_list_update)

lemma idle_core_counter:
  assumes "idle_core i T k c L" "c < length (schedulers k)"
  shows "idle_core i T (set_scheduler c ((schedulers k ! c)\<lparr>pinned_thread_counter := n\<rparr>) k) c L"
  using assms by (cases i) (simp_all add: idle_core_def sched_rep_def)

lemma boot_inv_pinned_state:
  assumes b: "boot_inv I {} T k L" and t: "t \<in> T" and u: "unlisted k L t" and d: "d < CORES"
  shows "boot_inv I {} T (pinned_state t d k) L" "unlisted (pinned_state t d k) L t"
proof -
  let ?k = "set_pinned t d k"
  let ?s = "(schedulers k ! d)\<lparr>pinned_thread_counter := pinned_thread_counter (schedulers k ! d) + 1\<rparr>"
  note p = boot_inv_pinned [OF b t u d]
  have ds: "d < length (schedulers ?k)" using d boot_invD(2) [OF p(1)] by simp
  have "idle_core (d \<in> I) T ?k d (L d)" using boot_invD(5) [OF p(1) d] by simp
  then have "idle_core (d \<in> I) T (set_scheduler d ?s ?k) d (L d)"
    using idle_core_counter [OF _ ds] by simp
  then show "boot_inv I {} T (pinned_state t d k) L" unfolding pinned_state_def
    by (intro boot_inv_scheduler [OF p(1) d]) auto
  show "unlisted (pinned_state t d k) L t" unfolding pinned_state_def
    using p(2) ds by (simp add: unlisted_def)
qed

text \<open>
  Registering a new thread before the start: it is pinned to an allowed core of least load and is
  at the back of the ready list of its priority there.
\<close>

definition least_loaded :: "CoreAffinity \<Rightarrow> kernel \<Rightarrow> nat \<Rightarrow> bool" where
  "least_loaded aff k d \<longleftrightarrow> d < CORES \<and> allows aff d \<and>
     (\<forall>c < CORES. allows aff c \<longrightarrow>
        pinned_thread_counter (schedulers k ! d) \<le> pinned_thread_counter (schedulers k ! c))"

lemma pick_core_least_loaded:
  assumes len: "length (schedulers k) = CORES" and c: "c < CORES" "allows aff c"
    "pinned_thread_counter (schedulers k ! c) < 0xFFFFFFFF"
  obtains d where "pick_core aff (schedulers k) 0 None 0xFFFFFFFF = Some d" "least_loaded aff k d"
proof -
  have "pick_core aff (schedulers k) 0 None 0xFFFFFFFF \<noteq> None"
    using c len unfolding pick_core_None by (auto simp: pinned_thread_count_def not_le)
  then obtain d where d: "pick_core aff (schedulers k) 0 None 0xFFFFFFFF = Some d" by auto
  have "least_loaded aff k d"
    using pick_core_Some [OF d] len by (auto simp: least_loaded_def pinned_thread_count_def)
  then show ?thesis using that d by blast
qed

lemma register_thread_boot:
  assumes b: "boot_inv I {} T k L" and p: "boot_port n k" and t: "t \<in> T" "unlisted k L t"
    and a: "c' < CORES" "allows (t_affinity (tcbs (mem k) t)) c'"
      "pinned_thread_counter (schedulers k ! c') < 0xFFFFFFFF"
  obtains k' d where "register_thread c t k = Some k'" "least_loaded (t_affinity (tcbs (mem k) t)) k d"
    "boot_inv I {} T k' (L(d := enlist (tcbs (mem k)) [t] (L d)))" "boot_port n k'"
    "evolves {} ((tcbs (mem k))(t := (tcbs (mem k) t)\<lparr>t_pinned_core := d\<rparr>)) (tcbs (mem k'))"
    "active_threads k' = active_threads k + 1" "initialised k' = initialised k"
    "\<And>e. idle_thread (schedulers k' ! e) = idle_thread (schedulers k ! e)"
    "\<And>e. e < CORES \<Longrightarrow> pinned_thread_counter (schedulers k' ! e) =
       (if e = d then pinned_thread_counter (schedulers k ! d) + 1 else pinned_thread_counter (schedulers k ! e))"
proof -
  let ?k = "k\<lparr>active_threads := active_threads k + 1\<rparr>"
  have b': "boot_inv I {} T ?k L" using b boot_inv_cong [of ?k k] by simp
  have len: "length (schedulers k) = CORES" by (rule boot_invD(2) [OF b])
  obtain d where d: "pick_core (t_affinity (tcbs (mem k) t)) (schedulers k) 0 None 0xFFFFFFFF = Some d"
    "least_loaded (t_affinity (tcbs (mem k) t)) k d" by (rule pick_core_least_loaded [OF len a])
  have dC: "d < CORES" using d(2) by (simp add: least_loaded_def)
  have u: "unlisted ?k L t" using t(2) by (simp add: unlisted_def)
  have ic: "idle_core (e \<in> I) T k e (L e)" if "e < CORES" for e using boot_invD(5) [OF b that] by simp
  obtain k1 k2 where l: "lock_kernel c ?k = Some k1" "pin_thread_to_core t k1 = Some k2"
    "unlock_kernel c k2 = Some (pinned_state t d ?k)"
  proof (rule pin_under_lock [of c ?k 0 t d])
    show "this_core c ?k = 0" using p by (simp add: this_core_def boot_port_def cortos_port_get_core_id_def)
    show "preempt_disable_depth (schedulers ?k ! 0) = 0" using ic [of 0] by (simp add: idle_core_def CORES_def)
    show "core_id (schedulers ?k ! d) = d" using ic [OF dC] by (simp add: idle_core_def)
  qed (use d(1) dC len boot_invD(4) [OF b] in \<open>simp_all add: CORES_def\<close>)
  note ps = boot_inv_pinned_state [OF b' t(1) u dC]
  have sel: "tcbs (mem (pinned_state t d ?k)) = (tcbs (mem k))(t := (tcbs (mem k) t)\<lparr>t_pinned_core := d\<rparr>)"
    "port (pinned_state t d ?k) = port k" "running (pinned_state t d ?k) = running k"
    using pinned_state_sel(1-3) [of d ?k t] dC len by simp_all
  have r: "\<not> running (pinned_state t d ?k)" using p sel by (simp add: boot_port_def)
  have pin: "t_pinned_core (tcbs (mem (pinned_state t d ?k)) t) = d" by (simp add: sel)
  obtain k' m' where k': "set_thread_ready c t (pinned_state t d ?k) = Some (RA_None, k')"
    "boot_inv I {} T k' (L(d := enlist (tcbs (mem (pinned_state t d ?k))) [t] (L d)))"
    "evolves {} (tcbs (mem (pinned_state t d ?k))) (tcbs (mem k'))" "port k' = port (pinned_state t d ?k)"
    "\<not> running k'" "schedulers k' = (schedulers (pinned_state t d ?k))
        [d := (schedulers (pinned_state t d ?k) ! d)\<lparr>ready_matrix := m'\<rparr>]"
    "active_threads k' = active_threads (pinned_state t d ?k)"
    "initialised k' = initialised (pinned_state t d ?k)"
    "thread_id_generator k' = thread_id_generator (pinned_state t d ?k)"
    using boot_inv_enlisted [OF ps(1) t(1) ps(2) r, of c] unfolding pin by metis
  have en: "enlist (tcbs (mem (pinned_state t d ?k))) [t] (L d) = enlist (tcbs (mem k)) [t] (L d)"
    by (simp add: enlist_one sel tcb_level_def)
  have b2: "boot_inv I {} T k' (L(d := enlist (tcbs (mem k)) [t] (L d)))" using k'(2) unfolding en .
  have "register_thread c t k = Some k'"
    using l k'(1) by (simp add: register_thread_def Let_def)
  moreover have "idle_thread (schedulers k' ! e) = idle_thread (schedulers k ! e)" for e
    using pinned_state_sel(7,8) [of d ?k t] dC len by (simp add: k'(6) nth_list_update)
  moreover have "pinned_thread_counter (schedulers k' ! e) =
       (if e = d then pinned_thread_counter (schedulers k ! d) + 1 else pinned_thread_counter (schedulers k ! e))"
    if "e < CORES" for e
    using pinned_state_sel(7,8) [of d ?k t] dC len by (simp add: k'(6) nth_list_update)
  ultimately show ?thesis
    using that [of k' d] d(2) b2 k'(3-5,7-9) p dC len pinned_state_sel(4-6) [of d ?k t]
    by (simp add: sel boot_port_def)
qed

text \<open>A thread as an application asks for it: entry function, stack buffer, priority and affinity.\<close>

record thread_spec =
  sp_entry :: callable
  sp_stack :: span
  sp_priority :: u8
  sp_affinity :: CoreAffinity

definition spec_tcb :: "abi \<Rightarrow> thread_spec \<Rightarrow> tcb_ptr" where
  "spec_tcb A sp = (case make_StackLayout A (sp_stack sp) 0 of None \<Rightarrow> 0 | Some sl \<Rightarrow> sl_tcb sl)"

definition spec_ok :: "abi \<Rightarrow> thread_spec \<Rightarrow> bool" where
  "spec_ok A sp \<longleftrightarrow> make_StackLayout A (sp_stack sp) 0 \<noteq> None \<and> unat (sp_priority sp) < MAX_PRIORITIES \<and>
     (\<exists>c < CORES. allows (sp_affinity sp) c)"

fun create_threads :: "abi \<Rightarrow> nat \<Rightarrow> thread_spec list \<Rightarrow> kernel \<Rightarrow> (Thread list \<times> kernel) option" where
  "create_threads A c [] k = Some ([], k)"
| "create_threads A c (sp # sps) k = do {
     (th, k) \<leftarrow> make_Thread A c (sp_entry sp) (sp_stack sp) (sp_priority sp) (sp_affinity sp) k;
     (ths, k) \<leftarrow> create_threads A c sps k;
     Some (th # ths, k) }"

text \<open>Where the created threads \<open>P\<close> are: ready on the core they are pinned to, which they allow.\<close>

definition placed :: "tcb_ptr set \<Rightarrow> kernel \<Rightarrow> (nat \<Rightarrow> ready_lists) \<Rightarrow> bool" where
  "placed P k L \<longleftrightarrow> (\<forall>c. members (L c) = {t \<in> P. t_pinned_core (tcbs (mem k) t) = c}) \<and>
     (\<forall>t \<in> P. allows (t_affinity (tcbs (mem k) t)) (t_pinned_core (tcbs (mem k) t)))"

definition loads_below :: "nat \<Rightarrow> kernel \<Rightarrow> bool" where
  "loads_below n k \<longleftrightarrow> (\<forall>c < CORES. unat (pinned_thread_counter (schedulers k ! c)) \<le> n)"

text \<open>
  A thread has the priority and the affinity that were asked for, an identity of its own and a
  termination object that has not been signalled.
\<close>

definition as_specified :: "abi \<Rightarrow> tcb_heap \<Rightarrow> thread_spec \<Rightarrow> bool" where
  "as_specified A h sp \<longleftrightarrow>
     t_effective_priority (h (spec_tcb A sp)) = sp_priority sp \<and> t_affinity (h (spec_tcb A sp)) = sp_affinity sp \<and>
     t_id (h (spec_tcb A sp)) \<noteq> IDLE_THREAD_ID \<and> \<not> t_terminated (h (spec_tcb A sp)) \<and>
     t_termination (h (spec_tcb A sp)) = spec_tcb A sp + offsetof_termination A"

definition same_request :: "tcb_heap \<Rightarrow> tcb_heap \<Rightarrow> tcb_ptr \<Rightarrow> bool" where
  "same_request h h' x \<longleftrightarrow>
     t_effective_priority (h' x) = t_effective_priority (h x) \<and> t_affinity (h' x) = t_affinity (h x) \<and>
     t_id (h' x) = t_id (h x) \<and> t_terminated (h' x) = t_terminated (h x) \<and> t_termination (h' x) = t_termination (h x)"

lemma unat_Suc_le: "unat (x + 1 :: 'a::len word) \<le> Suc (unat x)"
proof -
  have "unat (x + 1) \<le> unat x + unat (1 :: 'a word)" by (simp add: unat_word_ariths)
  then show ?thesis by simp
qed

lemma evolves_affinity: "evolves S h h' \<Longrightarrow> t_affinity (h' x) = t_affinity (h x)"
  unfolding evolves_def by (metis ThreadControlBlock.select_convs(8) ThreadControlBlock.surjective ThreadControlBlock.update_convs(1-3))

lemma generate_thread_id_sel [simp]:
  "mem (snd (generate_thread_id k)) = mem k" "schedulers (snd (generate_thread_id k)) = schedulers k"
  "port (snd (generate_thread_id k)) = port k" "running (snd (generate_thread_id k)) = running k"
  "active_threads (snd (generate_thread_id k)) = active_threads k"
  "initialised (snd (generate_thread_id k)) = initialised k"
  by (simp_all add: generate_thread_id_def)

lemma make_Thread_boot:
  assumes b: "boot_inv I {} T k L" and p: "boot_port n k" and sp: "spec_ok A sp" "spec_tcb A sp \<notin> T"
    and ld: "loads_below m k" "m < 2 ^ 32 - 1" and pl: "placed P k L" "P \<subseteq> T"
    and nb: "CORES \<le> n" "n < 2 ^ 32 - 1"
  obtains k' L' where "make_Thread A c (sp_entry sp) (sp_stack sp) (sp_priority sp) (sp_affinity sp) k =
      Some (Some (spec_tcb A sp), k')"
    "boot_inv I {} (insert (spec_tcb A sp) T) k' L'" "boot_port (Suc n) k'" "loads_below (Suc m) k'"
    "placed (insert (spec_tcb A sp) P) k' L'" "active_threads k' = active_threads k + 1" "initialised k' = initialised k"
    "\<And>e. idle_thread (schedulers k' ! e) = idle_thread (schedulers k ! e)"
    "as_specified A (tcbs (mem k')) sp" "\<And>x. x \<in> T \<Longrightarrow> same_request (tcbs (mem k)) (tcbs (mem k')) x"
proof -
  obtain sl where sl: "make_StackLayout A (sp_stack sp) 0 = Some sl" using sp(1) by (auto simp: spec_ok_def)
  define t where "t = sl_tcb sl"
  have t: "spec_tcb A sp = t" using sl by (simp add: spec_tcb_def t_def)
  obtain c' where c': "c' < CORES" "allows (sp_affinity sp) c'" using sp(1) by (auto simp: spec_ok_def)
  let ?g = "snd (generate_thread_id k)"
  let ?k = "with_new_thread A t (fst (generate_thread_id k)) (sp_priority sp) (sp_affinity sp) (sl_user_stack sl) (sp_entry sp) ?g"
  have bg: "boot_inv I {} T ?g L" using b boot_inv_cong [of ?g k] by (simp add: generate_thread_id_def)
  have tT: "t \<notin> T" using sp(2) t by simp
  have n: "boot_inv I {} (insert t T) ?k L" "unlisted ?k L t"
    using boot_inv_new_thread [OF bg tT] unlisted_new_thread [OF bg tT] sp(1) by (simp_all add: spec_ok_def)
  have pn: "boot_port (Suc n) ?k"
    using p nb(1)
    by (simp add: boot_port_def cortos_port_context_init_def generate_thread_id_def with_new_thread_def set_port_def Suc_diff_le)
  have h: "tcbs (mem ?k) = (tcbs (mem k))(t := ThreadControlBlock_init A t (fst (generate_thread_id k))
      (sp_priority sp) (sp_affinity sp) (sl_user_stack sl) (sp_entry sp))" "schedulers ?k = schedulers k"
    "active_threads ?k = active_threads k" "initialised ?k = initialised k"
    by simp_all (simp add: with_new_thread_def set_port_def)
  have "unat (pinned_thread_counter (schedulers k ! c')) < unat (0xFFFFFFFF :: u32)"
    using ld c'(1) by (auto simp: loads_below_def)
  then have cnt: "pinned_thread_counter (schedulers ?k ! c') < 0xFFFFFFFF" by (simp only: h word_less_nat_alt)
  have al: "allows (t_affinity (tcbs (mem ?k) t)) c'" using c'(2) by (simp add: h)
  obtain k' d where r: "register_thread c t ?k = Some k'" "least_loaded (t_affinity (tcbs (mem ?k) t)) ?k d"
    "boot_inv I {} (insert t T) k' (L(d := enlist (tcbs (mem ?k)) [t] (L d)))" "boot_port (Suc n) k'"
    "evolves {} ((tcbs (mem ?k))(t := (tcbs (mem ?k) t)\<lparr>t_pinned_core := d\<rparr>)) (tcbs (mem k'))"
    "active_threads k' = active_threads ?k + 1" "initialised k' = initialised ?k"
    "\<And>e. idle_thread (schedulers k' ! e) = idle_thread (schedulers ?k ! e)"
    "\<And>e. e < CORES \<Longrightarrow> pinned_thread_counter (schedulers k' ! e) =
       (if e = d then pinned_thread_counter (schedulers ?k ! d) + 1 else pinned_thread_counter (schedulers ?k ! e))"
    using register_thread_boot [OF n(1) pn insertI1 n(2) c'(1) al cnt] by metis
  have mk: "make_Thread A c (sp_entry sp) (sp_stack sp) (sp_priority sp) (sp_affinity sp) k = Some (Some t, k')"
    using sl r(1) by (simp add: make_Thread_def Let_def t_def generate_thread_id_def with_new_thread_def)
  have "unat (pinned_thread_counter (schedulers k' ! e)) \<le> Suc m" if e: "e < CORES" for e
  proof -
    have "unat (pinned_thread_counter (schedulers k ! e)) \<le> m" using ld(1) e by (simp add: loads_below_def)
    moreover have "unat (pinned_thread_counter (schedulers k ! e) + 1) \<le>
        Suc (unat (pinned_thread_counter (schedulers k ! e)))" by (rule unat_Suc_le)
    ultimately show ?thesis using r(9) [OF e] unfolding h(2) by (cases "e = d") simp_all
  qed
  then have ld': "loads_below (Suc m) k'" by (simp add: loads_below_def)
  have pin: "t_pinned_core (tcbs (mem k') t) = d" "t_affinity (tcbs (mem k') t) = sp_affinity sp"
    "x \<noteq> t \<Longrightarrow> t_pinned_core (tcbs (mem k') x) = t_pinned_core (tcbs (mem k) x)"
    "x \<noteq> t \<Longrightarrow> t_affinity (tcbs (mem k') x) = t_affinity (tcbs (mem k) x)"
    "t_effective_priority (tcbs (mem k') t) = sp_priority sp"
    "x \<noteq> t \<Longrightarrow> t_effective_priority (tcbs (mem k') x) = t_effective_priority (tcbs (mem k) x)" for x
    using evolves_sel(2,3) [OF r(5)] evolves_affinity [OF r(5)] by (simp_all add: h)
  have "fst (generate_thread_id k) \<noteq> IDLE_THREAD_ID"
  proof -
    have "unat (of_nat (Suc (n - CORES)) :: u32) = Suc (n - CORES)"
      using nb(2) by (simp add: unat_of_nat take_bit_nat_eq_self del: of_nat_Suc)
    then have "of_nat (Suc (n - CORES)) \<noteq> (0 :: u32)" by (metis nat.distinct(1) unat_0)
    then show ?thesis using p by (simp add: generate_thread_id_def boot_port_def IDLE_THREAD_ID_def)
  qed
  then have spec: "as_specified A (tcbs (mem k')) sp"
    using pin(2,5) evolves_sel(1,6,7) [OF r(5)] by (simp add: as_specified_def t h)
  have request: "same_request (tcbs (mem k)) (tcbs (mem k')) x" if "x \<in> T" for x
  proof -
    have "x \<noteq> t" using that tT by auto
    then show ?thesis using pin(4,6) [of x] evolves_sel(1,6,7) [OF r(5)] by (simp add: same_request_def h)
  qed
  have "t \<notin> P" using pl(2) tT by auto
  have "members ((L(d := enlist (tcbs (mem ?k)) [t] (L d))) e) =
      {x \<in> insert t P. t_pinned_core (tcbs (mem k') x) = e}" for e
  proof -
    have "{x \<in> insert t P. t_pinned_core (tcbs (mem k') x) = e} =
        {x \<in> P. t_pinned_core (tcbs (mem k) x) = e} \<union> (if e = d then {t} else {})"
    proof -
      have "t_pinned_core (tcbs (mem k') x) = t_pinned_core (tcbs (mem k) x)" if "x \<in> P" for x
        using pin(3) [of x] that \<open>t \<notin> P\<close> by metis
      then show ?thesis by (auto simp: pin(1))
    qed
    then show ?thesis using pl(1) by (auto simp: placed_def members_enlist)
  qed
  moreover have "allows (t_affinity (tcbs (mem k') x)) (t_pinned_core (tcbs (mem k') x))" if "x \<in> insert t P" for x
    using that pin(1-4) r(2) pl(1) by (cases "x = t") (auto simp: placed_def least_loaded_def h)
  ultimately have "placed (insert t P) k' (L(d := enlist (tcbs (mem ?k)) [t] (L d)))" by (simp add: placed_def)
  then show ?thesis
    using that [of k' "L(d := enlist (tcbs (mem ?k)) [t] (L d))"] mk r(3,4,6,7,8) ld' spec request unfolding t
    by (metis h(2-4))
qed

lemma create_threads_boot:
  assumes "boot_inv I {} T k L" "boot_port n k" "\<And>sp. sp \<in> set sps \<Longrightarrow> spec_ok A sp"
    and "distinct (map (spec_tcb A) sps)" "spec_tcb A ` set sps \<inter> T = {}"
    and "loads_below m k" "m + length sps < 2 ^ 32" "placed P k L" "P \<subseteq> T" "CORES \<le> n" "n + length sps < 2 ^ 32"
  shows "\<exists>k' L'. create_threads A c sps k = Some (map (Some \<circ> spec_tcb A) sps, k') \<and>
    boot_inv I {} (T \<union> spec_tcb A ` set sps) k' L' \<and> boot_port (n + length sps) k' \<and>
    placed (P \<union> spec_tcb A ` set sps) k' L' \<and>
    active_threads k' = active_threads k + of_nat (length sps) \<and> initialised k' = initialised k \<and>
    (\<forall>e. idle_thread (schedulers k' ! e) = idle_thread (schedulers k ! e)) \<and>
    (\<forall>sp \<in> set sps. as_specified A (tcbs (mem k')) sp) \<and>
    (\<forall>x \<in> T. same_request (tcbs (mem k)) (tcbs (mem k')) x)"
  using assms
proof (induction sps arbitrary: T k L n m P)
  case Nil
  then show ?case by (auto simp: same_request_def)
next
  case (Cons sp sps)
  let ?t = "spec_tcb A sp"
  have sp: "spec_ok A sp" "?t \<notin> T" "m < 2 ^ 32 - 1" "n < 2 ^ 32 - 1" using Cons.prems(3,5,7,11) by auto
  obtain k1 L1 where k1: "make_Thread A c (sp_entry sp) (sp_stack sp) (sp_priority sp) (sp_affinity sp) k =
      Some (Some ?t, k1)" "boot_inv I {} (insert ?t T) k1 L1" "boot_port (Suc n) k1" "loads_below (Suc m) k1"
    "placed (insert ?t P) k1 L1" "active_threads k1 = active_threads k + 1" "initialised k1 = initialised k"
    "\<And>e. idle_thread (schedulers k1 ! e) = idle_thread (schedulers k ! e)"
    "as_specified A (tcbs (mem k1)) sp" "\<And>x. x \<in> T \<Longrightarrow> same_request (tcbs (mem k)) (tcbs (mem k1)) x"
    using make_Thread_boot [OF Cons.prems(1,2) sp(1,2) Cons.prems(6) sp(3) Cons.prems(8,9,10) sp(4)] by metis
  have "\<exists>k' L'. create_threads A c sps k1 = Some (map (Some \<circ> spec_tcb A) sps, k') \<and>
    boot_inv I {} (insert ?t T \<union> spec_tcb A ` set sps) k' L' \<and> boot_port (Suc n + length sps) k' \<and>
    placed (insert ?t P \<union> spec_tcb A ` set sps) k' L' \<and>
    active_threads k' = active_threads k1 + of_nat (length sps) \<and> initialised k' = initialised k1 \<and>
    (\<forall>e. idle_thread (schedulers k' ! e) = idle_thread (schedulers k1 ! e)) \<and>
    (\<forall>sp \<in> set sps. as_specified A (tcbs (mem k')) sp) \<and>
    (\<forall>x \<in> insert ?t T. same_request (tcbs (mem k1)) (tcbs (mem k')) x)"
    by (rule Cons.IH [OF k1(2,3) _ _ _ k1(4) _ k1(5)]) (use Cons.prems in auto)
  then obtain k' L' where k': "create_threads A c sps k1 = Some (map (Some \<circ> spec_tcb A) sps, k')"
    "boot_inv I {} (insert ?t T \<union> spec_tcb A ` set sps) k' L'" "boot_port (Suc n + length sps) k'"
    "placed (insert ?t P \<union> spec_tcb A ` set sps) k' L'"
    "active_threads k' = active_threads k1 + of_nat (length sps)" "initialised k' = initialised k1"
    "\<forall>e. idle_thread (schedulers k' ! e) = idle_thread (schedulers k1 ! e)"
    "\<forall>sp \<in> set sps. as_specified A (tcbs (mem k')) sp"
    "\<forall>x \<in> insert ?t T. same_request (tcbs (mem k1)) (tcbs (mem k')) x" by blast
  have "create_threads A c (sp # sps) k = Some (map (Some \<circ> spec_tcb A) (sp # sps), k')"
    using k1(1) k'(1) by simp
  moreover have "insert ?t X \<union> spec_tcb A ` set sps = X \<union> spec_tcb A ` set (sp # sps)" for X by auto
  moreover have "as_specified A (tcbs (mem k')) sp" "\<forall>x \<in> T. same_request (tcbs (mem k)) (tcbs (mem k')) x"
    using k1(9,10) k'(9) by (simp_all add: as_specified_def same_request_def)
  ultimately show ?case using k'(2-8) k1(6-8)
    by (intro exI [of _ k'] exI [of _ L']) (simp add: add.assoc)
qed

section \<open>Starting the cores\<close>

lemma start_boot:
  assumes b: "boot_inv I {} T k L" and p: "boot_port n k" and i: "initialised k" "active_threads k > 0"
    and n: "CORES < n" "n < 2 ^ 32"
  obtains k' where "start k = Some k'" "boot_inv I {} T k' L" "port_inv k'" "mem k' = mem k"
    "schedulers k' = schedulers k" "active_threads k' = active_threads k" "active_contexts (port k') = of_nat n"
proof -
  let ?k = "k\<lparr>running := True, port := (port k)\<lparr>cores_count := CORES, poke_pending := (\<lambda>_. False)\<rparr>\<rparr>"
  have "start k = Some ?k"
    using i by (simp add: start_def cortos_port_start_cores_def Let_def set_port_def config_defs)
  moreover have "boot_inv I {} T ?k L" using b boot_inv_cong [of ?k k] by simp
  moreover have "port_inv ?k"
    using p n boot_invD(2-4) [OF b]
    by (simp add: port_inv_def boot_port_def pump_continues_def take_bit_nat_eq_self unat_of_nat)
  ultimately show ?thesis using that p by (simp add: boot_port_def)
qed

text \<open>One core enters its first thread: the head of its best ready list, or its idle thread.\<close>

lemma sched_start_rep:
  assumes rep: "sched_rep n (h, s) L []" and i: "idle_thread s = Some i" "t_state (h i) = Ready"
    and cur: "current_thread s = None" and cid: "core_id s = c"
  defines "nxt \<equiv> next_thread i L"
  obtains h' s' where "sched_start (h, s) = Some (nxt, h', s')" "sched_rep n (h', s') (delist nxt L) []"
    "current_ok (h', s') nxt" "t_state (h' nxt) = Running" "evolves {nxt} h h'"
    "\<And>x. t_pinned_core (h x) \<noteq> c \<Longrightarrow> same_links h h' x" "t_pinned_core (h nxt) = c"
    "idle_thread s' = Some i" "core_id s' = c" "preempt_disable_depth s' = preempt_disable_depth s"
    "nxt \<in> insert i (members L)"
proof -
  have m: "matrix_rep h (ready_matrix s) L" using rep by (simp add: sched_rep_def)
  obtain h1 m1 where p: "pop_best_thread (h, ready_matrix s) = Some (first_ready L, h1, m1)" "same_data h h1"
    "matrix_rep h1 m1 (case first_ready L of None \<Rightarrow> L | Some t \<Rightarrow> delist t L)"
    "\<And>t. first_ready L = Some t \<Longrightarrow> \<not> tcb_is_enqueued (h1 t)"
    "\<And>x. x \<notin> members L \<Longrightarrow> same_links h h1 x"
    using pop_best_first [OF m] by metis
  have iL: "i \<notin> members L" "\<not> tcb_is_enqueued (h i)" "t_pinned_core (h i) = c" "unat (t_effective_priority (h i)) < MAX_PRIORITIES"
    using rep i(1) cid by (auto simp: sched_rep_def)
  have n: "nxt \<in> insert i (members L)" "first_ready L = None \<Longrightarrow> nxt = i"
    using first_ready_member [of L] by (auto simp: nxt_def next_thread_def split: option.splits)
  have pL: "t_pinned_core (h x) = c" if "x \<in> members L" for x using rep that cid by (auto simp: sched_rep_def)
  have rL: "t_state (h x) = Ready \<and> unat (t_effective_priority (h x)) < MAX_PRIORITIES" if "x \<in> members L" for x
    using matrix_rep_member [OF m] that by (auto simp: members_def)
  have st: "t_state (h nxt) = Ready" "unat (t_effective_priority (h nxt)) < MAX_PRIORITIES" "t_pinned_core (h nxt) = c"
    using n(1) i(2) iL rL pL by (metis insertE)+
  have m1: "matrix_rep h1 m1 (delist nxt L)"
    using p(3) delist_notin [OF iL(1)] n(2) by (auto simp: nxt_def next_thread_def split: option.splits)
  have mem: "members (delist nxt L) = members L - {nxt}" by (rule members_delist [OF m])
  let ?h = "tcb_set_state nxt Running h1" and ?s = "s\<lparr>ready_matrix := m1, current_thread := Some nxt\<rparr>"
  have ss: "sched_start (h, s) = Some (nxt, ?h, ?s)"
    using p(1) i(1) st(1) same_data_sel(1) [OF p(2)]
    by (cases "first_ready L") (simp_all add: sched_start_def nxt_def next_thread_def Let_def)
  have ev: "evolves {nxt} h ?h"
    using evolves_trans [OF same_data_evolves [OF p(2)] evolves_set_state] by simp
  have ne: "\<not> tcb_is_enqueued (h1 i)" using same_links_enqueued [OF p(5) [OF iL(1)]] iL(2) by simp
  have nn: "\<not> tcb_is_enqueued (h1 nxt)"
    using p(4) ne n(2) by (auto simp: nxt_def next_thread_def split: option.splits)
  have m2: "matrix_rep ?h m1 (delist nxt L)" by (rule matrix_rep_set_state [OF m1]) (simp add: mem)
  have sr: "sched_rep n (?h, ?s) (delist nxt L) []"
    using rep m2 i(1) ne iL by (auto simp: sched_rep_def mem same_data_sel [OF p(2)])
  have lk: "same_links h ?h x" if "t_pinned_core (h x) \<noteq> c" for x
    using p(5) [of x] pL that by (auto simp: same_links_def)
  show ?thesis
    by (rule that [OF ss sr]) (use ev lk st nn n(1) i(1) cid in \<open>auto simp: current_ok_def same_data_sel [OF p(2)]\<close>)
qed

lemma boot_current_pinned:
  assumes "boot_inv I S T k L" "d < CORES" "current_thread (schedulers k ! d) = Some x"
  shows "t_pinned_core (tcbs (mem k) x) = d"
proof (cases "d \<in> S")
  case True
  then show ?thesis using boot_invD(6) [OF assms(1,2)] assms(3) by (auto simp: core_inv_def current_ok_def)
next
  case False
  then show ?thesis using boot_invD(5) [OF assms(1,2)] assms(3) by (simp add: idle_core_def)
qed

lemma core_entry_boot:
  assumes b: "boot_inv I S T k L" and pv: "port_inv k" and c: "c < CORES" "c \<in> I" "c \<notin> S"
    and i: "idle_thread (schedulers k ! c) = Some i"
  defines "nxt \<equiv> next_thread i (L c)"
  obtains k' where "core_entry c k = Some k'" "boot_inv I (insert c S) T k' (L(c := delist nxt (L c)))"
    "port_inv k'" "current_thread (schedulers k' ! c) = Some nxt"
    "\<And>d. d \<noteq> c \<Longrightarrow> schedulers k' ! d = schedulers k ! d" "evolves {nxt} (tcbs (mem k)) (tcbs (mem k'))"
    "idle_thread (schedulers k' ! c) = Some i"
proof -
  let ?h = "tcbs (mem k)" and ?s = "schedulers k ! c"
  have len: "length (schedulers k) = CORES" by (rule boot_invD(2) [OF b])
  have ic: "idle_core True T k c (L c)" using boot_invD(5) [OF b c(1,3)] c(2) by simp
  have iT: "i \<in> T" "t_state (?h i) = Ready" using ic i by (auto simp: idle_core_def)
  have rep: "sched_rep 0 (?h, ?s) (L c) []" "current_thread ?s = None" "core_id ?s = c" "members (L c) \<subseteq> T"
    "preempt_disable_depth ?s = 0" using ic by (simp_all add: idle_core_def)
  obtain h' s' where e: "sched_start (?h, ?s) = Some (nxt, h', s')" "sched_rep 0 (h', s') (delist nxt (L c)) []"
    "current_ok (h', s') nxt" "t_state (h' nxt) = Running" "evolves {nxt} ?h h'"
    "\<And>x. t_pinned_core (?h x) \<noteq> c \<Longrightarrow> same_links ?h h' x" "t_pinned_core (?h nxt) = c"
    "idle_thread s' = Some i" "core_id s' = c" "preempt_disable_depth s' = 0" "nxt \<in> insert i (members (L c))"
    using sched_start_rep [OF rep(1) i iT(2) rep(2,3)] rep(5) unfolding nxt_def by metis
  have nT: "nxt \<in> T" using e(11) iT(1) rep(4) by auto
  have st: "t_state (?h nxt) = Ready"
    using e(11) iT(2) rep(1) matrix_rep_member by (fastforce simp: sched_rep_def members_def)
  have nc: "current_thread (schedulers k ! d) \<noteq> Some nxt" if d: "d < CORES" for d
  proof (cases "d = c")
    case False
    then show ?thesis using boot_current_pinned [OF b d] e(7) by metis
  qed (use rep(2) in simp)
  have susp: "fiber_suspended (port k) nxt"
    using boot_invD(7) [OF b nT] nc st by (simp add: thread_inv_def Let_def)
  let ?q = "(port k)\<lparr>current_context := (current_context (port k))(c := Some nxt),
      fiber_suspended := (fiber_suspended (port k))(nxt := False)\<rparr>"
  let ?k = "set_port ?q (set_scheduler c s' (set_tcbs h' k))"
  have tc: "this_core c k = c" using pv c by (auto simp: port_inv_def this_core_def cortos_port_get_core_id_def)
  have ce: "core_entry c k = Some ?k"
    using e(1) susp c(1) len tc
    by (simp add: core_entry_def scheduler_for_core_def cortos_port_start_first_def cortos_port_switch_def)
  have th: "tcbs (mem ?k) = h'" "mem ?k = (mem k)\<lparr>tcbs := h'\<rparr>" "port ?k = ?q"
    by (simp_all add: set_tcbs_def set_port_def set_scheduler_def)
  have sc: "schedulers ?k ! d = (if d = c then s' else schedulers k ! d)" for d
    using c(1) len by (simp add: set_tcbs_def set_port_def set_scheduler_def nth_list_update)
  have ev: "evolves {nxt} ?h (tcbs (mem ?k))" using e(5) by (simp only: th(1))
  let ?L = "L(c := delist nxt (L c))"
  have w: "wait_inv T {} (mem ?k) (\<lambda>_. [])"
  proof (rule wait_inv_tcbs_cong [OF boot_invD(1) [OF b]])
    fix p assume "live_node T (mem k) p"
    then have "snd p \<in> slots (mem k) (fst p)" "fst p \<in> T" by (auto simp: live_node_def slots_def)
    then show "t_state (tcbs (mem ?k) (fst p)) = Blocked \<and> \<not> g_done (t_wait_group (tcbs (mem ?k) (fst p)))"
      using boot_no_slots [OF boot_invD(1) [OF b]] by simp
  qed (simp_all add: th evolves_sel(5) [OF e(5)])
  have this_c: "core_inv False T ?k c (delist nxt (L c)) [] 0"
  proof -
    have "t_state (h' i) \<noteq> Terminated"
      using evolves_sel(9) [OF e(5), of i] iT(2) e(4) by (cases "i = nxt") auto
    moreover have "members (delist nxt (L c)) \<subseteq> T"
      using rep(1,4) members_delist [of ?h "ready_matrix ?s" "L c" nxt] by (auto simp: sched_rep_def)
    ultimately show ?thesis
      unfolding core_inv_def th sc using e(2,3,4,8-10) iT(1) nT by auto
  qed
  have cores: "if d \<in> insert c S then core_inv False T ?k d (?L d) [] 0 else idle_core (d \<in> I) T ?k d (?L d)"
    if d: "d < CORES" for d
  proof (cases "d = c")
    case True
    then show ?thesis using this_c by simp
  next
    case False
    have f: "t_pinned_core (?h x) \<noteq> d" if "x \<in> {nxt}" for x using that e(7) False by simp
    have lk: "same_links ?h (tcbs (mem ?k)) x" if "t_pinned_core (?h x) = d" for x
      using e(6) that False by (simp only: th(1)) simp
    have s: "schedulers ?k ! d = schedulers k ! d" using False by (simp only: sc if_False)
    have q: "current_context (port ?k) d = current_context (port k) d" using False by (simp add: th)
    show ?thesis
      using core_inv_frame [OF boot_invD(6) [OF b d] ev f lk s q] idle_core_frame [OF boot_invD(5) [OF b d] ev f lk s] False
      by auto
  qed
  have cur: "current_thread s' = Some nxt" using e(3) by (simp add: current_ok_def)
  have "thread_inv ?k (\<lambda>_. []) x" if x: "x \<in> T" for x
  proof -
    have "fiber_suspended (port ?k) x"
      if n: "\<forall>d < CORES. current_thread (schedulers ?k ! d) \<noteq> Some x" "t_state (h' x) \<noteq> Terminated"
    proof -
      have xn: "x \<noteq> nxt" using n(1) c(1) cur by (auto simp: sc)
      moreover have "\<forall>d < CORES. current_thread (schedulers k ! d) \<noteq> Some x"
        using n(1) rep(2) by (metis option.distinct(1) sc)
      ultimately show ?thesis
        using boot_invD(7) [OF b x] n(2) evolves_sel(9) [OF e(5), of x] by (simp add: thread_inv_def Let_def th)
    qed
    then show ?thesis using boot_invD(7) [OF b x] boot_no_slots [OF w x] evolves_sel(2,3) [OF e(5)]
      by (simp add: thread_inv_def Let_def th(1))
  qed
  moreover have "length (schedulers ?k) = CORES" "\<forall>w. \<not> wait_locked ?k w" "\<not> k_locked ?k"
    using boot_invD(2-4) [OF b] by (simp_all add: set_tcbs_def set_port_def)
  ultimately have "boot_inv I (insert c S) T ?k ?L" unfolding boot_inv_def using w cores by blast
  moreover have "port_inv ?k"
    using pv by (simp add: port_inv_def set_tcbs_def set_port_def pump_continues_def)
  ultimately show ?thesis using that [of ?k] ce sc cur ev e(8) by simp
qed

text \<open>The cores enter one after another.\<close>

fun enter_cores :: "nat list \<Rightarrow> kernel \<Rightarrow> kernel option" where
  "enter_cores [] k = Some k"
| "enter_cores (c # cs) k = do { k' \<leftarrow> core_entry c k; enter_cores cs k' }"

definition first_of :: "kernel \<Rightarrow> (nat \<Rightarrow> ready_lists) \<Rightarrow> nat \<Rightarrow> tcb_ptr" where
  "first_of k L c = next_thread (the (idle_thread (schedulers k ! c))) (L c)"

lemma enter_cores_boot:
  assumes "boot_inv I S T k L" "port_inv k" "distinct cs" "\<And>c. c \<in> set cs \<Longrightarrow> c < CORES \<and> c \<in> I \<and> c \<notin> S"
  shows "\<exists>k' L'. enter_cores cs k = Some k' \<and> boot_inv I (S \<union> set cs) T k' L' \<and> port_inv k' \<and>
    (\<forall>c \<in> set cs. current_thread (schedulers k' ! c) = Some (first_of k L c)) \<and>
    (\<forall>d. d \<notin> set cs \<longrightarrow> schedulers k' ! d = schedulers k ! d) \<and> evolves UNIV (tcbs (mem k)) (tcbs (mem k')) \<and>
    (\<forall>d. idle_thread (schedulers k' ! d) = idle_thread (schedulers k ! d)) \<and>
    (\<forall>d. L' d = (if d \<in> set cs then delist (first_of k L d) (L d) else L d))"
  using assms
proof (induction cs arbitrary: S k L)
  case Nil
  then show ?case by auto
next
  case (Cons c cs)
  have c: "c < CORES" "c \<in> I" "c \<notin> S" using Cons.prems(4) [of c] by auto
  obtain i where i: "idle_thread (schedulers k ! c) = Some i"
    using boot_invD(5) [OF Cons.prems(1) c(1,3)] c(2) by (auto simp: idle_core_def)
  have f: "next_thread i (L c) = first_of k L c" by (simp add: first_of_def i)
  obtain k1 where k1: "core_entry c k = Some k1"
    "boot_inv I (insert c S) T k1 (L(c := delist (first_of k L c) (L c)))" "port_inv k1"
    "current_thread (schedulers k1 ! c) = Some (first_of k L c)"
    "\<And>d. d \<noteq> c \<Longrightarrow> schedulers k1 ! d = schedulers k ! d"
    "evolves {first_of k L c} (tcbs (mem k)) (tcbs (mem k1))" "idle_thread (schedulers k1 ! c) = Some i"
    using core_entry_boot [OF Cons.prems(1,2) c i] unfolding f by metis
  let ?L = "L(c := delist (first_of k L c) (L c))"
  have "\<exists>k' L'. enter_cores cs k1 = Some k' \<and> boot_inv I (insert c S \<union> set cs) T k' L' \<and> port_inv k' \<and>
    (\<forall>d \<in> set cs. current_thread (schedulers k' ! d) = Some (first_of k1 ?L d)) \<and>
    (\<forall>d. d \<notin> set cs \<longrightarrow> schedulers k' ! d = schedulers k1 ! d) \<and> evolves UNIV (tcbs (mem k1)) (tcbs (mem k')) \<and>
    (\<forall>d. idle_thread (schedulers k' ! d) = idle_thread (schedulers k1 ! d)) \<and>
    (\<forall>d. L' d = (if d \<in> set cs then delist (first_of k1 ?L d) (?L d) else ?L d))"
    by (rule Cons.IH [OF k1(2,3)]) (use Cons.prems in auto)
  then obtain k' L' where k': "enter_cores cs k1 = Some k'" "boot_inv I (insert c S \<union> set cs) T k' L'" "port_inv k'"
    "\<forall>d \<in> set cs. current_thread (schedulers k' ! d) = Some (first_of k1 ?L d)"
    "\<forall>d. d \<notin> set cs \<longrightarrow> schedulers k' ! d = schedulers k1 ! d" "evolves UNIV (tcbs (mem k1)) (tcbs (mem k'))"
    "\<forall>d. idle_thread (schedulers k' ! d) = idle_thread (schedulers k1 ! d)"
    "\<forall>d. L' d = (if d \<in> set cs then delist (first_of k1 ?L d) (?L d) else ?L d)" by blast
  have fo: "first_of k1 ?L d = first_of k L d" if "d \<in> set cs" for d
    using that Cons.prems(3) k1(5) [of d] by (auto simp: first_of_def)
  have "L' d = (if d \<in> set (c # cs) then delist (first_of k L d) (L d) else L d)" for d
    using k'(8) fo [of d] Cons.prems(3) by auto
  moreover have "\<forall>d \<in> set (c # cs). current_thread (schedulers k' ! d) = Some (first_of k L d)"
    using fo k'(4,5) k1(4) Cons.prems(3) by auto
  moreover have "\<forall>d. d \<notin> set (c # cs) \<longrightarrow> schedulers k' ! d = schedulers k ! d" using k'(5) k1(5) by auto
  moreover have "evolves UNIV (tcbs (mem k)) (tcbs (mem k'))" using evolves_trans [OF k1(6) k'(6)] by simp
  moreover have "enter_cores (c # cs) k = Some k'" using k1(1) k'(1) by simp
  moreover have "idle_thread (schedulers k' ! d) = idle_thread (schedulers k ! d)" for d
    using k'(7) k1(5) [of d] k1(7) i by (cases "d = c") simp_all
  moreover have "boot_inv I (S \<union> set (c # cs)) T k' L'" using k'(2) by simp
  ultimately show ?case using k'(3) by (intro exI [of _ k'] exI [of _ L']) blast
qed

lemma core_entry_counts:
  "core_entry c k = Some k' \<Longrightarrow>
     active_threads k' = active_threads k \<and> active_contexts (port k') = active_contexts (port k)"
  by (auto simp: core_entry_def cortos_port_start_first_def cortos_port_switch_def set_port_def set_scheduler_def set_tcbs_def Let_def
      split: bind_splits if_splits prod.splits)

lemma enter_cores_counts:
  "enter_cores cs k = Some k' \<Longrightarrow>
     active_threads k' = active_threads k \<and> active_contexts (port k') = active_contexts (port k)"
  by (induction cs arbitrary: k) (auto split: bind_splits dest!: core_entry_counts)

lemma boot_complete:
  assumes b: "boot_inv I {..<CORES} T k L" and pv: "port_inv k"
  shows "kernel_inv {} T k (\<lambda>_. []) L (\<lambda>_. []) (\<lambda>_. 0)"
  using boot_invD(1,6,7) [OF b] pv by (simp add: kernel_inv_def)

lemma first_of_best:
  assumes b: "boot_inv I {} T k L" and c: "c < CORES" and t: "t \<in> members (L c)"
  shows "first_of k L c \<in> members (L c)" "tcb_level (tcbs (mem k)) (first_of k L c) \<le> tcb_level (tcbs (mem k)) t"
proof -
  have m: "matrix_rep (tcbs (mem k)) (ready_matrix (schedulers k ! c)) (L c)"
    using boot_invD(5) [OF b c] by (simp add: idle_core_def sched_rep_def)
  obtain f where f: "first_ready (L c) = Some f" using first_ready_None [OF m] t by fastforce
  show "first_of k L c \<in> members (L c)" "tcb_level (tcbs (mem k)) (first_of k L c) \<le> tcb_level (tcbs (mem k)) t"
    using first_ready_member [OF f] first_ready_best [OF m f t] f by (simp_all add: first_of_def next_thread_def)
qed

section \<open>The kernel comes up\<close>

definition boot :: "abi \<Rightarrow> callable \<Rightarrow> (nat \<Rightarrow> span) \<Rightarrow> wmem \<Rightarrow> thread_spec list \<Rightarrow> kernel option" where
  "boot A idle_task stacks m sps = do {
     k \<leftarrow> initialise A idle_task (Kernel_init stacks m);
     (ths, k) \<leftarrow> create_threads A 0 sps k;
     k \<leftarrow> start k;
     enter_cores [0..<CORES] k }"

text \<open>What an application has to provide: carvable stacks that are apart, legal priorities and affinities.\<close>

definition boot_ok :: "abi \<Rightarrow> (nat \<Rightarrow> span) \<Rightarrow> thread_spec list \<Rightarrow> bool" where
  "boot_ok A stacks sps \<longleftrightarrow> sps \<noteq> [] \<and> length sps + CORES < 2 ^ 32 \<and>
     (\<forall>c < CORES. make_StackLayout A (stacks c) 0 \<noteq> None) \<and> (\<forall>sp \<in> set sps. spec_ok A sp) \<and>
     distinct (map (idle_tcb A stacks) [0..<CORES] @ map (spec_tcb A) sps)"

lemma boot_okD:
  assumes "boot_ok A stacks sps"
  shows "sps \<noteq> []" "length sps + CORES < 2 ^ 32" "idle_stacks_ok A stacks" "\<And>sp. sp \<in> set sps \<Longrightarrow> spec_ok A sp"
    "distinct (map (spec_tcb A) sps)" "spec_tcb A ` set sps \<inter> idle_tcb A stacks ` {..<CORES} = {}"
  using assms by (auto simp: boot_ok_def idle_stacks_ok_def distinct_map lessThan_atLeast0)

text \<open>The threads that exist after booting.\<close>

definition boot_threads :: "abi \<Rightarrow> (nat \<Rightarrow> span) \<Rightarrow> thread_spec list \<Rightarrow> tcb_ptr set" where
  "boot_threads A stacks sps = idle_tcb A stacks ` {..<CORES} \<union> spec_tcb A ` set sps"

lemma boot_before_entry:
  assumes w: "\<And>w. waitables m w = Waitable_init" and ok: "boot_ok A stacks sps"
  obtains k0 k1 k2 L where "initialise A idle_task (Kernel_init stacks m) = Some k0"
    "create_threads A 0 sps k0 = Some (map (Some \<circ> spec_tcb A) sps, k1)" "start k1 = Some k2"
    "boot_inv {..<CORES} {} (boot_threads A stacks sps) k2 L" "port_inv k2"
    "placed (spec_tcb A ` set sps) k2 L"
    "\<forall>c < CORES. idle_thread (schedulers k2 ! c) = Some (idle_tcb A stacks c)"
    "\<forall>sp \<in> set sps. as_specified A (tcbs (mem k2)) sp"
    "active_threads k2 = of_nat (length sps)" "active_contexts (port k2) = of_nat (CORES + length sps)"
proof -
  note ok' = boot_okD [OF ok]
  obtain k0 where k0: "initialise A idle_task (Kernel_init stacks m) = Some k0"
    "boot_inv {..<CORES} {} (idle_tcb A stacks ` {..<CORES}) k0 (\<lambda>_ _. [])" "boot_port CORES k0"
    "initialised k0" "active_threads k0 = 0" "\<forall>c < CORES. pinned_thread_counter (schedulers k0 ! c) = 0"
    "\<forall>c < CORES. idle_thread (schedulers k0 ! c) = Some (idle_tcb A stacks c)"
    by (rule initialise_boot [OF w ok'(3)])
  have ld: "loads_below 0 k0" using k0(6) by (simp add: loads_below_def)
  have pl: "placed {} k0 (\<lambda>_ _. [])" by (simp add: placed_def members_def)
  obtain k1 L where k1: "create_threads A 0 sps k0 = Some (map (Some \<circ> spec_tcb A) sps, k1)"
    "boot_inv {..<CORES} {} (boot_threads A stacks sps) k1 L" "boot_port (CORES + length sps) k1"
    "placed (spec_tcb A ` set sps) k1 L" "active_threads k1 = of_nat (length sps)" "initialised k1"
    "\<forall>e. idle_thread (schedulers k1 ! e) = idle_thread (schedulers k0 ! e)"
    "\<forall>sp \<in> set sps. as_specified A (tcbs (mem k1)) sp"
    using create_threads_boot [OF k0(2,3) ok'(4,5,6) ld _ pl, where c = 0] ok'(2) k0(4,5)
    by (auto simp: boot_threads_def)
  have at: "active_threads k1 > 0"
    using k1(5) ok'(1,2) by (simp add: word_less_nat_alt unat_of_nat take_bit_nat_eq_self)
  have n: "CORES < CORES + length sps" "CORES + length sps < 2 ^ 32" using ok'(1,2) by auto
  obtain k2 where k2: "start k1 = Some k2" "boot_inv {..<CORES} {} (boot_threads A stacks sps) k2 L" "port_inv k2"
    "mem k2 = mem k1" "schedulers k2 = schedulers k1" "active_threads k2 = active_threads k1"
    "active_contexts (port k2) = of_nat (CORES + length sps)" by (rule start_boot [OF k1(2,3,6) at n])
  show ?thesis
    by (rule that [OF k0(1) k1(1) k2(1,2,3)]) (use k0(7) k1(4,5,7,8) k2(4-7) in \<open>simp_all add: placed_def\<close>)
qed

lemma boot_running:
  assumes "\<And>w. waitables m w = Waitable_init" "boot_ok A stacks sps"
  shows "\<exists>k L. boot A idle_task stacks m sps = Some k \<and>
    kernel_inv {} (boot_threads A stacks sps) k (\<lambda>_. []) L (\<lambda>_. []) (\<lambda>_. 0) \<and>
    (\<forall>sp \<in> set sps. allows (sp_affinity sp) (t_pinned_core (tcbs (mem k) (spec_tcb A sp))) \<and>
       t_effective_priority (tcbs (mem k) (spec_tcb A sp)) = sp_priority sp) \<and>
    (\<forall>c < CORES. idle_thread (schedulers k ! c) = Some (idle_tcb A stacks c)) \<and>
    (\<forall>c < CORES. \<exists>p. current_thread (schedulers k ! c) = Some p \<and>
       (p \<in> spec_tcb A ` set sps \<or> p = idle_tcb A stacks c) \<and>
       (\<forall>sp \<in> set sps. t_pinned_core (tcbs (mem k) (spec_tcb A sp)) = c \<longrightarrow>
          p \<in> spec_tcb A ` set sps \<and> t_pinned_core (tcbs (mem k) p) = c \<and>
          t_effective_priority (tcbs (mem k) p) \<le> sp_priority sp)) \<and>
    (\<forall>sp \<in> set sps. as_specified A (tcbs (mem k)) sp) \<and>
    (\<forall>c < CORES. members (L c) =
       {t \<in> spec_tcb A ` set sps. t_pinned_core (tcbs (mem k) t) = c \<and> current_thread (schedulers k ! c) \<noteq> Some t}) \<and>
    active_threads k = of_nat (length sps) \<and> active_contexts (port k) = of_nat (CORES + length sps)"
proof -
  let ?P = "spec_tcb A ` set sps"
  obtain k0 k1 k2 L where k2: "initialise A idle_task (Kernel_init stacks m) = Some k0"
    "create_threads A 0 sps k0 = Some (map (Some \<circ> spec_tcb A) sps, k1)" "start k1 = Some k2"
    "boot_inv {..<CORES} {} (boot_threads A stacks sps) k2 L" "port_inv k2" "placed ?P k2 L"
    "\<forall>c < CORES. idle_thread (schedulers k2 ! c) = Some (idle_tcb A stacks c)"
    "\<forall>sp \<in> set sps. as_specified A (tcbs (mem k2)) sp"
    "active_threads k2 = of_nat (length sps)" "active_contexts (port k2) = of_nat (CORES + length sps)"
    by (rule boot_before_entry [OF assms])
  obtain k L' where k: "enter_cores [0..<CORES] k2 = Some k"
    "boot_inv {..<CORES} {..<CORES} (boot_threads A stacks sps) k L'" "port_inv k"
    "\<forall>c < CORES. current_thread (schedulers k ! c) = Some (first_of k2 L c)"
    "evolves UNIV (tcbs (mem k2)) (tcbs (mem k))"
    "\<forall>c < CORES. idle_thread (schedulers k ! c) = Some (idle_tcb A stacks c)"
    "\<forall>c < CORES. L' c = delist (first_of k2 L c) (L c)"
    using k2(7) enter_cores_boot [OF k2(4,5), of "[0..<CORES]"] by (auto simp: lessThan_atLeast0)
  note same = evolves_sel(1-3,6,7) [OF k(5)] evolves_affinity [OF k(5)]
  have mem: "members (L c) = {t \<in> ?P. t_pinned_core (tcbs (mem k) t) = c}" for c
    using k2(6) by (simp add: placed_def same)
  have cur: "\<exists>p. current_thread (schedulers k ! c) = Some p \<and> (p \<in> ?P \<or> p = idle_tcb A stacks c) \<and>
       (\<forall>sp \<in> set sps. t_pinned_core (tcbs (mem k) (spec_tcb A sp)) = c \<longrightarrow>
          p \<in> ?P \<and> t_pinned_core (tcbs (mem k) p) = c \<and> t_effective_priority (tcbs (mem k) p) \<le> sp_priority sp)"
    if c: "c < CORES" for c
  proof (intro exI conjI ballI impI)
    show "current_thread (schedulers k ! c) = Some (first_of k2 L c)" using k(4) c by simp
    show "first_of k2 L c \<in> ?P \<or> first_of k2 L c = idle_tcb A stacks c"
    proof (cases "first_ready (L c)")
      case None
      then show ?thesis using k2(7) c by (simp add: first_of_def next_thread_def)
    next
      case (Some f)
      then show ?thesis using first_ready_member [OF Some] mem by (auto simp: first_of_def next_thread_def)
    qed
    fix sp assume sp: "sp \<in> set sps" "t_pinned_core (tcbs (mem k) (spec_tcb A sp)) = c"
    then have "spec_tcb A sp \<in> members (L c)" by (simp add: mem)
    note best = first_of_best [OF k2(4) c this]
    show "first_of k2 L c \<in> ?P" "t_pinned_core (tcbs (mem k) (first_of k2 L c)) = c" using best(1) mem by auto
    show "t_effective_priority (tcbs (mem k) (first_of k2 L c)) \<le> sp_priority sp"
      using best(2) sp(1) k2(8) by (simp add: tcb_level_def same word_le_nat_alt as_specified_def)
  qed
  have rest: "members (L' c) = {t \<in> ?P. t_pinned_core (tcbs (mem k) t) = c \<and> current_thread (schedulers k ! c) \<noteq> Some t}"
    if "c < CORES" for c
  proof -
    have "matrix_rep (tcbs (mem k2)) (ready_matrix (schedulers k2 ! c)) (L c)"
      using boot_invD(5) [OF k2(4) that] by (simp add: idle_core_def sched_rep_def)
    then have "members (L' c) = members (L c) - {first_of k2 L c}" using k(7) that members_delist by simp
    then show ?thesis using that mem k(4) by auto
  qed
  have spec: "\<forall>sp \<in> set sps. as_specified A (tcbs (mem k)) sp" using k2(8) by (simp add: as_specified_def same)
  note counts = enter_cores_counts [OF k(1)]
  have "boot A idle_task stacks m sps = Some k" using k2(1-3) k(1) by (simp add: boot_def)
  then show ?thesis
    using boot_complete [OF k(2,3)] cur k2(6,8-10) k(6) rest spec counts
    by (intro exI [of _ k] exI [of _ L']) (simp add: placed_def same as_specified_def)
qed

corollary boot_reaches_running:
  assumes "\<And>w. waitables m w = Waitable_init" "boot_ok A stacks sps"
  shows "\<exists>k L. boot A idle_task stacks m sps = Some k \<and>
    kernel_inv {} (boot_threads A stacks sps) k (\<lambda>_. []) L (\<lambda>_. []) (\<lambda>_. 0) \<and>
    (\<forall>sp \<in> set sps. allows (sp_affinity sp) (t_pinned_core (tcbs (mem k) (spec_tcb A sp))) \<and>
       t_effective_priority (tcbs (mem k) (spec_tcb A sp)) = sp_priority sp) \<and>
    (\<forall>c < CORES. idle_thread (schedulers k ! c) = Some (idle_tcb A stacks c)) \<and>
    (\<forall>c < CORES. \<exists>p. current_thread (schedulers k ! c) = Some p \<and>
       (p \<in> spec_tcb A ` set sps \<or> p = idle_tcb A stacks c) \<and>
       (\<forall>sp \<in> set sps. t_pinned_core (tcbs (mem k) (spec_tcb A sp)) = c \<longrightarrow>
          p \<in> spec_tcb A ` set sps \<and> t_pinned_core (tcbs (mem k) p) = c \<and>
          t_effective_priority (tcbs (mem k) p) \<le> sp_priority sp))"
  using boot_running [OF assms, of idle_task] by (elim exE conjE) (intro exI conjI)

text \<open>
  C5: a kernel whose application provides stacks that can be carved and do not share control blocks,
  at least one thread, priorities below \<^const>\<open>MAX_PRIORITIES\<close> and affinities that allow some core, comes
  up without a failed assertion: \<^verbatim>\<open>initialise\<close>, the creation of the threads, \<^verbatim>\<open>start\<close> and the entry of
  all cores succeed, and the invariant of the running kernel holds.  Every thread is pinned to a core
  its affinity allows, and every core runs a thread of the best priority among those pinned to it, or
  its idle thread when there are none.
\<close>

theorem kernel_boots:
  assumes "\<And>w. waitables m w = Waitable_init" "boot_ok A stacks sps"
  shows "\<exists>k L. boot A idle_task stacks m sps = Some k \<and>
    kernel_inv {} (boot_threads A stacks sps) k (\<lambda>_. []) L (\<lambda>_. []) (\<lambda>_. 0) \<and>
    (\<forall>sp \<in> set sps. allows (sp_affinity sp) (t_pinned_core (tcbs (mem k) (spec_tcb A sp))) \<and>
       t_effective_priority (tcbs (mem k) (spec_tcb A sp)) = sp_priority sp) \<and>
    (\<forall>c < CORES. idle_thread (schedulers k ! c) = Some (idle_tcb A stacks c)) \<and>
    (\<forall>c < CORES. \<exists>p. current_thread (schedulers k ! c) = Some p \<and>
       (p \<in> spec_tcb A ` set sps \<or> p = idle_tcb A stacks c) \<and>
       (\<forall>sp \<in> set sps. t_pinned_core (tcbs (mem k) (spec_tcb A sp)) = c \<longrightarrow>
          p \<in> spec_tcb A ` set sps \<and> t_pinned_core (tcbs (mem k) p) = c \<and>
          t_effective_priority (tcbs (mem k) p) \<le> sp_priority sp))"
  by (rule boot_reaches_running [OF assms])

section \<open>A concrete system\<close>

text \<open>
  Four idle stacks of 4096 bytes and three threads: priorities 5 and 9 on core 0, priority 7 on
  core 1.
\<close>

definition demo_stacks :: "nat \<Rightarrow> span" where
  "demo_stacks c = (0x10000 + of_nat c * 0x1000, 0x1000)"

definition demo_specs :: "thread_spec list" where
  "demo_specs =
     [\<lparr>sp_entry = 1, sp_stack = (0x100000, 0x1000), sp_priority = 5, sp_affinity = from_id 0\<rparr>,
      \<lparr>sp_entry = 2, sp_stack = (0x200000, 0x1000), sp_priority = 9, sp_affinity = from_id 0\<rparr>,
      \<lparr>sp_entry = 3, sp_stack = (0x300000, 0x1000), sp_priority = 7, sp_affinity = from_id 1\<rparr>]"

definition demo_mem :: wmem where
  "demo_mem = \<lparr>tcbs = demo_heap (\<lambda>_. 0), nodes = (\<lambda>_. WaitNode_init), waitables = (\<lambda>_. Waitable_init)\<rparr>"

lemma demo_layout:
  "make_StackLayout demo_abi (0x10000, 0x1000) 0 \<noteq> None" "make_StackLayout demo_abi (0x11000, 0x1000) 0 \<noteq> None"
  "make_StackLayout demo_abi (0x12000, 0x1000) 0 \<noteq> None" "make_StackLayout demo_abi (0x13000, 0x1000) 0 \<noteq> None"
  "make_StackLayout demo_abi (0x100000, 0x1000) 0 \<noteq> None" "make_StackLayout demo_abi (0x200000, 0x1000) 0 \<noteq> None"
  "make_StackLayout demo_abi (0x300000, 0x1000) 0 \<noteq> None"
  by code_simp+

lemma demo_tcbs:
  "map (idle_tcb demo_abi demo_stacks) [0..<CORES] = [0x10D00, 0x11D00, 0x12D00, 0x13D00]"
  "map (spec_tcb demo_abi) demo_specs = [0x100D00, 0x200D00, 0x300D00]"
  by code_simp+

lemma demo_boot_ok: "boot_ok demo_abi demo_stacks demo_specs"
proof -
  have "\<forall>c < CORES. make_StackLayout demo_abi (demo_stacks c) 0 \<noteq> None"
    using demo_layout(1-4) by (simp add: demo_stacks_def CORES_def All_less_Suc eval_nat_numeral)
  moreover have "\<forall>sp \<in> set demo_specs. spec_ok demo_abi sp"
    using demo_layout(5-7) allows_from_id [of 0] allows_from_id [of 1]
    by (auto simp: demo_specs_def spec_ok_def MAX_PRIORITIES_def CORES_def)
  ultimately show ?thesis unfolding boot_ok_def demo_tcbs by (simp add: demo_specs_def CORES_def)
qed

lemma demo_boot_threads: "boot_threads demo_abi demo_stacks demo_specs =
    {0x10D00, 0x11D00, 0x12D00, 0x13D00, 0x100D00, 0x200D00, 0x300D00}"
proof -
  have "boot_threads demo_abi demo_stacks demo_specs =
      set (map (idle_tcb demo_abi demo_stacks) [0..<CORES]) \<union> set (map (spec_tcb demo_abi) demo_specs)"
    by (auto simp: boot_threads_def)
  then show ?thesis unfolding demo_tcbs by auto
qed

theorem kernel_boots_witness:
  "\<exists>k L. boot demo_abi 0 demo_stacks demo_mem demo_specs = Some k \<and>
    kernel_inv {} {0x10D00, 0x11D00, 0x12D00, 0x13D00, 0x100D00, 0x200D00, 0x300D00} k
      (\<lambda>_. []) L (\<lambda>_. []) (\<lambda>_. 0)"
proof -
  have "\<And>w. waitables demo_mem w = Waitable_init" by (simp add: demo_mem_def)
  then show ?thesis using kernel_boots [OF _ demo_boot_ok, of demo_mem 0] unfolding demo_boot_threads by blast
qed

text \<open>The running system: core 0 runs the thread of priority 5, core 1 the one of priority 7.\<close>

lemma demo_booted:
  obtains k L where "boot demo_abi 0 demo_stacks demo_mem demo_specs = Some k"
    "kernel_inv {} {0x10D00, 0x11D00, 0x12D00, 0x13D00, 0x100D00, 0x200D00, 0x300D00} k (\<lambda>_. []) L (\<lambda>_. []) (\<lambda>_. 0)"
    "current_thread (schedulers k ! 0) = Some 0x100D00" "current_thread (schedulers k ! 1) = Some 0x300D00"
    "t_pinned_core (tcbs (mem k) 0x200D00) = 0" "t_effective_priority (tcbs (mem k) 0x100D00) = 5"
    "t_effective_priority (tcbs (mem k) 0x200D00) = 9" "t_effective_priority (tcbs (mem k) 0x300D00) = 7"
    "t_pinned_core (tcbs (mem k) 0x100D00) = 0" "t_pinned_core (tcbs (mem k) 0x300D00) = 1"
    "idle_thread (schedulers k ! 0) = Some 0x10D00" "idle_thread (schedulers k ! 1) = Some 0x11D00"
    "\<forall>t \<in> {0x100D00, 0x200D00}. t_id (tcbs (mem k) t) \<noteq> IDLE_THREAD_ID \<and> \<not> t_terminated (tcbs (mem k) t) \<and>
       t_termination (tcbs (mem k) t) = t + offsetof_termination demo_abi"
    "members (L 0) = {0x200D00}" "active_threads k = 3" "active_contexts (port k) = 7"
proof -
  let ?sp = "\<lambda>i. spec_tcb demo_abi (demo_specs ! i)"
  have tcb: "?sp 0 = 0x100D00" "?sp (Suc 0) = 0x200D00" "?sp 2 = 0x300D00"
    using demo_tcbs(2) by (simp_all add: demo_specs_def)
  have all: "(\<forall>sp \<in> set demo_specs. P sp) \<longleftrightarrow> P (demo_specs ! 0) \<and> P (demo_specs ! Suc 0) \<and> P (demo_specs ! 2)" for P
    by (auto simp: demo_specs_def)
  have img: "spec_tcb demo_abi ` set demo_specs = {0x100D00, 0x200D00, 0x300D00}"
    using demo_tcbs(2) by (metis list.set_map list.simps(15) set_empty2 list.set(1))
  have w: "\<And>w. waitables demo_mem w = Waitable_init" by (simp add: demo_mem_def)
  obtain k L where k: "boot demo_abi 0 demo_stacks demo_mem demo_specs = Some k"
    "kernel_inv {} {0x10D00, 0x11D00, 0x12D00, 0x13D00, 0x100D00, 0x200D00, 0x300D00} k (\<lambda>_. []) L (\<lambda>_. []) (\<lambda>_. 0)"
    "\<forall>sp \<in> set demo_specs. allows (sp_affinity sp) (t_pinned_core (tcbs (mem k) (spec_tcb demo_abi sp))) \<and>
       t_effective_priority (tcbs (mem k) (spec_tcb demo_abi sp)) = sp_priority sp"
    "\<forall>c < CORES. idle_thread (schedulers k ! c) = Some (idle_tcb demo_abi demo_stacks c)"
    "\<forall>c < CORES. \<exists>p. current_thread (schedulers k ! c) = Some p \<and>
       (p \<in> {0x100D00, 0x200D00, 0x300D00} \<or> p = idle_tcb demo_abi demo_stacks c) \<and>
       (\<forall>sp \<in> set demo_specs. t_pinned_core (tcbs (mem k) (spec_tcb demo_abi sp)) = c \<longrightarrow>
          p \<in> {0x100D00, 0x200D00, 0x300D00} \<and> t_pinned_core (tcbs (mem k) p) = c \<and>
          t_effective_priority (tcbs (mem k) p) \<le> sp_priority sp)"
    "\<forall>sp \<in> set demo_specs. as_specified demo_abi (tcbs (mem k)) sp"
    "\<forall>c < CORES. members (L c) = {t \<in> {0x100D00, 0x200D00, 0x300D00}. t_pinned_core (tcbs (mem k) t) = c \<and>
       current_thread (schedulers k ! c) \<noteq> Some t}"
    "active_threads k = of_nat (length demo_specs)" "active_contexts (port k) = of_nat (CORES + length demo_specs)"
    using boot_running [OF w demo_boot_ok, of 0] unfolding demo_boot_threads img by blast
  have pin: "t_pinned_core (tcbs (mem k) 0x100D00) = 0" "t_pinned_core (tcbs (mem k) 0x200D00) = 0"
    "t_pinned_core (tcbs (mem k) 0x300D00) = 1"
    and pr: "t_effective_priority (tcbs (mem k) 0x100D00) = 5" "t_effective_priority (tcbs (mem k) 0x200D00) = 9"
    "t_effective_priority (tcbs (mem k) 0x300D00) = 7"
    using k(3) unfolding all tcb by (simp_all add: demo_specs_def allows_from_id)
  have cur: "current_thread (schedulers k ! 0) = Some 0x100D00"
  proof -
    obtain p where p: "current_thread (schedulers k ! 0) = Some p" "p \<in> {0x100D00, 0x200D00, 0x300D00}"
      "t_pinned_core (tcbs (mem k) p) = 0" "t_effective_priority (tcbs (mem k) p) \<le> 5"
      using k(5) [rule_format, of 0] pin unfolding all tcb by (auto simp: demo_specs_def CORES_def)
    then show ?thesis using pin pr by auto
  qed
  have cur1: "current_thread (schedulers k ! 1) = Some 0x300D00"
  proof -
    obtain p where "current_thread (schedulers k ! 1) = Some p" "p \<in> {0x100D00, 0x200D00, 0x300D00}"
      "t_pinned_core (tcbs (mem k) p) = 1"
      using k(5) [rule_format, of 1] pin unfolding all tcb by (auto simp: demo_specs_def CORES_def)
    then show ?thesis using pin by auto
  qed
  have "idle_tcb demo_abi demo_stacks 0 = 0x10D00" "idle_tcb demo_abi demo_stacks 1 = 0x11D00"
    using demo_tcbs(1) by (simp_all add: CORES_def upt_rec)
  then have idle: "idle_thread (schedulers k ! 0) = Some 0x10D00" "idle_thread (schedulers k ! 1) = Some 0x11D00"
    using k(4) by (simp_all add: CORES_def)
  have "\<forall>t \<in> {0x100D00, 0x200D00}. t_id (tcbs (mem k) t) \<noteq> IDLE_THREAD_ID \<and> \<not> t_terminated (tcbs (mem k) t) \<and>
       t_termination (tcbs (mem k) t) = t + offsetof_termination demo_abi"
    using k(6) unfolding all by (simp add: as_specified_def tcb)
  moreover have "members (L 0) = {0x200D00}"
  proof -
    have "0 < CORES" by (simp add: CORES_def)
    note m = k(7) [rule_format, OF this]
    have "x \<in> members (L 0) \<longleftrightarrow> x = 0x200D00" for x
      unfolding m cur mem_Collect_eq insert_iff empty_iff option.inject
      using pin(2,3) by (cases "x = 0x200D00"; cases "x = 0x300D00"; cases "x = 0x100D00") simp_all
    then show ?thesis by blast
  qed
  moreover have "active_threads k = 3" "active_contexts (port k) = 7"
    using k(8,9) by (simp_all add: demo_specs_def CORES_def)
  ultimately show ?thesis by (rule that [OF k(1,2) cur cur1 pin(2) pr pin(1,3) idle])
qed

corollary demo_running:
  obtains k L where "boot demo_abi 0 demo_stacks demo_mem demo_specs = Some k"
    "kernel_inv {} {0x10D00, 0x11D00, 0x12D00, 0x13D00, 0x100D00, 0x200D00, 0x300D00} k (\<lambda>_. []) L (\<lambda>_. []) (\<lambda>_. 0)"
    "current_thread (schedulers k ! 0) = Some 0x100D00" "current_thread (schedulers k ! 1) = Some 0x300D00"
    "t_pinned_core (tcbs (mem k) 0x200D00) = 0" "t_effective_priority (tcbs (mem k) 0x100D00) = 5"
    "t_effective_priority (tcbs (mem k) 0x200D00) = 9" "t_effective_priority (tcbs (mem k) 0x300D00) = 7"
    "t_pinned_core (tcbs (mem k) 0x100D00) = 0" "t_pinned_core (tcbs (mem k) 0x300D00) = 1"
    "idle_thread (schedulers k ! 0) = Some 0x10D00" "idle_thread (schedulers k ! 1) = Some 0x11D00"
  by (rule demo_booted) (rule that)

end
