(* ===== verification/Thread_Accounting.thy ===== *)
theory Thread_Accounting
  imports Kernel_Boot
begin

text \<open>
  No thread gets lost.  Beside the invariant of the running kernel, which says that no thread is in two
  places, this theory keeps the converse: every thread of the application runs, is in a ready list or in
  an inbox, or waits on some waitable; and a core whose inbox has requests has been poked.
\<close>

section \<open>What the operations leave alone\<close>

lemma sched_set_thread_ready_frame:
  "sched_set_thread_ready t (h, s) = Some (h', s') \<Longrightarrow> \<exists>m. s' = s\<lparr>ready_matrix := m\<rparr>"
  by (auto simp: sched_set_thread_ready_def Let_def intro: exI [of _ "ready_matrix s"] split: bind_splits if_splits)

lemma drain_inbox_loop_frame:
  assumes "drain_inbox_loop st = Some st'"
  shows "idle_thread (snd st') = idle_thread (snd st) \<and> inbox_poke_pending (snd st') = inbox_poke_pending (snd st)"
proof (rule drain_inbox_loop.raw_induct [where P = "\<lambda>st st'. idle_thread (snd st') = idle_thread (snd st) \<and>
      inbox_poke_pending (snd st') = inbox_poke_pending (snd st)", OF _ assms], goal_cases)
  case (1 loop st st')
  obtain h s where st: "st = (h, s)" by (cases st)
  obtain r b where r: "pop (inbox s) = Some (r, b)" using 1(2) st by (auto split: bind_splits)
  show ?case
  proof (cases r)
    case None
    then show ?thesis using 1(2) st r by auto
  next
    case (Some q)
    then obtain h1 s1 where q: "sched_set_thread_ready (rq_tcb q) (h, s\<lparr>inbox := b\<rparr>) = Some (h1, s1)" "loop (h1, s1) = Some st'"
      using 1(2) st r by (cases q) (auto simp: Let_def split: bind_splits)
    show ?thesis using sched_set_thread_ready_frame [OF q(1)] 1(1) [OF q(2)] st by auto
  qed
qed

lemma reschedule_frame:
  assumes "reschedule (h, s) = Some (p, nxt, h', s')"
  shows "idle_thread s' = idle_thread s" "\<not> inbox_poke_pending s'"
proof -
  obtain h1 s1 where d: "drain_inbox (h, s) = Some (h1, s1)"
    using assms by (auto simp: reschedule_def split: bind_splits if_splits)
  have f: "idle_thread s1 = idle_thread s" "\<not> inbox_poke_pending s1"
    using drain_inbox_loop_frame [of "(h, s\<lparr>inbox_poke_pending := False\<rparr>)" "(h1, s1)"] d by (simp_all add: drain_inbox_def)
  have "idle_thread s' = idle_thread s1 \<and> inbox_poke_pending s' = inbox_poke_pending s1"
    using assms d
    by (auto simp: reschedule_def Let_def split: bind_splits if_splits ThreadState.splits
        dest!: sched_set_thread_ready_frame)
  then show "idle_thread s' = idle_thread s" "\<not> inbox_poke_pending s'" using f by auto
qed

text \<open>A context switch touches the scheduler of its own core only, and empties its inbox.\<close>

lemma pend_reschedule_frame:
  assumes pv: "port_inv k" and c: "c < CORES" and ctx: "current_context (port k) c \<noteq> None"
    and y: "cortos_port_pend_reschedule c k = Some k'"
  shows "d \<noteq> c \<Longrightarrow> schedulers k' ! d = schedulers k ! d" "idle_thread (schedulers k' ! d) = idle_thread (schedulers k ! d)"
    "\<not> inbox_poke_pending (schedulers k' ! c)" "poke_pending (port k') = poke_pending (port k)"
proof -
  let ?k = "set_port (fiber_yield c (port k)) k"
  have len: "c < length (schedulers k)" using pv c by (simp add: port_inv_def)
  have fy: "pump_continues (fiber_yield c (port k))" "cores_count (fiber_yield c (port k)) = CORES"
      "poke_pending (fiber_yield c (port k)) = poke_pending (port k)"
    using pv by (auto simp: port_inv_def fiber_yield_def pump_continues_def split: option.splits)
  have tc: "this_core c ?k = c"
    using c fy(2) by (auto simp: this_core_def cortos_port_get_core_id_def set_port_def)
  obtain p nxt h' s' q where r: "reschedule (tcbs (mem k), schedulers k ! c) = Some (p, nxt, h', s')"
    "cortos_port_switch c nxt (fiber_yield c (port k)) = Some q" "k' = set_port q (set_scheduler c s' (set_tcbs h' ?k))"
    using y ctx fy(1) len tc
    by (auto simp: cortos_port_pend_reschedule_def pump_def reschedule_this_core_def scheduler_for_core_def set_port_def
        split: bind_splits if_splits)
  have sc: "schedulers k' ! e = (if e = c then s' else schedulers k ! e)" "port k' = q" for e
    using r(3) len by (simp_all add: set_port_def set_scheduler_def set_tcbs_def)
  show "d \<noteq> c \<Longrightarrow> schedulers k' ! d = schedulers k ! d" "idle_thread (schedulers k' ! d) = idle_thread (schedulers k ! d)"
    "\<not> inbox_poke_pending (schedulers k' ! c)" "poke_pending (port k') = poke_pending (port k)"
    using reschedule_frame [OF r(1)] r(2) fy(3)
    by (auto simp: sc cortos_port_switch_def split: if_splits)
qed

text \<open>
  Making a thread ready from core \<open>c\<close> touches no current and no idle thread.  A request to another core
  leaves that core marked, and poked unless it was marked before.
\<close>

lemma set_thread_ready_frame:
  assumes pv: "port_inv k" and c: "c < CORES"
    and e: "t_pinned_core (tcbs (mem k) t) = e" "core_id (schedulers k ! e) = e" "e < CORES"
    and y: "set_thread_ready c t k = Some (a, k')"
  defines "s \<equiv> schedulers k ! e"
  shows "\<exists>s'. schedulers k' = (schedulers k)[e := s'] \<and> current_thread s' = current_thread s \<and>
    idle_thread s' = idle_thread s \<and> (inbox_poke_pending s' \<longleftrightarrow> inbox_poke_pending s \<or> e \<noteq> c) \<and>
    poke_pending (port k') =
      (if e \<noteq> c \<and> \<not> inbox_poke_pending s then (poke_pending (port k))(e := True) else poke_pending (port k))"
proof -
  have st: "running k" "this_core c k = c" "e < length (schedulers k)"
    using pv c e(3) by (auto simp: port_inv_def this_core_def cortos_port_get_core_id_def)
  show ?thesis
  proof (cases "e = c")
    case True
    then obtain h' s' where r: "sched_set_thread_ready t (tcbs (mem k), s) = Some (h', s')"
      "k' = set_scheduler c s' (set_tcbs h' k)"
      using y st e(1) by (auto simp: set_thread_ready_def scheduler_for_core_def Let_def s_def split: bind_splits if_splits)
    then show ?thesis
      using sched_set_thread_ready_frame [OF r(1)] True by (auto simp: set_scheduler_def set_tcbs_def)
  next
    case False
    obtain b where "inbox_poke_pending s \<longrightarrow> schedulers k' = (schedulers k)[e := s\<lparr>inbox := b\<rparr>] \<and> port k' = port k"
      "\<not> inbox_poke_pending s \<longrightarrow> schedulers k' = (schedulers k)[e := s\<lparr>inbox := b, inbox_poke_pending := True\<rparr>] \<and>
         port k' = (port k)\<lparr>poke_pending := (poke_pending (port k))(e := True)\<rparr>"
      using y st e False
      by (auto simp: set_thread_ready_def scheduler_for_core_def Let_def s_def post_to_inbox_def
          cortos_port_send_reschedule_ipi_def set_scheduler_def set_port_def split: bind_splits if_splits)
    then show ?thesis using False by (cases "inbox_poke_pending s") auto
  qed
qed

section \<open>Every thread is somewhere\<close>

text \<open>
  \<open>accounted U k Q L R\<close>: with the waiter queues \<open>Q\<close>, the ready lists \<open>L\<close> and the inboxes \<open>R\<close> every thread of
  \<open>U\<close> is waiting, current, ready or requested, and none is an idle thread.  \<open>poked X k R\<close>: outside \<open>X\<close>, an
  inbox with requests is marked, and the core of a marked inbox has been poked.
\<close>

definition accounted ::
  "tcb_ptr set \<Rightarrow> kernel \<Rightarrow> (waitable_ptr \<Rightarrow> node_ptr list) \<Rightarrow> (nat \<Rightarrow> ready_lists) \<Rightarrow> (nat \<Rightarrow> tcb_ptr list) \<Rightarrow> bool" where
  "accounted U k Q L R \<longleftrightarrow> (\<forall>t \<in> U. (\<forall>c < CORES. idle_thread (schedulers k ! c) \<noteq> Some t) \<and>
     ((\<exists>w. t \<in> fst ` set (Q w)) \<or>
      (\<exists>c < CORES. current_thread (schedulers k ! c) = Some t \<or> t \<in> members (L c) \<union> set (R c))))"

definition poked :: "nat set \<Rightarrow> kernel \<Rightarrow> (nat \<Rightarrow> tcb_ptr list) \<Rightarrow> bool" where
  "poked X k R \<longleftrightarrow> (\<forall>d < CORES. d \<notin> X \<longrightarrow> (R d \<noteq> [] \<longrightarrow> inbox_poke_pending (schedulers k ! d)) \<and>
     (inbox_poke_pending (schedulers k ! d) \<longrightarrow> poke_pending (port k) d))"

lemma members_delist_ge: "members L \<subseteq> insert t (members (delist t L))"
  by (auto simp: members_def delist_def in_set_remove1)

text \<open>A switch loses nobody when the thread that gives up its core can run on, or waits.\<close>

lemma pend_reschedule_accounts:
  assumes inv: "kernel_inv A T k Q L R n" and c: "c < CORES" and n: "n c + length (R c) \<le> 2 ^ 62"
    and cur: "current_thread (schedulers k ! c) = Some p" and acc: "accounted U k Q L R" and pk: "poked X k R"
    and stays: "t_state (tcbs (mem k) p) = Running \<or> (\<exists>w. p \<in> fst ` set (Q w))"
  obtains k' L' where "cortos_port_pend_reschedule c k = Some k'"
    "kernel_inv (A - {c}) T k' Q L' (R(c := [])) (n(c := n c + length (R c)))"
    "accounted U k' Q L' (R(c := []))" "poked (X - {c}) k' (R(c := []))"
proof -
  let ?L = "competing k c p (L c) (R c)"
  let ?w = "winner k c ?L"
  let ?L' = "L(c := delist ?w ?L)"
  obtain k' where k': "cortos_port_pend_reschedule c k = Some k'"
    "kernel_inv (A - {c}) T k' Q ?L' (R(c := [])) (n(c := n c + length (R c)))"
    "current_thread (schedulers k' ! c) = Some ?w" by (rule pend_reschedule_inv [OF inv c n cur])
  have ctx: "current_context (port k) c \<noteq> None"
    using kernel_inv_current [OF inv c] by auto
  note fr = pend_reschedule_frame [OF kernel_invD(2) [OF inv] c ctx k'(1)]
  have mem: "members ?L = members (L c) \<union> set (R c) \<union> set (rotation (tcbs (mem k)) (schedulers k ! c) p)"
    by (auto simp: competing_def members_enlist)
  have "accounted U k' Q ?L' (R(c := []))" unfolding accounted_def fr(2)
  proof (intro ballI conjI)
    fix t assume t: "t \<in> U"
    show idle: "\<forall>d < CORES. idle_thread (schedulers k ! d) \<noteq> Some t" using acc t by (simp add: accounted_def)
    consider "\<exists>w. t \<in> fst ` set (Q w)"
      | d where "d < CORES" "d \<noteq> c" "current_thread (schedulers k ! d) = Some t \<or> t \<in> members (L d) \<union> set (R d)"
      | "t = p" "t_state (tcbs (mem k) p) = Running" | "t \<in> members (L c) \<union> set (R c)"
      using acc t cur stays unfolding accounted_def by (metis option.inject)
    then show "(\<exists>w. t \<in> fst ` set (Q w)) \<or> (\<exists>d < CORES. current_thread (schedulers k' ! d) = Some t \<or>
        t \<in> members (?L' d) \<union> set ((R(c := [])) d))"
    proof cases
      case (2 d)
      then show ?thesis using fr(1) [OF 2(2)] by auto
    next
      case 3
      then have "t \<in> members ?L" using idle c by (auto simp: mem rotation_def)
      then show ?thesis using members_delist_ge [of ?L ?w] k'(3) c by (intro disjI2 exI [of _ c]) auto
    next
      case 4
      then have "t \<in> members ?L" by (auto simp: mem)
      then show ?thesis using members_delist_ge [of ?L ?w] k'(3) c by (intro disjI2 exI [of _ c]) auto
    qed blast
  qed
  moreover have "poked (X - {c}) k' (R(c := []))"
    using pk fr(3,4) fr(1) unfolding poked_def by (metis DiffI fun_upd_apply singletonD)
  ultimately show thesis by (rule that [OF k'(1,2)])
qed

text \<open>A wake-up moves the woken thread from the queues to a ready list or an inbox.\<close>

lemma wake_accounts:
  assumes inv: "kernel_inv A T k Q L R n" and p: "p \<in> set (Q w)" and c: "c < CORES"
    and y: "wake_thread c p acquired k = Some (a, k')" and acc: "accounted U k Q L R" and pk: "poked {} k R"
  defines "h \<equiv> tcbs (mem k)" and "t \<equiv> fst p"
  shows "accounted U k' (\<lambda>v. filter (\<lambda>q. fst q \<noteq> t) (Q v)) (lists_woken c h t L) (inboxes_woken c h t R)"
    "poked {} k' (inboxes_woken c h t R)"
proof -
  let ?e = "t_pinned_core (h t)"
  have live: "live_node T (mem k) p" using p wait_invD(2) [OF kernel_invD(1) [OF inv]] by blast
  have e: "?e < CORES" using kernel_invD(4) [OF inv, of t] live by (simp add: live_node_def thread_inv_def h_def t_def Let_def)
  have cr: "core_ready c MAX_WAIT_NODES k" using kernel_inv_core_ready [OF inv c] by (simp add: MAX_WAIT_NODES_def)
  have pv: "port_inv k" "\<And>w. \<not> wait_locked k w" using kernel_invD(2) [OF inv] by (simp_all add: port_inv_def)
  obtain m' ws pool where m': "wake_thread c p acquired k = set_thread_ready c t
      (log_hooks (map (\<lambda>w. on_thread_removed w (create_waiter (h t))) ws) (k\<lparr>mem := m'\<rparr>))"
    "tcbs m' = h(t := (h t)\<lparr>t_wait_group := won_group p acquired (mem k), t_wait_nodes := pool\<rparr>)"
    using wake_thread_inv [OF kernel_invD(1) [OF inv] p cr pv(2), of acquired] unfolding h_def t_def by metis
  let ?K = "log_hooks (map (\<lambda>w. on_thread_removed w (create_waiter (h t))) ws) (k\<lparr>mem := m'\<rparr>)"
  have K: "port_inv ?K" "schedulers ?K = schedulers k" "port ?K = port k" "t_pinned_core (tcbs (mem ?K) t) = ?e"
    using pv(1) m'(2) by (simp_all add: port_inv_def log_hooks_def)
  have id: "core_id (schedulers k ! ?e) = ?e" using kernel_invD(3) [OF inv e] by (simp add: core_inv_def)
  obtain s' where s': "schedulers k' = (schedulers k)[?e := s']" "current_thread s' = current_thread (schedulers k ! ?e)"
    "idle_thread s' = idle_thread (schedulers k ! ?e)"
    "inbox_poke_pending s' \<longleftrightarrow> inbox_poke_pending (schedulers k ! ?e) \<or> ?e \<noteq> c"
    "poke_pending (port k') = (if ?e \<noteq> c \<and> \<not> inbox_poke_pending (schedulers k ! ?e)
       then (poke_pending (port k))(?e := True) else poke_pending (port k))"
    using set_thread_ready_frame [OF K(1) c K(4) _ e, of a k'] K(2,3) id y m'(1) by metis
  have len: "?e < length (schedulers k)" using pv(1) e by (simp add: port_inv_def)
  have same: "current_thread (schedulers k' ! d) = current_thread (schedulers k ! d)"
    "idle_thread (schedulers k' ! d) = idle_thread (schedulers k ! d)"
    "inbox_poke_pending (schedulers k' ! d) \<longleftrightarrow> inbox_poke_pending (schedulers k ! d) \<or> d = ?e \<and> ?e \<noteq> c" for d
    using s'(1-4) len by (auto simp: nth_list_update)
  have at: "t \<in> members (lists_woken c h t L ?e) \<union> set (inboxes_woken c h t R ?e)"
    by (simp add: lists_woken_def inboxes_woken_def members_enlist)
  have ge: "members (L d) \<union> set (R d) \<subseteq> members (lists_woken c h t L d) \<union> set (inboxes_woken c h t R d)" for d
    by (auto simp: lists_woken_def inboxes_woken_def members_enlist)
  show "accounted U k' (\<lambda>v. filter (\<lambda>q. fst q \<noteq> t) (Q v)) (lists_woken c h t L) (inboxes_woken c h t R)"
    unfolding accounted_def same
  proof (intro ballI conjI)
    fix x assume x: "x \<in> U"
    show "\<forall>d < CORES. idle_thread (schedulers k ! d) \<noteq> Some x" using acc x by (simp add: accounted_def)
    show "(\<exists>v. x \<in> fst ` set (filter (\<lambda>q. fst q \<noteq> t) (Q v))) \<or> (\<exists>d < CORES. current_thread (schedulers k ! d) = Some x \<or>
        x \<in> members (lists_woken c h t L d) \<union> set (inboxes_woken c h t R d))"
    proof (cases "x = t")
      case True
      then show ?thesis using at e by blast
    next
      case False
      then have "x \<in> fst ` set (filter (\<lambda>q. fst q \<noteq> t) (Q v))" if "x \<in> fst ` set (Q v)" for v using that by auto
      then show ?thesis using acc x ge unfolding accounted_def by blast
    qed
  qed
  have "inboxes_woken c h t R d \<noteq> [] \<Longrightarrow> R d \<noteq> [] \<or> d = ?e \<and> ?e \<noteq> c" for d
    by (auto simp: inboxes_woken_def split: if_splits)
  then show "poked {} k' (inboxes_woken c h t R)"
    using pk unfolding poked_def same s'(5) by auto
qed

section \<open>The calls keep the accounts\<close>

text \<open>The invariant of the running kernel together with the accounts.\<close>

definition settled ::
  "tcb_ptr set \<Rightarrow> tcb_ptr set \<Rightarrow> kernel \<Rightarrow> (waitable_ptr \<Rightarrow> node_ptr list) \<Rightarrow> (nat \<Rightarrow> ready_lists) \<Rightarrow>
   (nat \<Rightarrow> tcb_ptr list) \<Rightarrow> (nat \<Rightarrow> nat) \<Rightarrow> bool" where
  "settled U T k Q L R n \<longleftrightarrow> kernel_inv {} T k Q L R n \<and> accounted U k Q L R \<and> poked {} k R"

lemma settledD:
  assumes "settled U T k Q L R n"
  shows "kernel_inv {} T k Q L R n" "accounted U k Q L R" "poked {} k R"
  using assms by (simp_all add: settled_def)

text \<open>
  Giving up core \<open>c\<close>, or not; the poke flag of the core itself may have been taken before when it does.
\<close>

lemma maybe_switch_settled:
  assumes inv: "kernel_inv {} T k Q L R n" and c: "c < CORES" and n: "n c + length (R c) \<le> 2 ^ 62"
    and acc: "accounted U k Q L R" and pk: "poked (if b then {c} else {}) k R"
  shows "\<exists>k' L' R' n'. (if b then cortos_port_pend_reschedule c k else Some k) = Some k' \<and>
    settled U T k' Q L' R' n' \<and> (\<forall>d. n' d + length (R' d) \<le> n d + length (R d))"
proof (cases b)
  case False
  then show ?thesis using inv acc pk
    by (intro exI [of _ k] exI [of _ L] exI [of _ R] exI [of _ n]) (simp add: settled_def)
next
  case True
  obtain p where p: "current_thread (schedulers k ! c) = Some p" "t_state (tcbs (mem k) p) = Running"
    by (rule kernel_inv_current [OF inv c]) simp
  have "poked {c} k R" using pk True by simp
  then obtain k' L' where k': "cortos_port_pend_reschedule c k = Some k'"
    "kernel_inv ({} - {c}) T k' Q L' (R(c := [])) (n(c := n c + length (R c)))"
    "accounted U k' Q L' (R(c := []))" "poked ({c} - {c}) k' (R(c := []))"
    using pend_reschedule_accounts [OF inv c n p(1) acc] p(2) by metis
  then show ?thesis using True
    by (intro exI [of _ k'] exI [of _ L'] exI [of _ "R(c := [])"] exI [of _ "n(c := n c + length (R c))"])
      (simp add: settled_def)
qed

lemma wait_for_any_settled:
  assumes st: "settled U T k Q L R n" and c: "c < CORES" and n: "n c + length (R c) \<le> 2 ^ 62"
    and cur: "current_thread (schedulers k ! c) = Some t" "idle_thread (schedulers k ! c) \<noteq> Some t"
    and ws: "ws \<noteq> []" "length ws \<le> MAX_WAIT_NODES" "nullptr \<notin> set ws" "distinct ws"
  shows "\<exists>k' L' R' n'. wait_for_any c ws k = Some k' \<and> settled U T k' (add_nodes t 0 ws Q) L' R' n' \<and>
    (\<forall>d. n' d + length (R' d) \<le> n d + length (R d))"
proof -
  note inv = settledD(1) [OF st]
  let ?Q = "add_nodes t 0 ws Q"
  obtain m where m: "wait_prepare c ws k = Some (k\<lparr>mem := m\<rparr>)" "kernel_inv {c} T (k\<lparr>mem := m\<rparr>) ?Q L R n"
    by (rule wait_prepare_kernel_inv [OF inv c cur ws]) (rule that)
  have "current_of c (k\<lparr>mem := m\<rparr>) = Some t"
    using kernel_inv_core_ready [OF inv c, of 0] cur(1)
    by (simp add: current_of_def scheduler_for_core_def this_core_def)
  then obtain es where es: "wait_for_any c ws k = cortos_port_pend_reschedule c (log_hooks es (k\<lparr>mem := m\<rparr>))"
    using m(1) by (auto simp: wait_for_any_def wait_commence_def notify_block_current_thread_def Let_def)
  let ?k = "log_hooks es (k\<lparr>mem := m\<rparr>)"
  have inv1: "kernel_inv {c} T ?k ?Q L R n" using m(2) by simp
  have sc: "schedulers ?k = schedulers k" "port ?k = port k" by (simp_all add: log_hooks_def)
  have more: "x \<in> fst ` set (?Q w)" if "x \<in> fst ` set (Q w)" for x w
  proof (cases "w \<in> set ws")
    case True
    then obtain i where "i < length ws" "w = ws ! i" by (auto simp: in_set_conv_nth)
    then show ?thesis using that add_nodes_nth [OF ws(4), of i t 0 Q] by auto
  qed (use that add_nodes_notin in metis)
  have acc: "accounted U ?k ?Q L R"
    using settledD(2) [OF st] more unfolding accounted_def sc by blast
  have "?Q (ws ! 0) = Q (ws ! 0) @ [(t, 0)]" using add_nodes_nth [OF ws(4), of 0 t 0 Q] ws(1) by simp
  then have "\<exists>w. t \<in> fst ` set (?Q w)" by (intro exI [of _ "ws ! 0"]) simp
  moreover have "poked {} ?k R" using settledD(3) [OF st] by (simp add: poked_def sc)
  moreover have "current_thread (schedulers ?k ! c) = Some t" using cur(1) sc by simp
  ultimately obtain k' L' where "cortos_port_pend_reschedule c ?k = Some k'"
    "kernel_inv ({c} - {c}) T k' ?Q L' (R(c := [])) (n(c := n c + length (R c)))"
    "accounted U k' ?Q L' (R(c := []))" "poked ({} - {c}) k' (R(c := []))"
    using pend_reschedule_accounts [OF inv1 c n _ acc] by metis
  then show ?thesis using es
    by (intro exI [of _ k'] exI [of _ L'] exI [of _ "R(c := [])"] exI [of _ "n(c := n c + length (R c))"])
      (simp add: settled_def)
qed

lemma wake_settled:
  assumes st: "settled U T k Q L R n" and p: "p \<in> set (Q w)" and c: "c < CORES"
    and room: "t_pinned_core (tcbs (mem k) (fst p)) \<noteq> c \<Longrightarrow>
      length (R (t_pinned_core (tcbs (mem k) (fst p)))) < INBOX_CAP"
  obtains a k' where "wake_thread c p acquired k = Some (a, k')"
    "settled U T k' (\<lambda>v. filter (\<lambda>q. fst q \<noteq> fst p) (Q v)) (lists_woken c (tcbs (mem k)) (fst p) L)
       (inboxes_woken c (tcbs (mem k)) (fst p) R) n"
    "\<forall>x. t_pinned_core (tcbs (mem k') x) = t_pinned_core (tcbs (mem k) x)"
proof -
  note inv = settledD(1) [OF st]
  obtain u where u: "current_thread (schedulers k ! c) = Some u" by (rule kernel_inv_current [OF inv c])
  obtain a k' where k': "wake_thread c p acquired k = Some (a, k')"
    "kernel_inv {} T k' (\<lambda>v. filter (\<lambda>q. fst q \<noteq> fst p) (Q v)) (lists_woken c (tcbs (mem k)) (fst p) L)
       (inboxes_woken c (tcbs (mem k)) (fst p) R) n" "wake_effect c p acquired (mem k) (mem k')"
    using wake_kernel_inv [OF inv p c u room] by metis
  show thesis
    by (rule that [OF k'(1)])
      (use k'(2,3) wake_accounts [OF inv p c k'(1) settledD(2,3) [OF st]]
       in \<open>simp_all add: settled_def wake_effect_def same_thread_def\<close>)
qed

lemma signal_one_settled:
  assumes st: "settled U T k Q L R n" and c: "c < CORES" and w: "w \<noteq> nullptr"
    and n: "n c + length (R c) \<le> 2 ^ 62" and room: "inbox_room c (tcbs (mem k)) R (Q w)"
  shows "\<exists>k' Q' L' R' n'. signal_one c w acquired k = Some k' \<and> settled U T k' Q' L' R' n' \<and>
    (\<forall>d. n' d + length (R' d) \<le> n d + length (R d) + 1)"
proof (cases "best_waiter (mem k) (Q w)")
  case None
  then have "signal_one c w acquired k = Some k"
    using kernel_pick_best [OF settledD(1) [OF st] c w] by (simp add: signal_one_def)
  then show ?thesis using st
    by (intro exI [of _ k] exI [of _ Q] exI [of _ L] exI [of _ R] exI [of _ n]) simp
next
  case (Some p)
  have p: "p \<in> set (Q w)" by (rule kernel_best_waiter(2) [OF settledD(1) [OF st] Some])
  let ?h = "tcbs (mem k)" and ?Q = "\<lambda>v. filter (\<lambda>q. fst q \<noteq> fst p) (Q v)"
  let ?R = "inboxes_woken c ?h (fst p) R"
  obtain a k1 where k1: "wake_thread c p acquired k = Some (a, k1)" "settled U T k1 ?Q (lists_woken c ?h (fst p) L) ?R n"
    by (rule wake_settled [OF st p c inbox_room_one [OF room p]])
  have s1: "signal_one c w acquired k = (if a = RA_Reschedule then cortos_port_pend_reschedule c k1 else Some k1)"
    using kernel_pick_best [OF settledD(1) [OF st] c w] Some k1(1) by (simp add: signal_one_def)
  have n1: "n c + length (?R c) \<le> 2 ^ 62" using n by (simp add: inboxes_woken_def)
  have pk: "poked (if b then {c} else {}) k1 ?R" for b using settledD(3) [OF k1(2)] by (simp add: poked_def)
  obtain k' L' R' n' where k': "signal_one c w acquired k = Some k'" "settled U T k' ?Q L' R' n'"
    "\<forall>d. n' d + length (R' d) \<le> n d + length (?R d)"
    using maybe_switch_settled [OF settledD(1) [OF k1(2)] c n1 settledD(2) [OF k1(2)] pk, of "a = RA_Reschedule"]
    unfolding s1 by metis
  have "n' d + length (R' d) \<le> n d + length (R d) + 1" for d
    using k'(3) [rule_format, of d] by (auto simp: inboxes_woken_def split: if_splits)
  then show ?thesis using k'(1,2) by blast
qed

lemma signal_loop_settled:
  assumes "settled U T k Q L R n" and c: "c < CORES" and w: "w \<noteq> nullptr" and "inbox_room c (tcbs (mem k)) R (Q w)"
  shows "\<exists>b' k' Q' L' R'. signal_loop c w acquired b k = Some (b', k') \<and> settled U T k' Q' L' R' n \<and>
    R' c = R c \<and> (\<forall>d. length (R' d) \<le> length (R d) + length (Q w))"
  using assms(1,4)
proof (induction "length (Q w)" arbitrary: k Q L R b)
  case 0
  note inv = settledD(1) [OF 0(2)]
  have "best_waiter (mem k) (Q w) = None" using kernel_best_waiter(1) [OF inv, of w] 0(1) by simp
  then have "signal_loop c w acquired b k = Some (b, k)"
    using kernel_pick_best [OF inv c w] by (subst signal_loop.simps) simp
  then show ?case using 0(2) by (intro exI [of _ b] exI [of _ k] exI [of _ Q] exI [of _ L] exI [of _ R]) simp
next
  case (Suc len)
  note st = Suc.prems(1)
  note inv = settledD(1) [OF st]
  obtain p where best: "best_waiter (mem k) (Q w) = Some p" and p: "p \<in> set (Q w)"
    using kernel_best_waiter [OF inv] Suc.hyps(2) by (metis length_0_conv nat.distinct(1) option.exhaust)
  let ?h = "tcbs (mem k)" and ?Q = "\<lambda>v. filter (\<lambda>q. fst q \<noteq> fst p) (Q v)"
  let ?R = "inboxes_woken c ?h (fst p) R"
  obtain a k1 where k1: "wake_thread c p acquired k = Some (a, k1)" "settled U T k1 ?Q (lists_woken c ?h (fst p) L) ?R n"
    "\<forall>x. t_pinned_core (tcbs (mem k1) x) = t_pinned_core (?h x)"
    by (rule wake_settled [OF st p c inbox_room_one [OF Suc.prems(2) p]])
  have Qw: "?Q w = remove1 p (Q w)" by (rule filter_owner [OF kernel_invD(1) [OF inv] p])
  then have len: "len = length (?Q w)" using Suc.hyps(2) p by (simp add: length_remove1)
  have room1: "inbox_room c (tcbs (mem k1)) ?R (?Q w)"
    unfolding Qw by (rule inbox_room_step [OF Suc.prems(2) p]) (use k1(3) in blast)
  obtain b' k' Q' L' R' where l: "signal_loop c w acquired (b \<or> a = RA_Reschedule) k1 = Some (b', k')"
    "settled U T k' Q' L' R' n" "R' c = ?R c" "\<forall>d. length (R' d) \<le> length (?R d) + length (?Q w)"
    using Suc.hyps(1) [OF len k1(2) room1, of "b \<or> a = RA_Reschedule"] by blast
  have "signal_loop c w acquired b k = Some (b', k')"
    using kernel_pick_best [OF inv c w] best k1(1) l(1) by (subst signal_loop.simps) simp
  moreover have "length (R' d) \<le> length (R d) + length (Q w)" for d
    using l(4) [rule_format, of d] Suc.hyps(2) len by (auto simp: inboxes_woken_def split: if_splits)
  moreover have "R' c = R c" using l(3) by (simp add: inboxes_woken_def)
  ultimately show ?case using l(2) by blast
qed

lemma signal_all_settled:
  assumes st: "settled U T k Q L R n" and c: "c < CORES" and w: "w \<noteq> nullptr"
    and n: "n c + length (R c) \<le> 2 ^ 62" and room: "inbox_room c (tcbs (mem k)) R (Q w)"
  shows "\<exists>k' Q' L' R' n'. signal_all c w acquired k = Some k' \<and> settled U T k' Q' L' R' n' \<and>
    (\<forall>d. n' d + length (R' d) \<le> n d + length (R d) + length (Q w))"
proof -
  obtain b k1 Q1 L1 R1 where l: "signal_loop c w acquired False k = Some (b, k1)" "settled U T k1 Q1 L1 R1 n"
    "R1 c = R c" "\<forall>d. length (R1 d) \<le> length (R d) + length (Q w)"
    using signal_loop_settled [OF st c w room, of acquired False] by blast
  have s1: "signal_all c w acquired k = (if b then cortos_port_pend_reschedule c k1 else Some k1)"
    using l(1) by (simp add: signal_all_def)
  have pk: "poked (if b then {c} else {}) k1 R1" using settledD(3) [OF l(2)] by (simp add: poked_def)
  have n1: "n c + length (R1 c) \<le> 2 ^ 62" using n l(3) by simp
  obtain k' L' R' n' where k': "signal_all c w acquired k = Some k'" "settled U T k' Q1 L' R' n'"
    "\<forall>d. n' d + length (R' d) \<le> n d + length (R1 d)"
    using maybe_switch_settled [OF settledD(1) [OF l(2)] c n1 settledD(2) [OF l(2)] pk] unfolding s1 by metis
  have "n' d + length (R' d) \<le> n d + length (R d) + length (Q w)" for d
    using k'(3) [rule_format, of d] l(4) [rule_format, of d] by linarith
  then show ?thesis using k'(1,2) by blast
qed

section \<open>The boot starts the accounts\<close>

text \<open>Before the cores run nobody posts to an inbox.\<close>

definition unmarked :: "kernel \<Rightarrow> bool" where
  "unmarked k \<longleftrightarrow> (\<forall>s \<in> set (schedulers k). \<not> inbox_poke_pending s)"

lemma unmarked_sel [simp]:
  "unmarked (k\<lparr>mem := m\<rparr>) = unmarked k" "unmarked (set_tcbs h k) = unmarked k" "unmarked (set_port p k) = unmarked k"
  "unmarked (k\<lparr>active_threads := n\<rparr>) = unmarked k" "unmarked (k\<lparr>k_locked := b\<rparr>) = unmarked k"
  "unmarked (k\<lparr>running := b\<rparr>) = unmarked k" "unmarked (k\<lparr>initialised := b\<rparr>) = unmarked k"
  "unmarked (k\<lparr>thread_id_generator := i\<rparr>) = unmarked k"
  by (simp_all add: unmarked_def set_tcbs_def set_port_def)

lemma running_sel [simp]:
  "running (set_tcbs h k) = running k" "running (set_port p k) = running k" "running (set_scheduler c s k) = running k"
  by (simp_all add: set_tcbs_def set_port_def set_scheduler_def)

lemma unmarked_upd: "unmarked k \<Longrightarrow> \<not> inbox_poke_pending s \<Longrightarrow> unmarked (set_scheduler c s k)"
  using set_update_subset_insert [of "schedulers k" c s] by (auto simp: unmarked_def set_scheduler_def)

lemma unmarked_lookup: "scheduler_for_core c k = Some s \<Longrightarrow> unmarked k \<Longrightarrow> \<not> inbox_poke_pending s"
  by (auto simp: scheduler_for_core_def unmarked_def split: if_splits bind_splits)

lemma unmarked_kernel_lock:
  "lock_kernel c k = Some k' \<Longrightarrow> unmarked k \<Longrightarrow> unmarked k' \<and> running k' = running k"
  "unlock_kernel c k = Some k' \<Longrightarrow> unmarked k \<Longrightarrow> unmarked k' \<and> running k' = running k"
  by (auto simp: lock_kernel_def unlock_kernel_def on_scheduler_def disable_preemption_def enable_preemption_def
      split: bind_splits if_splits intro!: unmarked_upd dest: unmarked_lookup) (use unmarked_lookup in blast)+

lemma unmarked_pin:
  "pin_thread_to_core t k = Some k' \<Longrightarrow> unmarked k \<Longrightarrow> unmarked k' \<and> running k' = running k"
  by (auto simp: pin_thread_to_core_def pin_thread_def Let_def
      split: bind_splits intro!: unmarked_upd dest: unmarked_lookup)

lemma unmarked_set_thread_ready:
  assumes "set_thread_ready c t k = Some (a, k')" "unmarked k" "\<not> running k"
  shows "unmarked k' \<and> \<not> running k' \<and> a = RA_None"
proof -
  obtain s h' s' where s: "scheduler_for_core (t_pinned_core (tcbs (mem k) t)) k = Some s"
    "sched_set_thread_ready t (tcbs (mem k), s) = Some (h', s')" "a = RA_None"
    "k' = set_scheduler (t_pinned_core (tcbs (mem k) t)) s' (set_tcbs h' k)"
    using assms(1,3) by (auto simp: set_thread_ready_def Let_def split: bind_splits if_splits)
  have "\<not> inbox_poke_pending s'"
    using sched_set_thread_ready_frame [OF s(2)] unmarked_lookup [OF s(1) assms(2)] by auto
  then show ?thesis using assms(2,3) s(3,4) by (auto intro: unmarked_upd)
qed

lemma unmarked_create:
  "create_threads A c sps k = Some (ths, k') \<Longrightarrow> unmarked k \<Longrightarrow> \<not> running k \<Longrightarrow> unmarked k' \<and> \<not> running k'"
proof (induction sps arbitrary: k ths)
  case (Cons sp sps)
  obtain th k1 ths1 where k1: "make_Thread A c (sp_entry sp) (sp_stack sp) (sp_priority sp) (sp_affinity sp) k = Some (th, k1)"
    "create_threads A c sps k1 = Some (ths1, k')" using Cons.prems(1) by (auto split: bind_splits)
  have "unmarked k1 \<and> \<not> running k1"
    using k1(1) Cons.prems(2,3)
    by (auto simp: make_Thread_def register_thread_def generate_thread_id_def Let_def split: bind_splits if_splits
        dest!: unmarked_kernel_lock unmarked_pin unmarked_set_thread_ready)
  then show ?case using Cons.IH [OF k1(2)] by blast
qed simp

lemma unmarked_idle_threads:
  "init_idle_threads A f cs k = Some k' \<Longrightarrow> unmarked k \<Longrightarrow> unmarked k' \<and> running k' = running k"
proof (induction cs arbitrary: k)
  case (Cons c cs)
  obtain k1 where k1: "init_idle_thread A f c k = Some k1" "init_idle_threads A f cs k1 = Some k'"
    using Cons.prems(1) by (auto split: bind_splits)
  have "unmarked k1 \<and> running k1 = running k"
    using k1(1) Cons.prems(2)
    by (auto simp: init_idle_thread_def Let_def split: bind_splits intro!: unmarked_upd dest: unmarked_lookup)
  then show ?case using Cons.IH [OF k1(2)] by simp
qed simp

lemma unmarked_enter: "enter_cores cs k = Some k' \<Longrightarrow> unmarked k \<Longrightarrow> unmarked k'"
proof (induction cs arbitrary: k)
  case (Cons c cs)
  obtain k1 where k1: "core_entry c k = Some k1" "enter_cores cs k1 = Some k'"
    using Cons.prems(1) by (auto split: bind_splits)
  have "unmarked k1"
    using k1(1) Cons.prems(2)
    by (auto simp: core_entry_def sched_start_def Let_def split: bind_splits if_splits intro!: unmarked_upd)
      (use unmarked_lookup in blast)
  then show ?case using Cons.IH [OF k1(2)] by simp
qed simp

lemma boot_unmarked:
  assumes "boot A idle_task stacks m sps = Some k"
  shows "unmarked k"
proof -
  obtain k0 ths k1 k2 where b: "initialise A idle_task (Kernel_init stacks m) = Some k0" "create_threads A 0 sps k0 = Some (ths, k1)"
    "start k1 = Some k2" "enter_cores [0..<CORES] k2 = Some k" using assms by (auto simp: boot_def split: bind_splits)
  have i: "unmarked (Kernel_init stacks m)" "\<not> running (Kernel_init stacks m)"
    by (auto simp: unmarked_def Kernel_init_def Scheduler_init_def)
  have "unmarked k0 \<and> \<not> running k0"
    using b(1) i by (auto simp: initialise_def Let_def split: bind_splits if_splits dest!: unmarked_idle_threads)
  then have "unmarked k1" using unmarked_create [OF b(2)] by blast
  then have "unmarked k2" using b(3) by (auto simp: start_def Let_def split: bind_splits if_splits)
  then show ?thesis by (rule unmarked_enter [OF b(4)])
qed

lemma boot_settled:
  assumes w: "\<And>w. waitables m w = Waitable_init" and ok: "boot_ok A stacks sps" and k: "boot A idle_task stacks m sps = Some k"
  obtains L where "settled (spec_tcb A ` set sps) (boot_threads A stacks sps) k (\<lambda>_. []) L (\<lambda>_. []) (\<lambda>_. 0)"
proof -
  let ?U = "spec_tcb A ` set sps"
  obtain L where L: "kernel_inv {} (boot_threads A stacks sps) k (\<lambda>_. []) L (\<lambda>_. []) (\<lambda>_. 0)"
    "\<forall>c < CORES. idle_thread (schedulers k ! c) = Some (idle_tcb A stacks c)"
    "\<forall>c < CORES. members (L c) = {t \<in> ?U. t_pinned_core (tcbs (mem k) t) = c \<and> current_thread (schedulers k ! c) \<noteq> Some t}"
    using boot_running [OF w ok, of idle_task] k by auto
  have pin: "t_pinned_core (tcbs (mem k) t) < CORES" if "t \<in> ?U" for t
    using kernel_invD(4) [OF L(1), of t] that by (simp add: thread_inv_def Let_def boot_threads_def)
  have "idle_thread (schedulers k ! c) \<noteq> Some t" if "c < CORES" "t \<in> ?U" for c t
    using L(2) boot_okD(6) [OF ok] that by auto
  moreover have "\<exists>c < CORES. current_thread (schedulers k ! c) = Some t \<or> t \<in> members (L c) \<union> set []" if "t \<in> ?U" for t
    using L(3) pin [OF that] that by (intro exI [of _ "t_pinned_core (tcbs (mem k) t)"]) auto
  ultimately have "accounted ?U k (\<lambda>_. []) L (\<lambda>_. [])" unfolding accounted_def by blast
  moreover have "poked {} k (\<lambda>_. [])"
    using boot_unmarked [OF k] kernel_invD(2) [OF L(1)] by (simp add: poked_def unmarked_def port_inv_def)
  ultimately show thesis using that [of L] L(1) by (simp add: settled_def)
qed

section \<open>Where a thread is\<close>

datatype place = Executing | In_ready_list | In_inbox | On_queues

fun located ::
  "kernel \<Rightarrow> (waitable_ptr \<Rightarrow> node_ptr list) \<Rightarrow> (nat \<Rightarrow> ready_lists) \<Rightarrow> (nat \<Rightarrow> tcb_ptr list) \<Rightarrow> tcb_ptr \<Rightarrow> place \<Rightarrow> bool"
where
  "located k Q L R t Executing \<longleftrightarrow> current_thread (schedulers k ! t_pinned_core (tcbs (mem k) t)) = Some t"
| "located k Q L R t In_ready_list \<longleftrightarrow> t \<in> members (L (t_pinned_core (tcbs (mem k) t)))"
| "located k Q L R t In_inbox \<longleftrightarrow> t \<in> set (R (t_pinned_core (tcbs (mem k) t)))"
| "located k Q L R t On_queues \<longleftrightarrow> (\<exists>w. t \<in> fst ` set (Q w))"

lemma sched_rep_apart:
  assumes "sched_rep n (h, s) L R"
  shows "current_thread s = Some x \<Longrightarrow> x \<notin> members L \<union> set R" "x \<in> set R \<Longrightarrow> x \<notin> members L"
  using assms by (auto simp: sched_rep_def)

lemma settled_located:
  assumes st: "settled U T k Q L R n" and t: "t \<in> U" "t \<in> T"
  shows "\<exists>!x. located k Q L R t x"
proof -
  let ?d = "t_pinned_core (tcbs (mem k) t)"
  note inv = settledD(1) [OF st]
  have pin: "?d = c" if "c < CORES" "current_thread (schedulers k ! c) = Some t \<or> t \<in> members (L c) \<union> set (R c)" for c
    using kernel_invD(3) [OF inv that(1)] that(2) by (auto simp: core_inv_def current_ok_def sched_rep_def)
  have d: "?d < CORES" using kernel_invD(4) [OF inv t(2)] by (simp add: thread_inv_def Let_def)
  have rep: "sched_rep (n ?d) (tcbs (mem k), schedulers k ! ?d) (L ?d) (R ?d)"
    using kernel_invD(3) [OF inv d] by (simp add: core_inv_def)
  have q: "\<not> located k Q L R t x" if "located k Q L R t On_queues" "x \<noteq> On_queues" for x
  proof -
    have "slots (mem k) t \<noteq> {}"
      using that(1) wait_invD(2) [OF kernel_invD(1) [OF inv]] by (fastforce simp: live_node_def slots_def)
    then have "parked k L R t" by (rule waiting_parked [OF inv t(2)]) simp
    then show ?thesis using that(2) d by (cases x) (auto simp: parked_def)
  qed
  have "\<exists>x. located k Q L R t x"
  proof (cases "\<exists>w. t \<in> fst ` set (Q w)")
    case True
    then show ?thesis by (intro exI [of _ On_queues]) simp
  next
    case False
    then obtain c where c: "c < CORES" "current_thread (schedulers k ! c) = Some t \<or> t \<in> members (L c) \<union> set (R c)"
      using settledD(2) [OF st] t(1) unfolding accounted_def by blast
    then show ?thesis using pin [OF c] by (auto intro: exI [of _ Executing] exI [of _ In_ready_list] exI [of _ In_inbox])
  qed
  moreover have "x = y" if xy: "located k Q L R t x" "located k Q L R t y" for x y
  proof (cases "x = On_queues \<or> y = On_queues")
    case True
    then show ?thesis using q xy by metis
  next
    case False
    have "\<not> (located k Q L R t Executing \<and> (located k Q L R t In_ready_list \<or> located k Q L R t In_inbox))"
      "\<not> (located k Q L R t In_ready_list \<and> located k Q L R t In_inbox)"
      using sched_rep_apart [OF rep] by auto
    then show ?thesis using xy False by (cases x; cases y) simp_all
  qed
  ultimately show ?thesis by blast
qed

end
