(* ===== verification/Kernel_System.thy ===== *)
theory Kernel_System
  imports Thread_Accounting
begin

text \<open>
  The kernel as a whole: what each call promises in a running kernel, and the invariant of every
  sequence of calls from the boot on.  A call is one step: calls of different cores may follow each
  other in any order, and \<open>remote_wake_during_wait\<close> shows what may happen when another core acts in the
  middle of a wait.
\<close>

section \<open>Yielding\<close>

text \<open>The chosen thread is at the head of its level.\<close>

lemma first_ready_head:
  assumes lv: "\<And>j t. t \<in> set (L j) \<Longrightarrow> f t = j" and f: "first_ready L = Some t"
  shows "t = hd (L (f t))"
proof -
  obtain ts where e: "by_level MAX_PRIORITIES L = t # ts"
    using f by (auto simp: first_ready_def split: list.splits)
  have s: "sorted (map f (t # ts))" using by_level_sorted [of L f MAX_PRIORITIES, OF lv] e by simp
  have "t \<in> set (by_level MAX_PRIORITIES L)" by (simp add: e)
  then have t: "t \<in> set (L (f t))" "f t < MAX_PRIORITIES" using lv by (auto simp: set_by_level)
  have low: "L j = []" if j: "j < f t" for j
  proof (rule ccontr)
    assume "L j \<noteq> []"
    then obtain y where y: "y \<in> set (L j)" by (cases "L j") auto
    then have "y \<in> set (by_level MAX_PRIORITIES L)" using j t(2) by (auto simp: set_by_level)
    then have "f t \<le> f y" using s by (auto simp: e)
    then show False using lv [OF y] j by simp
  qed
  obtain x xs where x: "L (f t) = x # xs" using t(1) by (cases "L (f t)") auto
  then have "by_level MAX_PRIORITIES L = x # by_level MAX_PRIORITIES (L(f t := xs))"
    by (intro by_level_pop [OF t(2)] low)
  then show ?thesis using e x by simp
qed

text \<open>A thread that keeps the core on a reschedule is strictly better than every other.\<close>

lemma next_thread_rotates:
  assumes rep: "sched_rep n (h, s) L R" and cur: "current_ok (h, s) p"
    and w: "next_thread i (enlist h (R @ rotation h s p) L) = p" "idle_thread s = Some i" "i \<noteq> p"
    and t: "t \<in> members L \<union> set R"
  shows "tcb_level h p < tcb_level h t"
proof -
  let ?L = "enlist h (R @ rotation h s p) L"
  have lv: "\<And>j t. t \<in> set (?L j) \<Longrightarrow> tcb_level h t = j"
    using rep matrix_rep_member [of h "ready_matrix s" L] by (auto simp: enlist_def sched_rep_def tcb_level_def)
  have f: "first_ready ?L = Some p" using w by (auto simp: next_thread_def split: option.splits)
  have np: "p \<notin> members L" "p \<notin> set R" using current_not_listed [OF rep] cur by (auto simp: current_ok_def)
  have tL: "t \<in> members ?L" using t by (auto simp: members_enlist)
  have "tcb_level h p \<noteq> tcb_level h t"
  proof
    assume eq: "tcb_level h p = tcb_level h t"
    let ?X = "L (tcb_level h t) @ filter (\<lambda>x. tcb_level h x = tcb_level h t) R"
    have "t \<in> set ?X"
    proof (cases "t \<in> set R")
      case False
      then obtain j where "t \<in> set (L j)" using t by (auto simp: members_def)
      then show ?thesis using lv [of t j] by (auto simp: enlist_def)
    qed simp
    then obtain x xs where x: "?X = x # xs" by (cases ?X) auto
    have "?L (tcb_level h p) = ?X @ filter (\<lambda>x. tcb_level h x = tcb_level h t) (rotation h s p)"
      by (simp add: enlist_def eq)
    then have "hd (?L (tcb_level h p)) = x" unfolding x by simp
    then have "p = x" using first_ready_head [of ?L "tcb_level h" p, OF lv f] by simp
    moreover have "x \<in> set ?X" by (simp only: x list.set_intros)
    ultimately show False using np by (auto simp: members_def)
  qed
  moreover have "tcb_level h p \<le> tcb_level h t" using next_thread_best(1) [OF rep cur tL, of i] w(1) by simp
  ultimately show ?thesis by simp
qed

text \<open>
  Giving up the core without blocking.  The threads that compete for it: those on the ready lists, then those
  requested in the inbox and then the caller, each at the back of its level.  The idle thread does not compete.
\<close>

definition contenders :: "kernel \<Rightarrow> nat \<Rightarrow> tcb_ptr \<Rightarrow> ready_lists \<Rightarrow> tcb_ptr list \<Rightarrow> ready_lists" where
  "contenders k c p L R =
     enlist (tcbs (mem k)) (R @ (if idle_thread (schedulers k ! c) = Some p then [] else [p])) L"

text \<open>The caller is the last of its level; the one that runs next was the first of its own.\<close>

lemma contenders_last:
  assumes "idle_thread (schedulers k ! c) \<noteq> Some p" "nxt \<noteq> p"
  shows "\<exists>ys. delist nxt (contenders k c p L R) (tcb_level (tcbs (mem k)) p) = ys @ [p]"
  using assms by (simp add: contenders_def enlist_def delist_def remove1_append)

lemma contenders_first:
  assumes lv: "\<And>j t. t \<in> set (L j) \<Longrightarrow> tcb_level (tcbs (mem k)) t = j"
    and f: "first_ready (contenders k c p L R) = Some nxt"
  shows "nxt = hd (contenders k c p L R (tcb_level (tcbs (mem k)) nxt))"
  by (rule first_ready_head [OF _ f]) (use lv in \<open>auto simp: contenders_def enlist_def split: if_splits\<close>)

lemma yield_kernel_inv:
  assumes inv: "kernel_inv {} T k Q L R n" and c: "c < CORES" and n: "n c + length (R c) \<le> 2 ^ 62"
    and cur: "current_thread (schedulers k ! c) = Some p"
  obtains k' nxt where "yield c k = Some k'"
    "kernel_inv {} T k' Q (L(c := delist nxt (contenders k c p (L c) (R c)))) (R(c := [])) (n(c := n c + length (R c)))"
    "current_thread (schedulers k' ! c) = Some nxt"
    "\<forall>i. idle_thread (schedulers k ! c) = Some i \<longrightarrow> nxt = next_thread i (contenders k c p (L c) (R c))"
    "\<forall>t \<in> members (L c) \<union> set (R c) \<union> (if idle_thread (schedulers k ! c) = Some p then {} else {p}).
       t_effective_priority (tcbs (mem k) nxt) \<le> t_effective_priority (tcbs (mem k) t)"
    "nxt = p \<longrightarrow> idle_thread (schedulers k ! c) \<noteq> Some p \<longrightarrow> (\<forall>t \<in> members (L c) \<union> set (R c).
       t_effective_priority (tcbs (mem k) p) < t_effective_priority (tcbs (mem k) t))"
    "nxt \<noteq> p \<longrightarrow> t_state (tcbs (mem k') p) = Ready"
proof -
  let ?h = "tcbs (mem k)" and ?s = "schedulers k ! c"
  let ?L = "competing k c p (L c) (R c)"
  obtain i' where i: "idle_thread ?s = Some i'" using kernel_invD(3) [OF inv c] by (auto simp: core_inv_def)
  have run: "t_state (?h p) = Running" "current_ok (?h, ?s) p"
    using kernel_inv_current [OF inv c] cur by (metis empty_iff option.inject)+
  have rep: "sched_rep (n c) (?h, ?s) (L c) (R c)" using kernel_invD(3) [OF inv c] by (simp add: core_inv_def)
  have rot: "rotation ?h ?s p = (if idle_thread ?s = Some p then [] else [p])" using run by (simp add: rotation_def)
  have M: "?L = contenders k c p (L c) (R c)" by (simp add: competing_def contenders_def rot)
  have W: "winner k c ?L = next_thread i' (enlist ?h (R c @ rotation ?h ?s p) (L c))"
    by (simp add: winner_def i competing_def)
  obtain k' where k': "cortos_port_pend_reschedule c k = Some k'"
    "kernel_inv ({} - {c}) T k' Q (L(c := delist (winner k c ?L) ?L)) (R(c := [])) (n(c := n c + length (R c)))"
    "current_thread (schedulers k' ! c) = Some (winner k c ?L)"
    "switched c p (winner k c ?L) ?h (tcbs (mem k')) (members ?L)"
    "nodes (mem k') = nodes (mem k)" "hooks k' = hooks k" by (rule pend_reschedule_inv [OF inv c n cur])
  have best: "t_effective_priority (?h (winner k c ?L)) \<le> t_effective_priority (?h t)"
    if "t \<in> members (L c) \<union> set (R c) \<union> (if idle_thread ?s = Some p then {} else {p})" for t
    using next_thread_best(1) [OF rep run(2), of t i'] that unfolding W
    by (auto simp: members_enlist rot tcb_level_def word_le_nat_alt split: if_splits)
  have strict: "t_effective_priority (?h p) < t_effective_priority (?h t)"
    if "winner k c ?L = p" "idle_thread ?s \<noteq> Some p" "t \<in> members (L c) \<union> set (R c)" for t
    using next_thread_rotates [OF rep run(2) that(1) [unfolded W] i _ that(3)] that(2) i
    by (simp add: tcb_level_def word_less_nat_alt)
  have ready: "t_state (tcbs (mem k') p) = Ready" if "winner k c ?L \<noteq> p"
    using k'(4) that run(1) by (simp add: switched_def)
  have nxt: "winner k c ?L = next_thread i (contenders k c p (L c) (R c))" if "idle_thread ?s = Some i" for i
    using that by (simp add: winner_def M)
  have "yield c k = Some k'" using k'(1) by (simp add: yield_def)
  then show thesis by (rule that [OF _ _ k'(3)]) (use k'(2) M nxt best strict ready in simp_all)
qed

text \<open>
  C14: in a running kernel \<^verbatim>\<open>yield\<close> succeeds and is a round of the round robin: the threads of the inbox and then the caller,
  unless it is the idle thread, go to the back of their levels of the ready lists; the first thread of the
  best level that is not empty is taken off and runs next, or the idle thread when all levels are empty.  So no ready or requested
  thread beats the next one in priority; a caller that does not run on is \<^const>\<open>Ready\<close> and the last of its level; it runs on only when it
  is strictly better than every other.  The invariant of the kernel is kept, and the lists of other cores are not touched.
\<close>

theorem yield_round_robin:
  assumes "kernel_inv {} T k Q L R n" "c < CORES" "n c + length (R c) \<le> 2 ^ 62"
    and "current_thread (schedulers k ! c) = Some p" "idle_thread (schedulers k ! c) = Some i"
  shows "\<exists>k' nxt. yield c k = Some k' \<and>
    kernel_inv {} T k' Q (L(c := delist nxt (contenders k c p (L c) (R c)))) (R(c := [])) (n(c := n c + length (R c))) \<and>
    current_thread (schedulers k' ! c) = Some nxt \<and>
    (case first_ready (contenders k c p (L c) (R c)) of None \<Rightarrow> nxt = i
     | Some t \<Rightarrow> nxt = t \<and> t = hd (contenders k c p (L c) (R c) (tcb_level (tcbs (mem k)) t))) \<and>
    (\<forall>t \<in> members (L c) \<union> set (R c) \<union> (if p = i then {} else {p}).
       t_effective_priority (tcbs (mem k) nxt) \<le> t_effective_priority (tcbs (mem k) t)) \<and>
    (nxt = p \<and> p \<noteq> i \<longrightarrow>
       (\<forall>t \<in> members (L c) \<union> set (R c). t_effective_priority (tcbs (mem k) p) < t_effective_priority (tcbs (mem k) t))) \<and>
    (nxt \<noteq> p \<longrightarrow> t_state (tcbs (mem k') p) = Ready) \<and>
    (nxt \<noteq> p \<and> p \<noteq> i \<longrightarrow>
       (\<exists>ys. delist nxt (contenders k c p (L c) (R c)) (tcb_level (tcbs (mem k)) p) = ys @ [p]))"
proof -
  let ?M = "contenders k c p (L c) (R c)"
  obtain k' nxt where k': "yield c k = Some k'"
    "kernel_inv {} T k' Q (L(c := delist nxt ?M)) (R(c := [])) (n(c := n c + length (R c)))"
    "current_thread (schedulers k' ! c) = Some nxt" "\<forall>i. idle_thread (schedulers k ! c) = Some i \<longrightarrow> nxt = next_thread i ?M"
    "\<forall>t \<in> members (L c) \<union> set (R c) \<union> (if idle_thread (schedulers k ! c) = Some p then {} else {p}).
       t_effective_priority (tcbs (mem k) nxt) \<le> t_effective_priority (tcbs (mem k) t)"
    "nxt = p \<longrightarrow> idle_thread (schedulers k ! c) \<noteq> Some p \<longrightarrow> (\<forall>t \<in> members (L c) \<union> set (R c).
       t_effective_priority (tcbs (mem k) p) < t_effective_priority (tcbs (mem k) t))"
    "nxt \<noteq> p \<longrightarrow> t_state (tcbs (mem k') p) = Ready"
    by (rule yield_kernel_inv [OF assms(1-4)])
  have lv: "tcb_level (tcbs (mem k)) t = j" if "t \<in> set (L c j)" for t j
    using kernel_invD(3) [OF assms(1,2)] matrix_rep_member [of "tcbs (mem k)" "ready_matrix (schedulers k ! c)" "L c"] that
    by (auto simp: core_inv_def sched_rep_def tcb_level_def)
  have "case first_ready ?M of None \<Rightarrow> nxt = i | Some t \<Rightarrow> nxt = t \<and> t = hd (?M (tcb_level (tcbs (mem k)) t))"
    using k'(4) assms(5) contenders_first [OF lv] by (auto simp: next_thread_def split: option.split)
  moreover have "\<exists>ys. delist nxt ?M (tcb_level (tcbs (mem k)) p) = ys @ [p]" if "nxt \<noteq> p" "p \<noteq> i"
    using contenders_last [of k c p nxt] that assms(5) by simp
  moreover have idle: "idle_thread (schedulers k ! c) = Some p \<longleftrightarrow> p = i" using assms(5) by auto
  ultimately show ?thesis using k'(1-3,7) k'(5,6) [unfolded idle]
    by (intro exI [of _ k'] exI [of _ nxt]) blast
qed

theorem yield_round_robin_witness:
  "\<exists>k k' nxt. boot demo_abi 0 demo_stacks demo_mem demo_specs = Some k \<and> yield 0 k = Some k' \<and>
     current_thread (schedulers k' ! 0) = Some nxt \<and> t_effective_priority (tcbs (mem k) nxt) \<le> 5"
proof -
  obtain k L where k: "boot demo_abi 0 demo_stacks demo_mem demo_specs = Some k"
    "kernel_inv {} {0x10D00, 0x11D00, 0x12D00, 0x13D00, 0x100D00, 0x200D00, 0x300D00} k (\<lambda>_. []) L (\<lambda>_. []) (\<lambda>_. 0)"
    "current_thread (schedulers k ! 0) = Some 0x100D00" "t_effective_priority (tcbs (mem k) 0x100D00) = 5"
    "idle_thread (schedulers k ! 0) = Some 0x10D00" using demo_running by metis
  have c: "0 < CORES" by (simp add: CORES_def)
  show ?thesis
    using yield_round_robin [OF k(2) c _ k(3,5)] k(1,4) by auto
qed

section \<open>Waiting\<close>

text \<open>
  C9: in a running kernel \<^verbatim>\<open>wait_for_any\<close>, called by a thread that is not the idle thread on at most
  \<^const>\<open>MAX_WAIT_NODES\<close> different waitables, succeeds: the caller is \<^const>\<open>Blocked\<close> with one node at the
  back of the queue of each waitable, numbered in the order of the arguments; another thread runs on
  the core, one at least as good as every thread that was ready there or in the inbox; the hook of each waitable has been called with a snapshot of the caller, in order; and the
  invariant of the kernel is kept.
\<close>

theorem wait_for_any_blocks:
  assumes "kernel_inv {} T k Q L R n" "c < CORES" "n c + length (R c) \<le> 2 ^ 62"
    and "current_thread (schedulers k ! c) = Some t" "idle_thread (schedulers k ! c) \<noteq> Some t"
    and "ws \<noteq> []" "length ws \<le> MAX_WAIT_NODES" "nullptr \<notin> set ws" "distinct ws"
  shows "\<exists>k' nxt Q' L'. wait_for_any c ws k = Some k' \<and>
    kernel_inv {} T k' Q' L' (R(c := [])) (n(c := n c + length (R c))) \<and>
    (\<forall>i < length ws. Q' (ws ! i) = Q (ws ! i) @ [(t, i)]) \<and> (\<forall>w. w \<notin> set ws \<longrightarrow> Q' w = Q w) \<and>
    current_thread (schedulers k' ! c) = Some nxt \<and> nxt \<noteq> t \<and> t_state (tcbs (mem k') t) = Blocked \<and>
    (\<forall>x \<in> members (L c) \<union> set (R c). t_effective_priority (tcbs (mem k) nxt) \<le> t_effective_priority (tcbs (mem k) x)) \<and>
    hooks k' = hooks k @ map (\<lambda>w. on_thread_blocked w (create_waiter (tcbs (mem k) t))) ws"
proof (rule wait_for_any_switches [OF assms], goal_cases)
  case (1 k' nxt L')
  then show ?case
    using add_nodes_nth [OF assms(9), of _ t 0 Q] add_nodes_notin [of _ ws t 0 Q]
    by (intro exI [of _ k'] exI [of _ nxt] exI [of _ "add_nodes t 0 ws Q"] exI [of _ L']) simp
qed

theorem wait_for_any_blocks_witness:
  "\<exists>k k' nxt. boot demo_abi 0 demo_stacks demo_mem demo_specs = Some k \<and>
     wait_for_any 0 [0x900, 0x908] k = Some k' \<and> current_thread (schedulers k' ! 0) = Some nxt \<and>
     nxt \<noteq> 0x100D00 \<and> t_state (tcbs (mem k') 0x100D00) = Blocked"
proof -
  obtain k L where k: "boot demo_abi 0 demo_stacks demo_mem demo_specs = Some k"
    "kernel_inv {} {0x10D00, 0x11D00, 0x12D00, 0x13D00, 0x100D00, 0x200D00, 0x300D00} k (\<lambda>_. []) L (\<lambda>_. []) (\<lambda>_. 0)"
    "current_thread (schedulers k ! 0) = Some 0x100D00"
    "idle_thread (schedulers k ! 0) = Some 0x10D00" using demo_running by metis
  show ?thesis
    using wait_for_any_blocks [OF k(2) _ _ k(3), of "[0x900, 0x908]"] k(1,4)
    by (auto simp: CORES_def MAX_WAIT_NODES_def)
qed

section \<open>Signalling\<close>

text \<open>The best waiter is the head of the queue sorted stably by effective priority.\<close>

definition waiters_by_priority :: "kernel \<Rightarrow> node_ptr list \<Rightarrow> node_ptr list" where
  "waiters_by_priority k ps = sort_key (\<lambda>p. t_effective_priority (tcbs (mem k) (fst p))) ps"

lemma sort_key_cong:
  assumes "\<And>x. x \<in> set xs \<Longrightarrow> f x = g x"
  shows "sort_key f xs = sort_key g xs"
  using assms
proof (induction xs)
  case (Cons x xs)
  have ins: "insort_key f x ys = insort_key g x ys" if "\<And>y. y \<in> set ys \<Longrightarrow> f y = g y" for ys
    using that Cons.prems [of x] by (induction ys) auto
  have "insort_key f x (sort_key g xs) = insort_key g x (sort_key g xs)"
    by (rule ins) (use Cons.prems in simp)
  then show ?case using Cons by simp
qed simp

lemma kernel_best_sorted:
  assumes inv: "kernel_inv {} T k Q L R n"
  shows "best_waiter (mem k) (Q w) = (case waiters_by_priority k (Q w) of [] \<Rightarrow> None | p # _ \<Rightarrow> Some p)"
proof -
  have "waiter_priority (mem k) p = t_effective_priority (tcbs (mem k) (fst p))" if "p \<in> set (Q w)" for p
    using wait_inv_tcb(1) [OF kernel_invD(1) [OF inv], of p] wait_invD(2) [OF kernel_invD(1) [OF inv], of p w] that
    by (simp add: waiter_priority_def)
  then show ?thesis
    unfolding best_waiter_def waiters_by_priority_def wait_inv_pending [OF kernel_invD(1) [OF inv]]
    by (simp cong: sort_key_cong)
qed

text \<open>What a waiter on a waitable has become after a signal by core \<open>c\<close>.\<close>

definition woken :: "nat \<Rightarrow> kernel \<Rightarrow> (nat \<Rightarrow> tcb_ptr list) \<Rightarrow> tcb_ptr \<Rightarrow> bool" where
  "woken c k R t \<longleftrightarrow>
     (if t_pinned_core (tcbs (mem k) t) = c then t_state (tcbs (mem k) t) \<in> {Ready, Running}
      else t \<in> set (R (t_pinned_core (tcbs (mem k) t))))"

text \<open>With nobody waiting a signal does nothing.\<close>

lemma signal_one_empty:
  assumes inv: "kernel_inv {} T k Q L R n" and "c < CORES" "w \<noteq> nullptr" "Q w = []"
  shows "signal_one c w acquired k = Some k"
proof -
  have "best_waiter (mem k) (Q w) = None" using kernel_best_waiter(1) [OF inv] assms(4) by blast
  then show ?thesis using kernel_pick_best [OF assms(1-3)] by (simp add: signal_one_def)
qed

lemma signal_one_woken:
  assumes inv: "kernel_inv {} T k Q L R n" "c < CORES" "w \<noteq> nullptr" "n c + length (R c) \<le> 2 ^ 62"
    and best: "best_waiter (mem k) (Q w) = Some p" and cur: "current_thread (schedulers k ! c) = Some u"
    and room: "t_pinned_core (tcbs (mem k) (fst p)) \<noteq> c \<longrightarrow> length (R (t_pinned_core (tcbs (mem k) (fst p)))) < INBOX_CAP"
  obtains k' L' R' n' where "signal_one c w acquired k = Some k'"
    "kernel_inv {} T k' (\<lambda>v. filter (\<lambda>q. fst q \<noteq> fst p) (Q v)) L' R' n'"
    "block_result (fst p) (mem k') = wake_result (mem k) p acquired" "woken c k' R' (fst p)"
    "t_pinned_core (tcbs (mem k) (fst p)) = c \<and>
       t_effective_priority (tcbs (mem k) (fst p)) < t_effective_priority (tcbs (mem k) u) \<longrightarrow>
       t_state (tcbs (mem k') u) = Ready \<or> idle_thread (schedulers k ! c) = Some u"
proof -
  let ?d = "t_pinned_core (tcbs (mem k) (fst p))"
  obtain k' L' R' n' where k': "signal_one c w acquired k = Some k'"
    "kernel_inv {} T k' (\<lambda>v. filter (\<lambda>q. fst q \<noteq> fst p) (Q v)) L' R' n'"
    "block_result (fst p) (mem k') = wake_result (mem k) p acquired"
    "?d \<noteq> c \<longrightarrow> R' ?d = R ?d @ [fst p]" "?d = c \<longrightarrow> t_state (tcbs (mem k') (fst p)) \<in> {Ready, Running}"
    "?d = c \<longrightarrow> t_effective_priority (tcbs (mem k) (fst p)) < t_effective_priority (tcbs (mem k) u) \<longrightarrow>
       t_state (tcbs (mem k') u) = Ready \<or> idle_thread (schedulers k ! c) = Some u"
    "same_thread (tcbs (mem k) (fst p)) (tcbs (mem k') (fst p))"
    using signal_one_kernel_inv [OF inv best room [rule_format], of acquired] cur by metis
  have "woken c k' R' (fst p)" using k'(4,5,7) by (auto simp: woken_def same_thread_def)
  then show thesis using that k'(1-3,6) by blast
qed

text \<open>
  C8: in a running kernel \<^verbatim>\<open>signal_one\<close> does nothing when nobody waits on the waitable.  Otherwise it
  wakes exactly the waiter of best effective priority, the first of these in the queue: that thread
  leaves all queues it waited on, will find the position of this waitable and the flag as its result,
  and is ready or running on this core, or requested in the inbox of its own.  A thread that was
  running on this core with a worse priority gives way.  The invariant of the kernel is kept; the
  inboxes of other cores need room for their waiters.
\<close>

theorem signal_one_wakes_best:
  assumes "kernel_inv {} T k Q L R n" "c < CORES" "w \<noteq> nullptr" "n c + length (R c) \<le> 2 ^ 62"
    and "inbox_room c (tcbs (mem k)) R (Q w)" "current_thread (schedulers k ! c) = Some u"
  shows "(Q w = [] \<longrightarrow> signal_one c w acquired k = Some k) \<and>
    (\<forall>p ps. waiters_by_priority k (Q w) = p # ps \<longrightarrow> (\<exists>k' L' R' n'. signal_one c w acquired k = Some k' \<and>
       kernel_inv {} T k' (\<lambda>v. filter (\<lambda>q. fst q \<noteq> fst p) (Q v)) L' R' n' \<and>
       block_result (fst p) (mem k') = \<lparr>r_index = int (unat (n_index (nodes (mem k) p))), r_acquired = acquired\<rparr> \<and>
       woken c k' R' (fst p) \<and>
       (t_pinned_core (tcbs (mem k) (fst p)) = c \<and>
        t_effective_priority (tcbs (mem k) (fst p)) < t_effective_priority (tcbs (mem k) u) \<longrightarrow>
        t_state (tcbs (mem k') u) = Ready \<or> idle_thread (schedulers k ! c) = Some u)))"
proof (intro conjI impI allI)
  show "signal_one c w acquired k = Some k" if "Q w = []" by (rule signal_one_empty [OF assms(1-3) that])
  fix p ps assume "waiters_by_priority k (Q w) = p # ps"
  then have best: "best_waiter (mem k) (Q w) = Some p" using kernel_best_sorted [OF assms(1)] by simp
  have p: "p \<in> set (Q w)" by (rule kernel_best_waiter(2) [OF assms(1) best])
  let ?d = "t_pinned_core (tcbs (mem k) (fst p))"
  have room: "?d \<noteq> c \<longrightarrow> length (R ?d) < INBOX_CAP" using inbox_room_one [OF assms(5) p] by blast
  obtain k' L' R' n' where "signal_one c w acquired k = Some k'"
    "kernel_inv {} T k' (\<lambda>v. filter (\<lambda>q. fst q \<noteq> fst p) (Q v)) L' R' n'"
    "block_result (fst p) (mem k') = wake_result (mem k) p acquired" "woken c k' R' (fst p)"
    "?d = c \<and> t_effective_priority (tcbs (mem k) (fst p)) < t_effective_priority (tcbs (mem k) u) \<longrightarrow>
       t_state (tcbs (mem k') u) = Ready \<or> idle_thread (schedulers k ! c) = Some u"
    by (rule signal_one_woken [OF assms(1-4) best assms(6) room])
  then show "\<exists>k' L' R' n'. signal_one c w acquired k = Some k' \<and>
       kernel_inv {} T k' (\<lambda>v. filter (\<lambda>q. fst q \<noteq> fst p) (Q v)) L' R' n' \<and>
       block_result (fst p) (mem k') = \<lparr>r_index = int (unat (n_index (nodes (mem k) p))), r_acquired = acquired\<rparr> \<and>
       woken c k' R' (fst p) \<and>
       (?d = c \<and> t_effective_priority (tcbs (mem k) (fst p)) < t_effective_priority (tcbs (mem k) u) \<longrightarrow>
        t_state (tcbs (mem k') u) = Ready \<or> idle_thread (schedulers k ! c) = Some u)"
    unfolding wake_result_def by blast
qed

text \<open>The demonstration system after its thread on core 0 went to wait.\<close>

lemma demo_waiting:
  obtains k k' L u where "boot demo_abi 0 demo_stacks demo_mem demo_specs = Some k" "wait_for_any 0 [0x900] k = Some k'"
    "kernel_inv {} {0x10D00, 0x11D00, 0x12D00, 0x13D00, 0x100D00, 0x200D00, 0x300D00} k'
       ((\<lambda>_. [])(0x900 := [(0x100D00, 0)])) L (\<lambda>_. []) (\<lambda>_. 0)"
    "n_index (nodes (mem k') (0x100D00, 0)) = 0" "t_pinned_core (tcbs (mem k') 0x100D00) = 0"
    "current_thread (schedulers k' ! 1) = Some u"
proof -
  obtain k L where k: "boot demo_abi 0 demo_stacks demo_mem demo_specs = Some k"
    "kernel_inv {} {0x10D00, 0x11D00, 0x12D00, 0x13D00, 0x100D00, 0x200D00, 0x300D00} k (\<lambda>_. []) L (\<lambda>_. []) (\<lambda>_. 0)"
    "current_thread (schedulers k ! 0) = Some 0x100D00" "t_pinned_core (tcbs (mem k) 0x100D00) = 0"
    "idle_thread (schedulers k ! 0) = Some 0x10D00" using demo_running by metis
  have c: "0 < CORES" "1 < CORES" by (simp_all add: CORES_def)
  have idle: "idle_thread (schedulers k ! 0) \<noteq> Some 0x100D00" using k(5) by simp
  obtain k' nxt L' where k': "wait_for_any 0 [0x900] k = Some k'"
    "kernel_inv {} {0x10D00, 0x11D00, 0x12D00, 0x13D00, 0x100D00, 0x200D00, 0x300D00} k'
       (add_nodes 0x100D00 0 [0x900] (\<lambda>_. [])) L' ((\<lambda>_. [])(0 := [])) ((\<lambda>_. 0)(0 := 0 + length []))"
    "\<forall>i < length [0x900 :: addr]. n_index (nodes (mem k') (0x100D00, i)) = of_nat i"
    "t_pinned_core (tcbs (mem k') 0x100D00) = t_pinned_core (tcbs (mem k) 0x100D00)"
    using wait_for_any_kernel_inv [OF k(2) c(1) _ k(3) idle, of "[0x900]"]
    by (simp add: MAX_WAIT_NODES_def) metis
  obtain u where "current_thread (schedulers k' ! 1) = Some u" by (rule kernel_inv_current [OF k'(2) c(2)])
  then show ?thesis using that [OF k(1) k'(1)] k'(2-4) k(4) by (simp add: fun_upd_idem)
qed

theorem signal_one_wakes_best_witness:
  "\<exists>k k1 k2. boot demo_abi 0 demo_stacks demo_mem demo_specs = Some k \<and> wait_for_any 0 [0x900] k = Some k1 \<and>
     signal_one 1 0x900 True k1 = Some k2 \<and> block_result 0x100D00 (mem k2) = \<lparr>r_index = 0, r_acquired = True\<rparr>"
proof -
  obtain k k1 L u where k: "boot demo_abi 0 demo_stacks demo_mem demo_specs = Some k" "wait_for_any 0 [0x900] k = Some k1"
    "kernel_inv {} {0x10D00, 0x11D00, 0x12D00, 0x13D00, 0x100D00, 0x200D00, 0x300D00} k1
       ((\<lambda>_. [])(0x900 := [(0x100D00, 0)])) L (\<lambda>_. []) (\<lambda>_. 0)"
    "n_index (nodes (mem k1) (0x100D00, 0)) = 0" "current_thread (schedulers k1 ! 1) = Some u"
    using demo_waiting by metis
  have q: "waiters_by_priority k1 (((\<lambda>_. [])(0x900 := [(0x100D00, 0)])) 0x900) = [(0x100D00, 0)]"
    by (simp add: waiters_by_priority_def)
  have room: "inbox_room 1 (tcbs (mem k1)) (\<lambda>_. []) (((\<lambda>_. [])(0x900 := [(0x100D00, 0)])) 0x900)"
    by (simp add: inbox_room_def INBOX_CAP_def)
  have "1 < CORES" by (simp add: CORES_def)
  then obtain k2 where "signal_one 1 0x900 True k1 = Some k2"
    "block_result 0x100D00 (mem k2) = \<lparr>r_index = int (unat (n_index (nodes (mem k1) (0x100D00, 0)))), r_acquired = True\<rparr>"
    using signal_one_wakes_best [OF k(3) _ _ _ room k(5), of True, THEN conjunct2, rule_format, OF _ _ _ q]
    by auto
  then show ?thesis using k(1,2,4) by auto
qed

text \<open>A thread in the ready lists of the core is ready or running after a reschedule.\<close>

lemma switched_member:
  assumes inv: "kernel_inv {} T k' Q (L(c := delist nxt M)) R n" and c: "c < CORES"
    and sw: "switched c p nxt h (tcbs (mem k')) (members M)" and t: "t \<in> members M"
  shows "t_state (tcbs (mem k') t) \<in> {Ready, Running}"
proof (cases "t = nxt")
  case True
  then show ?thesis using sw by (simp add: switched_def)
next
  case False
  then obtain j where "t \<in> set (delist nxt M j)" using t by (auto simp: members_def delist_def)
  moreover have "matrix_rep (tcbs (mem k')) (ready_matrix (schedulers k' ! c)) (delist nxt M)"
    using kernel_invD(3) [OF inv c] by (simp add: core_inv_def sched_rep_def)
  ultimately show ?thesis using matrix_rep_member by blast
qed

text \<open>
  The ready lists and the inboxes when the owners of the nodes \<open>ps\<close> have been woken by core \<open>c\<close> in this order: each at the
  back of its level, or of the inbox of its own core.
\<close>

definition lists_after :: "nat \<Rightarrow> tcb_heap \<Rightarrow> node_ptr list \<Rightarrow> (nat \<Rightarrow> ready_lists) \<Rightarrow> nat \<Rightarrow> ready_lists" where
  "lists_after c h ps L = L(c := enlist h (map fst (filter (\<lambda>p. t_pinned_core (h (fst p)) = c) ps)) (L c))"

definition inboxes_after :: "nat \<Rightarrow> tcb_heap \<Rightarrow> node_ptr list \<Rightarrow> (nat \<Rightarrow> tcb_ptr list) \<Rightarrow> nat \<Rightarrow> tcb_ptr list" where
  "inboxes_after c h ps R =
     (\<lambda>d. if d = c then R c else R d @ map fst (filter (\<lambda>p. t_pinned_core (h (fst p)) = d) ps))"

lemma lists_after_Cons:
  assumes "\<And>x. same_thread (h x) (h' x)"
  shows "lists_after c h' ps (lists_woken c h (fst p) L) = lists_after c h (p # ps) L"
proof -
  have "t_pinned_core (h' x) = t_pinned_core (h x)" "tcb_level h' x = tcb_level h x" for x
    using assms [of x] by (simp_all add: same_thread_def tcb_level_def)
  then show ?thesis by (auto simp: lists_after_def lists_woken_def enlist_def fun_eq_iff)
qed

lemma inboxes_after_Cons:
  assumes "\<And>x. same_thread (h x) (h' x)"
  shows "inboxes_after c h' ps (inboxes_woken c h (fst p) R) = inboxes_after c h (p # ps) R"
proof -
  have "t_pinned_core (h' x) = t_pinned_core (h x)" for x using assms [of x] by (simp add: same_thread_def)
  then show ?thesis by (auto simp: inboxes_after_def inboxes_woken_def fun_eq_iff)
qed

text \<open>Without the best waiter the others follow in the same order.\<close>

lemma waiters_by_priority_tl:
  assumes inv: "kernel_inv {} T k Q L R n" and ps: "waiters_by_priority k (Q w) = p # ps"
    and same: "\<And>x. same_thread (tcbs (mem k) x) (tcbs (mem k') x)"
  shows "waiters_by_priority k' (filter (\<lambda>q. fst q \<noteq> fst p) (Q w)) = ps"
proof -
  let ?f = "\<lambda>p. t_effective_priority (tcbs (mem k) (fst p))"
  have "inj_on fst (set (Q w))"
    using wait_invD(2,6) [OF kernel_invD(1) [OF inv]] by (intro inj_onI) metis
  moreover have "set (Q w) = set (p # ps)" "distinct (p # ps)"
    using ps distinct_queue [OF kernel_invD(1) [OF inv], of w] unfolding waiters_by_priority_def
    by (metis set_sort, metis distinct_sort)
  ultimately have "\<forall>q \<in> set ps. fst q \<noteq> fst p" by (auto simp: inj_on_def)
  then have "filter (\<lambda>q. fst q \<noteq> fst p) (p # ps) = ps" by simp
  moreover have "sort_key ?f (filter (\<lambda>q. fst q \<noteq> fst p) (Q w)) = filter (\<lambda>q. fst q \<noteq> fst p) (sort_key ?f (Q w))"
    by (simp add: filter_sort)
  moreover have f: "(\<lambda>p. t_effective_priority (tcbs (mem k') (fst p))) = ?f" using same by (simp add: same_thread_def)
  ultimately show ?thesis using ps unfolding waiters_by_priority_def f by simp
qed

text \<open>The loop of \<^verbatim>\<open>signal_all\<close> wakes the waiters in the order of their priorities.\<close>

lemma signal_loop_order:
  assumes "kernel_inv {} T k Q L R n" and c: "c < CORES" and w: "w \<noteq> nullptr"
    and "current_thread (schedulers k ! c) = Some u" and "inbox_room c (tcbs (mem k)) R (Q w)"
  shows "\<exists>b' k'. signal_loop c w acquired b k = Some (b', k') \<and>
    kernel_inv {} T k' (\<lambda>v. filter (\<lambda>q. fst q \<notin> fst ` set (Q w)) (Q v))
      (lists_after c (tcbs (mem k)) (waiters_by_priority k (Q w)) L)
      (inboxes_after c (tcbs (mem k)) (waiters_by_priority k (Q w)) R) n"
  using assms(1,4,5)
proof (induction "waiters_by_priority k (Q w)" arbitrary: k Q L R b)
  case Nil
  then have Q: "Q w = []" by (metis length_0_conv length_sort waiters_by_priority_def)
  then have "best_waiter (mem k) (Q w) = None" using kernel_best_waiter(1) [OF Nil(2), of w] by blast
  then have "signal_loop c w acquired b k = Some (b, k)"
    using kernel_pick_best [OF Nil(2) c w] by (subst signal_loop.simps) simp
  moreover have "inboxes_after c h [] R = R" for h by (auto simp: inboxes_after_def)
  ultimately show ?case using Nil Q by (simp add: lists_after_def waiters_by_priority_def)
next
  case (Cons p ps)
  note inv = Cons.prems(1) and wv = kernel_invD(1) [OF Cons.prems(1)]
  have best: "best_waiter (mem k) (Q w) = Some p" using kernel_best_sorted [OF inv, of w] Cons.hyps(2) [symmetric] by simp
  have p: "p \<in> set (Q w)" by (rule kernel_best_waiter(2) [OF inv best])
  let ?h = "tcbs (mem k)" and ?t = "fst p" and ?Q = "\<lambda>v. filter (\<lambda>q. fst q \<noteq> fst p) (Q v)"
  obtain a k1 where r: "wake_thread c p acquired k = Some (a, k1)"
    "kernel_inv {} T k1 ?Q (lists_woken c ?h ?t L) (inboxes_woken c ?h ?t R) n"
    "wake_effect c p acquired (mem k) (mem k1)" "current_thread (schedulers k1 ! c) = Some u"
    by (rule wake_kernel_inv [OF inv p c Cons.prems(2) inbox_room_one [OF Cons.prems(3) p], of acquired]) (assumption, rule that)
  have same: "same_thread (?h x) (tcbs (mem k1) x)" for x using r(3) by (simp add: wake_effect_def)
  have room1: "inbox_room c (tcbs (mem k1)) (inboxes_woken c ?h ?t R) (?Q w)"
    unfolding filter_owner [OF wv p] by (rule inbox_room_step [OF Cons.prems(3) p]) (use same in \<open>simp add: same_thread_def\<close>)
  have tl: "ps = waiters_by_priority k1 (?Q w)"
    using waiters_by_priority_tl [OF inv Cons.hyps(2) [symmetric] same] by simp
  obtain b' k' where l: "signal_loop c w acquired (b \<or> a = RA_Reschedule) k1 = Some (b', k')"
    "kernel_inv {} T k' (\<lambda>v. filter (\<lambda>q. fst q \<notin> fst ` set (?Q w)) (?Q v))
      (lists_after c (tcbs (mem k1)) ps (lists_woken c ?h ?t L))
      (inboxes_after c (tcbs (mem k1)) ps (inboxes_woken c ?h ?t R)) n"
    using Cons.hyps(1) [OF tl r(2,4) room1, of "b \<or> a = RA_Reschedule"] tl by auto
  have "signal_loop c w acquired b k = Some (b', k')"
    using kernel_pick_best [OF inv c w] best r(1) l(1) by (subst signal_loop.simps) simp
  moreover have own: "fst ` set (Q w) = insert ?t (fst ` set (?Q w))" using p by auto
  have "(\<lambda>v. filter (\<lambda>q. fst q \<notin> fst ` set (?Q w)) (?Q v)) = (\<lambda>v. filter (\<lambda>q. fst q \<notin> fst ` set (Q w)) (Q v))"
    unfolding own by (auto simp: filter_filter fun_eq_iff intro!: filter_cong)
  ultimately show ?case
    using l(2) unfolding lists_after_Cons [OF same] inboxes_after_Cons [OF same] Cons.hyps(2) by auto
qed

lemma signal_all_kernel_inv:
  assumes inv: "kernel_inv {} T k Q L R n" and c: "c < CORES" and w: "w \<noteq> nullptr"
    and n: "n c + length (R c) \<le> 2 ^ 62" and room: "inbox_room c (tcbs (mem k)) R (Q w)"
  obtains k' L' R' n' where "signal_all c w acquired k = Some k'"
    "kernel_inv {} T k' (\<lambda>v. filter (\<lambda>q. fst q \<notin> fst ` set (Q w)) (Q v)) L' R' n'"
    "\<forall>p \<in> set (Q w). block_result (fst p) (mem k') = wake_result (mem k) p acquired"
    "\<forall>p \<in> set (Q w). woken c k' R' (fst p)"
    "\<forall>d. n' d + length (R' d) \<le> n d + length (R d) + length (Q w)"
    "\<forall>x. same_thread (tcbs (mem k) x) (tcbs (mem k') x)"
proof -
  obtain u where u: "current_thread (schedulers k ! c) = Some u" by (rule kernel_inv_current [OF inv c])
  let ?Q = "\<lambda>v. filter (\<lambda>q. fst q \<notin> fst ` set (Q w)) (Q v)"
  obtain b k1 L1 R1 where l: "signal_loop c w acquired False k = Some (b, k1)" "kernel_inv {} T k1 ?Q L1 R1 n"
    "current_thread (schedulers k1 ! c) = Some u" "R1 c = R c"
    "\<forall>p \<in> set (Q w). block_result (fst p) (mem k1) = wake_result (mem k) p acquired"
    "\<forall>x. same_thread (tcbs (mem k) x) (tcbs (mem k1) x)"
    "\<forall>d. length (R1 d) \<le> length (R d) + length (Q w)" "\<forall>p \<in> set (Q w). made_ready c (tcbs (mem k1)) R1 (fst p)"
    using signal_loop_kernel_inv [OF inv c w u room, of acquired False] by blast
  have wk: "woken c k1 R1 (fst p)" if "p \<in> set (Q w)" for p
    using l(8) that by (auto simp: woken_def made_ready_def split: if_splits)
  show thesis
  proof (cases b)
    case False
    then have "signal_all c w acquired k = Some k1" using l(1) by (simp add: signal_all_def)
    then show thesis by (rule that [OF _ l(2,5)]) (use wk l(6,7) in auto)
  next
    case True
    have n1: "n c + length (R1 c) \<le> 2 ^ 62" using n l(4) by simp
    let ?L = "competing k1 c u (L1 c) (R1 c)"
    obtain k' where k': "cortos_port_pend_reschedule c k1 = Some k'"
      "kernel_inv ({} - {c}) T k' ?Q (L1(c := delist (winner k1 c ?L) ?L)) (R1(c := [])) (n(c := n c + length (R1 c)))"
      "current_thread (schedulers k' ! c) = Some (winner k1 c ?L)"
      "switched c u (winner k1 c ?L) (tcbs (mem k1)) (tcbs (mem k')) (members ?L)"
      "nodes (mem k') = nodes (mem k1)" "hooks k' = hooks k1" by (rule pend_reschedule_inv [OF l(2) c n1 l(3)])
    have ev: "evolves (insert u (insert (winner k1 c ?L) (members ?L))) (tcbs (mem k1)) (tcbs (mem k'))"
      using k'(4) by (simp add: switched_def)
    have inv': "kernel_inv {} T k' ?Q (L1(c := delist (winner k1 c ?L) ?L)) (R1(c := [])) (n(c := n c + length (R1 c)))"
      using k'(2) by simp
    have "signal_all c w acquired k = Some k'" using l(1) True k'(1) by (simp add: signal_all_def)
    moreover have "block_result (fst p) (mem k') = wake_result (mem k) p acquired" if "p \<in> set (Q w)" for p
      using l(5) that by (simp add: block_result_def evolves_sel(4) [OF ev])
    moreover have "woken c k' (R1(c := [])) (fst p)" if p: "p \<in> set (Q w)" for p
    proof (cases "t_pinned_core (tcbs (mem k1) (fst p)) = c")
      case True
      have st: "t_state (tcbs (mem k1) (fst p)) = Ready" using l(8) p True by (simp add: made_ready_def)
      have "t_state (tcbs (mem k') (fst p)) \<in> {Ready, Running}"
      proof (cases "fst p \<in> members ?L")
        case True
        then show ?thesis by (rule switched_member [OF inv' c k'(4)])
      next
        case out: False
        show ?thesis
        proof (cases "fst p = winner k1 c ?L")
          case True
          then show ?thesis using k'(4) by (simp add: switched_def)
        next
          case False
          have "fst p \<noteq> u"
            using kernel_invD(3) [OF l(2) c] l(3) st by (auto simp: core_inv_def current_ok_def)
          then show ?thesis using evolves_sel(9) [OF ev, of "fst p"] out False st by simp
        qed
      qed
      then show ?thesis using True by (simp add: woken_def evolves_sel(3) [OF ev])
    next
      case False
      then show ?thesis using wk [OF p] by (simp add: woken_def evolves_sel(3) [OF ev])
    qed
    moreover have "same_thread (tcbs (mem k) x) (tcbs (mem k') x)" for x
      using same_thread_trans [OF _ evolves_same_thread [OF ev]] l(6) by blast
    moreover have "(n(c := n c + length (R1 c))) d + length ((R1(c := [])) d) \<le> n d + length (R d) + length (Q w)" for d
      using l(7) [rule_format, of d] by (cases "d = c") auto
    ultimately show thesis using that [OF _ inv'] by blast
  qed
qed

text \<open>
  C7: in a running kernel \<^verbatim>\<open>signal_all\<close> returns, and every thread that waited on the waitable is woken, in the order of
  effective priority and among equals in the order of the queue: its loop leaves the waiters of this core at the back of their levels of the
  ready lists in this order, and those of every other core at the back of the inbox of that core in this order, and nothing else on these
  lists is changed.  If a waiter of this core is better than the running thread, the core is then rescheduled: the requests of its
  inbox and the running thread, unless it is the idle thread, go to the back of their levels, and the first of the best level runs.  In the end
  every waiter is ready or running on this core or requested in the inbox of its own, is off all queues, and has the position of
  this waitable and the flag as its result.  No other thread leaves a queue, and the invariant of the kernel is kept; the
  inboxes of other cores need room for their waiters.
\<close>

theorem signal_all_wakes_all:
  assumes "kernel_inv {} T k Q L R n" "c < CORES" "w \<noteq> nullptr" "n c + length (R c) \<le> 2 ^ 62"
    and "inbox_room c (tcbs (mem k)) R (Q w)" "current_thread (schedulers k ! c) = Some u"
  defines "ps \<equiv> waiters_by_priority k (Q w)" and "Q' \<equiv> \<lambda>v. filter (\<lambda>q. fst q \<notin> fst ` set (Q w)) (Q v)"
  defines "L1 \<equiv> lists_after c (tcbs (mem k)) ps L" and "R1 \<equiv> inboxes_after c (tcbs (mem k)) ps R"
  shows "\<exists>b k1 k'. signal_loop c w acquired False k = Some (b, k1) \<and> signal_all c w acquired k = Some k' \<and>
    kernel_inv {} T k1 Q' L1 R1 n \<and>
    (b \<longleftrightarrow> (\<exists>p \<in> set (Q w). t_pinned_core (tcbs (mem k) (fst p)) = c \<and>
       t_effective_priority (tcbs (mem k) (fst p)) < t_effective_priority (tcbs (mem k) u))) \<and>
    (\<not> b \<longrightarrow> k' = k1) \<and>
    (b \<longrightarrow> (\<exists>nxt i. current_thread (schedulers k' ! c) = Some nxt \<and> idle_thread (schedulers k1 ! c) = Some i \<and>
       nxt = next_thread i (contenders k1 c u (L1 c) (R c)) \<and>
       kernel_inv {} T k' Q' (L1(c := delist nxt (contenders k1 c u (L1 c) (R c)))) (R1(c := [])) (n(c := n c + length (R c))))) \<and>
    (\<forall>p \<in> set (Q w). woken c k' R1 (fst p) \<and> block_result (fst p) (mem k') =
       \<lparr>r_index = int (unat (n_index (nodes (mem k) p))), r_acquired = acquired\<rparr>)"
proof -
  obtain b k1 where o: "signal_loop c w acquired False k = Some (b, k1)" "kernel_inv {} T k1 Q' L1 R1 n"
    using signal_loop_order [OF assms(1-3,6,5), of acquired False] unfolding ps_def Q'_def L1_def R1_def by blast
  have l: "current_thread (schedulers k1 ! c) = Some u"
    "b \<longleftrightarrow> (\<exists>p \<in> set (Q w). t_pinned_core (tcbs (mem k) (fst p)) = c \<and>
       t_effective_priority (tcbs (mem k) (fst p)) < t_effective_priority (tcbs (mem k) u))"
    using signal_loop_kernel_inv [OF assms(1-3,6,5), of acquired False] o(1) by auto
  obtain k' L' R' where k': "signal_all c w acquired k = Some k'"
    "\<forall>p \<in> set (Q w). block_result (fst p) (mem k') = wake_result (mem k) p acquired"
    "\<forall>p \<in> set (Q w). woken c k' R' (fst p)" "\<forall>x. same_thread (tcbs (mem k) x) (tcbs (mem k') x)"
    by (rule signal_all_kernel_inv [OF assms(1-5), of acquired]) (rule that)
  have s: "signal_all c w acquired k = (if b then yield c k1 else Some k1)"
    using o(1) by (simp add: signal_all_def yield_def)
  have Rc: "R1 c = R c" by (simp add: R1_def inboxes_after_def)
  have re: "\<exists>nxt i. current_thread (schedulers k' ! c) = Some nxt \<and> idle_thread (schedulers k1 ! c) = Some i \<and>
       nxt = next_thread i (contenders k1 c u (L1 c) (R c)) \<and>
       kernel_inv {} T k' Q' (L1(c := delist nxt (contenders k1 c u (L1 c) (R c)))) (R1(c := [])) (n(c := n c + length (R c)))"
    if b
  proof -
    have n1: "n c + length (R1 c) \<le> 2 ^ 62" using assms(4) Rc by simp
    obtain i where i: "idle_thread (schedulers k1 ! c) = Some i" using kernel_invD(3) [OF o(2) assms(2)] by (auto simp: core_inv_def)
    obtain k2 nxt where "yield c k1 = Some k2"
      "kernel_inv {} T k2 Q' (L1(c := delist nxt (contenders k1 c u (L1 c) (R1 c)))) (R1(c := [])) (n(c := n c + length (R1 c)))"
      "current_thread (schedulers k2 ! c) = Some nxt"
      "\<forall>i. idle_thread (schedulers k1 ! c) = Some i \<longrightarrow> nxt = next_thread i (contenders k1 c u (L1 c) (R1 c))"
      by (rule yield_kernel_inv [OF o(2) assms(2) n1 l(1)]) (rule that)
    then show ?thesis using s k'(1) \<open>b\<close> i Rc by auto
  qed
  have "woken c k' R1 (fst p)" if p: "p \<in> set (Q w)" for p
  proof (cases "t_pinned_core (tcbs (mem k') (fst p)) = c")
    case True
    then show ?thesis using k'(3) p by (auto simp: woken_def)
  next
    case False
    have "p \<in> set ps" using p by (simp add: ps_def waiters_by_priority_def)
    moreover have "t_pinned_core (tcbs (mem k') (fst p)) = t_pinned_core (tcbs (mem k) (fst p))"
      using k'(4) by (simp add: same_thread_def)
    ultimately show ?thesis using False by (auto simp: woken_def R1_def inboxes_after_def)
  qed
  then show ?thesis using o l(2) k'(1,2) s re unfolding wake_result_def
    by (intro exI [of _ b] exI [of _ k1] exI [of _ k']) (auto split: if_splits)
qed

theorem signal_all_wakes_all_witness:
  "\<exists>k k1 k2. boot demo_abi 0 demo_stacks demo_mem demo_specs = Some k \<and> wait_for_any 0 [0x900] k = Some k1 \<and>
     signal_all 1 0x900 False k1 = Some k2 \<and> block_result 0x100D00 (mem k2) = \<lparr>r_index = 0, r_acquired = False\<rparr>"
proof -
  obtain k k1 L u where k: "boot demo_abi 0 demo_stacks demo_mem demo_specs = Some k" "wait_for_any 0 [0x900] k = Some k1"
    "kernel_inv {} {0x10D00, 0x11D00, 0x12D00, 0x13D00, 0x100D00, 0x200D00, 0x300D00} k1
       ((\<lambda>_. [])(0x900 := [(0x100D00, 0)])) L (\<lambda>_. []) (\<lambda>_. 0)"
    "n_index (nodes (mem k1) (0x100D00, 0)) = 0" "current_thread (schedulers k1 ! 1) = Some u" using demo_waiting by metis
  have room: "inbox_room 1 (tcbs (mem k1)) (\<lambda>_. []) (((\<lambda>_. [])(0x900 := [(0x100D00, 0)])) 0x900)"
    by (simp add: inbox_room_def INBOX_CAP_def)
  have "1 < CORES" by (simp add: CORES_def)
  then show ?thesis
    using signal_all_wakes_all [OF k(3) _ _ _ room k(5), of False] k(1,2,4) by auto
qed

section \<open>Waiting and signalling together\<close>

text \<open>
  C4: a thread that waits on several waitables and is the only waiter of the \<open>i\<close>-th of them is woken by a
  signal of that one from any core \<open>d\<close>: it is ready or running if its core is \<open>d\<close>, and requested in the inbox of its core
  otherwise; it finds \<open>i\<close> and the flag of the signal as its result, and is off all queues.
\<close>

theorem wait_signal_roundtrip:
  assumes "kernel_inv {} T k Q L R n" "c < CORES" "n c + length (R c) \<le> 2 ^ 62"
    and "current_thread (schedulers k ! c) = Some t" "idle_thread (schedulers k ! c) \<noteq> Some t"
    and "ws \<noteq> []" "length ws \<le> MAX_WAIT_NODES" "nullptr \<notin> set ws" "distinct ws"
    and "i < length ws" "Q (ws ! i) = []" "d < CORES" "n d + length (R d) \<le> 2 ^ 62"
  shows "\<exists>k1 k2 Q' L' R' n'. wait_for_any c ws k = Some k1 \<and> signal_one d (ws ! i) acquired k1 = Some k2 \<and>
    kernel_inv {} T k2 Q' L' R' n' \<and> (\<forall>v j. (t, j) \<notin> set (Q' v)) \<and> woken d k2 R' t \<and>
    block_result t (mem k2) = \<lparr>r_index = int i, r_acquired = acquired\<rparr>"
proof -
  let ?R = "R(c := [])" and ?n = "n(c := n c + length (R c))" and ?w = "ws ! i"
  obtain k1 L1 where k1: "wait_for_any c ws k = Some k1" "kernel_inv {} T k1 (add_nodes t 0 ws Q) L1 ?R ?n"
    "\<forall>j < length ws. n_index (nodes (mem k1) (t, j)) = of_nat j"
    "t_pinned_core (tcbs (mem k1) t) = t_pinned_core (tcbs (mem k) t)"
    using wait_for_any_kernel_inv [OF assms(1-9)] by metis
  have q: "add_nodes t 0 ws Q ?w = [(t, i)]" using add_nodes_nth [OF assms(9,10), of t 0 Q] assms(11) by simp
  have w0: "?w \<noteq> nullptr" using assms(8,10) by (metis nth_mem)
  have best: "best_waiter (mem k1) (add_nodes t 0 ws Q ?w) = Some (t, i)"
    using kernel_best_sorted [OF k1(2), of ?w] q by (simp add: waiters_by_priority_def)
  have pin: "t_pinned_core (tcbs (mem k1) t) = c"
    using k1(4) kernel_invD(3) [OF assms(1,2)] assms(4) by (auto simp: core_inv_def current_ok_def)
  have nd: "?n d + length (?R d) \<le> 2 ^ 62" using assms(3,13) by simp
  have room: "t_pinned_core (tcbs (mem k1) (fst (t, i))) \<noteq> d \<longrightarrow>
      length (?R (t_pinned_core (tcbs (mem k1) (fst (t, i))))) < INBOX_CAP"
    using pin by (simp add: INBOX_CAP_def)
  obtain u where u: "current_thread (schedulers k1 ! d) = Some u" by (rule kernel_inv_current [OF k1(2) assms(12)])
  obtain k2 L' R' n' where k2: "signal_one d ?w acquired k1 = Some k2"
    "kernel_inv {} T k2 (\<lambda>v. filter (\<lambda>p. fst p \<noteq> fst (t, i)) (add_nodes t 0 ws Q v)) L' R' n'"
    "block_result (fst (t, i)) (mem k2) = wake_result (mem k1) (t, i) acquired" "woken d k2 R' (fst (t, i))"
    by (rule signal_one_woken [OF k1(2) assms(12) w0 nd best u room, of acquired]) (rule that)
  have "unat (of_nat i :: u8) = i" using assms(7,10) by (simp add: MAX_WAIT_NODES_def unat_of_nat take_bit_nat_eq_self)
  then have "block_result t (mem k2) = \<lparr>r_index = int i, r_acquired = acquired\<rparr>"
    using k2(3) k1(3) assms(10) by (simp add: wake_result_def)
  moreover have "(t, j) \<notin> set (filter (\<lambda>p. fst p \<noteq> fst (t, i)) (add_nodes t 0 ws Q v))" for v j by simp
  ultimately show ?thesis using k1(1) k2(1,2,4) by (metis fst_conv)
qed

theorem wait_signal_roundtrip_witness:
  "\<exists>k k1 k2. boot demo_abi 0 demo_stacks demo_mem demo_specs = Some k \<and>
     wait_for_any 0 [0x900, 0x908] k = Some k1 \<and> signal_one 1 0x908 True k1 = Some k2 \<and>
     block_result 0x100D00 (mem k2) = \<lparr>r_index = 1, r_acquired = True\<rparr>"
proof -
  obtain k L where k: "boot demo_abi 0 demo_stacks demo_mem demo_specs = Some k"
    "kernel_inv {} {0x10D00, 0x11D00, 0x12D00, 0x13D00, 0x100D00, 0x200D00, 0x300D00} k (\<lambda>_. []) L (\<lambda>_. []) (\<lambda>_. 0)"
    "current_thread (schedulers k ! 0) = Some 0x100D00"
    "idle_thread (schedulers k ! 0) = Some 0x10D00" using demo_running by metis
  obtain k1 k2 where "wait_for_any 0 [0x900, 0x908] k = Some k1"
    "signal_one 1 ([0x900, 0x908] ! 1) True k1 = Some k2"
    "block_result 0x100D00 (mem k2) = \<lparr>r_index = int 1, r_acquired = True\<rparr>"
    using wait_signal_roundtrip [OF k(2) _ _ k(3), of "[0x900, 0x908]" 1 1 True] k(4)
    by (simp add: CORES_def MAX_WAIT_NODES_def) metis
  then show ?thesis using k(1) by simp
qed

section \<open>Every sequence of calls\<close>

definition wait_args :: "waitable_ptr list \<Rightarrow> bool" where
  "wait_args ws \<longleftrightarrow> ws \<noteq> [] \<and> length ws \<le> MAX_WAIT_NODES \<and> nullptr \<notin> set ws \<and> distinct ws"

text \<open>A call by the thread that runs on core \<open>c\<close>; the idle thread runs its loop and does not wait.\<close>

inductive kernel_call :: "kernel \<Rightarrow> kernel \<Rightarrow> bool" where
  call_yield: "c < CORES \<Longrightarrow> yield c k = Some k' \<Longrightarrow> kernel_call k k'"
| call_idle: "c < CORES \<Longrightarrow> idle_task_round c k = Some k' \<Longrightarrow> kernel_call k k'"
| call_wait: "c < CORES \<Longrightarrow> current_thread (schedulers k ! c) = Some t \<Longrightarrow>
    idle_thread (schedulers k ! c) \<noteq> Some t \<Longrightarrow> wait_args ws \<Longrightarrow> wait_for_any c ws k = Some k' \<Longrightarrow> kernel_call k k'"
| call_signal_one: "c < CORES \<Longrightarrow> w \<noteq> nullptr \<Longrightarrow> signal_one c w acquired k = Some k' \<Longrightarrow> kernel_call k k'"
| call_signal_all: "c < CORES \<Longrightarrow> w \<noteq> nullptr \<Longrightarrow> signal_all c w acquired k = Some k' \<Longrightarrow> kernel_call k k'"

inductive kernel_calls :: "kernel \<Rightarrow> nat \<Rightarrow> kernel \<Rightarrow> bool" for k0 :: kernel where
  calls_none: "kernel_calls k0 0 k0"
| calls_more: "kernel_calls k0 s k \<Longrightarrow> kernel_call k k' \<Longrightarrow> kernel_calls k0 (Suc s) k'"

text \<open>
  The invariant after \<open>s\<close> calls: each call posts at most \<^const>\<open>INBOX_CAP\<close> requests to an inbox.
\<close>

definition system_inv :: "tcb_ptr set \<Rightarrow> tcb_ptr set \<Rightarrow> nat \<Rightarrow> kernel \<Rightarrow> bool" where
  "system_inv U T s k \<longleftrightarrow> (\<exists>Q L R n. settled U T k Q L R n \<and> (\<forall>d. n d + length (R d) \<le> INBOX_CAP * s))"

lemma settled_restrict:
  assumes "settled U T k Q L R n" "\<And>d. d < CORES \<Longrightarrow> R' d = R d"
  shows "settled U T k Q L R' n"
proof -
  have "kernel_inv {} T k Q L R' n"
    using assms unfolding settled_def kernel_inv_def thread_inv_def Let_def by simp
  moreover have "accounted U k Q L R'"
    using settledD(2) [OF assms(1)] assms(2) unfolding accounted_def by metis
  moreover have "poked {} k R'" using settledD(3) [OF assms(1)] assms(2) by (simp add: poked_def)
  ultimately show ?thesis by (simp add: settled_def)
qed

lemma kernel_inv_poke:
  "kernel_inv A T (set_port (snd (poke_exchange c (port k))) k) Q L R n = kernel_inv A T k Q L R n"
  by (simp add: kernel_inv_def port_inv_def core_inv_def thread_inv_def Let_def set_port_def poke_exchange_def
      pump_continues_def)

lemma distinct_waiters:
  assumes "wait_inv T X m Q"
  shows "distinct (map fst (Q w))"
proof -
  have "inj_on fst (set (Q w))"
  proof (rule inj_onI)
    fix p q assume "p \<in> set (Q w)" "q \<in> set (Q w)" "fst p = fst q"
    then show "p = q" using wait_invD(2,6) [OF assms] by metis
  qed
  then show ?thesis using distinct_queue [OF assms] by (simp add: distinct_map)
qed

text \<open>
  With at most \<^const>\<open>INBOX_CAP\<close> threads no inbox can overflow: a thread is at most once in an inbox, and
  not while it waits.
\<close>

lemma room_for_all:
  assumes inv: "kernel_inv {} T k Q L R n" and T: "finite T" "card T \<le> INBOX_CAP"
    and R: "\<And>d. \<not> d < CORES \<Longrightarrow> R d = []"
  shows "inbox_room c (tcbs (mem k)) R (Q w)" "length (Q w) \<le> INBOX_CAP"
proof -
  note wv = kernel_invD(1) [OF inv]
  have qT: "fst p \<in> T" "slots (mem k) (fst p) \<noteq> {}" if "p \<in> set (Q w)" for p
    using wait_invD(2) [OF wv, of p w] that by (auto simp: live_node_def slots_def)
  have "length (map fst (Q w)) = card (set (map fst (Q w)))"
    by (rule distinct_card [symmetric, OF distinct_waiters [OF wv]])
  also have "\<dots> \<le> card T" by (rule card_mono [OF T(1)]) (use qT in auto)
  finally show "length (Q w) \<le> INBOX_CAP" using T(2) by simp
  show "inbox_room c (tcbs (mem k)) R (Q w)" unfolding inbox_room_def
  proof (intro allI impI)
    fix d
    let ?F = "filter (\<lambda>p. t_pinned_core (tcbs (mem k) (fst p)) = d) (Q w)"
    show "length (R d) + length ?F \<le> INBOX_CAP"
    proof (cases "d < CORES")
      case True
      have rep: "sched_rep (n d) (tcbs (mem k), schedulers k ! d) (L d) (R d)" "set (R d) \<subseteq> T"
        using kernel_invD(3) [OF inv True] by (auto simp: core_inv_def)
      have "distinct (R d @ map fst ?F)"
      proof -
        have "distinct (R d)" using rep(1) by (simp add: sched_rep_def)
        moreover have "distinct (map fst ?F)" by (rule distinct_map_filter [OF distinct_waiters [OF wv]])
        moreover have "fst p \<notin> set (R d)" if "p \<in> set ?F" for p
          using kernel_invD(4) [OF inv qT(1) [of p]] qT(2) [of p] that by (auto simp: thread_inv_def Let_def)
        ultimately show ?thesis by auto
      qed
      then have "length (R d @ map fst ?F) = card (set (R d @ map fst ?F))" by (rule distinct_card [symmetric])
      also have "\<dots> \<le> card T" by (rule card_mono [OF T(1)]) (use rep(2) qT(1) in auto)
      finally show ?thesis using T(2) by simp
    next
      case False
      then have "R d = []" by (rule R)
      moreover have "length ?F \<le> INBOX_CAP"
        by (rule le_trans [OF length_filter_le \<open>length (Q w) \<le> INBOX_CAP\<close>])
      ultimately show ?thesis by simp
    qed
  qed
qed

lemma system_invE:
  assumes inv: "system_inv U T s k" and s: "s \<le> 2 ^ 50"
  obtains Q L R n where "settled U T k Q L R n" "\<forall>d. n d + length (R d) \<le> INBOX_CAP * s"
    "\<forall>d. \<not> d < CORES \<longrightarrow> R d = []" "\<forall>d. n d + length (R d) \<le> 2 ^ 62"
proof -
  obtain Q L R n where i: "settled U T k Q L R n" "\<And>d. n d + length (R d) \<le> INBOX_CAP * s"
    using inv by (auto simp: system_inv_def)
  let ?R = "\<lambda>d. if d < CORES then R d else []"
  have "settled U T k Q L ?R n" by (rule settled_restrict [OF i(1)]) simp
  moreover have b: "n d + length (?R d) \<le> INBOX_CAP * s" for d using i(2) [of d] by auto
  moreover have "n d + length (?R d) \<le> 2 ^ 62" for d
    using b [of d] s by (auto simp: INBOX_CAP_def intro: le_trans)
  ultimately show ?thesis using that [of Q L ?R n] by simp
qed

text \<open>Every legal call succeeds and keeps the invariant.\<close>

definition keeps :: "tcb_ptr set \<Rightarrow> tcb_ptr set \<Rightarrow> nat \<Rightarrow> kernel option \<Rightarrow> bool" where
  "keeps U T s r \<longleftrightarrow> (\<exists>k'. r = Some k' \<and> system_inv U T (Suc s) k')"

lemma keeps_Some [simp]: "keeps U T s (Some k') \<longleftrightarrow> system_inv U T (Suc s) k'"
  by (simp add: keeps_def)

lemma keepsI:
  assumes "r = Some k'" "settled U T k' Q' L' R' n'" "\<forall>d. n' d + length (R' d) \<le> n d + length (R d) + j"
    and "\<forall>d. n d + length (R d) \<le> INBOX_CAP * s" "j \<le> INBOX_CAP"
  shows "keeps U T s r"
proof -
  have "n' d + length (R' d) \<le> INBOX_CAP * Suc s" for d
    using assms(3,4) [rule_format, of d] assms(5) by simp
  then show ?thesis using assms(1,2) unfolding keeps_def system_inv_def by blast
qed

lemma system_yield:
  assumes "system_inv U T s k" "s \<le> 2 ^ 50" "c < CORES"
  shows "keeps U T s (yield c k)"
proof -
  obtain Q L R n where i: "settled U T k Q L R n" "\<forall>d. n d + length (R d) \<le> INBOX_CAP * s"
    "\<forall>d. n d + length (R d) \<le> 2 ^ 62" using system_invE [OF assms(1,2)] by metis
  have "poked (if True then {c} else {}) k R" using settledD(3) [OF i(1)] by (simp add: poked_def)
  then obtain k' L' R' n' where "cortos_port_pend_reschedule c k = Some k'" "settled U T k' Q L' R' n'"
    "\<forall>d. n' d + length (R' d) \<le> n d + length (R d) + 0"
    using maybe_switch_settled [OF settledD(1) [OF i(1)] assms(3) i(3) [rule_format] settledD(2) [OF i(1)]] by fastforce
  then show ?thesis unfolding yield_def by (rule keepsI [OF _ _ _ i(2)]) simp
qed

lemma system_idle:
  assumes "system_inv U T s k" "s \<le> 2 ^ 50" "c < CORES"
  shows "keeps U T s (idle_task_round c k)"
proof -
  let ?k = "set_port (snd (poke_exchange c (port k))) k"
  obtain Q L R n where i: "settled U T k Q L R n" "\<forall>d. n d + length (R d) \<le> INBOX_CAP * s"
    "\<forall>d. n d + length (R d) \<le> 2 ^ 62" using system_invE [OF assms(1,2)] by metis
  have inv: "kernel_inv {} T ?k Q L R n" using settledD(1) [OF i(1)] by (simp add: kernel_inv_poke)
  have acc: "accounted U ?k Q L R" using settledD(2) [OF i(1)] by (simp add: accounted_def set_port_def)
  have "poked (if True then {c} else {}) ?k R"
    using settledD(3) [OF i(1)] by (simp add: poked_def set_port_def poke_exchange_def)
  then obtain k' L' R' n' where "cortos_port_pend_reschedule c ?k = Some k'" "settled U T k' Q L' R' n'"
    "\<forall>d. n' d + length (R' d) \<le> n d + length (R d) + 0"
    using maybe_switch_settled [OF inv assms(3) i(3) [rule_format] acc] by fastforce
  moreover have "idle_task_round c k = cortos_port_pend_reschedule c ?k"
    using kernel_invD(2) [OF settledD(1) [OF i(1)]] by (simp add: idle_task_round_def port_inv_def)
  ultimately show ?thesis by (metis keepsI i(2) le0)
qed

lemma system_wait:
  assumes "system_inv U T s k" "s \<le> 2 ^ 50" "c < CORES"
    and "current_thread (schedulers k ! c) = Some t" "idle_thread (schedulers k ! c) \<noteq> Some t" "wait_args ws"
  shows "keeps U T s (wait_for_any c ws k)"
proof -
  obtain Q L R n where i: "settled U T k Q L R n" "\<forall>d. n d + length (R d) \<le> INBOX_CAP * s"
    "\<forall>d. n d + length (R d) \<le> 2 ^ 62" using system_invE [OF assms(1,2)] by metis
  obtain k' L' R' n' where "wait_for_any c ws k = Some k'" "settled U T k' (add_nodes t 0 ws Q) L' R' n'"
    "\<forall>d. n' d + length (R' d) \<le> n d + length (R d) + 0"
    using wait_for_any_settled [OF i(1) assms(3) i(3) [rule_format] assms(4,5), of ws] assms(6)
    unfolding wait_args_def by fastforce
  then show ?thesis by (rule keepsI [OF _ _ _ i(2)]) simp
qed

lemma system_signal_one:
  assumes "system_inv U T s k" "s \<le> 2 ^ 50" "finite T" "card T \<le> INBOX_CAP" "c < CORES" "w \<noteq> nullptr"
  shows "keeps U T s (signal_one c w acquired k)"
proof -
  obtain Q L R n where i: "settled U T k Q L R n" "\<forall>d. n d + length (R d) \<le> INBOX_CAP * s"
    "\<forall>d. \<not> d < CORES \<longrightarrow> R d = []" "\<forall>d. n d + length (R d) \<le> 2 ^ 62" using system_invE [OF assms(1,2)] by metis
  have room: "inbox_room c (tcbs (mem k)) R (Q w)" using room_for_all [OF settledD(1) [OF i(1)] assms(3,4)] i(3) by simp
  obtain k' Q' L' R' n' where "signal_one c w acquired k = Some k'" "settled U T k' Q' L' R' n'"
    "\<forall>d. n' d + length (R' d) \<le> n d + length (R d) + 1"
    using signal_one_settled [OF i(1) assms(5,6) i(4) [rule_format] room, of acquired] by metis
  then show ?thesis by (rule keepsI [OF _ _ _ i(2)]) (simp add: INBOX_CAP_def)
qed

lemma system_signal_all:
  assumes "system_inv U T s k" "s \<le> 2 ^ 50" "finite T" "card T \<le> INBOX_CAP" "c < CORES" "w \<noteq> nullptr"
  shows "keeps U T s (signal_all c w acquired k)"
proof -
  obtain Q L R n where i: "settled U T k Q L R n" "\<forall>d. n d + length (R d) \<le> INBOX_CAP * s"
    "\<forall>d. \<not> d < CORES \<longrightarrow> R d = []" "\<forall>d. n d + length (R d) \<le> 2 ^ 62" using system_invE [OF assms(1,2)] by metis
  have room: "inbox_room c (tcbs (mem k)) R (Q w)" "length (Q w) \<le> INBOX_CAP"
    using room_for_all [OF settledD(1) [OF i(1)] assms(3,4)] i(3) by simp_all
  obtain k' Q' L' R' n' where "signal_all c w acquired k = Some k'" "settled U T k' Q' L' R' n'"
    "\<forall>d. n' d + length (R' d) \<le> n d + length (R d) + length (Q w)"
    using signal_all_settled [OF i(1) assms(5,6) i(4) [rule_format] room(1), of acquired] by metis
  then show ?thesis by (rule keepsI [OF _ _ _ i(2) room(2)])
qed

lemma kernel_call_inv:
  assumes "kernel_call k k'" "system_inv U T s k" "s \<le> 2 ^ 50" "finite T" "card T \<le> INBOX_CAP"
  shows "system_inv U T (Suc s) k'"
  using assms(1)
proof cases
  case (call_yield c)
  then show ?thesis using system_yield [OF assms(2,3), of c] by simp
next
  case (call_idle c)
  then show ?thesis using system_idle [OF assms(2,3), of c] by simp
next
  case (call_wait c t ws)
  then show ?thesis using system_wait [OF assms(2,3), of c t ws] by simp
next
  case (call_signal_one c w acquired)
  then show ?thesis using system_signal_one [OF assms(2-5), of c w acquired] by simp
next
  case (call_signal_all c w acquired)
  then show ?thesis using system_signal_all [OF assms(2-5), of c w acquired] by simp
qed

lemma kernel_calls_inv:
  assumes "kernel_calls k0 s k" "system_inv U T 0 k0" "finite T" "card T \<le> INBOX_CAP"
  shows "s \<le> 2 ^ 50 \<Longrightarrow> system_inv U T s k"
  using assms(1)
proof (induction rule: kernel_calls.induct)
  case calls_none
  then show ?case using assms(2) by simp
next
  case (calls_more s k k')
  then show ?case using kernel_call_inv [OF calls_more.hyps(2) _ _ assms(3,4)] by simp
qed

lemma boot_system_inv:
  assumes "\<And>w. waitables m w = Waitable_init" "boot_ok A stacks sps" "boot A idle_task stacks m sps = Some k"
  shows "system_inv (spec_tcb A ` set sps) (boot_threads A stacks sps) 0 k"
proof -
  obtain L where "settled (spec_tcb A ` set sps) (boot_threads A stacks sps) k (\<lambda>_. []) L (\<lambda>_. []) (\<lambda>_. 0)"
    by (rule boot_settled [OF assms])
  then show ?thesis unfolding system_inv_def by (intro exI conjI) (assumption, simp)
qed

lemma boot_threads_card:
  "finite (boot_threads A stacks sps)" "card (boot_threads A stacks sps) \<le> CORES + length sps"
proof -
  have "card (spec_tcb A ` set sps) \<le> length sps"
    using card_image_le [of "set sps" "spec_tcb A"] card_length [of sps] by simp
  moreover have "card (idle_tcb A stacks ` {..<CORES}) \<le> CORES"
    using card_image_le [of "{..<CORES}" "idle_tcb A stacks"] by simp
  ultimately show "card (boot_threads A stacks sps) \<le> CORES + length sps"
    unfolding boot_threads_def by (intro le_trans [OF card_Un_le] add_mono)
qed (simp add: boot_threads_def)

text \<open>
  C1: no sequence of kernel calls fails.  From the boot of a system with at most \<^const>\<open>INBOX_CAP\<close>
  threads, the idle threads included, whatever the cores call in whatever order, up to \<open>2 ^ 50\<close> calls:
  the next \<^verbatim>\<open>yield\<close>, idle round, \<^verbatim>\<open>wait_for_any\<close> with legal arguments, \<^verbatim>\<open>signal_one\<close> or \<^verbatim>\<open>signal_all\<close> on
  any core returns; no assertion fails, no inbox overflows and no loop runs forever.
\<close>

theorem kernel_calls_never_fail:
  assumes "\<And>w. waitables m w = Waitable_init" "boot_ok A stacks sps" "CORES + length sps \<le> INBOX_CAP"
    and "boot A idle_task stacks m sps = Some k0" "kernel_calls k0 s k" "s \<le> 2 ^ 50" "c < CORES"
  shows "(\<exists>k'. yield c k = Some k') \<and> (\<exists>k'. idle_task_round c k = Some k') \<and>
    (\<forall>w acquired. w \<noteq> nullptr \<longrightarrow> (\<exists>k'. signal_one c w acquired k = Some k') \<and> (\<exists>k'. signal_all c w acquired k = Some k')) \<and>
    (\<forall>t ws. current_thread (schedulers k ! c) = Some t \<and> idle_thread (schedulers k ! c) \<noteq> Some t \<and> wait_args ws \<longrightarrow>
       (\<exists>k'. wait_for_any c ws k = Some k'))"
proof -
  let ?T = "boot_threads A stacks sps"
  have T: "finite ?T" "card ?T \<le> INBOX_CAP"
    using boot_threads_card [of A stacks sps] assms(3) by simp_all
  have inv: "system_inv (spec_tcb A ` set sps) ?T s k"
    by (rule kernel_calls_inv [OF assms(5) boot_system_inv [OF assms(1,2,4)] T assms(6)])
  show ?thesis
    using system_yield [OF inv assms(6,7)] system_idle [OF inv assms(6,7)] system_wait [OF inv assms(6,7)]
      system_signal_one [OF inv assms(6) T assms(7)] system_signal_all [OF inv assms(6) T assms(7)]
    unfolding keeps_def by metis
qed

text \<open>
  C3: after every such sequence each core runs exactly one thread: its current thread is \<^const>\<open>Running\<close>,
  is the context the port executes there, is pinned to that core, and runs on no other core; no
  spin lock is held and preemption is enabled.
\<close>

theorem one_thread_per_core:
  assumes "\<And>w. waitables m w = Waitable_init" "boot_ok A stacks sps" "CORES + length sps \<le> INBOX_CAP"
    and "boot A idle_task stacks m sps = Some k0" "kernel_calls k0 s k" "s \<le> 2 ^ 50"
  shows "(\<forall>w. \<not> wait_locked k w) \<and> \<not> k_locked k \<and>
    (\<forall>c < CORES. preempt_disable_depth (schedulers k ! c) = 0 \<and>
       (\<exists>p \<in> boot_threads A stacks sps. current_thread (schedulers k ! c) = Some p \<and>
          current_context (port k) c = Some p \<and> t_state (tcbs (mem k) p) = Running \<and>
          t_pinned_core (tcbs (mem k) p) = c \<and>
          (\<forall>d < CORES. current_thread (schedulers k ! d) = Some p \<longrightarrow> d = c)))"
proof -
  let ?T = "boot_threads A stacks sps"
  have T: "finite ?T" "card ?T \<le> INBOX_CAP"
    using boot_threads_card [of A stacks sps] assms(3) by simp_all
  have "system_inv (spec_tcb A ` set sps) ?T s k"
    by (rule kernel_calls_inv [OF assms(5) boot_system_inv [OF assms(1,2,4)] T assms(6)])
  then obtain Q L R n where inv: "kernel_inv {} ?T k Q L R n" by (auto simp: system_inv_def settled_def)
  have cur: "current_thread (schedulers k ! c) = Some p \<Longrightarrow> t_pinned_core (tcbs (mem k) p) = c" if "c < CORES" for c p
    using kernel_invD(3) [OF inv that] by (auto simp: core_inv_def current_ok_def)
  have "preempt_disable_depth (schedulers k ! c) = 0 \<and> (\<exists>p \<in> ?T. current_thread (schedulers k ! c) = Some p \<and>
          current_context (port k) c = Some p \<and> t_state (tcbs (mem k) p) = Running \<and>
          t_pinned_core (tcbs (mem k) p) = c \<and> (\<forall>d < CORES. current_thread (schedulers k ! d) = Some p \<longrightarrow> d = c))"
    if c: "c < CORES" for c
  proof -
    obtain p where p: "current_thread (schedulers k ! c) = Some p" "p \<in> ?T" "current_context (port k) c = Some p"
      "t_state (tcbs (mem k) p) = Running" by (rule kernel_inv_current [OF inv c]) simp
    have "d = c" if "d < CORES" "current_thread (schedulers k ! d) = Some p" for d
      using cur [OF c p(1)] cur [OF that] by simp
    then show ?thesis using kernel_invD(3) [OF inv c] cur [OF c p(1)] p by (auto simp: core_inv_def)
  qed
  then show ?thesis using kernel_invD(2) [OF inv] by (simp add: port_inv_def)
qed

text \<open>
  C2: no thread is ever lost or duplicated.  After every such sequence each thread of the application is in
  exactly one place: it executes on the core it is pinned to, or is in a ready list of that core, or in
  the inbox of that core, or on the queues of the waitables it waits for.  And no request is forgotten: a
  core whose inbox has requests is marked and has its poke flag set, so that its next idle round does not
  sleep.
\<close>

theorem no_thread_lost:
  assumes "\<And>w. waitables m w = Waitable_init" "boot_ok A stacks sps" "CORES + length sps \<le> INBOX_CAP"
    and "boot A idle_task stacks m sps = Some k0" "kernel_calls k0 s k" "s \<le> 2 ^ 50"
  shows "\<exists>Q L R n. kernel_inv {} (boot_threads A stacks sps) k Q L R n \<and>
    (\<forall>sp \<in> set sps. \<exists>!x. located k Q L R (spec_tcb A sp) x) \<and>
    (\<forall>d < CORES. R d \<noteq> [] \<longrightarrow> inbox_poke_pending (schedulers k ! d) \<and> poke_pending (port k) d)"
proof -
  let ?T = "boot_threads A stacks sps" and ?U = "spec_tcb A ` set sps"
  have T: "finite ?T" "card ?T \<le> INBOX_CAP"
    using boot_threads_card [of A stacks sps] assms(3) by simp_all
  have "system_inv ?U ?T s k"
    by (rule kernel_calls_inv [OF assms(5) boot_system_inv [OF assms(1,2,4)] T assms(6)])
  then obtain Q L R n where st: "settled ?U ?T k Q L R n" by (auto simp: system_inv_def)
  have "\<exists>!x. located k Q L R (spec_tcb A sp) x" if "sp \<in> set sps" for sp
    by (rule settled_located [OF st]) (use that in \<open>auto simp: boot_threads_def\<close>)
  moreover have "inbox_poke_pending (schedulers k ! d) \<and> poke_pending (port k) d" if "d < CORES" "R d \<noteq> []" for d
    using settledD(3) [OF st] that by (auto simp: poked_def)
  ultimately show ?thesis using settledD(1) [OF st] by blast
qed

lemma demo_calls:
  obtains k k' where "boot demo_abi 0 demo_stacks demo_mem demo_specs = Some k" "kernel_calls k 1 k'"
proof -
  obtain k k' L where k: "boot demo_abi 0 demo_stacks demo_mem demo_specs = Some k"
    "kernel_inv {} {0x10D00, 0x11D00, 0x12D00, 0x13D00, 0x100D00, 0x200D00, 0x300D00} k (\<lambda>_. []) L (\<lambda>_. []) (\<lambda>_. 0)"
    "current_thread (schedulers k ! 0) = Some 0x100D00" using demo_running by metis
  have "0 < CORES" by (simp add: CORES_def)
  moreover have "(0 :: nat) + length [] \<le> 2 ^ 62" by simp
  ultimately obtain k' where "yield 0 k = Some k'" using yield_kernel_inv [OF k(2) _ _ k(3)] by metis
  then have "kernel_calls k (Suc 0) k'"
    by (intro calls_more [OF calls_none] call_yield [of 0]) (simp_all add: CORES_def)
  then show ?thesis using that k(1) by simp
qed

theorem kernel_calls_never_fail_witness:
  "\<exists>k k' k''. boot demo_abi 0 demo_stacks demo_mem demo_specs = Some k \<and> kernel_calls k 1 k' \<and>
     signal_all 3 0x900 True k' = Some k''"
proof -
  obtain k k' where k: "boot demo_abi 0 demo_stacks demo_mem demo_specs = Some k" "kernel_calls k 1 k'"
    by (rule demo_calls)
  have "\<And>w. waitables demo_mem w = Waitable_init" by (simp add: demo_mem_def)
  then have "\<exists>k''. signal_all 3 0x900 True k' = Some k''"
    using kernel_calls_never_fail [OF _ demo_boot_ok _ k, of 3] by (simp add: CORES_def INBOX_CAP_def demo_specs_def)
  then show ?thesis using k by blast
qed

theorem one_thread_per_core_witness:
  "\<exists>k k' p. boot demo_abi 0 demo_stacks demo_mem demo_specs = Some k \<and> kernel_calls k 1 k' \<and>
     current_thread (schedulers k' ! 2) = Some p \<and> t_state (tcbs (mem k') p) = Running"
proof -
  obtain k k' where k: "boot demo_abi 0 demo_stacks demo_mem demo_specs = Some k" "kernel_calls k 1 k'"
    by (rule demo_calls)
  have "\<And>w. waitables demo_mem w = Waitable_init" by (simp add: demo_mem_def)
  then have "\<exists>p. current_thread (schedulers k' ! 2) = Some p \<and> t_state (tcbs (mem k') p) = Running"
    using one_thread_per_core [OF _ demo_boot_ok _ k, THEN conjunct2, THEN conjunct2, rule_format, of 2]
    by (auto simp: CORES_def INBOX_CAP_def demo_specs_def)
  then show ?thesis using k by blast
qed

theorem no_thread_lost_witness:
  "\<exists>k k' Q L R n. boot demo_abi 0 demo_stacks demo_mem demo_specs = Some k \<and> kernel_calls k 1 k' \<and>
     kernel_inv {} (boot_threads demo_abi demo_stacks demo_specs) k' Q L R n \<and>
     (\<exists>!x. located k' Q L R (spec_tcb demo_abi (demo_specs ! 0)) x)"
proof -
  obtain k k' where k: "boot demo_abi 0 demo_stacks demo_mem demo_specs = Some k" "kernel_calls k 1 k'"
    by (rule demo_calls)
  have w: "waitables demo_mem w = Waitable_init" for w by (simp add: demo_mem_def)
  have c: "CORES + length demo_specs \<le> INBOX_CAP" "(1 :: nat) \<le> 2 ^ 50"
    by (simp_all add: CORES_def INBOX_CAP_def demo_specs_def)
  have "demo_specs ! 0 \<in> set demo_specs" by (simp add: demo_specs_def)
  then show ?thesis using no_thread_lost [OF w demo_boot_ok c(1) k c(2)] k by blast
qed

section \<open>A wake-up in the middle of a wait\<close>

text \<open>Core \<open>d\<close> asks core \<open>c\<close> to make one of its threads ready: the request is posted and the core poked.\<close>

lemma set_thread_ready_posts:
  assumes t: "t_state (tcbs (mem k) t) = Blocked" "t_pinned_core (tcbs (mem k) t) = c" "d \<noteq> c"
    and c: "c < CORES" "core_id (schedulers k ! c) = c" "inbox_rep n (inbox (schedulers k ! c)) []"
    and pv: "port_inv k" "this_core d k = d"
  obtains b' q where "set_thread_ready d t k = Some (RA_None,
      set_port q (set_scheduler c ((schedulers k ! c)\<lparr>inbox := b', inbox_poke_pending := True\<rparr>) k))"
    "inbox_rep n b' [SetThreadReady t]" "current_context q = current_context (port k)"
    "active_contexts q = active_contexts (port k)" "cores_count q = cores_count (port k)"
    "handler_registered q = handler_registered (port k)"
proof -
  let ?s = "schedulers k ! c"
  let ?q = "if inbox_poke_pending ?s then port k else (port k)\<lparr>poke_pending := (poke_pending (port k))(c := True)\<rparr>"
  obtain b' where b: "post_to_inbox (SetThreadReady t) ?s =
      Some (True, \<not> inbox_poke_pending ?s, ?s\<lparr>inbox := b', inbox_poke_pending := True\<rparr>)"
    "inbox_rep n b' ([] @ [SetThreadReady t])"
    by (rule post_to_inbox_room [OF c(3)]) (simp add: INBOX_CAP_def)
  have "set_thread_ready d t k = Some (RA_None,
      set_port ?q (set_scheduler c (?s\<lparr>inbox := b', inbox_poke_pending := True\<rparr>) k))"
    using t c(1,2) pv b(1)
    by (simp add: set_thread_ready_def scheduler_for_core_def Let_def cortos_port_send_reschedule_ipi_def
        set_port_def set_scheduler_def port_inv_def)
  then show ?thesis by (rule that) (use b(2) in simp_all)
qed

text \<open>The switch of a thread for which a request is already in the inbox of its own core.\<close>

lemma pend_reschedule_own_request:
  assumes pv: "port_inv k" "c < CORES" "current_context (port k) c = Some t"
    and m: "matrix_rep (tcbs (mem k)) (ready_matrix (schedulers k ! c)) L"
    and ib: "inbox_rep n (inbox (schedulers k ! c)) [SetThreadReady t]" "n < 2 ^ 62"
    and cur: "current_ok (tcbs (mem k), schedulers k ! c) t" "t_state (tcbs (mem k) t) = Blocked"
    and other: "t \<notin> members L" "idle_thread (schedulers k ! c) \<noteq> Some t"
  shows "cortos_port_pend_reschedule c k = None"
proof -
  have "reschedule (tcbs (mem k), schedulers k ! c) = None"
    by (rule reschedule_own_request [OF m ib cur other])
  then show ?thesis using pv
    by (simp add: cortos_port_pend_reschedule_def pump_def reschedule_this_core_def port_inv_def scheduler_for_core_def
        this_core_def cortos_port_get_core_id_def set_port_def fiber_yield_def pump_continues_def)
qed

lemma best_single: "wait_inv T {} m Q \<Longrightarrow> Q w = [p] \<Longrightarrow> best_waiter m (Q w) = Some p"
  using wait_inv_pending [of T m Q w] by (simp add: best_waiter_def)

text \<open>
  C20: \<^verbatim>\<open>wait_for_any\<close> releases the locks of its waitables before it gives up the core.  In a running
  kernel a signal by another core in between, to the thread that is about to switch away, makes the
  switch run into \<^verbatim>\<open>__builtin_unreachable\<close>: the wait has no defined result.
\<close>

theorem remote_wake_during_wait:
  assumes inv: "kernel_inv {} T k Q L R n" and c: "c < CORES" "n c < 2 ^ 62" "R c = []"
    and cur: "current_thread (schedulers k ! c) = Some t" "idle_thread (schedulers k ! c) \<noteq> Some t"
    and w: "w \<noteq> nullptr" "Q w = []" and d: "d < CORES" "d \<noteq> c"
  shows "\<exists>k1 k2. wait_prepare c [w] k = Some k1 \<and> signal_one d w acquired k1 = Some k2 \<and>
    wait_commence c [w] k2 = None"
proof -
  obtain m1 where p: "wait_prepare c [w] k = Some (k\<lparr>mem := m1\<rparr>)" "prepare_block t [w] (mem k) = Some m1"
    "kernel_inv {c} T (k\<lparr>mem := m1\<rparr>) (add_nodes t 0 [w] Q) L R n"
    using wait_prepare_kernel_inv [OF inv c(1) cur, of "[w]"] w(1) by (auto simp: MAX_WAIT_NODES_def)
  let ?k1 = "k\<lparr>mem := m1\<rparr>" and ?Q = "Q(w := [(t, 0)])"
  have Q1: "add_nodes t 0 [w] Q = ?Q" using w(2) by simp
  have inv1: "kernel_inv {c} T ?k1 ?Q L R n" using p(3) Q1 by simp
  have wv1: "wait_inv T {} (mem ?k1) ?Q" and pv1: "port_inv ?k1" using kernel_invD(1,2) [OF inv1] .
  have free: "\<And>w. \<not> wait_locked ?k1 w" using pv1 by (simp add: port_inv_def)
  have cr: "core_ready d 1 ?k1" "core_ready d MAX_WAIT_NODES ?k1" "this_core d ?k1 = d"
    using kernel_inv_core_ready(1) [OF inv1 d(1)] kernel_inv_core_ready(2) [OF inv1 d(1), of 0]
    by (simp_all add: MAX_WAIT_NODES_def)
  have run: "t \<in> T" "t_state (tcbs (mem k) t) = Running" "current_context (port k) c = Some t"
    using kernel_inv_current [OF inv c(1)] cur(1) by (metis empty_iff option.inject)+
  have blk: "t_state (tcbs m1 t) = Blocked"
    using prepare_block_inv [OF kernel_invD(1) [OF inv] run(1,2), of "[w]"] p(2) w(1)
    by (auto simp: MAX_WAIT_NODES_def)
  have pick: "pick_best_locked d w ?k1 = Some (Some (t, 0), ?k1)"
    using pick_best_locked_eq [OF cr(1) w(1) free wv1] best_single [OF wv1, of w "(t, 0)"] by simp
  have p0: "(t, 0) \<in> set (?Q w)" by simp
  obtain m2 ws pool where wk: "wake_thread d (t, 0) acquired ?k1 = set_thread_ready d (fst (t, 0 :: nat))
      (log_hooks (map (\<lambda>w. on_thread_removed w (create_waiter (tcbs (mem ?k1) (fst (t, 0 :: nat))))) ws) (?k1\<lparr>mem := m2\<rparr>))"
    "tcbs m2 = (tcbs (mem ?k1))(fst (t, 0 :: nat) := (tcbs (mem ?k1) (fst (t, 0 :: nat)))
       \<lparr>t_wait_group := won_group (t, 0) acquired (mem ?k1), t_wait_nodes := pool\<rparr>)"
    by (rule wake_thread_inv [OF wv1 p0 cr(2) free, of acquired])
  define es where "es = map (\<lambda>w. on_thread_removed w (create_waiter (tcbs m1 t))) ws"
  let ?k2 = "log_hooks es (k\<lparr>mem := m2\<rparr>)" and ?s = "schedulers k ! c"
  have wk': "wake_thread d (t, 0) acquired ?k1 = set_thread_ready d t ?k2" using wk(1) by (simp add: es_def)
  have k2: "mem ?k2 = m2" "schedulers ?k2 = schedulers k" "port ?k2 = port k" by (simp_all add: log_hooks_def)
  have m2: "tcbs m2 = (tcbs m1)(t := (tcbs m1 t)\<lparr>t_wait_group := won_group (t, 0) acquired m1, t_wait_nodes := pool\<rparr>)"
    using wk(2) by simp
  have ci: "core_inv True T ?k1 c (L c) [] (n c)" using kernel_invD(3) [OF inv1 c(1)] c(3) by simp
  then have rep: "sched_rep (n c) (tcbs m1, ?s) (L c) []" "core_id ?s = c" "current_ok (tcbs m1, ?s) t"
    using cur(1) by (auto simp: core_inv_def current_ok_def)
  have tL: "t \<notin> members (L c)" using current_not_listed [OF rep(1)] cur(1) by simp
  have rep2: "sched_rep (n c) (tcbs m2, ?s) (L c) []"
    by (rule sched_rep_update [OF rep(1) _ cur(2)]) (use tL in \<open>simp_all add: m2\<close>)
  have ok2: "current_ok (tcbs m2, ?s) t" using rep(3) by (simp add: current_ok_def m2 tcb_is_enqueued_def)
  have pv2: "port_inv ?k2" "this_core d ?k2 = d"
    using pv1 cr(3) by (simp_all add: port_inv_def log_hooks_def this_core_def)
  have st2: "t_state (tcbs (mem ?k2) t) = Blocked" "t_pinned_core (tcbs (mem ?k2) t) = c"
    using blk rep(2,3) by (simp_all add: k2 m2 current_ok_def)
  have c2: "core_id (schedulers ?k2 ! c) = c" "inbox_rep (n c) (inbox (schedulers ?k2 ! c)) []"
    using rep(1,2) by (simp_all add: k2 sched_rep_def)
  obtain b' q where s: "set_thread_ready d t ?k2 = Some (RA_None,
      set_port q (set_scheduler c ((schedulers ?k2 ! c)\<lparr>inbox := b', inbox_poke_pending := True\<rparr>) ?k2))"
    "inbox_rep (n c) b' [SetThreadReady t]" "current_context q = current_context (port ?k2)"
    "active_contexts q = active_contexts (port ?k2)" "cores_count q = cores_count (port ?k2)"
    "handler_registered q = handler_registered (port ?k2)"
    by (rule set_thread_ready_posts [OF st2 d(2) c(1) c2 pv2])
  let ?s3 = "?s\<lparr>inbox := b', inbox_poke_pending := True\<rparr>"
  let ?k3 = "set_port q (set_scheduler c ?s3 ?k2)"
  have sig: "signal_one d w acquired ?k1 = Some ?k3"
    using pick wk' s(1) by (simp add: signal_one_def k2)
  have len: "c < length (schedulers k)" using kernel_inv_core_ready(3) [OF inv c(1), of 0] by simp
  have k3: "mem ?k3 = m2" "schedulers ?k3 ! c = ?s3" "port ?k3 = q"
    using len by (simp_all add: set_port_def set_scheduler_def k2)
  have pv3: "port_inv ?k3"
    using pv2(1) s(4-6) by (simp add: port_inv_def set_port_def pump_continues_def)
  have lg: "mem (log_hooks es' ?k3) = m2" "schedulers (log_hooks es' ?k3) ! c = ?s3" "port (log_hooks es' ?k3) = q"
    "port_inv (log_hooks es' ?k3)" for es'
    using k3 pv3 by (simp_all add: log_hooks_def port_inv_def)
  have mx: "matrix_rep (tcbs m2) (ready_matrix ?s3) (L c)" using rep2 by (simp add: sched_rep_def)
  have ok3: "current_ok (tcbs m2, ?s3) t" using ok2 by (simp add: current_ok_def)
  have b2: "t_state (tcbs m2 t) = Blocked" using st2(1) by (simp only: k2(1))
  have ctx: "current_context q c = Some t" using s(3) run(3) by (simp add: k2(3))
  have pr: "cortos_port_pend_reschedule c (log_hooks es' ?k3) = None" for es'
    using pend_reschedule_own_request [of "log_hooks es' ?k3" c t "L c" "n c"] lg [of es'] mx ok3 b2 ctx s(2) c(1,2) tL cur(2)
    by simp
  have "wait_commence c [w] ?k3 = None"
  proof -
    have "current_of c ?k3 = Some t"
      using cur(1) len k3 pv3 c(1)
      by (simp add: current_of_def scheduler_for_core_def this_core_def cortos_port_get_core_id_def port_inv_def)
    then show ?thesis using pr by (simp add: wait_commence_def notify_block_current_thread_def)
  qed
  then show ?thesis using p(1) sig by blast
qed

theorem remote_wake_during_wait_witness:
  "\<exists>k k1 k2. boot demo_abi 0 demo_stacks demo_mem demo_specs = Some k \<and> wait_prepare 0 [0x900] k = Some k1 \<and>
     signal_one 1 0x900 True k1 = Some k2 \<and> wait_commence 0 [0x900] k2 = None"
proof -
  obtain k L where k: "boot demo_abi 0 demo_stacks demo_mem demo_specs = Some k"
    "kernel_inv {} {0x10D00, 0x11D00, 0x12D00, 0x13D00, 0x100D00, 0x200D00, 0x300D00} k (\<lambda>_. []) L (\<lambda>_. []) (\<lambda>_. 0)"
    "current_thread (schedulers k ! 0) = Some 0x100D00"
    "idle_thread (schedulers k ! 0) = Some 0x10D00" using demo_running by metis
  show ?thesis
    using remote_wake_during_wait [OF k(2) _ _ _ k(3), where w = "0x900" and d = 1 and acquired = True] k(1,4) by (auto simp: CORES_def)
qed

end
