(* ===== verification/Thread_Life.thy ===== *)
theory Thread_Life
  imports Kernel_System
begin

text \<open>
  The end of a thread and the wait for it: \<^verbatim>\<open>Thread::join\<close>, and \<^verbatim>\<open>thread_launcher\<close> after the entry
  function has returned.  A join is a wait on the termination object of the thread; an exit wakes the
  joiners, is taken off the books of the kernel and the port, and hands the core over.  The last step
  is skipped, for good, when a joiner of better priority is pinned to the core of the exiting thread.
\<close>

section \<open>What signalling leaves alone\<close>

text \<open>The number of threads that the kernel knows of, and of contexts that the port knows of.\<close>

definition thread_counts :: "kernel \<Rightarrow> u32 \<times> u32" where
  "thread_counts k = (active_threads k, active_contexts (port k))"

lemma counts_sel [simp]:
  "thread_counts (k\<lparr>mem := m\<rparr>) = thread_counts k" "thread_counts (set_tcbs h k) = thread_counts k"
  "thread_counts (set_scheduler c s k) = thread_counts k" "thread_counts (k\<lparr>wait_locked := l\<rparr>) = thread_counts k"
  "thread_counts (log_hooks es k) = thread_counts k"
  "active_contexts p = active_contexts (port k) \<Longrightarrow> thread_counts (set_port p k) = thread_counts k"
  by (simp_all add: thread_counts_def set_tcbs_def set_scheduler_def log_hooks_def set_port_def)

lemma port_sel [simp]:
  "port (set_scheduler c s k) = port k" "port (set_tcbs h k) = port k" "port (log_hooks es k) = port k"
  "port (set_port p k) = p"
  by (simp_all add: set_tcbs_def set_scheduler_def log_hooks_def set_port_def)

lemma counts_locks [frame_facts]:
  "lock_waitable c w k = Some k' \<Longrightarrow> thread_counts k' = thread_counts k \<and> mem k' = mem k"
  "unlock_waitable c w k = Some k' \<Longrightarrow> thread_counts k' = thread_counts k \<and> mem k' = mem k"
  by (auto simp: lock_waitable_def unlock_waitable_def on_scheduler_def set_scheduler_def thread_counts_def
      split: bind_splits if_splits)

lemma counts_lock_all [frame_facts]:
  "lock_all c ws k = Some k' \<Longrightarrow> thread_counts k' = thread_counts k \<and> mem k' = mem k"
  by (induction ws arbitrary: k) (auto split: bind_splits dest: counts_locks)

lemma counts_unlock_all [frame_facts]:
  "unlock_all c ws k = Some k' \<Longrightarrow> thread_counts k' = thread_counts k \<and> mem k' = mem k"
  by (induction ws arbitrary: k) (auto split: bind_splits dest: counts_locks)

lemma counts_group [frame_facts]:
  "WaitableGroupLock c ws k = Some (v, k') \<Longrightarrow> thread_counts k' = thread_counts k \<and> mem k' = mem k"
  "WaitableGroupUnlock c v k = Some k' \<Longrightarrow> thread_counts k' = thread_counts k \<and> mem k' = mem k"
  by (auto simp: WaitableGroupLock_def WaitableGroupUnlock_def Let_def split: bind_splits if_splits
      dest: counts_lock_all counts_unlock_all)

lemma counts_pump: "pump c k = Some k' \<Longrightarrow> thread_counts k' = thread_counts k"
  by (auto simp: pump_def reschedule_this_core_def cortos_port_switch_def request_shutdown_def
      split: bind_splits if_splits)

lemma counts_pend_reschedule [frame_facts]:
  "cortos_port_pend_reschedule c k = Some k' \<Longrightarrow> thread_counts k' = thread_counts k"
  by (auto simp: cortos_port_pend_reschedule_def fiber_yield_def split: if_splits dest!: counts_pump)

lemma counts_set_thread_ready [frame_facts]:
  "set_thread_ready c t k = Some (a, k') \<Longrightarrow> thread_counts k' = thread_counts k"
  by (auto simp: set_thread_ready_def Let_def cortos_port_send_reschedule_ipi_def
      split: bind_splits if_splits prod.splits dest!: counts_pend_reschedule)

lemma counts_teardown [frame_facts]:
  "teardown_wait_group c t g k = Some k' \<Longrightarrow> thread_counts k' = thread_counts k"
  by (auto simp: teardown_wait_group_def Let_def split: bind_splits dest!: counts_group)

lemma counts_wake_thread [frame_facts]:
  "wake_thread c p acquired k = Some (a, k') \<Longrightarrow> thread_counts k' = thread_counts k"
  by (auto simp: wake_thread_def Let_def split: bind_splits if_splits prod.splits
      dest!: counts_teardown counts_set_thread_ready)

lemma counts_pick_best_locked [frame_facts]:
  "pick_best_locked c w k = Some (b, k') \<Longrightarrow> thread_counts k' = thread_counts k"
  by (auto simp: pick_best_locked_def split: bind_splits dest!: counts_locks)

lemma counts_signal_loop [frame_facts]:
  assumes "signal_loop c w acquired b k = Some r"
  shows "thread_counts (snd r) = thread_counts k"
proof (rule signal_loop.raw_induct [where P = "\<lambda>c w acquired b k r. thread_counts (snd r) = thread_counts k", OF _ assms])
  fix loop c w acquired b k r
  assume IH: "\<And>c w acquired b k r. loop c w acquired b k = Some r \<Longrightarrow> thread_counts (snd r) = thread_counts k"
    and r: "Option.bind (pick_best_locked c w k) (\<lambda>(best, k). case best of None \<Rightarrow> Some (b, k)
      | Some p \<Rightarrow> Option.bind (wake_thread c p acquired k) (\<lambda>(action, k). loop c w acquired (b \<or> action = RA_Reschedule) k)) = Some r"
  obtain best k1 where p: "pick_best_locked c w k = Some (best, k1)" using r by (auto split: bind_splits)
  note k1 = counts_pick_best_locked [OF p]
  show "thread_counts (snd r) = thread_counts k"
  proof (cases best)
    case None
    then show ?thesis using r p k1 by auto
  next
    case (Some q)
    then obtain a k2 where w: "wake_thread c q acquired k1 = Some (a, k2)"
      "loop c w acquired (b \<or> a = RA_Reschedule) k2 = Some r"
      using r p by (auto split: bind_splits)
    show ?thesis using IH [OF w(2)] counts_wake_thread [OF w(1)] k1 by simp
  qed
qed

section \<open>Joining\<close>

text \<open>
  A round of \<^verbatim>\<open>wait_until\<close> with a predicate on the memory: when the predicate is false it does what \<^verbatim>\<open>wait_for_any\<close>
  does, and when it is true it leaves the state as it was.
\<close>

lemma wait_until_round_blocks:
  assumes "\<not> p (mem k)" "ws \<noteq> []" "length ws \<le> MAX_WAIT_NODES"
  shows "wait_until_round c (\<lambda>k. p (mem k)) ws result k = map_option (Pair None) (wait_for_any c ws k)"
proof (cases "WaitableGroupLock c ws k")
  case None
  then show ?thesis using assms by (simp add: wait_until_round_def wait_for_any_def wait_prepare_def)
next
  case (Some r)
  obtain v k1 where r: "r = (v, k1)" by (cases r)
  have "\<not> p (mem k1)" using counts_group(1) [of c ws k v k1] Some r assms(1) by simp
  then show ?thesis using Some r assms(2,3)
    by (simp add: wait_until_round_def wait_for_any_def wait_prepare_def wait_commence_def map_conv_bind_option o_def)
qed

lemma wait_until_round_returns:
  assumes inv: "kernel_inv {} T k Q L R n" and c: "c < CORES" and p: "p (mem k)"
    and ws: "length ws \<le> MAX_WAIT_NODES" "nullptr \<notin> set ws" "distinct ws"
  shows "wait_until_round c (\<lambda>k. p (mem k)) ws result k = Some (Some result, k)"
proof -
  have cr: "core_ready c (length ws) k" by (rule kernel_inv_core_ready [OF inv c]) (use ws(1) in \<open>simp add: MAX_WAIT_NODES_def\<close>)
  have free: "\<not> wait_locked k w" for w using kernel_invD(2) [OF inv] by (simp add: port_inv_def)
  have e: "(holding c (sort ws) k)\<lparr>mem := mem k\<rparr> = holding c (sort ws) k" "k\<lparr>mem := mem k\<rparr> = k"
    by (simp_all add: holding_def set_scheduler_def)
  have "WaitableGroupLock c ws k = Some (sort ws, holding c (sort ws) k)"
    using WaitableGroupLock_holding [OF cr ws(3,2,1)] free by simp
  moreover have "WaitableGroupUnlock c (sort ws) (holding c (sort ws) k) = Some k"
    using holding_release [of c "sort ws" k "mem k"] cr free unfolding e by simp
  moreover have "mem (holding c (sort ws) k) = mem k" by (simp add: holding_def set_scheduler_def)
  ultimately show ?thesis using p by (simp add: wait_until_round_def)
qed

text \<open>
  \<open>ks i\<close> is the state at the beginning of round \<open>i\<close> and \<open>rs i\<close> the result at that time; the predicate holds first at
  the beginning of round \<open>N\<close>.
\<close>

definition waits_rounds ::
  "(nat \<Rightarrow> kernel \<Rightarrow> kernel option) \<Rightarrow> nat \<Rightarrow> (wmem \<Rightarrow> bool) \<Rightarrow> waitable_ptr list \<Rightarrow> nat \<Rightarrow> (nat \<Rightarrow> kernel) \<Rightarrow> (nat \<Rightarrow> Result) \<Rightarrow> bool" where
  "waits_rounds env c p ws N ks rs \<longleftrightarrow> p (mem (ks N)) \<and>
     (\<forall>i < N. \<not> p (mem (ks i)) \<and> (\<exists>k. wait_for_any c ws (ks i) = Some k \<and> env i k = Some (ks (Suc i))) \<and>
        wait_resume c (ks (Suc i)) = Some (rs (Suc i)))"

lemma wait_until_loop_rounds:
  assumes "waits_rounds env c p ws N ks rs" "kernel_inv {} T (ks N) Q L R n" "c < CORES"
    and ws: "ws \<noteq> []" "length ws \<le> MAX_WAIT_NODES" "nullptr \<notin> set ws" "distinct ws"
  shows "i \<le> N \<Longrightarrow> wait_until_loop env i c (\<lambda>k. p (mem k)) ws (rs i) (ks i) = Some (rs N, ks N)"
proof (induction "N - i" arbitrary: i)
  case 0
  then have "i = N" by simp
  moreover have "p (mem (ks N))" using assms(1) by (simp add: waits_rounds_def)
  ultimately show ?case
    using wait_until_round_returns [OF assms(2,3) _ ws(2-4), of p "rs N"] by (subst wait_until_loop.simps) simp
next
  case (Suc d)
  then have i: "i < N" "d = N - Suc i" "Suc i \<le> N" by simp_all
  obtain k where k: "\<not> p (mem (ks i))" "wait_for_any c ws (ks i) = Some k" "env i k = Some (ks (Suc i))"
    "wait_resume c (ks (Suc i)) = Some (rs (Suc i))" using assms(1) i(1) by (auto simp: waits_rounds_def)
  then show ?case using wait_until_round_blocks [of p "ks i" ws c "rs i", OF k(1) ws(1,2)] Suc.hyps(1) [OF i(2,3)]
    by (subst wait_until_loop.simps) simp
qed

lemma wait_until_rounds:
  assumes "waits_rounds env c p ws N ks rs" "kernel_inv {} T (ks N) Q L R n" "c < CORES"
    and "ws \<noteq> []" "length ws \<le> MAX_WAIT_NODES" "nullptr \<notin> set ws" "distinct ws" "rs 0 = Result_init"
  shows "wait_until env c (\<lambda>k. p (mem k)) ws (ks 0) = Some (rs N, ks N)"
proof (cases "N = 0")
  case True
  then show ?thesis using assms by (simp add: wait_until_def waits_rounds_def)
next
  case False
  then have "\<not> p (mem (ks 0))" using assms(1) by (simp add: waits_rounds_def)
  then show ?thesis using wait_until_loop_rounds [OF assms(1-7), of 0] assms(4-6,8) by (simp add: wait_until_def)
qed

text \<open>It never returns while the predicate is false, whatever the rest of the system does.\<close>

lemma wait_until_round_done:
  "wait_until_round c (\<lambda>k. p (mem k)) ws result k = Some (Some r, k') \<Longrightarrow> p (mem k')"
  by (auto simp: wait_until_round_def split: bind_splits if_splits dest!: counts_group)

lemma wait_until_loop_done:
  assumes "wait_until_loop env i c P ws result k = Some r"
  shows "\<forall>p. P = (\<lambda>k. p (mem k)) \<longrightarrow> p (mem (snd r))"
proof (rule wait_until_loop.raw_induct [where
      P = "\<lambda>env i c P ws result k r. \<forall>p. P = (\<lambda>k. p (mem k)) \<longrightarrow> p (mem (snd r))", OF _ assms], intro allI impI)
  fix loop env i c P ws result k r p
  assume IH: "\<And>env i c P ws result k r. loop env i c P ws result k = Some r \<Longrightarrow> \<forall>p. P = (\<lambda>k. p (mem k)) \<longrightarrow> p (mem (snd r))"
    and r: "Option.bind (wait_until_round c P ws result k) (\<lambda>(r, k). case r of
        None \<Rightarrow> Option.bind (env i k) (\<lambda>k. Option.bind (wait_resume c k) (\<lambda>result. loop env (Suc i) c P ws result k))
      | Some result \<Rightarrow> Some (result, k)) = Some r"
    and P: "P = (\<lambda>k. p (mem k))"
  obtain b k1 where b: "wait_until_round c P ws result k = Some (b, k1)" using r by (auto split: bind_splits)
  show "p (mem (snd r))"
  proof (cases b)
    case (Some x)
    then show ?thesis using r b wait_until_round_done [of c p ws result k x k1] unfolding P by auto
  next
    case None
    then obtain k2 result' where "loop env (Suc i) c P ws result' k2 = Some r" using r b by (auto split: bind_splits)
    from IH [OF this] P show ?thesis by blast
  qed
qed

lemma has_terminated_mem: "has_terminated t = (\<lambda>k. t_terminated (tcbs (mem k) t))"
  by (simp add: fun_eq_iff has_terminated_def)

text \<open>
  C37: \<^verbatim>\<open>Thread::join\<close> returns when the thread has terminated, and not before.  Whenever it returns, whatever the rest of the
  system did while the caller was blocked, the thread has terminated.  And it does return: if at the beginning of its rounds
  \<open>0, \<dots>, N - 1\<close> the thread has not terminated, each of these rounds blocks the caller on the termination object as \<^verbatim>\<open>wait_for_any\<close>
  does and the rest of the system lets it run again, and at the beginning of round \<open>N\<close> the thread has terminated, then \<^verbatim>\<open>join\<close>
  returns in the state of that moment.  A wake-up before the end does not make it return.
\<close>

theorem join_waits_for_termination:
  assumes "waits_rounds env c (\<lambda>m. t_terminated (tcbs m t)) [t_termination (tcbs (mem (ks 0)) t)] N ks rs"
    "kernel_inv {} T (ks N) Q L R n" "c < CORES" "t_termination (tcbs (mem (ks 0)) t) \<noteq> nullptr" "rs 0 = Result_init"
  shows "join env c (Some t) (ks 0) = Some (ks N) \<and> has_terminated t (ks N) \<and>
    (\<forall>env c k k'. join env c (Some t) k = Some k' \<longrightarrow> has_terminated t k')"
proof (intro conjI allI impI)
  show "join env c (Some t) (ks 0) = Some (ks N)"
    using wait_until_rounds [OF assms(1-3) _ _ _ _ assms(5)] assms(4) unfolding join_def has_terminated_mem
    by (simp add: MAX_WAIT_NODES_def)
  show "has_terminated t (ks N)" using assms(1) by (simp add: waits_rounds_def has_terminated_def)
next
  fix env c k k'
  assume "join env c (Some t) k = Some k'"
  then obtain r where "wait_until env c (has_terminated t) [t_termination (tcbs (mem k) t)] k = Some (r, k')"
    by (auto simp: join_def split: bind_splits)
  then show "has_terminated t k'"
    using wait_until_loop_done [of env 0 c "\<lambda>k. t_terminated (tcbs (mem k) t)"] unfolding has_terminated_mem
    by (fastforce simp: wait_until_def split: bind_splits if_splits)
qed

section \<open>Exiting\<close>

text \<open>The thread has been marked in its control block and in its termination object.\<close>

definition exiting :: "tcb_ptr \<Rightarrow> kernel \<Rightarrow> kernel" where
  "exiting t k = set_terminated t (k\<lparr>mem := set_state t Terminated (mem k)\<rparr>)"

lemma exiting_sel:
  "t_state (tcbs (mem (exiting t k)) t) = Terminated" "t_terminated (tcbs (mem (exiting t k)) t)"
  "x \<noteq> t \<Longrightarrow> tcbs (mem (exiting t k)) x = tcbs (mem k) x" "nodes (mem (exiting t k)) = nodes (mem k)"
  "waitables (mem (exiting t k)) = waitables (mem k)" "schedulers (exiting t k) = schedulers k" "port (exiting t k) = port k"
  "t_effective_priority (tcbs (mem (exiting t k)) x) = t_effective_priority (tcbs (mem k) x)"
  "t_pinned_core (tcbs (mem (exiting t k)) x) = t_pinned_core (tcbs (mem k) x)"
  "t_termination (tcbs (mem (exiting t k)) x) = t_termination (tcbs (mem k) x)"
  "t_id (tcbs (mem (exiting t k)) x) = t_id (tcbs (mem k) x)"
  "t_wait_nodes (tcbs (mem (exiting t k)) x) = t_wait_nodes (tcbs (mem k) x)"
  "t_next (tcbs (mem (exiting t k)) x) = t_next (tcbs (mem k) x)" "t_prev (tcbs (mem (exiting t k)) x) = t_prev (tcbs (mem k) x)"
  "thread_counts (exiting t k) = thread_counts k"
  by (simp_all add: exiting_def set_terminated_def set_tcbs_def set_state_def tcb_set_state_def thread_counts_def)

lemma exiting_kernel: "exiting t k = k\<lparr>mem := mem (exiting t k)\<rparr>"
  by (simp add: exiting_def set_terminated_def set_tcbs_def)

lemma exiting_inv:
  assumes inv: "kernel_inv {} T k Q L R n" and c: "c < CORES"
    and cur: "current_thread (schedulers k ! c) = Some t" "idle_thread (schedulers k ! c) \<noteq> Some t"
  shows "kernel_inv {c} T (exiting t k) Q L R n" "slots (mem (exiting t k)) t = {}" "t \<in> T"
proof -
  let ?m = "mem (exiting t k)"
  note wv = kernel_invD(1) [OF inv]
  have t: "t \<in> T" "t_state (tcbs (mem k) t) = Running"
    using kernel_inv_current [OF inv c] cur(1) by (metis empty_iff option.inject)+
  have sl: "slots ?m x = slots (mem k) x" for x by (simp add: slots_def exiting_sel(4))
  have none: "slots (mem k) t = {}" using wait_inv_no_slots [OF wv t(1)] t(2) by simp
  have "wait_inv T {} ?m Q"
  proof (rule wait_inv_tcbs_cong [OF wv])
    fix p assume lv: "live_node T (mem k) p"
    then have "fst p \<noteq> t" using none by (cases p) (auto simp: live_node_def slots_def)
    then show "t_state (tcbs ?m (fst p)) = Blocked \<and> \<not> g_done (t_wait_group (tcbs ?m (fst p)))"
      using wait_invD(5) [OF wv lv] by (simp add: node_ok_def exiting_sel(3))
  qed (simp_all add: exiting_sel)
  then show "kernel_inv {c} T (exiting t k) Q L R n"
    by (subst exiting_kernel) (rule kernel_inv_leave [OF inv c cur]; simp add: exiting_sel sl)
  show "slots ?m t = {}" "t \<in> T" using sl none t by simp_all
qed

text \<open>The joiners are woken.\<close>

lemma exit_signals:
  assumes inv: "kernel_inv {} T k Q L R n" and c: "c < CORES"
    and cur: "current_thread (schedulers k ! c) = Some t" "idle_thread (schedulers k ! c) \<noteq> Some t"
    and w: "t_termination (tcbs (mem k) t) = w" "w \<noteq> nullptr" and room: "inbox_room c (tcbs (mem k)) R (Q w)"
  obtains b k' L' R' where "signal_loop c w False False (exiting t k) = Some (b, k')"
    "kernel_inv {c} T k' (\<lambda>v. filter (\<lambda>q. fst q \<notin> fst ` set (Q w)) (Q v)) L' R' n"
    "current_thread (schedulers k' ! c) = Some t" "R' c = R c"
    "\<forall>p \<in> set (Q w). block_result (fst p) (mem k') = wake_result (mem k) p False"
    "\<forall>p \<in> set (Q w). made_ready c (tcbs (mem k')) R' (fst p)"
    "\<forall>x. same_thread (tcbs (mem (exiting t k)) x) (tcbs (mem k') x)"
    "t_state (tcbs (mem k') t) = Terminated" "thread_counts k' = thread_counts k"
    "b \<longleftrightarrow> (\<exists>p \<in> set (Q w). t_pinned_core (tcbs (mem k) (fst p)) = c \<and>
        t_effective_priority (tcbs (mem k) (fst p)) < t_effective_priority (tcbs (mem k) t))"
proof -
  note ex = exiting_inv [OF inv c cur]
  have cur1: "current_thread (schedulers (exiting t k) ! c) = Some t" using cur(1) by (simp add: exiting_sel)
  have room1: "inbox_room c (tcbs (mem (exiting t k))) R (Q w)" using room by (simp add: inbox_room_def exiting_sel)
  obtain b k' L' R' where l: "signal_loop c w False False (exiting t k) = Some (b, k')"
    "kernel_inv {c} T k' (\<lambda>v. filter (\<lambda>q. fst q \<notin> fst ` set (Q w)) (Q v)) L' R' n"
    "current_thread (schedulers k' ! c) = Some t" "R' c = R c"
    "\<forall>p \<in> set (Q w). block_result (fst p) (mem k') = wake_result (mem (exiting t k)) p False"
    "\<forall>x. same_thread (tcbs (mem (exiting t k)) x) (tcbs (mem k') x)"
    "\<forall>x. x \<notin> fst ` set (Q w) \<longrightarrow> t_state (tcbs (mem k') x) = t_state (tcbs (mem (exiting t k)) x)"
    "\<forall>p \<in> set (Q w). made_ready c (tcbs (mem k')) R' (fst p)"
    "b \<longleftrightarrow> False \<or> (\<exists>p \<in> set (Q w). t_pinned_core (tcbs (mem (exiting t k)) (fst p)) = c \<and>
        t_effective_priority (tcbs (mem (exiting t k)) (fst p)) < t_effective_priority (tcbs (mem (exiting t k)) t))"
    using signal_loop_leaving_inv [OF ex(1) c w(2) cur1 room1, of False False] ex(2) by blast
  have "t \<notin> fst ` set (Q w)" using slots_queues [OF kernel_invD(1) [OF ex(1)] ex(3)] ex(2) by auto
  then have st: "t_state (tcbs (mem k') t) = Terminated" using l(7) exiting_sel(1) by simp
  have cn: "thread_counts k' = thread_counts k" using counts_signal_loop [OF l(1)] exiting_sel(15) by simp
  show thesis
    by (rule that [OF l(1-4) _ l(8,6) st cn]) (use l(5,9) in \<open>simp_all add: exiting_sel wake_result_def\<close>)
qed

text \<open>Whether the fiber of a terminated thread is suspended does not matter any more.\<close>

definition with_fiber :: "tcb_ptr \<Rightarrow> bool \<Rightarrow> kernel \<Rightarrow> kernel" where
  "with_fiber t x k = set_port ((port k)\<lparr>fiber_suspended := (fiber_suspended (port k))(t := x)\<rparr>) k"

lemma with_fiber_sel [simp]:
  "mem (with_fiber t x k) = mem k" "schedulers (with_fiber t x k) = schedulers k" "hooks (with_fiber t x k) = hooks k"
  "thread_counts (with_fiber t x k) = thread_counts k"
  by (simp_all add: with_fiber_def set_port_def thread_counts_def)

lemma kernel_inv_with_fiber:
  assumes "kernel_inv A T k Q L R n" "t_state (tcbs (mem k) t) = Terminated"
  shows "kernel_inv A T (with_fiber t x k) Q L R n"
proof -
  have "thread_inv (with_fiber t x k) R y" if "y \<in> T" for y
    using kernel_invD(4) [OF assms(1) that] assms(2)
    by (cases "y = t") (auto simp: thread_inv_def Let_def with_fiber_def set_port_def)
  then show ?thesis
    using assms(1) by (simp add: kernel_inv_def port_inv_def core_inv_def with_fiber_def set_port_def pump_continues_def)
qed

text \<open>A fiber that returns differs from one that yields only in that it is not suspended.\<close>

lemma pump_after_return:
  assumes y: "cortos_port_pend_reschedule c k = Some k'" and ctx: "current_context (port k) c = Some t"
    and r: "\<And>prv nxt h s. reschedule (tcbs (mem k), schedulers k ! this_core c k) = Some (prv, nxt, h, s) \<Longrightarrow> nxt \<noteq> t"
    and go: "pump_continues (port k)"
  shows "pump c (set_port (fiber_return c (port k)) k) = Some (with_fiber t (fiber_suspended (port k) t) k')"
proof -
  let ?y = "fiber_yield c (port k)" and ?r = "fiber_return c (port k)"
  have yp: "pump_continues ?y" "handler_registered ?y = handler_registered (port k)" "cores_count ?y = cores_count (port k)"
    and rp: "pump_continues ?r" "handler_registered ?r = handler_registered (port k)" "cores_count ?r = cores_count (port k)"
    using go ctx by (simp_all add: fiber_yield_def fiber_return_def pump_continues_def)
  have tc: "this_core c (set_port q k) = this_core c k" if "cores_count q = cores_count (port k)" for q
    using that by (simp add: this_core_def cortos_port_get_core_id_def)
  have sf: "scheduler_for_core d (set_port q k) = scheduler_for_core d k" "mem (set_port q k) = mem k" for d q
    by (simp_all add: scheduler_for_core_def set_port_def)
  have "pump c (set_port ?y k) = Some k'" using y ctx by (simp add: cortos_port_pend_reschedule_def)
  then obtain s prv nxt h s' q where e: "handler_registered (port k)" "scheduler_for_core (this_core c k) k = Some s"
    "reschedule (tcbs (mem k), s) = Some (prv, nxt, h, s')" "cortos_port_switch c nxt ?y = Some q"
    "k' = set_port q (set_scheduler (this_core c k) s' (set_tcbs h (set_port ?y k)))"
    using yp by (auto simp: pump_def reschedule_this_core_def tc [OF yp(3)] sf split: bind_splits if_splits)
  have "s = schedulers k ! this_core c k" using e(2) by (auto simp: scheduler_for_core_def split: if_splits)
  then have nt: "nxt \<noteq> t" using r e(3) by blast
  have q: "q = ?y\<lparr>current_context := (current_context ?y)(c := Some nxt), fiber_suspended := (fiber_suspended ?y)(nxt := False)\<rparr>"
    "fiber_suspended ?y nxt" using e(4) by (auto simp: cortos_port_switch_def split: if_splits)
  let ?q = "?r\<lparr>current_context := (current_context ?r)(c := Some nxt), fiber_suspended := (fiber_suspended ?r)(nxt := False)\<rparr>"
  have sw: "cortos_port_switch c nxt ?r = Some ?q"
    using q(2) nt ctx by (simp add: cortos_port_switch_def fiber_yield_def fiber_return_def)
  have "?q = q\<lparr>fiber_suspended := (fiber_suspended q)(t := fiber_suspended (port k) t)\<rparr>"
  proof -
    have "(f(nxt := False))(t := f t) = f(nxt := False)" for f :: "tcb_ptr \<Rightarrow> bool" using nt by (simp add: fun_upd_idem)
    then show ?thesis unfolding q(1) using ctx nt by (simp add: fiber_yield_def fiber_return_def fun_upd_twist)
  qed
  then have "set_port ?q (set_scheduler (this_core c k) s' (set_tcbs h (set_port ?r k))) =
      with_fiber t (fiber_suspended (port k) t) k'"
    unfolding e(5) by (simp add: with_fiber_def set_port_def set_scheduler_def set_tcbs_def)
  then show ?thesis
    using e(1-3) sw rp by (simp add: pump_def reschedule_this_core_def tc [OF rp(3)] sf)
qed

text \<open>A terminated thread loses its core to a thread that is not.\<close>

lemma terminated_switches:
  assumes inv: "kernel_inv A T k Q L R n" and c: "c < CORES" and n: "n c + length (R c) \<le> 2 ^ 62"
    and cur: "current_thread (schedulers k ! c) = Some t" "t_state (tcbs (mem k) t) = Terminated"
  obtains k' nxt L' where "cortos_port_pend_reschedule c k = Some k'"
    "kernel_inv (A - {c}) T k' Q L' (R(c := [])) (n(c := n c + length (R c)))"
    "current_thread (schedulers k' ! c) = Some nxt" "nxt \<noteq> t" "t_state (tcbs (mem k') t) = Terminated"
    "evolves (insert t (insert nxt (members (competing k c t (L c) (R c))))) (tcbs (mem k)) (tcbs (mem k'))"
    "\<forall>prv nxt h s. reschedule (tcbs (mem k), schedulers k ! c) = Some (prv, nxt, h, s) \<longrightarrow> nxt \<noteq> t"
    "\<forall>x. t_state (tcbs (mem k) x) = Ready \<longrightarrow> t_state (tcbs (mem k') x) \<in> {Ready, Running}"
proof -
  let ?L = "competing k c t (L c) (R c)"
  obtain h' s' where r: "reschedule (tcbs (mem k), schedulers k ! c) = Some (t, winner k c ?L, h', s')"
    and st: "\<And>x. x \<in> insert (winner k c ?L) (members ?L) \<Longrightarrow>
       x = t \<and> t_state (tcbs (mem k) t) = Running \<or> t_state (tcbs (mem k) x) = Ready \<or>
       x \<in> set (R c) \<and> t_state (tcbs (mem k) x) \<noteq> Terminated \<or>
       idle_thread (schedulers k ! c) = Some x \<and> t_state (tcbs (mem k) x) \<noteq> Terminated"
    by (rule core_reschedule [OF kernel_invD(3) [OF inv c] n cur(1)]) (rule that)
  have w: "winner k c ?L \<noteq> t" using st [of "winner k c ?L"] cur(2) by auto
  obtain k' where k': "cortos_port_pend_reschedule c k = Some k'"
    "kernel_inv (A - {c}) T k' Q (L(c := delist (winner k c ?L) ?L)) (R(c := [])) (n(c := n c + length (R c)))"
    "current_thread (schedulers k' ! c) = Some (winner k c ?L)"
    "switched c t (winner k c ?L) (tcbs (mem k)) (tcbs (mem k')) (members ?L)"
    by (rule pend_reschedule_inv [OF inv c n cur(1)])
  have "t_state (tcbs (mem k') t) = Terminated" using k'(4) w cur(2) by (simp add: switched_def)
  moreover have "t_state (tcbs (mem k') x) \<in> {Ready, Running}" if x: "t_state (tcbs (mem k) x) = Ready" for x
  proof (cases "x \<in> insert t (insert (winner k c ?L) (members ?L))")
    case False
    have ev: "evolves (insert t (insert (winner k c ?L) (members ?L))) (tcbs (mem k)) (tcbs (mem k'))"
      using k'(4) by (simp add: switched_def)
    show ?thesis using evolves_sel(9) [OF ev False] x by simp
  next
    case True
    have m: "matrix_rep (tcbs (mem k')) (ready_matrix (schedulers k' ! c)) (delist (winner k c ?L) ?L)"
      using kernel_invD(3) [OF k'(2) c] by (simp add: core_inv_def sched_rep_def)
    show ?thesis
    proof (cases "x = winner k c ?L")
      case True
      then show ?thesis using k'(4) by (simp add: switched_def)
    next
      case False
      then obtain j where "x \<in> set (delist (winner k c ?L) ?L j)"
        using True x cur(2) by (auto simp: members_def delist_def)
      then show ?thesis using matrix_rep_member [OF m] by blast
    qed
  qed
  ultimately show thesis
    by (intro that [OF k'(1-3) w]) (use k'(4) w r in \<open>auto simp: switched_def\<close>)
qed

lemma kernel_inv_context:
  assumes "kernel_inv A T k Q L R n" "c < CORES" "current_thread (schedulers k ! c) = Some t"
  shows "current_context (port k) c = Some t"
  using kernel_invD(3) [OF assms(1,2)] assms(3) by (auto simp: core_inv_def current_ok_def)

text \<open>What the exit of \<open>t\<close> has done for the joiners in \<open>ps\<close>.\<close>

definition joiners_woken :: "nat \<Rightarrow> kernel \<Rightarrow> kernel \<Rightarrow> (nat \<Rightarrow> tcb_ptr list) \<Rightarrow> node_ptr list \<Rightarrow> bool" where
  "joiners_woken c k k' R ps \<longleftrightarrow> (\<forall>p \<in> set ps. woken c k' R (fst p) \<and>
     block_result (fst p) (mem k') = \<lparr>r_index = int (unat (n_index (nodes (mem k) p))), r_acquired = False\<rparr>)"

lemma joiners_woken_switch:
  assumes res: "\<forall>p \<in> set ps. block_result (fst p) (mem k1) = wake_result (mem k) p False"
    and rdy: "\<forall>p \<in> set ps. made_ready c (tcbs (mem k1)) R (fst p)"
    and ev: "evolves S (tcbs (mem k1)) (tcbs (mem k'))"
    and st: "\<forall>x. t_state (tcbs (mem k1) x) = Ready \<longrightarrow> t_state (tcbs (mem k') x) \<in> {Ready, Running}"
  shows "joiners_woken c k k' (R(c := [])) ps"
  unfolding joiners_woken_def
proof (intro ballI conjI)
  fix p assume p: "p \<in> set ps"
  show "block_result (fst p) (mem k') = \<lparr>r_index = int (unat (n_index (nodes (mem k) p))), r_acquired = False\<rparr>"
    using res p evolves_sel(4) [OF ev] by (simp add: block_result_def wake_result_def)
  show "woken c k' (R(c := [])) (fst p)"
    using rdy p st evolves_sel(3) [OF ev] by (auto simp: made_ready_def woken_def split: if_splits)
qed

text \<open>The launcher of a thread whose entry function has returned, up to the joiners.\<close>

lemma launcher_end_eq:
  assumes "\<not> has_terminated t k" "t_termination (tcbs (mem k) t) = w"
    and "signal_loop c w False False (exiting t k) = Some (b, k1)"
  shows "thread_launcher_end c t k = do {
     k2 \<leftarrow> (if b then cortos_port_pend_reschedule c k1 else Some k1);
     (if current_context (port k2) c = Some t then thread_launcher_rest c t k2 else Some k2) }"
proof -
  let ?k = "k\<lparr>mem := set_state t Terminated (mem k)\<rparr>"
  have "\<not> has_terminated t ?k" "t_termination (tcbs (mem ?k) t) = w"
    using assms(1,2) by (simp_all add: has_terminated_def set_state_def tcb_set_state_def)
  moreover have "set_terminated t ?k = exiting t k" by (simp add: exiting_def)
  ultimately have "terminate c t ?k = (if b then cortos_port_pend_reschedule c k1 else Some k1)"
    using assms(3) by (simp add: terminate_def signal_all_def)
  then show ?thesis by (simp add: thread_launcher_end_def Let_def)
qed

text \<open>The books of the kernel and of the port after an exit.\<close>

definition off_the_books :: "kernel \<Rightarrow> kernel" where
  "off_the_books k = set_port ((port k)\<lparr>active_contexts := active_contexts (port k) - 1\<rparr>)
     (k\<lparr>active_threads := active_threads k - 1\<rparr>)"

lemma off_the_books_sel [simp]:
  "mem (off_the_books k) = mem k" "schedulers (off_the_books k) = schedulers k"
  "current_context (port (off_the_books k)) = current_context (port k)"
  "thread_counts (off_the_books k) = (active_threads k - 1, active_contexts (port k) - 1)"
  "pump_continues (port (off_the_books k)) \<longleftrightarrow> unat (active_contexts (port k) - 1) > cores_count (port k)"
  by (simp_all add: off_the_books_def set_port_def thread_counts_def pump_continues_def)

lemma kernel_inv_off_the_books:
  assumes "kernel_inv A T k Q L R n" "CORES < unat (active_contexts (port k) - 1)"
  shows "kernel_inv A T (off_the_books k) Q L R n"
  using assms by (simp add: kernel_inv_def port_inv_def core_inv_def thread_inv_def off_the_books_def set_port_def pump_continues_def)

lemma launcher_rest_eq:
  assumes "t_id (tcbs (mem k) t) \<noteq> IDLE_THREAD_ID" "active_threads k \<noteq> 0" "active_contexts (port k) \<noteq> 0"
  shows "thread_launcher_rest c t k = pump c (set_port (fiber_return c (port (off_the_books k))) (off_the_books k))"
  using assms
  by (simp add: thread_launcher_rest_def unregister_thread_def cortos_port_thread_exit_def off_the_books_def set_port_def)

text \<open>A running thread that exits; the names are those of the state before the exit.\<close>

definition exits :: "tcb_ptr set \<Rightarrow> kernel \<Rightarrow> (waitable_ptr \<Rightarrow> node_ptr list) \<Rightarrow> (nat \<Rightarrow> ready_lists) \<Rightarrow>
    (nat \<Rightarrow> tcb_ptr list) \<Rightarrow> (nat \<Rightarrow> nat) \<Rightarrow> nat \<Rightarrow> tcb_ptr \<Rightarrow> bool" where
  "exits T k Q L R n c t \<longleftrightarrow> kernel_inv {} T k Q L R n \<and> c < CORES \<and> n c + length (R c) \<le> 2 ^ 62 \<and>
     current_thread (schedulers k ! c) = Some t \<and> idle_thread (schedulers k ! c) \<noteq> Some t \<and>
     t_id (tcbs (mem k) t) \<noteq> IDLE_THREAD_ID \<and> \<not> has_terminated t k \<and> t_termination (tcbs (mem k) t) \<noteq> nullptr \<and>
     active_threads k \<noteq> 0 \<and> inbox_room c (tcbs (mem k)) R (Q (t_termination (tcbs (mem k) t)))"

definition better_joiner :: "kernel \<Rightarrow> (waitable_ptr \<Rightarrow> node_ptr list) \<Rightarrow> nat \<Rightarrow> tcb_ptr \<Rightarrow> bool" where
  "better_joiner k Q c t \<longleftrightarrow> (\<exists>p \<in> set (Q (t_termination (tcbs (mem k) t))).
     t_pinned_core (tcbs (mem k) (fst p)) = c \<and>
     t_effective_priority (tcbs (mem k) (fst p)) < t_effective_priority (tcbs (mem k) t))"

text \<open>The queues without the joiners of \<open>t\<close>.\<close>

definition without_joiners :: "kernel \<Rightarrow> tcb_ptr \<Rightarrow> (waitable_ptr \<Rightarrow> node_ptr list) \<Rightarrow> waitable_ptr \<Rightarrow> node_ptr list" where
  "without_joiners k t Q = (\<lambda>v. filter (\<lambda>q. fst q \<notin> fst ` set (Q (t_termination (tcbs (mem k) t)))) (Q v))"

lemma exit_to_joiners:
  assumes e: "exits T k Q L R n c t"
  obtains k1 L1 R1 where "signal_loop c (t_termination (tcbs (mem k) t)) False False (exiting t k) = Some (better_joiner k Q c t, k1)"
    "kernel_inv {c} T k1 (without_joiners k t Q) L1 R1 n" "current_thread (schedulers k1 ! c) = Some t" "R1 c = R c"
    "\<forall>p \<in> set (Q (t_termination (tcbs (mem k) t))). block_result (fst p) (mem k1) = wake_result (mem k) p False"
    "\<forall>p \<in> set (Q (t_termination (tcbs (mem k) t))). made_ready c (tcbs (mem k1)) R1 (fst p)"
    "t_state (tcbs (mem k1) t) = Terminated" "t_terminated (tcbs (mem k1) t)" "t_id (tcbs (mem k1) t) \<noteq> IDLE_THREAD_ID"
    "thread_counts k1 = thread_counts k"
proof -
  have h: "kernel_inv {} T k Q L R n" "c < CORES" "current_thread (schedulers k ! c) = Some t"
    "idle_thread (schedulers k ! c) \<noteq> Some t" "t_termination (tcbs (mem k) t) \<noteq> nullptr"
    "inbox_room c (tcbs (mem k)) R (Q (t_termination (tcbs (mem k) t)))"
    using e by (simp_all add: exits_def)
  obtain b k1 L1 R1 where l: "signal_loop c (t_termination (tcbs (mem k) t)) False False (exiting t k) = Some (b, k1)"
    "kernel_inv {c} T k1 (\<lambda>v. filter (\<lambda>q. fst q \<notin> fst ` set (Q (t_termination (tcbs (mem k) t)))) (Q v)) L1 R1 n"
    "current_thread (schedulers k1 ! c) = Some t" "R1 c = R c"
    "\<forall>p \<in> set (Q (t_termination (tcbs (mem k) t))). block_result (fst p) (mem k1) = wake_result (mem k) p False"
    "\<forall>p \<in> set (Q (t_termination (tcbs (mem k) t))). made_ready c (tcbs (mem k1)) R1 (fst p)"
    "\<forall>x. same_thread (tcbs (mem (exiting t k)) x) (tcbs (mem k1) x)"
    "t_state (tcbs (mem k1) t) = Terminated" "thread_counts k1 = thread_counts k"
    "b \<longleftrightarrow> (\<exists>p \<in> set (Q (t_termination (tcbs (mem k) t))). t_pinned_core (tcbs (mem k) (fst p)) = c \<and>
        t_effective_priority (tcbs (mem k) (fst p)) < t_effective_priority (tcbs (mem k) t))"
    by (rule exit_signals [OF h(1-4) refl h(5,6)])
  have "b = better_joiner k Q c t" using l(10) by (simp add: better_joiner_def)
  moreover have "t_terminated (tcbs (mem k1) t)" "t_id (tcbs (mem k1) t) \<noteq> IDLE_THREAD_ID"
    using l(7) [rule_format, of t] e by (simp_all add: same_thread_def exiting_sel exits_def)
  ultimately show thesis
    using that [of k1 L1 R1] l(1-6,8,9) by (simp add: without_joiners_def)
qed

lemma exit_contexts:
  assumes "exits T k Q L R n c t"
  shows "CORES < unat (active_contexts (port k))" "active_contexts (port k) \<noteq> 0"
    "unat (active_contexts (port k) - 1) = unat (active_contexts (port k)) - 1"
proof -
  show g: "CORES < unat (active_contexts (port k))"
    using assms by (auto simp: exits_def kernel_inv_def port_inv_def pump_continues_def)
  then show n: "active_contexts (port k) \<noteq> 0" by (metis not_less_zero unat_0)
  then show "unat (active_contexts (port k) - 1) = unat (active_contexts (port k)) - 1"
    by (simp add: unat_minus_one)
qed

lemma exit_rest:
  assumes e: "exits T k Q L R n c t" and nb: "\<not> better_joiner k Q c t"
    and k1: "signal_loop c (t_termination (tcbs (mem k) t)) False False (exiting t k) = Some (better_joiner k Q c t, k1)"
      "kernel_inv {c} T k1 Q1 L1 R1 n" "current_thread (schedulers k1 ! c) = Some t"
      "t_id (tcbs (mem k1) t) \<noteq> IDLE_THREAD_ID" "thread_counts k1 = thread_counts k"
  shows "thread_launcher_end c t k =
      pump c (set_port (fiber_return c (port (off_the_books k1))) (off_the_books k1))"
proof -
  have "\<not> has_terminated t k" "c < CORES" "active_threads k \<noteq> 0" using e by (simp_all add: exits_def)
  then show ?thesis
    using launcher_end_eq [OF _ refl k1(1)] nb kernel_inv_context [OF k1(2) _ k1(3)]
      launcher_rest_eq [OF k1(4), of c] k1(5) exit_contexts(2) [OF e]
    by (simp add: thread_counts_def)
qed

text \<open>Another thread is left: the core goes to a ready one.\<close>

lemma exit_hands_over:
  assumes e: "exits T k Q L R n c t" and nb: "\<not> better_joiner k Q c t"
    and more: "CORES + 1 < unat (active_contexts (port k))"
  obtains k' nxt L' R' where "thread_launcher_end c t k = Some k'"
    "kernel_inv {} T k' (without_joiners k t Q) L' (R'(c := [])) (n(c := n c + length (R c)))"
    "current_thread (schedulers k' ! c) = Some nxt" "nxt \<noteq> t" "t_state (tcbs (mem k') t) = Terminated" "has_terminated t k'"
    "thread_counts k' = (active_threads k - 1, active_contexts (port k) - 1)"
    "joiners_woken c k k' (R'(c := [])) (Q (t_termination (tcbs (mem k) t)))"
proof -
  have c: "c < CORES" and n: "n c + length (R c) \<le> 2 ^ 62" using e by (simp_all add: exits_def)
  obtain k1 L1 R1 where k1: "signal_loop c (t_termination (tcbs (mem k) t)) False False (exiting t k) = Some (better_joiner k Q c t, k1)"
    "kernel_inv {c} T k1 (without_joiners k t Q) L1 R1 n" "current_thread (schedulers k1 ! c) = Some t" "R1 c = R c"
    "\<forall>p \<in> set (Q (t_termination (tcbs (mem k) t))). block_result (fst p) (mem k1) = wake_result (mem k) p False"
    "\<forall>p \<in> set (Q (t_termination (tcbs (mem k) t))). made_ready c (tcbs (mem k1)) R1 (fst p)"
    "t_state (tcbs (mem k1) t) = Terminated" "t_terminated (tcbs (mem k1) t)" "t_id (tcbs (mem k1) t) \<noteq> IDLE_THREAD_ID"
    "thread_counts k1 = thread_counts k" by (rule exit_to_joiners [OF e])
  let ?k = "off_the_books k1"
  have cn: "active_threads k1 = active_threads k" "active_contexts (port k1) = active_contexts (port k)"
    using k1(10) by (simp_all add: thread_counts_def)
  have inv: "kernel_inv {c} T ?k (without_joiners k t Q) L1 R1 n"
    by (rule kernel_inv_off_the_books [OF k1(2)]) (use exit_contexts(3) [OF e] more in \<open>simp add: cn\<close>)
  have cur: "current_thread (schedulers ?k ! c) = Some t" "t_state (tcbs (mem ?k) t) = Terminated"
    using k1(3,7) by simp_all
  obtain k2 nxt L2 where k2: "cortos_port_pend_reschedule c ?k = Some k2"
    "kernel_inv ({c} - {c}) T k2 (without_joiners k t Q) L2 (R1(c := [])) (n(c := n c + length (R1 c)))"
    "current_thread (schedulers k2 ! c) = Some nxt" "nxt \<noteq> t" "t_state (tcbs (mem k2) t) = Terminated"
    "evolves (insert t (insert nxt (members (competing ?k c t (L1 c) (R1 c))))) (tcbs (mem ?k)) (tcbs (mem k2))"
    "\<forall>prv nxt h s. reschedule (tcbs (mem ?k), schedulers ?k ! c) = Some (prv, nxt, h, s) \<longrightarrow> nxt \<noteq> t"
    "\<forall>x. t_state (tcbs (mem ?k) x) = Ready \<longrightarrow> t_state (tcbs (mem k2) x) \<in> {Ready, Running}"
    by (rule terminated_switches [OF inv c n [folded k1(4)] cur])
  let ?k' = "with_fiber t (fiber_suspended (port ?k) t) k2"
  have "pump c (set_port (fiber_return c (port ?k)) ?k) = Some ?k'"
  proof (rule pump_after_return [OF k2(1)])
    show "current_context (port ?k) c = Some t" by (rule kernel_inv_context [OF inv c cur(1)])
    show "nxt \<noteq> t" if "reschedule (tcbs (mem ?k), schedulers ?k ! this_core c ?k) = Some (prv, nxt, h, s)" for prv nxt h s
      using k2(7) that kernel_inv_core_ready(2) [OF inv c, of 0] by simp
    show "pump_continues (port ?k)" using kernel_invD(2) [OF inv] by (simp add: port_inv_def)
  qed
  then have "thread_launcher_end c t k = Some ?k'" using exit_rest [OF e nb k1(1-3,9,10)] by simp
  moreover have "kernel_inv {} T ?k' (without_joiners k t Q) L2 (R1(c := [])) (n(c := n c + length (R c)))"
    using kernel_inv_with_fiber [OF k2(2,5)] k1(4) by simp
  moreover have "has_terminated t ?k'" using k1(8) evolves_sel(7) [OF k2(6)] by (simp add: has_terminated_def)
  moreover have "thread_counts ?k' = (active_threads k - 1, active_contexts (port k) - 1)"
    using counts_pend_reschedule [OF k2(1)] by (simp add: cn)
  moreover have "joiners_woken c k ?k' (R1(c := [])) (Q (t_termination (tcbs (mem k) t)))"
    by (rule joiners_woken_switch [OF k1(5,6)]) (use k2(6,8) in simp_all)
  ultimately show thesis using that k2(3-5) by simp
qed

text \<open>The last thread beside the idle threads: the port is asked to shut down.\<close>

lemma exit_shuts_down:
  assumes e: "exits T k Q L R n c t" and nb: "\<not> better_joiner k Q c t"
    and last: "\<not> CORES + 1 < unat (active_contexts (port k))"
  obtains k' where "thread_launcher_end c t k = Some k'" "current_context (port k') c = None"
    "shutdown_requested (port k')" "\<not> pump_continues (port k')"
    "t_state (tcbs (mem k') t) = Terminated" "has_terminated t k'"
    "thread_counts k' = (active_threads k - 1, active_contexts (port k) - 1)"
proof -
  obtain k1 L1 R1 where k1: "signal_loop c (t_termination (tcbs (mem k) t)) False False (exiting t k) = Some (better_joiner k Q c t, k1)"
    "kernel_inv {c} T k1 (without_joiners k t Q) L1 R1 n" "current_thread (schedulers k1 ! c) = Some t"
    "t_state (tcbs (mem k1) t) = Terminated" "t_terminated (tcbs (mem k1) t)" "t_id (tcbs (mem k1) t) \<noteq> IDLE_THREAD_ID"
    "thread_counts k1 = thread_counts k" by (rule exit_to_joiners [OF e]) (rule that)
  let ?p = "fiber_return c (port (off_the_books k1))"
  have cn: "active_threads k1 = active_threads k" "active_contexts (port k1) = active_contexts (port k)"
    using k1(7) by (simp_all add: thread_counts_def)
  have cc: "cores_count (port k1) = CORES" using kernel_invD(2) [OF k1(2)] by (simp add: port_inv_def)
  have p: "\<not> pump_continues ?p" "current_context ?p c = None" "active_contexts ?p = active_contexts (port k) - 1"
    using cc cn last exit_contexts(3) [OF e]
    by (simp_all add: fiber_return_def off_the_books_def set_port_def pump_continues_def)
  let ?k' = "set_port (request_shutdown ?p) (set_port ?p (off_the_books k1))"
  have "thread_launcher_end c t k = Some ?k'"
    using exit_rest [OF e nb k1(1-3,6,7)] p(1) by (simp add: pump_def)
  moreover have "current_context (port ?k') c = None" "shutdown_requested (port ?k')" "\<not> pump_continues (port ?k')"
    "active_contexts (port ?k') = active_contexts (port k) - 1"
    using p by (simp_all add: request_shutdown_def pump_continues_def)
  moreover have "mem ?k' = mem k1" "active_threads ?k' = active_threads k - 1"
    by (simp_all add: set_port_def off_the_books_def cn)
  ultimately show thesis using that k1(4,5) by (simp add: has_terminated_def thread_counts_def)
qed

text \<open>The thread of priority 5 of the concrete system exits at once.\<close>

lemma demo_exits:
  obtains k L where "boot demo_abi 0 demo_stacks demo_mem demo_specs = Some k"
    "exits {0x10D00, 0x11D00, 0x12D00, 0x13D00, 0x100D00, 0x200D00, 0x300D00} k (\<lambda>_. []) L (\<lambda>_. []) (\<lambda>_. 0) 0 0x100D00"
    "active_threads k = 3" "active_contexts (port k) = 7"
proof (rule demo_booted, goal_cases)
  case (1 k L)
  have "t_id (tcbs (mem k) 0x100D00) \<noteq> IDLE_THREAD_ID" "\<not> t_terminated (tcbs (mem k) 0x100D00)"
    "t_termination (tcbs (mem k) 0x100D00) = 0x100F00"
    using 1(14) by (simp_all add: demo_abi_def)
  then have "exits {0x10D00, 0x11D00, 0x12D00, 0x13D00, 0x100D00, 0x200D00, 0x300D00} k (\<lambda>_. []) L (\<lambda>_. []) (\<lambda>_. 0) 0 0x100D00"
    using 1(3,4,12,16) by (simp add: exits_def CORES_def has_terminated_def inbox_room_def)
  then show ?case by (rule that [OF 1(2) _ 1(16,17)])
qed

text \<open>
  C10: a thread other than an idle thread whose entry function returns, and that no thread of better
  priority on its own core joins, ends without a failed assertion: it is \<^const>\<open>Terminated\<close>, its
  termination object says so, and the kernel and the port each count one thread less.  While other
  threads are left, the core goes on with a thread that is not the one that ended, every joiner has
  been made ready or is on its way to its core with the index of the termination object among its
  waitables as its result, and the invariant of the kernel is kept; the exit of the last thread makes
  the port shut down.
\<close>

theorem thread_exit_hands_over:
  assumes "exits T k Q L R n c t" "\<not> better_joiner k Q c t"
  shows "\<exists>k'. thread_launcher_end c t k = Some k' \<and> t_state (tcbs (mem k') t) = Terminated \<and> has_terminated t k' \<and>
    thread_counts k' = (active_threads k - 1, active_contexts (port k) - 1) \<and>
    (if CORES + 1 < unat (active_contexts (port k))
     then \<exists>nxt L' R'. kernel_inv {} T k' (without_joiners k t Q) L' (R'(c := [])) (n(c := n c + length (R c))) \<and>
       current_thread (schedulers k' ! c) = Some nxt \<and> nxt \<noteq> t \<and>
       joiners_woken c k k' (R'(c := [])) (Q (t_termination (tcbs (mem k) t)))
     else current_context (port k') c = None \<and> shutdown_requested (port k') \<and> \<not> pump_continues (port k'))"
proof (cases "CORES + 1 < unat (active_contexts (port k))")
  case True
  show ?thesis by (rule exit_hands_over [OF assms True]) (use True in auto)
next
  case False
  show ?thesis by (rule exit_shuts_down [OF assms False]) (use False in auto)
qed

theorem thread_exit_hands_over_witness:
  "\<exists>k k' nxt. boot demo_abi 0 demo_stacks demo_mem demo_specs = Some k \<and>
     thread_launcher_end 0 0x100D00 k = Some k' \<and> has_terminated 0x100D00 k' \<and> thread_counts k' = (2, 6) \<and>
     current_thread (schedulers k' ! 0) = Some nxt \<and> nxt \<noteq> 0x100D00"
proof -
  obtain k L where k: "boot demo_abi 0 demo_stacks demo_mem demo_specs = Some k"
    "exits {0x10D00, 0x11D00, 0x12D00, 0x13D00, 0x100D00, 0x200D00, 0x300D00} k (\<lambda>_. []) L (\<lambda>_. []) (\<lambda>_. 0) 0 0x100D00"
    "active_threads k = 3" "active_contexts (port k) = 7" by (rule demo_exits)
  have "\<not> better_joiner k (\<lambda>_. []) 0 0x100D00" by (simp add: better_joiner_def)
  from thread_exit_hands_over [OF k(2) this]
  show ?thesis using k(1) by (auto simp: k(3,4) CORES_def)
qed

text \<open>A terminated thread is nowhere.\<close>

lemma terminated_nowhere:
  assumes inv: "kernel_inv {} T k Q L R n" and t: "t \<in> T" "t_state (tcbs (mem k) t) = Terminated"
  shows "\<And>d. d < CORES \<Longrightarrow> current_thread (schedulers k ! d) \<noteq> Some t \<and> t \<notin> members (L d) \<union> set (R d)"
    "\<And>w i. (t, i) \<notin> set (Q w)"
proof -
  fix d assume d: "d < CORES"
  have ci: "core_inv False T k d (L d) (R d) (n d)" using kernel_invD(3) [OF inv d] by simp
  then have m: "matrix_rep (tcbs (mem k)) (ready_matrix (schedulers k ! d)) (L d)" by (simp add: core_inv_def sched_rep_def)
  have "t \<notin> members (L d)" using matrix_rep_member [OF m, of t] t(2) by (auto simp: members_def)
  moreover have "t \<notin> set (R d)" "current_thread (schedulers k ! d) \<noteq> Some t"
    using ci t(2) by (auto simp: core_inv_def current_ok_def)
  ultimately show "current_thread (schedulers k ! d) \<noteq> Some t \<and> t \<notin> members (L d) \<union> set (R d)" by simp
next
  fix w i
  have "slots (mem k) t = {}" using wait_inv_no_slots [OF kernel_invD(1) [OF inv] t(1)] t(2) by simp
  then show "(t, i) \<notin> set (Q w)" using slots_queues [OF kernel_invD(1) [OF inv] t(1)] by auto
qed

lemma better_joiner_exit:
  assumes "exits T k Q L R n c t" "better_joiner k Q c t"
  obtains k' nxt L' R' where "thread_launcher_end c t k = Some k'"
    "kernel_inv {} T k' (without_joiners k t Q) L' R' (n(c := n c + length (R c)))"
    "current_thread (schedulers k' ! c) = Some nxt" "nxt \<noteq> t"
    "t_state (tcbs (mem k') t) = Terminated" "has_terminated t k'" "thread_counts k' = thread_counts k"
proof -
  have h: "c < CORES" "n c + length (R c) \<le> 2 ^ 62" "\<not> has_terminated t k" using assms(1) by (simp_all add: exits_def)
  obtain k1 L1 R1 where k1: "signal_loop c (t_termination (tcbs (mem k) t)) False False (exiting t k) = Some (better_joiner k Q c t, k1)"
    "kernel_inv {c} T k1 (without_joiners k t Q) L1 R1 n" "current_thread (schedulers k1 ! c) = Some t" "R1 c = R c"
    "t_state (tcbs (mem k1) t) = Terminated" "t_terminated (tcbs (mem k1) t)" "thread_counts k1 = thread_counts k"
    by (rule exit_to_joiners [OF assms(1)]) (rule that)
  obtain k2 nxt L2 where k2: "cortos_port_pend_reschedule c k1 = Some k2"
    "kernel_inv ({c} - {c}) T k2 (without_joiners k t Q) L2 (R1(c := [])) (n(c := n c + length (R1 c)))"
    "current_thread (schedulers k2 ! c) = Some nxt" "nxt \<noteq> t" "t_state (tcbs (mem k2) t) = Terminated"
    "evolves (insert t (insert nxt (members (competing k1 c t (L1 c) (R1 c))))) (tcbs (mem k1)) (tcbs (mem k2))"
    by (rule terminated_switches [OF k1(2) h(1) h(2) [folded k1(4)] k1(3,5)]) (rule that)
  have inv: "kernel_inv {} T k2 (without_joiners k t Q) L2 (R1(c := [])) (n(c := n c + length (R c)))"
    using k2(2) k1(4) by simp
  have "current_context (port k2) c = Some nxt" by (rule kernel_inv_context [OF inv h(1) k2(3)])
  then have "thread_launcher_end c t k = Some k2"
    using launcher_end_eq [OF h(3) refl k1(1)] assms(2) k2(1,4) by simp
  moreover have "thread_counts k2 = thread_counts k" using counts_pend_reschedule [OF k2(1)] k1(7) by simp
  moreover have "has_terminated t k2" using k1(6) evolves_sel(7) [OF k2(6)] by (simp add: has_terminated_def)
  ultimately show thesis using that inv k2(3-5) by blast
qed

text \<open>
  C36: a thread that a thread of better priority on the same core joins is lost to the books: signalling
  the joiners switches to the joiner in the middle of the exit, and since the thread is already
  \<^const>\<open>Terminated\<close> no ready list, inbox or wait queue holds it and no core runs it any more.  Neither
  \<^verbatim>\<open>unregister_thread\<close> nor \<^verbatim>\<open>cortos_port_thread_exit\<close> has been called for it, so both counts stay one
  too high.
\<close>

theorem exit_with_better_joiner_miscounts:
  assumes "exits T k Q L R n c t" "better_joiner k Q c t"
  shows "\<exists>k' nxt L' R'. thread_launcher_end c t k = Some k' \<and>
    kernel_inv {} T k' (without_joiners k t Q) L' R' (n(c := n c + length (R c))) \<and>
    current_thread (schedulers k' ! c) = Some nxt \<and> nxt \<noteq> t \<and>
    t_state (tcbs (mem k') t) = Terminated \<and> thread_counts k' = thread_counts k \<and>
    (\<forall>d < CORES. current_thread (schedulers k' ! d) \<noteq> Some t \<and> t \<notin> members (L' d) \<union> set (R' d)) \<and>
    (\<forall>w i. (t, i) \<notin> set (without_joiners k t Q w))"
proof -
  have tT: "t \<in> T" using assms(1) exiting_inv(3) [of T k Q L R n c t] by (simp add: exits_def)
  obtain k' nxt L' R' where k': "thread_launcher_end c t k = Some k'"
    "kernel_inv {} T k' (without_joiners k t Q) L' R' (n(c := n c + length (R c)))"
    "current_thread (schedulers k' ! c) = Some nxt" "nxt \<noteq> t"
    "t_state (tcbs (mem k') t) = Terminated" "thread_counts k' = thread_counts k"
    by (rule better_joiner_exit [OF assms]) (rule that)
  show ?thesis
    using k' terminated_nowhere [OF k'(2) tT k'(5)]
    by (intro exI [of _ k'] exI [of _ nxt] exI [of _ L'] exI [of _ R']) blast
qed

lemma wait_for_any_idle:
  assumes inv: "kernel_inv {} T k Q L R n" and c: "c < CORES" and n: "n c + length (R c) \<le> 2 ^ 62"
    and cur: "current_thread (schedulers k ! c) = Some t" "idle_thread (schedulers k ! c) \<noteq> Some t"
    and ws: "ws \<noteq> []" "length ws \<le> MAX_WAIT_NODES" "nullptr \<notin> set ws" "distinct ws"
    and k': "wait_for_any c ws k = Some k'"
  shows "idle_thread (schedulers k' ! c) = idle_thread (schedulers k ! c)" "thread_counts k' = thread_counts k"
proof -
  obtain m where m: "wait_prepare c ws k = Some (k\<lparr>mem := m\<rparr>)"
    "kernel_inv {c} T (k\<lparr>mem := m\<rparr>) (add_nodes t 0 ws Q) L R n"
    by (rule wait_prepare_kernel_inv [OF inv c cur ws]) (rule that)
  obtain es where es: "cortos_port_pend_reschedule c (log_hooks es (k\<lparr>mem := m\<rparr>)) = Some k'"
    using k' m(1) by (auto simp: wait_for_any_def wait_commence_def notify_block_current_thread_def Let_def split: bind_splits)
  note i = kernel_inv_hooks [THEN iffD2, OF m(2), of es]
  have cur1: "current_thread (schedulers (log_hooks es (k\<lparr>mem := m\<rparr>)) ! c) = Some t"
    using cur(1) by (simp add: log_hooks_def)
  show "idle_thread (schedulers k' ! c) = idle_thread (schedulers k ! c)"
    using pend_reschedule_frame(2) [OF kernel_invD(2) [OF i] c _ es, of c] kernel_inv_context [OF i c cur1]
    by (simp add: log_hooks_def)
  show "thread_counts k' = thread_counts k" using counts_pend_reschedule [OF es] by simp
qed

text \<open>
  In the concrete system the thread of priority 5 waits for the end of the thread of priority 9, which
  then runs on their core and exits.
\<close>

lemma demo_joined:
  obtains k k1 Q L R n where "boot demo_abi 0 demo_stacks demo_mem demo_specs = Some k"
    "wait_for_any 0 [0x200F00] k = Some k1"
    "exits {0x10D00, 0x11D00, 0x12D00, 0x13D00, 0x100D00, 0x200D00, 0x300D00} k1 Q L R n 0 0x200D00"
    "better_joiner k1 Q 0 0x200D00" "thread_counts k1 = (3, 7)"
    "\<not> has_terminated 0x200D00 k" "t_termination (tcbs (mem k) 0x200D00) = 0x200F00"
proof -
  let ?T = "{0x10D00, 0x11D00, 0x12D00, 0x13D00, 0x100D00, 0x200D00, 0x300D00}"
  let ?Q = "add_nodes 0x100D00 0 [0x200F00] (\<lambda>_. [])"
  obtain k L where k: "boot demo_abi 0 demo_stacks demo_mem demo_specs = Some k"
    "kernel_inv {} ?T k (\<lambda>_. []) L (\<lambda>_. []) (\<lambda>_. 0)" "current_thread (schedulers k ! 0) = Some 0x100D00"
    "t_effective_priority (tcbs (mem k) 0x100D00) = 5" "t_effective_priority (tcbs (mem k) 0x200D00) = 9"
    "t_pinned_core (tcbs (mem k) 0x100D00) = 0" "idle_thread (schedulers k ! 0) = Some 0x10D00"
    "\<forall>t \<in> {0x100D00, 0x200D00}. t_id (tcbs (mem k) t) \<noteq> IDLE_THREAD_ID \<and> \<not> t_terminated (tcbs (mem k) t) \<and>
       t_termination (tcbs (mem k) t) = t + offsetof_termination demo_abi"
    "members (L 0) = {0x200D00}" "active_threads k = 3" "active_contexts (port k) = 7"
    by (rule demo_booted) (rule that)
  have own: "t_id (tcbs (mem k) 0x200D00) \<noteq> IDLE_THREAD_ID" "\<not> t_terminated (tcbs (mem k) 0x200D00)"
    "t_termination (tcbs (mem k) 0x200D00) = 0x200F00" using k(8) by (simp_all add: demo_abi_def)
  have c: "0 < CORES" "(0 :: nat) + length ([] :: tcb_ptr list) \<le> 2 ^ 62" "idle_thread (schedulers k ! 0) \<noteq> Some 0x100D00"
    "[0x200F00 :: addr] \<noteq> []" "length [0x200F00 :: addr] \<le> MAX_WAIT_NODES" "nullptr \<notin> set [0x200F00 :: addr]"
    "distinct [0x200F00 :: addr]" by (simp_all add: CORES_def k(7) MAX_WAIT_NODES_def)
  obtain k1 nxt L1 where k1: "wait_for_any 0 [0x200F00] k = Some k1"
    "kernel_inv {} ?T k1 ?Q L1 ((\<lambda>_. [])(0 := [])) ((\<lambda>_. 0)(0 := 0 + length ([] :: tcb_ptr list)))"
    "current_thread (schedulers k1 ! 0) = Some nxt"
    "\<forall>x. t_effective_priority (tcbs (mem k1) x) = t_effective_priority (tcbs (mem k) x) \<and>
       t_pinned_core (tcbs (mem k1) x) = t_pinned_core (tcbs (mem k) x)"
    "members (L 0) \<union> set [] \<noteq> {} \<longrightarrow> nxt \<in> members (L 0) \<union> set []"
    "\<forall>x. x \<noteq> 0x100D00 \<longrightarrow> t_id (tcbs (mem k1) x) = t_id (tcbs (mem k) x) \<and>
       t_termination (tcbs (mem k1) x) = t_termination (tcbs (mem k) x) \<and> t_terminated (tcbs (mem k1) x) = t_terminated (tcbs (mem k) x)"
    by (rule wait_for_any_switches [OF k(2) c(1,2) k(3) c(3-7)]) (rule that)
  have nxt: "nxt = 0x200D00" using k1(5) k(9) by simp
  note keep = wait_for_any_idle [OF k(2) c(1,2) k(3) c(3-7) k1(1)]
  have cn: "thread_counts k1 = (3, 7)" using keep(2) k(10,11) by (simp add: thread_counts_def)
  have w: "t_id (tcbs (mem k1) 0x200D00) \<noteq> IDLE_THREAD_ID" "\<not> t_terminated (tcbs (mem k1) 0x200D00)"
    "t_termination (tcbs (mem k1) 0x200D00) = 0x200F00" using k1(6) own by simp_all
  have q: "?Q 0x200F00 = [(0x100D00, 0)]" by simp
  have "exits ?T k1 ?Q L1 ((\<lambda>_. [])(0 := [])) ((\<lambda>_. 0)(0 := 0 + length ([] :: tcb_ptr list))) 0 0x200D00"
    using k1(2,3) c(1) w keep(1) k(7) cn
    by (simp add: exits_def nxt has_terminated_def inbox_room_def thread_counts_def INBOX_CAP_def)
  moreover have "better_joiner k1 ?Q 0 0x200D00"
    using q k1(4) k(4-6) by (simp add: better_joiner_def w(3))
  ultimately show thesis using that k(1) k1(1) cn own(2,3) by (simp add: has_terminated_def)
qed

theorem exit_with_better_joiner_miscounts_witness:
  "\<exists>k k1 k2. boot demo_abi 0 demo_stacks demo_mem demo_specs = Some k \<and> wait_for_any 0 [0x200F00] k = Some k1 \<and>
     thread_launcher_end 0 0x200D00 k1 = Some k2 \<and> t_state (tcbs (mem k2) 0x200D00) = Terminated \<and>
     thread_counts k2 = (3, 7)"
proof -
  obtain k k1 Q L R n where k: "boot demo_abi 0 demo_stacks demo_mem demo_specs = Some k"
    "wait_for_any 0 [0x200F00] k = Some k1"
    "exits {0x10D00, 0x11D00, 0x12D00, 0x13D00, 0x100D00, 0x200D00, 0x300D00} k1 Q L R n 0 0x200D00"
    "better_joiner k1 Q 0 0x200D00" "thread_counts k1 = (3, 7)" by (rule demo_joined)
  show ?thesis using exit_with_better_joiner_miscounts [OF k(3,4)] k(1,2,5) by auto
qed

text \<open>In the same system \<^verbatim>\<open>join\<close> by the thread of priority 5 blocks once and returns after the exit.\<close>

theorem join_waits_for_termination_witness:
  "\<exists>k k2. boot demo_abi 0 demo_stacks demo_mem demo_specs = Some k \<and> \<not> has_terminated 0x200D00 k \<and>
     join (\<lambda>i. thread_launcher_end 0 0x200D00) 0 (Some 0x200D00) k = Some k2 \<and> has_terminated 0x200D00 k2"
proof -
  obtain k k1 Q L R n where k: "boot demo_abi 0 demo_stacks demo_mem demo_specs = Some k"
    "wait_for_any 0 [0x200F00] k = Some k1"
    "exits {0x10D00, 0x11D00, 0x12D00, 0x13D00, 0x100D00, 0x200D00, 0x300D00} k1 Q L R n 0 0x200D00"
    "better_joiner k1 Q 0 0x200D00" "\<not> has_terminated 0x200D00 k" "t_termination (tcbs (mem k) 0x200D00) = 0x200F00"
    by (rule demo_joined)
  obtain k2 nxt L2 R2 n2 where k2: "thread_launcher_end 0 0x200D00 k1 = Some k2"
    "kernel_inv {} {0x10D00, 0x11D00, 0x12D00, 0x13D00, 0x100D00, 0x200D00, 0x300D00} k2 (without_joiners k1 0x200D00 Q) L2 R2 n2"
    "current_thread (schedulers k2 ! 0) = Some nxt" "has_terminated 0x200D00 k2"
    by (rule better_joiner_exit [OF k(3,4)]) (rule that)
  have c: "0 < CORES" by (simp add: CORES_def)
  note cr = kernel_inv_core_ready [OF k2(2) c, of 0]
  let ?ks = "\<lambda>i. if i = 0 then k else k2" and ?rs = "\<lambda>i. if i = 0 then Result_init else block_result nxt (mem k2)"
  have "waits_rounds (\<lambda>i. thread_launcher_end 0 0x200D00) 0 (\<lambda>m. t_terminated (tcbs m 0x200D00)) [t_termination (tcbs (mem (?ks 0)) 0x200D00)]
      (Suc 0) ?ks ?rs"
    using k(2,5,6) k2(1,3,4) cr
    by (simp add: waits_rounds_def has_terminated_def wait_resume_def current_of_def scheduler_for_core_def)
  from join_waits_for_termination [OF this] k2(2) c k(1,5,6) show ?thesis by auto
qed

end
