(* ===== verification/Kernel_Api.thy ===== *)
theory Kernel_Api
  imports Kernel_Inv
begin

text \<open>
  The rest of the public interface: the queries of kernel.cpp, the overloads of kernel.hpp, the
  constants of thread.hpp, and \<^verbatim>\<open>SpinlockGuard\<close> and the non-blocking operations of spin_lock.hpp.
\<close>

section \<open>Queries\<close>

definition is_running :: "kernel \<Rightarrow> bool" where
  "is_running k = running k"

definition get_active_threads :: "kernel \<Rightarrow> u32" where
  "get_active_threads k = active_threads k"

definition scheduler_for_time_core :: "kernel \<Rightarrow> Scheduler option" where
  "scheduler_for_time_core k = scheduler_for_core TIME_CORE_ID k"

definition core_count :: nat where
  "core_count = CORES"

definition this_thread_core_id :: "nat \<Rightarrow> kernel \<Rightarrow> nat" where
  "this_thread_core_id c k = cortos_port_get_core_id c (port k)"

text \<open>The body of \<^verbatim>\<open>thread_exit\<close> is \<^verbatim>\<open>__builtin_unreachable\<close>.\<close>

definition thread_exit :: "kernel \<Rightarrow> kernel option" where
  "thread_exit k = None"

section \<open>Overloads\<close>

text \<open>The static assertion refuses an empty argument list at compile time.\<close>

definition wait_for_any_refs :: "nat \<Rightarrow> waitable_ptr list \<Rightarrow> kernel \<Rightarrow> kernel option" where
  "wait_for_any_refs c ws k = do {
     CORTOS_ASSERT (length ws > 0);
     wait_for_any c ws k }"

definition wait_until_refs ::
  "(nat \<Rightarrow> kernel \<Rightarrow> kernel option) \<Rightarrow> nat \<Rightarrow> (kernel \<Rightarrow> bool) \<Rightarrow> waitable_ptr list \<Rightarrow> kernel \<Rightarrow> (Result \<times> kernel) option" where
  "wait_until_refs env c predicate ws k = do {
     CORTOS_ASSERT (length ws > 0);
     wait_until env c predicate ws k }"

definition wait_for :: "nat \<Rightarrow> waitable_ptr \<Rightarrow> kernel \<Rightarrow> kernel option" where
  "wait_for c w k = wait_for_any_refs c [w] k"

section \<open>Constants and handles\<close>

definition Core0 :: CoreAffinity where "Core0 = \<lparr>ca_mask = 0x01\<rparr>"
definition Core1 :: CoreAffinity where "Core1 = \<lparr>ca_mask = 0x02\<rparr>"
definition Core2 :: CoreAffinity where "Core2 = \<lparr>ca_mask = 0x04\<rparr>"
definition Core3 :: CoreAffinity where "Core3 = \<lparr>ca_mask = 0x08\<rparr>"

definition Thread_default :: Thread where
  "Thread_default = None"

section \<open>Guards\<close>

definition is_locked :: "waitable_ptr \<Rightarrow> kernel \<Rightarrow> bool" where
  "is_locked w k = wait_locked k w"

text \<open>The constructor locks, the destructor at the end of the block unlocks.\<close>

definition SpinlockGuard :: "nat \<Rightarrow> waitable_ptr \<Rightarrow> (kernel \<Rightarrow> ('a \<times> kernel) option) \<Rightarrow> kernel \<Rightarrow> ('a \<times> kernel) option" where
  "SpinlockGuard c w block k = do {
     k \<leftarrow> lock_waitable c w k;
     (x, k) \<leftarrow> block k;
     k \<leftarrow> unlock_waitable c w k;
     Some (x, k) }"

section \<open>How they relate to the rest\<close>

lemma pick_best_locked_guard:
  "pick_best_locked c w = SpinlockGuard c w (\<lambda>k. map_option (\<lambda>best. (best, k)) (pick_best w (mem k)))"
proof
  fix k
  show "pick_best_locked c w k = SpinlockGuard c w (\<lambda>k. map_option (\<lambda>best. (best, k)) (pick_best w (mem k))) k"
    unfolding pick_best_locked_def SpinlockGuard_def
    by (cases "lock_waitable c w k"; cases "pick_best w (mem (the (lock_waitable c w k)))") simp_all
qed

lemma core_constants:
  "Core0 = from_id 0" "Core1 = from_id 1" "Core2 = from_id 2" "Core3 = from_id 3"
  by (simp_all add: Core0_def Core1_def Core2_def Core3_def from_id_def)

lemma some_core_constant_allows:
  assumes "c < core_count"
  shows "\<exists>a \<in> {Core0, Core1, Core2, Core3}. \<forall>d. allows a d \<longleftrightarrow> d = c"
proof -
  have "c \<in> {0, 1, 2, 3}" using assms by (auto simp: core_count_def CORES_def)
  then show ?thesis using allows_from_id [of c] by (auto simp: core_constants)
qed

text \<open>
  A lock that was taken with \<^verbatim>\<open>try_lock\<close> by a thread in no other critical section cannot be released:
  the preemption depth is \<open>0\<close>, and \<^verbatim>\<open>unlock\<close> fails its assertion.
\<close>

lemma try_lock_unlock_fails:
  assumes inv: "kernel_inv {} T k Q L R n" and c: "c < CORES" and w: "\<not> is_locked w k"
  shows "fst (try_lock_waitable w k)" "unlock_waitable c w (snd (try_lock_waitable w k)) = None"
proof -
  show "fst (try_lock_waitable w k)" using w by (simp add: try_lock_waitable_def is_locked_def)
  have "preempt_disable_depth (schedulers k ! c) = 0" using kernel_invD(3) [OF inv c] by (simp add: core_inv_def)
  moreover have "c < length (schedulers k)" "this_core c k = c" using kernel_inv_core_ready(2,3) [OF inv c, of 0] by simp_all
  ultimately show "unlock_waitable c w (snd (try_lock_waitable w k)) = None"
    by (simp add: unlock_waitable_def try_lock_waitable_def on_scheduler_def scheduler_for_core_def this_core_def enable_preemption_def)
qed

end
