(* ===== verification/Refinement_Interface.thy ===== *)
theory Refinement_Interface
  imports Main
begin

text \<open>
  The interface through which a component that keeps hidden state is related to what its clients see:
  a step function on the concrete state and one on the view, such that a step on a consistent state
  gives the same answer and the same view, keeps the state consistent, and fails exactly when the step
  on the view fails.  Whole scripts of operations then agree.
\<close>

fun run_ops :: "('op \<Rightarrow> 'm \<Rightarrow> ('o \<times> 'm) option) \<Rightarrow> 'op list \<Rightarrow> 'm \<Rightarrow> ('o list \<times> 'm) option" where
  "run_ops step [] m = Some ([], m)"
| "run_ops step (op # ops) m = (case step op m of None \<Rightarrow> None | Some (x, m1) \<Rightarrow>
     (case run_ops step ops m1 of None \<Rightarrow> None | Some (xs, m2) \<Rightarrow> Some (x # xs, m2)))"

locale stepwise_refinement =
  fixes step :: "'op \<Rightarrow> 'm \<Rightarrow> ('o \<times> 'm) option" and spec :: "'op \<Rightarrow> 'v \<Rightarrow> ('o \<times> 'v) option"
    and inv :: "'m \<Rightarrow> bool" and view :: "'m \<Rightarrow> 'v" and ok :: "'op \<Rightarrow> bool"
  assumes refines: "inv m \<Longrightarrow> ok op \<Longrightarrow> map_option (map_prod id view) (step op m) = spec op (view m)"
    and keeps: "inv m \<Longrightarrow> ok op \<Longrightarrow> step op m = Some (x, m') \<Longrightarrow> inv m'"
begin

lemma run_refines:
  assumes "inv m" "\<forall>op \<in> set ops. ok op"
  shows "map_option (map_prod id view) (run_ops step ops m) = run_ops spec ops (view m)"
  using assms
proof (induction ops arbitrary: m)
  case Nil
  then show ?case by simp
next
  case (Cons op ops)
  have r: "map_option (map_prod id view) (step op m) = spec op (view m)" using Cons.prems by (simp add: refines)
  show ?case
  proof (cases "step op m")
    case None
    then show ?thesis using r by simp
  next
    case (Some y)
    obtain x m1 where y: "y = (x, m1)" by (cases y)
    have "inv m1" using keeps [of m op x m1] Cons.prems Some y by simp
    then have "map_option (map_prod id view) (run_ops step ops m1) = run_ops spec ops (view m1)"
      by (rule Cons.IH) (use Cons.prems(2) in simp)
    moreover have "spec op (view m) = Some (x, view m1)" using r Some y by simp
    ultimately show ?thesis using Some y
      by (cases "run_ops step ops m1") (auto simp: eq_commute [of _ "run_ops spec ops (view m1)"])
  qed
qed

lemma run_keeps:
  assumes "inv m" "\<forall>op \<in> set ops. ok op" "run_ops step ops m = Some (xs, m')"
  shows "inv m'"
  using assms
proof (induction ops arbitrary: m xs)
  case (Cons op ops)
  then obtain x m1 ys where "step op m = Some (x, m1)" "run_ops step ops m1 = Some (ys, m')"
    by (auto split: option.splits)
  then show ?case using Cons keeps [of m op x m1] by simp
qed simp

text \<open>The answers depend on the view alone.\<close>

lemma run_answers:
  assumes "inv m" "\<forall>op \<in> set ops. ok op"
  shows "map_option fst (run_ops step ops m) = map_option fst (run_ops spec ops (view m))"
  unfolding run_refines [OF assms, symmetric] by (simp add: option.map_comp o_def)

end

end
