(* ===== verification/Function_Object.thy ===== *)
theory Function_Object
  imports Cortos_Prelude Refinement_Interface
begin

text \<open>
  The type-erased callable of function.hpp: a \<^verbatim>\<open>Function\<close> owns one callable object, kept in its
  inline storage or in a heap block, and reaches it through a table of three functions.  The class is
  move-only.

  The stored callables are code of the application: a C++ type is a name of type \<open>ftype\<close>, and the
  environment \<open>\<Gamma>\<close>, a parameter, gives its size, its alignment, what a call of an object of that type
  does and what its move constructor does.  The model keeps every object with the name of its type, so
  that an access with the wrong table entry, an access to an object that is not alive, a double
  \<^verbatim>\<open>delete\<close> and a misaligned placement are all the value \<^const>\<open>None\<close>.

  The theorems: a script of operations on a set of \<^verbatim>\<open>Function\<close> objects answers like a plain map from
  names to optional values, whatever the storage policy; every object that was made is owned by one
  \<^verbatim>\<open>Function\<close> or has been destroyed once; the storage test ignores the alignment of the callable.
\<close>

section \<open>Types\<close>

datatype HeapPolicy = NoHeap | CanUseHeap | MustUseHeap

text \<open>The template parameters.\<close>

record function_params =
  InlineSize :: nat
  Policy :: HeapPolicy

definition AllowHeap :: "function_params \<Rightarrow> bool" where
  "AllowHeap P \<longleftrightarrow> Policy P \<noteq> NoHeap"

definition ForceHeap :: "function_params \<Rightarrow> bool" where
  "ForceHeap P \<longleftrightarrow> Policy P = MustUseHeap"

text \<open>
  A callable type of the application: \<^verbatim>\<open>sizeof\<close>, \<^verbatim>\<open>alignof\<close>, the result of a call with the state it
  leaves, and the move constructor with the value of the new object and the value left behind.
\<close>

type_synonym ftype = nat

record ('s, 'a, 'r) callable_type =
  ct_size :: nat
  ct_align :: nat
  ct_call :: "'s \<Rightarrow> 'a \<Rightarrow> 'r \<times> 's"
  ct_move :: "'s \<Rightarrow> 's \<times> 's"

text \<open>\<^verbatim>\<open>&VTableImpl<F, Heap>::table\<close>: the pointer determines the type and the kind of storage.\<close>

datatype VTable = VTableImpl (vt_type: ftype) (vt_heap: bool)

text \<open>
  The union: the inline bytes, with the object that lives there if any, or the heap pointer.
\<close>

datatype 's Storage = inline_storage "(ftype \<times> 's) option" | heap_ptr "nat option"

record 's Function =
  vtable :: "VTable option"
  storage :: "'s Storage"

text \<open>
  The \<^verbatim>\<open>Function\<close> objects alive, by address; the heap blocks in use; the next free block; and for each
  type the number of objects constructed and destroyed so far.
\<close>

record 's fn_mem =
  fns :: "nat \<Rightarrow> 's Function option"
  blocks :: "nat \<Rightarrow> (ftype \<times> 's) option"
  next_block :: nat
  made :: "ftype \<Rightarrow> nat"
  destroyed :: "ftype \<Rightarrow> nat"

definition fn_mem_init :: "'s fn_mem" where
  "fn_mem_init = \<lparr>fns = (\<lambda>_. None), blocks = (\<lambda>_. None), next_block = 0, made = (\<lambda>_. 0), destroyed = (\<lambda>_. 0)\<rparr>"

section \<open>Objects\<close>

text \<open>
  The alignment of \<^verbatim>\<open>std::max_align_t\<close>, which is that of \<^verbatim>\<open>Function\<close> too, and the offset of the
  storage, which follows the table pointer.
\<close>

definition MAX_ALIGN :: nat where "MAX_ALIGN = 16"

definition inline_address :: "nat \<Rightarrow> nat" where "inline_address p = p + MAX_ALIGN"

definition set_fn :: "nat \<Rightarrow> 's Function \<Rightarrow> 's fn_mem \<Rightarrow> 's fn_mem" where
  "set_fn p fn m = m\<lparr>fns := (fns m)(p := Some fn)\<rparr>"

definition note_made :: "ftype \<Rightarrow> 's fn_mem \<Rightarrow> 's fn_mem" where
  "note_made F m = m\<lparr>made := (made m)(F := Suc (made m F))\<rparr>"

definition note_destroyed :: "ftype \<Rightarrow> 's fn_mem \<Rightarrow> 's fn_mem" where
  "note_destroyed F m = m\<lparr>destroyed := (destroyed m)(F := Suc (destroyed m F))\<rparr>"

text \<open>\<^verbatim>\<open>new (buf) F(...)\<close> in the inline storage of the \<^verbatim>\<open>Function\<close> at \<open>p\<close>: undefined when misaligned.\<close>

definition placement_new :: "(ftype \<Rightarrow> ('s, 'a, 'r) callable_type) \<Rightarrow> ftype \<Rightarrow> 's \<Rightarrow> nat \<Rightarrow> 's fn_mem \<Rightarrow> 's fn_mem option" where
  "placement_new \<Gamma> F s p m = (case fns m p of None \<Rightarrow> None | Some fn \<Rightarrow>
     if ct_align (\<Gamma> F) dvd inline_address p
     then Some (note_made F (set_fn p (fn\<lparr>storage := inline_storage (Some (F, s))\<rparr>) m))
     else None)"

text \<open>\<^verbatim>\<open>new F(...)\<close>: a fresh block, aligned for its type.\<close>

definition heap_new :: "ftype \<Rightarrow> 's \<Rightarrow> 's fn_mem \<Rightarrow> nat \<times> 's fn_mem" where
  "heap_new F s m = (next_block m,
     note_made F (m\<lparr>blocks := (blocks m)(next_block m := Some (F, s)), next_block := Suc (next_block m)\<rparr>))"

text \<open>\<^verbatim>\<open>delete static_cast<F*>(a)\<close>: undefined when no object of that type lives there.\<close>

definition heap_delete :: "ftype \<Rightarrow> nat \<Rightarrow> 's fn_mem \<Rightarrow> 's fn_mem option" where
  "heap_delete F a m = (case blocks m a of None \<Rightarrow> None | Some (G, s) \<Rightarrow>
     if G = F then Some (note_destroyed F (m\<lparr>blocks := (blocks m)(a := None)\<rparr>)) else None)"

section \<open>The table entries\<close>

text \<open>\<open>vt_get\<close>: the object that \<^verbatim>\<open>get(self)\<close> points to.\<close>

definition vt_get :: "VTable \<Rightarrow> 's Function \<Rightarrow> 's fn_mem \<Rightarrow> 's option" where
  "vt_get v fn m =
     (if vt_heap v
      then (case storage fn of
              heap_ptr (Some a) \<Rightarrow> (case blocks m a of
                 Some (G, s) \<Rightarrow> if G = vt_type v then Some s else None | None \<Rightarrow> None)
            | _ \<Rightarrow> None)
      else (case storage fn of
              inline_storage (Some (G, s)) \<Rightarrow> if G = vt_type v then Some s else None
            | _ \<Rightarrow> None))"

text \<open>The callable changes its own state through that pointer.\<close>

definition vt_put :: "VTable \<Rightarrow> nat \<Rightarrow> 's Function \<Rightarrow> 's \<Rightarrow> 's fn_mem \<Rightarrow> 's fn_mem" where
  "vt_put v p fn s m =
     (if vt_heap v
      then (case storage fn of
              heap_ptr (Some a) \<Rightarrow> m\<lparr>blocks := (blocks m)(a := Some (vt_type v, s))\<rparr>
            | _ \<Rightarrow> m)
      else set_fn p (fn\<lparr>storage := inline_storage (Some (vt_type v, s))\<rparr>) m)"

definition vt_invoke ::
  "(ftype \<Rightarrow> ('s, 'a, 'r) callable_type) \<Rightarrow> VTable \<Rightarrow> nat \<Rightarrow> 'a \<Rightarrow> 's fn_mem \<Rightarrow> ('r \<times> 's fn_mem) option" where
  "vt_invoke \<Gamma> v p args m = (case fns m p of None \<Rightarrow> None | Some fn \<Rightarrow>
     (case vt_get v fn m of None \<Rightarrow> None | Some s \<Rightarrow>
       (case ct_call (\<Gamma> (vt_type v)) s args of (r, s') \<Rightarrow> Some (r, vt_put v p fn s' m))))"

definition vt_destroy :: "VTable \<Rightarrow> nat \<Rightarrow> 's fn_mem \<Rightarrow> 's fn_mem option" where
  "vt_destroy v p m = (case fns m p of None \<Rightarrow> None | Some fn \<Rightarrow>
     if vt_heap v
     then (case storage fn of
             heap_ptr None \<Rightarrow> Some m
           | heap_ptr (Some a) \<Rightarrow> do {
               m1 \<leftarrow> heap_delete (vt_type v) a m;
               Some (set_fn p (fn\<lparr>storage := heap_ptr None\<rparr>) m1) }
           | _ \<Rightarrow> None)
     else (case vt_get v fn m of None \<Rightarrow> None | Some s \<Rightarrow>
             Some (note_destroyed (vt_type v) (set_fn p (fn\<lparr>storage := inline_storage None\<rparr>) m))))"

text \<open>
  \<open>vt_move\<close>: the heap case hands the pointer over, the inline case makes a new object from the old one
  and destroys the old one.
\<close>

definition vt_move ::
  "(ftype \<Rightarrow> ('s, 'a, 'r) callable_type) \<Rightarrow> VTable \<Rightarrow> nat \<Rightarrow> nat \<Rightarrow> 's fn_mem \<Rightarrow> 's fn_mem option" where
  "vt_move \<Gamma> v dst src m = do {
     d \<leftarrow> fns m dst;
     s \<leftarrow> fns m src;
     m1 \<leftarrow>
       (if vt_heap v
        then (case storage s of
                heap_ptr a \<Rightarrow> Some (set_fn src (s\<lparr>storage := heap_ptr None\<rparr>)
                                  (set_fn dst (d\<lparr>storage := heap_ptr a\<rparr>) m))
              | _ \<Rightarrow> None)
        else do {
          x \<leftarrow> vt_get v s m;
          m1 \<leftarrow> placement_new \<Gamma> (vt_type v) (fst (ct_move (\<Gamma> (vt_type v)) x)) dst
                 (vt_put v src s (snd (ct_move (\<Gamma> (vt_type v)) x)) m);
          vt_destroy v src m1 });
     d1 \<leftarrow> fns m1 dst;
     s1 \<leftarrow> fns m1 src;
     Some (set_fn src (s1\<lparr>vtable := None\<rparr>) (set_fn dst (d1\<lparr>vtable := vtable s1\<rparr>) m1)) }"

section \<open>Operations\<close>

text \<open>The default constructor and the one from \<^verbatim>\<open>nullptr\<close>, at an unused aligned address.\<close>

definition Function_init :: "'s Function" where
  "Function_init = \<lparr>vtable = None, storage = inline_storage None\<rparr>"

definition fn_default :: "nat \<Rightarrow> 's fn_mem \<Rightarrow> 's fn_mem option" where
  "fn_default p m = (if fns m p = None \<and> MAX_ALIGN dvd p then Some (set_fn p Function_init m) else None)"

definition fn_bool :: "nat \<Rightarrow> 's fn_mem \<Rightarrow> bool option" where
  "fn_bool p m = (case fns m p of None \<Rightarrow> None | Some fn \<Rightarrow> Some (vtable fn \<noteq> None))"

definition fn_reset :: "nat \<Rightarrow> 's fn_mem \<Rightarrow> 's fn_mem option" where
  "fn_reset p m = (case fns m p of None \<Rightarrow> None | Some fn \<Rightarrow>
     (case vtable fn of None \<Rightarrow> Some m | Some v \<Rightarrow> do {
        m1 \<leftarrow> vt_destroy v p m;
        fn1 \<leftarrow> fns m1 p;
        Some (set_fn p (fn1\<lparr>vtable := None\<rparr>) m1) }))"

text \<open>The static assertions of \<^verbatim>\<open>emplace\<close>, and its choice of storage.\<close>

definition NeedsHeapForSize :: "(ftype \<Rightarrow> ('s, 'a, 'r) callable_type) \<Rightarrow> function_params \<Rightarrow> ftype \<Rightarrow> bool" where
  "NeedsHeapForSize \<Gamma> P F \<longleftrightarrow> \<not> ct_size (\<Gamma> F) \<le> InlineSize P"

definition UseHeap :: "(ftype \<Rightarrow> ('s, 'a, 'r) callable_type) \<Rightarrow> function_params \<Rightarrow> ftype \<Rightarrow> bool" where
  "UseHeap \<Gamma> P F \<longleftrightarrow> ForceHeap P \<or> NeedsHeapForSize \<Gamma> P F"

definition emplace_compiles :: "(ftype \<Rightarrow> ('s, 'a, 'r) callable_type) \<Rightarrow> function_params \<Rightarrow> ftype \<Rightarrow> bool" where
  "emplace_compiles \<Gamma> P F \<longleftrightarrow> (NeedsHeapForSize \<Gamma> P F \<longrightarrow> AllowHeap P) \<and> (UseHeap \<Gamma> P F \<longrightarrow> AllowHeap P)"

text \<open>
  \<open>emplace \<Gamma> P F s p\<close>: \<open>s\<close> is the value of the object that is constructed.  A program that violates a
  static assertion has no behaviour.
\<close>

definition emplace ::
  "(ftype \<Rightarrow> ('s, 'a, 'r) callable_type) \<Rightarrow> function_params \<Rightarrow> ftype \<Rightarrow> 's \<Rightarrow> nat \<Rightarrow> 's fn_mem \<Rightarrow> 's fn_mem option" where
  "emplace \<Gamma> P F s p m = do {
     CORTOS_ASSERT (emplace_compiles \<Gamma> P F);
     m1 \<leftarrow> fn_reset p m;
     if UseHeap \<Gamma> P F
     then do {
       fn \<leftarrow> fns m1 p;
       (case heap_new F s m1 of (a, m2) \<Rightarrow>
         Some (set_fn p (fn\<lparr>storage := heap_ptr (Some a), vtable := Some (VTableImpl F True)\<rparr>) m2)) }
     else do {
       m2 \<leftarrow> placement_new \<Gamma> F s p m1;
       fn \<leftarrow> fns m2 p;
       Some (set_fn p (fn\<lparr>vtable := Some (VTableImpl F False)\<rparr>) m2) } }"

definition fn_construct ::
  "(ftype \<Rightarrow> ('s, 'a, 'r) callable_type) \<Rightarrow> function_params \<Rightarrow> ftype \<Rightarrow> 's \<Rightarrow> nat \<Rightarrow> 's fn_mem \<Rightarrow> 's fn_mem option" where
  "fn_construct \<Gamma> P F s p m = Option.bind (fn_default p m) (emplace \<Gamma> P F s p)"

definition move_from ::
  "(ftype \<Rightarrow> ('s, 'a, 'r) callable_type) \<Rightarrow> nat \<Rightarrow> nat \<Rightarrow> 's fn_mem \<Rightarrow> 's fn_mem option" where
  "move_from \<Gamma> p q m = do {
     other \<leftarrow> fns m q;
     case vtable other of
       None \<Rightarrow> do { fn \<leftarrow> fns m p; Some (set_fn p (fn\<lparr>vtable := None\<rparr>) m) }
     | Some v \<Rightarrow> vt_move \<Gamma> v p q m }"

definition fn_move_construct ::
  "(ftype \<Rightarrow> ('s, 'a, 'r) callable_type) \<Rightarrow> nat \<Rightarrow> nat \<Rightarrow> 's fn_mem \<Rightarrow> 's fn_mem option" where
  "fn_move_construct \<Gamma> p q m = do { fns m q; m1 \<leftarrow> fn_default p m; move_from \<Gamma> p q m1 }"

definition fn_move_assign ::
  "(ftype \<Rightarrow> ('s, 'a, 'r) callable_type) \<Rightarrow> nat \<Rightarrow> nat \<Rightarrow> 's fn_mem \<Rightarrow> 's fn_mem option" where
  "fn_move_assign \<Gamma> p q m = do {
     fns m p; fns m q;
     if p \<noteq> q then do { m1 \<leftarrow> fn_reset p m; move_from \<Gamma> p q m1 } else Some m }"

definition fn_destroy :: "nat \<Rightarrow> 's fn_mem \<Rightarrow> 's fn_mem option" where
  "fn_destroy p m = do { m1 \<leftarrow> fn_reset p m; Some (m1\<lparr>fns := (fns m1)(p := None)\<rparr>) }"

text \<open>\<^verbatim>\<open>operator()\<close>: a call through the null pointer of an empty \<^verbatim>\<open>Function\<close> is undefined.\<close>

definition fn_call ::
  "(ftype \<Rightarrow> ('s, 'a, 'r) callable_type) \<Rightarrow> nat \<Rightarrow> 'a \<Rightarrow> 's fn_mem \<Rightarrow> ('r \<times> 's fn_mem) option" where
  "fn_call \<Gamma> p args m = (case fns m p of None \<Rightarrow> None | Some fn \<Rightarrow>
     (case vtable fn of None \<Rightarrow> None | Some v \<Rightarrow> vt_invoke \<Gamma> v p args m))"

section \<open>The abstract view\<close>

text \<open>Each \<^verbatim>\<open>Function\<close> alive holds a callable or nothing.\<close>

type_synonym 's fn_view = "nat \<Rightarrow> (ftype \<times> 's) option option"

definition fn_value :: "(nat \<Rightarrow> (ftype \<times> 's) option) \<Rightarrow> 's Function \<Rightarrow> (ftype \<times> 's) option" where
  "fn_value B fn = (case vtable fn of None \<Rightarrow> None | Some v \<Rightarrow>
     (case storage fn of inline_storage x \<Rightarrow> x | heap_ptr None \<Rightarrow> None | heap_ptr (Some a) \<Rightarrow> B a))"

definition fn_abs :: "'s fn_mem \<Rightarrow> 's fn_view" where
  "fn_abs m = (\<lambda>p. map_option (fn_value (blocks m)) (fns m p))"

section \<open>The invariant\<close>

text \<open>
  What the wrapper expects of a callable type: its alignment is not extended, and moving it keeps its
  value (the usual requirement on a move constructor).
\<close>

definition type_ok :: "('s, 'a, 'r) callable_type \<Rightarrow> bool" where
  "type_ok T \<longleftrightarrow> ct_align T dvd MAX_ALIGN \<and> (\<forall>s. fst (ct_move T s) = s)"

definition is_empty :: "'s Storage \<Rightarrow> bool" where
  "is_empty st \<longleftrightarrow> st = inline_storage None \<or> st = heap_ptr None"

definition fn_ok ::
  "(ftype \<Rightarrow> ('s, 'a, 'r) callable_type) \<Rightarrow> function_params \<Rightarrow> (nat \<Rightarrow> (ftype \<times> 's) option) \<Rightarrow> 's Function \<Rightarrow> bool" where
  "fn_ok \<Gamma> P B fn = (case vtable fn of
       None \<Rightarrow> is_empty (storage fn)
     | Some v \<Rightarrow> type_ok (\<Gamma> (vt_type v)) \<and> emplace_compiles \<Gamma> P (vt_type v) \<and> vt_heap v = UseHeap \<Gamma> P (vt_type v) \<and>
         (if vt_heap v then \<exists>a s. storage fn = heap_ptr (Some a) \<and> B a = Some (vt_type v, s)
          else \<exists>s. storage fn = inline_storage (Some (vt_type v, s))))"

definition fn_shape :: "(ftype \<Rightarrow> ('s, 'a, 'r) callable_type) \<Rightarrow> function_params \<Rightarrow> 's fn_mem \<Rightarrow> bool" where
  "fn_shape \<Gamma> P m \<longleftrightarrow>
     (\<forall>p fn. fns m p = Some fn \<longrightarrow> MAX_ALIGN dvd p \<and> fn_ok \<Gamma> P (blocks m) fn) \<and>
     (\<forall>a x. blocks m a = Some x \<longrightarrow> a < next_block m \<and> (\<exists>p fn. fns m p = Some fn \<and> storage fn = heap_ptr (Some a))) \<and>
     (\<forall>p q f g a. fns m p = Some f \<longrightarrow> fns m q = Some g \<longrightarrow> storage f = heap_ptr (Some a) \<longrightarrow>
        storage g = heap_ptr (Some a) \<longrightarrow> p = q)"

text \<open>The number of objects of a type that the \<^verbatim>\<open>Function\<close>s own.\<close>

definition fn_count :: "ftype \<Rightarrow> 's fn_view \<Rightarrow> nat" where
  "fn_count F A = card {p. \<exists>s. A p = Some (Some (F, s))}"

definition fn_inv :: "(ftype \<Rightarrow> ('s, 'a, 'r) callable_type) \<Rightarrow> function_params \<Rightarrow> 's fn_mem \<Rightarrow> bool" where
  "fn_inv \<Gamma> P m \<longleftrightarrow> fn_shape \<Gamma> P m \<and> finite (dom (fns m)) \<and>
     (\<forall>F. made m F = destroyed m F + fn_count F (fn_abs m))"

lemma dom_fn_abs [simp]: "dom (fn_abs m) = dom (fns m)"
  by (auto simp: fn_abs_def dom_def)

lemma card_update:
  assumes "finite S"
  shows "card (if b then insert p (S - {p}) else S - {p}) + (if p \<in> S then 1 else 0) = card S + (if b then 1 else 0)"
proof (cases "p \<in> S")
  case True
  then show ?thesis using card.remove [OF assms True] assms by (simp add: insert_absorb)
next
  case False
  then show ?thesis using assms by simp
qed

lemma fn_count_update:
  assumes "finite (dom A)"
  shows "fn_count F (A(p := x)) + (if \<exists>s. A p = Some (Some (F, s)) then 1 else 0) =
    fn_count F A + (if \<exists>s. x = Some (Some (F, s)) then 1 else 0)"
proof -
  let ?S = "{p. \<exists>s. A p = Some (Some (F, s))}"
  have fin: "finite ?S" by (rule finite_subset [OF _ assms]) auto
  have eq: "{q. \<exists>s. (A(p := x)) q = Some (Some (F, s))} =
      (if \<exists>s. x = Some (Some (F, s)) then insert p (?S - {p}) else ?S - {p})" by auto
  show ?thesis using card_update [OF fin, of "\<exists>s. x = Some (Some (F, s))" p]
    unfolding fn_count_def eq mem_Collect_eq .
qed

lemma fn_inv_init: "fn_inv \<Gamma> P fn_mem_init" "fn_abs fn_mem_init = (\<lambda>_. None)"
  by (simp_all add: fn_inv_def fn_shape_def fn_mem_init_def fn_abs_def fn_count_def)

section \<open>Each operation keeps the invariant and refines its abstract counterpart\<close>

lemma fn_inv_fnD:
  assumes "fn_inv \<Gamma> P m" "fns m p = Some fn"
  shows "MAX_ALIGN dvd p" "fn_ok \<Gamma> P (blocks m) fn"
  using assms by (auto simp: fn_inv_def fn_shape_def)


lemma fn_shapeD:
  assumes "fn_shape \<Gamma> P m"
  shows "fns m p = Some fn \<Longrightarrow> MAX_ALIGN dvd p" "fns m p = Some fn \<Longrightarrow> fn_ok \<Gamma> P (blocks m) fn"
    "blocks m a = Some x \<Longrightarrow> a < next_block m"
    "blocks m a = Some x \<Longrightarrow> \<exists>p fn. fns m p = Some fn \<and> storage fn = heap_ptr (Some a)"
    "fns m p = Some f \<Longrightarrow> fns m q = Some g \<Longrightarrow> storage f = heap_ptr (Some a) \<Longrightarrow> storage g = heap_ptr (Some a) \<Longrightarrow> p = q"
  using assms unfolding fn_shape_def by blast+

lemma fn_ok_cong:
  assumes "fn_ok \<Gamma> P B fn" "\<And>a. storage fn = heap_ptr (Some a) \<Longrightarrow> B' a = B a"
  shows "fn_ok \<Gamma> P B' fn"
  using assms unfolding fn_ok_def by (auto split: option.splits if_splits)

lemma fn_value_cong:
  assumes "\<And>a. storage fn = heap_ptr (Some a) \<Longrightarrow> B' a = B a"
  shows "fn_value B' fn = fn_value B fn"
  using assms by (auto simp: fn_value_def split: option.splits Storage.splits)

text \<open>
  An operation that replaces the \<^verbatim>\<open>Function\<close> at one address, and changes at most the heap block that it
  owns, keeps the shape when the new object is well-formed and owns what the change leaves.
\<close>

lemma fn_shape_update:
  assumes sh: "fn_shape \<Gamma> P m" and p: "MAX_ALIGN dvd p" and ok: "fn_ok \<Gamma> P (blocks m') fn'"
    and m': "fns m' = (fns m)(p := Some fn')" "next_block m \<le> next_block m'"
    and frame: "\<And>q f a. q \<noteq> p \<Longrightarrow> fns m q = Some f \<Longrightarrow> storage f = heap_ptr (Some a) \<Longrightarrow> blocks m' a = blocks m a"
    and own: "\<And>a. storage fn' = heap_ptr (Some a) \<Longrightarrow>
        a < next_block m' \<and> (\<forall>q f. q \<noteq> p \<longrightarrow> fns m q = Some f \<longrightarrow> storage f \<noteq> heap_ptr (Some a))"
    and owned: "\<And>a x. blocks m' a = Some x \<Longrightarrow> storage fn' \<noteq> heap_ptr (Some a) \<Longrightarrow>
        \<exists>q f. q \<noteq> p \<and> fns m q = Some f \<and> storage f = heap_ptr (Some a)"
  shows "fn_shape \<Gamma> P m'" "fn_abs m' = (fn_abs m)(p := Some (fn_value (blocks m') fn'))"
proof -
  have ok': "fn_ok \<Gamma> P (blocks m') f" if "q \<noteq> p" "fns m q = Some f" for q f
    by (rule fn_ok_cong [OF fn_shapeD(2) [OF sh that(2)] frame [OF that]])
  have lt: "a < next_block m'" if blk: "blocks m' a = Some x" for a x
  proof (cases "storage fn' = heap_ptr (Some a)")
    case True
    then show ?thesis using own by blast
  next
    case False
    then obtain q f where q: "q \<noteq> p" "fns m q = Some f" "storage f = heap_ptr (Some a)" using owned [OF blk] by blast
    then have "blocks m a = Some x" using frame blk by metis
    then show ?thesis using fn_shapeD(3) [OF sh] m'(2) by fastforce
  qed
  have ex: "\<exists>q f. fns m' q = Some f \<and> storage f = heap_ptr (Some a)" if "blocks m' a = Some x" for a x
    using owned [OF that] m'(1) by (cases "storage fn' = heap_ptr (Some a)") auto
  have inj: "q = r" if "fns m' q = Some f" "fns m' r = Some g" "storage f = heap_ptr (Some a)" "storage g = heap_ptr (Some a)"
    for q r f g a
  proof (cases "q = p \<or> r = p")
    case True
    then show ?thesis using that own [of a] m'(1) by (auto split: if_splits)
  next
    case False
    then show ?thesis using that fn_shapeD(5) [OF sh] m'(1) by simp
  qed
  have al: "MAX_ALIGN dvd q \<and> fn_ok \<Gamma> P (blocks m') f" if "fns m' q = Some f" for q f
    using that ok' [of q f] fn_shapeD(1) [OF sh, of q f] p ok m'(1) by (cases "q = p") auto
  show "fn_shape \<Gamma> P m'" unfolding fn_shape_def using al lt ex inj by blast
  show "fn_abs m' = (fn_abs m)(p := Some (fn_value (blocks m') fn'))"
  proof (rule ext)
    fix q
    show "fn_abs m' q = ((fn_abs m)(p := Some (fn_value (blocks m') fn'))) q"
      using fn_value_cong [of _ "blocks m'" "blocks m"] frame [of q]
      by (cases "fns m q") (auto simp: fn_abs_def m'(1))
  qed
qed

text \<open>The bookkeeping of objects goes along.\<close>

definition has_type :: "ftype \<Rightarrow> (ftype \<times> 's) option option \<Rightarrow> nat" where
  "has_type F x = (if \<exists>s. x = Some (Some (F, s)) then 1 else 0)"

lemma has_type_simps [simp]:
  "has_type F None = 0" "has_type F (Some None) = 0" "has_type F (Some (Some (G, s))) = (if G = F then 1 else 0)"
  by (auto simp: has_type_def)

lemma fn_inv_update:
  assumes inv: "fn_inv \<Gamma> P m" and sh: "fn_shape \<Gamma> P m'" and abs: "fn_abs m' = (fn_abs m)(p := x)"
    and cnt: "\<And>F. made m' F + destroyed m F + has_type F (fn_abs m p) = made m F + destroyed m' F + has_type F x"
  shows "fn_inv \<Gamma> P m'"
proof -
  have fin: "finite (dom (fn_abs m))" using inv by (simp add: fn_inv_def)
  have "made m' F = destroyed m' F + fn_count F (fn_abs m')" for F
    using inv cnt [of F] fn_count_update [OF fin, of F p x] unfolding fn_inv_def abs has_type_def by force
  moreover have "finite (dom (fns m'))" using fin unfolding dom_fn_abs [of m', symmetric] abs by simp
  ultimately show ?thesis using sh by (simp add: fn_inv_def)
qed

lemma fn_default_refines:
  assumes inv: "fn_inv \<Gamma> P m" and p: "fns m p = None" "MAX_ALIGN dvd p"
  shows "\<exists>m'. fn_default p m = Some m' \<and> fn_inv \<Gamma> P m' \<and> fn_abs m' = (fn_abs m)(p := Some None)"
proof -
  let ?m = "set_fn p Function_init m"
  have sh: "fn_shape \<Gamma> P m" using inv by (simp add: fn_inv_def)
  have up: "fn_shape \<Gamma> P ?m" "fn_abs ?m = (fn_abs m)(p := Some (fn_value (blocks ?m) Function_init))"
    by (rule fn_shape_update [OF sh p(2), of ?m Function_init];
        use fn_shapeD(4) [OF sh] p(1) in \<open>force simp: set_fn_def Function_init_def fn_ok_def is_empty_def\<close>)+
  then have abs: "fn_abs ?m = (fn_abs m)(p := Some None)" by (simp add: Function_init_def fn_value_def)
  have "fn_inv \<Gamma> P ?m" by (rule fn_inv_update [OF inv up(1) abs]) (simp add: set_fn_def fn_abs_def p)
  then show ?thesis using abs p by (simp add: fn_default_def)
qed

text \<open>The three forms of a well-formed \<^verbatim>\<open>Function\<close>.\<close>

lemma fn_ok_cases:
  assumes "fn_ok \<Gamma> P B fn"
  obtains (empty) "vtable fn = None" "is_empty (storage fn)" "fn_value B fn = None"
  | (inline) F s where "vtable fn = Some (VTableImpl F False)" "storage fn = inline_storage (Some (F, s))"
      "fn_value B fn = Some (F, s)" "type_ok (\<Gamma> F)" "emplace_compiles \<Gamma> P F" "\<not> UseHeap \<Gamma> P F"
  | (heap) F a s where "vtable fn = Some (VTableImpl F True)" "storage fn = heap_ptr (Some a)" "B a = Some (F, s)"
      "fn_value B fn = Some (F, s)" "type_ok (\<Gamma> F)" "emplace_compiles \<Gamma> P F" "UseHeap \<Gamma> P F"
proof (cases "vtable fn")
  case None
  then show ?thesis using assms empty by (simp add: fn_ok_def fn_value_def)
next
  case (Some v)
  obtain F h where v: "v = VTableImpl F h" by (cases v)
  show ?thesis
    using assms Some v inline [of F] heap [of F] by (cases h) (auto simp: fn_ok_def fn_value_def)
qed

lemma fn_absI: "fns m p = Some fn \<Longrightarrow> fn_value (blocks m) fn = x \<Longrightarrow> fn_abs m p = Some x"
  by (simp add: fn_abs_def)

text \<open>Changes of a single \<^verbatim>\<open>Function\<close>, with the invariant carried along.\<close>

lemma fn_inv_single:
  assumes inv: "fn_inv \<Gamma> P m" and p: "fns m p = Some fn" and ok: "fn_ok \<Gamma> P (blocks m') fn'"
    and m': "fns m' = (fns m)(p := Some fn')" "next_block m \<le> next_block m'"
    and frame: "\<And>a. storage fn \<noteq> heap_ptr (Some a) \<Longrightarrow> blocks m a \<noteq> None \<Longrightarrow> blocks m' a = blocks m a"
    and own: "\<And>a. storage fn' = heap_ptr (Some a) \<Longrightarrow>
        storage fn = heap_ptr (Some a) \<and> blocks m a \<noteq> None \<or> blocks m a = None \<and> a < next_block m'"
    and owned: "\<And>a x. blocks m' a = Some x \<Longrightarrow> storage fn' \<noteq> heap_ptr (Some a) \<Longrightarrow>
        blocks m a \<noteq> None \<and> storage fn \<noteq> heap_ptr (Some a)"
    and cnt: "\<And>F. made m' F + destroyed m F + has_type F (Some (fn_value (blocks m) fn)) =
        made m F + destroyed m' F + has_type F (Some (fn_value (blocks m') fn'))"
  shows "fn_inv \<Gamma> P m'" "fn_abs m' = (fn_abs m)(p := Some (fn_value (blocks m') fn'))"
proof -
  have sh: "fn_shape \<Gamma> P m" using inv by (simp add: fn_inv_def)
  have own2: "blocks m a \<noteq> None" "q \<noteq> p \<Longrightarrow> storage fn \<noteq> heap_ptr (Some a)"
    if q: "fns m q = Some f" "storage f = heap_ptr (Some a)" for q f a
  proof -
    show "blocks m a \<noteq> None" by (rule fn_ok_cases [OF fn_shapeD(2) [OF sh q(1)]]) (use q in \<open>auto simp: is_empty_def\<close>)
    show "storage fn \<noteq> heap_ptr (Some a)" if "q \<noteq> p" using fn_shapeD(5) [OF sh q(1) p q(2)] that by blast
  qed
  have lt: "blocks m a \<noteq> None \<Longrightarrow> a < next_block m" for a using fn_shapeD(3) [OF sh] by blast
  have f1: "blocks m' a = blocks m a" if "q \<noteq> p" "fns m q = Some f" "storage f = heap_ptr (Some a)" for q f a
    using frame own2 [OF that(2,3)] that(1) by blast
  have f2: "a < next_block m' \<and> (\<forall>q f. q \<noteq> p \<longrightarrow> fns m q = Some f \<longrightarrow> storage f \<noteq> heap_ptr (Some a))"
    if "storage fn' = heap_ptr (Some a)" for a
    using own [OF that] own2 lt m'(2) by (metis order_less_le_trans)
  have f3: "\<exists>q f. q \<noteq> p \<and> fns m q = Some f \<and> storage f = heap_ptr (Some a)"
    if blk: "blocks m' a = Some x" "storage fn' \<noteq> heap_ptr (Some a)" for a x
  proof -
    obtain y where "blocks m a = Some y" "storage fn \<noteq> heap_ptr (Some a)" using owned [OF blk] by blast
    then show ?thesis using fn_shapeD(4) [OF sh] p by (metis option.inject)
  qed
  note up = fn_shape_update [OF sh fn_shapeD(1) [OF sh p] ok m' f1 f2 f3]
  show abs: "fn_abs m' = (fn_abs m)(p := Some (fn_value (blocks m') fn'))" by (rule up(2))
  show "fn_inv \<Gamma> P m'"
    by (rule fn_inv_update [OF inv up(1) abs]) (use cnt fn_absI [OF p refl] in simp_all)
qed

lemma fn_reset_refines:
  assumes inv: "fn_inv \<Gamma> P m" and p: "fns m p = Some fn"
  obtains m' fn' where "fn_reset p m = Some m'" "fn_inv \<Gamma> P m'" "fn_abs m' = (fn_abs m)(p := Some None)"
    "fns m' = (fns m)(p := Some fn')" "vtable fn' = None" "is_empty (storage fn')"
  using fn_inv_fnD(2) [OF inv p]
proof (cases rule: fn_ok_cases)
  case empty
  have "(fn_abs m)(p := Some None) = fn_abs m" using fn_absI [OF p empty(3)] by (simp add: fun_upd_idem)
  then show ?thesis using that [of m fn] inv p empty by (simp add: fn_reset_def fun_upd_idem)
next
  case (inline F s)
  let ?fn = "fn\<lparr>storage := inline_storage None, vtable := None\<rparr>"
  let ?m = "set_fn p ?fn (note_destroyed F m)"
  have r: "fn_reset p m = Some ?m"
    using p inline by (simp add: fn_reset_def vt_destroy_def vt_get_def set_fn_def note_destroyed_def)
  have up: "fn_inv \<Gamma> P ?m" "fn_abs ?m = (fn_abs m)(p := Some (fn_value (blocks ?m) ?fn))"
    by (rule fn_inv_single [OF inv p, of ?m ?fn];
        use inline in \<open>auto simp: set_fn_def note_destroyed_def fn_ok_def is_empty_def fn_value_def\<close>)+
  show ?thesis by (rule that [of _ ?fn, OF r up(1)]) (use up(2) in \<open>simp_all add: fn_value_def set_fn_def note_destroyed_def is_empty_def\<close>)
next
  case (heap F a s)
  let ?fn = "fn\<lparr>storage := heap_ptr None, vtable := None\<rparr>"
  let ?m = "set_fn p ?fn (note_destroyed F (m\<lparr>blocks := (blocks m)(a := None)\<rparr>))"
  have r: "fn_reset p m = Some ?m"
    using p heap by (simp add: fn_reset_def vt_destroy_def heap_delete_def set_fn_def note_destroyed_def)
  have up: "fn_inv \<Gamma> P ?m" "fn_abs ?m = (fn_abs m)(p := Some (fn_value (blocks ?m) ?fn))"
    by (rule fn_inv_single [OF inv p, of ?m ?fn];
        use heap in \<open>auto simp: set_fn_def note_destroyed_def fn_ok_def is_empty_def fn_value_def split: if_splits\<close>)+
  show ?thesis by (rule that [of _ ?fn, OF r up(1)]) (use up(2) in \<open>simp_all add: fn_value_def set_fn_def note_destroyed_def is_empty_def\<close>)
qed

lemma emplace_refines:
  assumes inv: "fn_inv \<Gamma> P m" and p: "fns m p = Some fn" and F: "type_ok (\<Gamma> F)" "emplace_compiles \<Gamma> P F"
  shows "\<exists>m'. emplace \<Gamma> P F s p m = Some m' \<and> fn_inv \<Gamma> P m' \<and> fn_abs m' = (fn_abs m)(p := Some (Some (F, s)))"
proof -
  obtain m1 f1 where r: "fn_reset p m = Some m1" "fn_inv \<Gamma> P m1" "fn_abs m1 = (fn_abs m)(p := Some None)"
    "fns m1 = (fns m)(p := Some f1)" "vtable f1 = None" "is_empty (storage f1)"
    by (rule fn_reset_refines [OF inv p])
  have p1: "fns m1 p = Some f1" by (simp add: r(4))
  show ?thesis
  proof (cases "UseHeap \<Gamma> P F")
    case True
    let ?fn = "f1\<lparr>storage := heap_ptr (Some (next_block m1)), vtable := Some (VTableImpl F True)\<rparr>"
    let ?m = "set_fn p ?fn (snd (heap_new F s m1))"
    have e: "emplace \<Gamma> P F s p m = Some ?m" using F(2) r(1) p1 True by (simp add: emplace_def heap_new_def)
    have nb: "blocks m1 (next_block m1) = None"
      using fn_shapeD(3) [of \<Gamma> P m1 "next_block m1"] r(2) unfolding fn_inv_def by (metis less_irrefl not_None_eq)
    have up: "fn_inv \<Gamma> P ?m" "fn_abs ?m = (fn_abs m1)(p := Some (fn_value (blocks ?m) ?fn))"
      by (rule fn_inv_single [OF r(2) p1, of ?m ?fn];
          use F True r(5,6) nb in \<open>auto simp: set_fn_def note_made_def heap_new_def fn_ok_def is_empty_def fn_value_def split: if_splits\<close>)+
    show ?thesis using e up r(3) by (simp add: fn_value_def set_fn_def note_made_def heap_new_def)
  next
    case False
    let ?fn = "f1\<lparr>storage := inline_storage (Some (F, s)), vtable := Some (VTableImpl F False)\<rparr>"
    let ?m = "set_fn p ?fn (note_made F m1)"
    have al: "ct_align (\<Gamma> F) dvd inline_address p"
      using F(1) fn_inv_fnD(1) [OF inv p] unfolding type_ok_def inline_address_def by (meson dvd_add dvd_refl dvd_trans)
    have e: "emplace \<Gamma> P F s p m = Some ?m"
      using F(2) r(1) p1 False al by (simp add: emplace_def placement_new_def set_fn_def note_made_def)
    have up: "fn_inv \<Gamma> P ?m" "fn_abs ?m = (fn_abs m1)(p := Some (fn_value (blocks ?m) ?fn))"
      by (rule fn_inv_single [OF r(2) p1, of ?m ?fn];
          use F False r(5,6) in \<open>auto simp: set_fn_def note_made_def fn_ok_def is_empty_def fn_value_def split: if_splits\<close>)+
    show ?thesis using e up r(3) by (simp add: fn_value_def set_fn_def note_made_def)
  qed
qed

lemma fn_call_refines:
  assumes inv: "fn_inv \<Gamma> P m" and p: "fns m p = Some fn" and v: "fn_value (blocks m) fn = Some (F, s)"
    and c: "ct_call (\<Gamma> F) s args = (r, s')"
  shows "\<exists>m'. fn_call \<Gamma> p args m = Some (r, m') \<and> fn_inv \<Gamma> P m' \<and> fn_abs m' = (fn_abs m)(p := Some (Some (F, s')))"
  using fn_inv_fnD(2) [OF inv p]
proof (cases rule: fn_ok_cases)
  case empty
  then show ?thesis using v by simp
next
  case (inline G t)
  then have G: "G = F" "t = s" using v by auto
  let ?fn = "fn\<lparr>storage := inline_storage (Some (F, s'))\<rparr>"
  let ?m = "set_fn p ?fn m"
  have e: "fn_call \<Gamma> p args m = Some (r, ?m)"
    using p inline c G by (simp add: fn_call_def vt_invoke_def vt_get_def vt_put_def)
  have up: "fn_inv \<Gamma> P ?m" "fn_abs ?m = (fn_abs m)(p := Some (fn_value (blocks ?m) ?fn))"
    by (rule fn_inv_single [OF inv p, of ?m ?fn];
        use inline G in \<open>auto simp: set_fn_def fn_ok_def is_empty_def fn_value_def\<close>)+
  show ?thesis using e up inline by (simp add: fn_value_def set_fn_def)
next
  case (heap G a t)
  then have G: "G = F" "t = s" using v by auto
  let ?m = "m\<lparr>blocks := (blocks m)(a := Some (F, s'))\<rparr>"
  have e: "fn_call \<Gamma> p args m = Some (r, ?m)"
    using p heap c G by (simp add: fn_call_def vt_invoke_def vt_get_def vt_put_def)
  have up: "fn_inv \<Gamma> P ?m" "fn_abs ?m = (fn_abs m)(p := Some (fn_value (blocks ?m) fn))"
    by (rule fn_inv_single [OF inv p, of ?m fn];
        use heap G p in \<open>auto simp: fn_ok_def is_empty_def fn_value_def fun_upd_idem split: if_splits\<close>)+
  show ?thesis using e up heap by (simp add: fn_value_def)
qed

lemma fn_inv_same:
  assumes "fn_inv \<Gamma> P m" "fns m' = fns m" "blocks m' = blocks m" "next_block m' = next_block m"
    "\<And>F. made m' F + destroyed m F = made m F + destroyed m' F"
  shows "fn_inv \<Gamma> P m'"
proof -
  have abs: "fn_abs m' = fn_abs m" by (simp add: fn_abs_def assms(2,3))
  have "made m' F = destroyed m' F + fn_count F (fn_abs m)" for F
    using assms(1) assms(5) [of F] unfolding fn_inv_def by force
  then show ?thesis using assms(1) unfolding fn_inv_def abs fn_shape_def assms(2-4) by blast
qed

text \<open>A filled \<^verbatim>\<open>Function\<close> hands its callable over to an empty one.\<close>

lemma vt_move_refines:
  assumes inv: "fn_inv \<Gamma> P m" and p: "fns m p = Some f" "vtable f = None" "is_empty (storage f)"
    and q: "fns m q = Some g" "vtable g = Some v" and pq: "p \<noteq> q"
  shows "\<exists>m'. vt_move \<Gamma> v p q m = Some m' \<and> fn_inv \<Gamma> P m' \<and> fn_abs m' = (fn_abs m)(p := fn_abs m q, q := Some None)"
  using fn_inv_fnD(2) [OF inv q(1)]
proof (cases rule: fn_ok_cases)
  case empty
  then show ?thesis using q(2) by simp
next
  case (inline F s)
  then have v: "v = VTableImpl F False" using q(2) by simp
  have mv: "fst (ct_move (\<Gamma> F) s) = s" using inline(4) by (simp add: type_ok_def)
  let ?f = "f\<lparr>storage := inline_storage (Some (F, s)), vtable := Some v\<rparr>" and ?g = "g\<lparr>storage := inline_storage None, vtable := None\<rparr>"
  let ?m1 = "set_fn p ?f (note_made F m)"
  let ?m2 = "set_fn q ?g (note_destroyed F ?m1)"
  have al: "ct_align (\<Gamma> F) dvd inline_address p"
    using inline(4) fn_inv_fnD(1) [OF inv p(1)] unfolding type_ok_def inline_address_def by (meson dvd_add dvd_refl dvd_trans)
  have "\<exists>m'. vt_move \<Gamma> v p q m = Some m' \<and> fns m' = fns ?m2 \<and> blocks m' = blocks ?m2 \<and> next_block m' = next_block ?m2 \<and>
      made m' = made ?m2 \<and> destroyed m' = destroyed ?m2"
    using p(1) q inline pq al
    by (simp add: vt_move_def v vt_get_def vt_put_def placement_new_def vt_destroy_def set_fn_def note_made_def note_destroyed_def mv)
  then obtain m' where m': "vt_move \<Gamma> v p q m = Some m'" "fns m' = fns ?m2" "blocks m' = blocks ?m2" "next_block m' = next_block ?m2"
    "made m' = made ?m2" "destroyed m' = destroyed ?m2" by blast
  have u1: "fn_inv \<Gamma> P ?m1" "fn_abs ?m1 = (fn_abs m)(p := Some (fn_value (blocks ?m1) ?f))"
    by (rule fn_inv_single [OF inv p(1), of ?m1 ?f];
        use p inline v in \<open>auto simp: set_fn_def note_made_def fn_ok_def is_empty_def fn_value_def split: if_splits\<close>)+
  have q1: "fns ?m1 q = Some g" using q pq by (simp add: set_fn_def note_made_def)
  have u2: "fn_inv \<Gamma> P ?m2" "fn_abs ?m2 = (fn_abs ?m1)(q := Some (fn_value (blocks ?m2) ?g))"
    by (rule fn_inv_single [OF u1(1) q1, of ?m2 ?g];
        use inline v in \<open>auto simp: set_fn_def note_made_def note_destroyed_def fn_ok_def is_empty_def fn_value_def split: if_splits\<close>)+
  have "fn_inv \<Gamma> P m'" by (rule fn_inv_same [OF u2(1) m'(2-4)]) (simp add: m')
  moreover have "fn_abs m' = (fn_abs m)(p := fn_abs m q, q := Some None)"
  proof -
    have "fn_abs m' = fn_abs ?m2" by (simp add: fn_abs_def m')
    also have "\<dots> = (fn_abs m)(p := fn_abs m q, q := Some None)"
      unfolding u2(2) u1(2) using fn_absI [OF q(1) inline(3)] by (simp add: fn_value_def)
    finally show ?thesis .
  qed
  ultimately show ?thesis using m'(1) by blast
next
  case (heap F a s)
  then have v: "v = VTableImpl F True" using q(2) by simp
  let ?f = "f\<lparr>storage := heap_ptr (Some a), vtable := Some v\<rparr>" and ?g = "g\<lparr>storage := heap_ptr None, vtable := None\<rparr>"
  let ?m1 = "set_fn q ?g (note_destroyed F (m\<lparr>blocks := (blocks m)(a := None)\<rparr>))"
  let ?m2 = "set_fn p ?f (note_made F (?m1\<lparr>blocks := (blocks ?m1)(a := Some (F, s))\<rparr>))"
  have lt: "a < next_block m" using inv fn_shapeD(3) [of \<Gamma> P m a] heap(3) by (simp add: fn_inv_def)
  have "\<exists>m'. vt_move \<Gamma> v p q m = Some m' \<and> fns m' = fns ?m2 \<and> blocks m' = blocks ?m2 \<and> next_block m' = next_block ?m2 \<and>
      made m' = made m \<and> destroyed m' = destroyed m"
    using p(1) q heap pq
    by (simp add: vt_move_def v set_fn_def note_made_def note_destroyed_def fun_upd_idem fun_upd_twist)
  then obtain m' where m': "vt_move \<Gamma> v p q m = Some m'" "fns m' = fns ?m2" "blocks m' = blocks ?m2" "next_block m' = next_block ?m2"
    "made m' = made m" "destroyed m' = destroyed m" by blast
  have u1: "fn_inv \<Gamma> P ?m1" "fn_abs ?m1 = (fn_abs m)(q := Some (fn_value (blocks ?m1) ?g))"
    by (rule fn_inv_single [OF inv q(1), of ?m1 ?g];
        use heap v in \<open>auto simp: set_fn_def note_destroyed_def fn_ok_def is_empty_def fn_value_def split: if_splits\<close>)+
  have p1: "fns ?m1 p = Some f" using p pq by (simp add: set_fn_def note_destroyed_def)
  have u2: "fn_inv \<Gamma> P ?m2" "fn_abs ?m2 = (fn_abs ?m1)(p := Some (fn_value (blocks ?m2) ?f))"
    by (rule fn_inv_single [OF u1(1) p1, of ?m2 ?f];
        use p heap v lt in \<open>auto simp: set_fn_def note_made_def note_destroyed_def fn_ok_def is_empty_def fn_value_def split: if_splits\<close>)+
  have "fn_inv \<Gamma> P m'"
    by (rule fn_inv_same [OF u2(1) m'(2-4)]) (simp add: m' set_fn_def note_made_def note_destroyed_def)
  moreover have "fn_abs m' = (fn_abs m)(p := fn_abs m q, q := Some None)"
  proof -
    have "fn_abs m' = fn_abs ?m2" by (simp add: fn_abs_def m')
    also have "\<dots> = (fn_abs m)(p := fn_abs m q, q := Some None)"
      unfolding u2(2) u1(2) using fn_absI [OF q(1) heap(4)] pq by (simp add: fn_value_def set_fn_def note_made_def fun_upd_twist)
    finally show ?thesis .
  qed
  ultimately show ?thesis using m'(1) by blast
qed

lemma move_from_refines:
  assumes inv: "fn_inv \<Gamma> P m" and p: "fns m p = Some f" "vtable f = None" "is_empty (storage f)"
    and q: "fns m q = Some g" and pq: "p \<noteq> q"
  shows "\<exists>m'. move_from \<Gamma> p q m = Some m' \<and> fn_inv \<Gamma> P m' \<and> fn_abs m' = (fn_abs m)(p := fn_abs m q, q := Some None)"
proof (cases "vtable g")
  case None
  have f: "f\<lparr>vtable := None\<rparr> = f" using p(2) by (cases f) simp
  have m: "set_fn p f m = m" using p(1) by (simp add: set_fn_def fun_upd_idem)
  have "fn_abs m p = Some None" "fn_abs m q = Some None" using p q None by (simp_all add: fn_abs_def fn_value_def)
  then have "(fn_abs m)(p := fn_abs m q, q := Some None) = fn_abs m" by auto
  then show ?thesis using inv p q None by (simp add: move_from_def f m)
next
  case (Some v)
  then show ?thesis using vt_move_refines [OF inv p q Some pq] q by (simp add: move_from_def)
qed

lemma fn_destroy_refines:
  assumes inv: "fn_inv \<Gamma> P m" and p: "fns m p = Some fn"
  shows "\<exists>m'. fn_destroy p m = Some m' \<and> fn_inv \<Gamma> P m' \<and> fn_abs m' = (fn_abs m)(p := None)"
proof -
  obtain m1 f1 where r: "fn_reset p m = Some m1" "fn_inv \<Gamma> P m1" "fn_abs m1 = (fn_abs m)(p := Some None)"
    "fns m1 = (fns m)(p := Some f1)" "vtable f1 = None" "is_empty (storage f1)"
    by (rule fn_reset_refines [OF inv p])
  let ?m = "m1\<lparr>fns := (fns m1)(p := None)\<rparr>"
  have sh: "fn_shape \<Gamma> P m1" using r(2) by (simp add: fn_inv_def)
  have own: "storage f1 \<noteq> heap_ptr (Some a)" for a using r(6) by (auto simp: is_empty_def)
  have ex: "\<exists>q f. fns ?m q = Some f \<and> storage f = heap_ptr (Some a)" if blk: "blocks ?m a = Some x" for a x
  proof -
    obtain q f where q: "fns m1 q = Some f" "storage f = heap_ptr (Some a)" using fn_shapeD(4) [OF sh, of a x] blk by auto
    then have "q \<noteq> p" using own [of a] r(4) by auto
    then show ?thesis using q by (intro exI [of _ q] exI [of _ f]) simp
  qed
  have sub: "fns ?m q = Some f \<Longrightarrow> fns m1 q = Some f" for q f by (simp split: if_splits)
  have fo: "MAX_ALIGN dvd q \<and> fn_ok \<Gamma> P (blocks ?m) f" if "fns ?m q = Some f" for q f
    using fn_shapeD(1,2) [OF sh sub [OF that]] by simp
  have lt: "a < next_block ?m" if "blocks ?m a = Some x" for a x
    using fn_shapeD(3) [OF sh, of a x] that by simp
  have inj: "q = r" if "fns ?m q = Some f" "fns ?m r = Some g" "storage f = heap_ptr (Some a)" "storage g = heap_ptr (Some a)"
    for q r f g a by (rule fn_shapeD(5) [OF sh sub [OF that(1)] sub [OF that(2)] that(3,4)])
  have "fn_shape \<Gamma> P ?m"
    unfolding fn_shape_def using fo lt ex inj by blast
  moreover have abs: "fn_abs ?m = (fn_abs m)(p := None)"
    using r(3) by (auto simp: fn_abs_def fun_eq_iff split: if_splits)
  moreover have "fn_abs ?m = (fn_abs m1)(p := None)" using abs r(3) by simp
  ultimately have "fn_inv \<Gamma> P ?m"
    by (intro fn_inv_update [OF r(2), of ?m p None]) (simp_all add: r(3))
  then show ?thesis using r(1) abs by (simp add: fn_destroy_def)
qed

section \<open>Scripts of operations\<close>

datatype ('s, 'a) fn_op = Default nat | Construct ftype 's nat | Emplace ftype 's nat | Reset nat | Destroy nat
  | Move_construct nat nat | Move_assign nat nat | Call nat 'a | Test nat

datatype 'r fn_answer = Done | Holds bool | Returned 'r

definition finished :: "'m option \<Rightarrow> ('r fn_answer \<times> 'm) option" where
  "finished x = map_option (Pair Done) x"

fun fn_step ::
  "(ftype \<Rightarrow> ('s, 'a, 'r) callable_type) \<Rightarrow> function_params \<Rightarrow> ('s, 'a) fn_op \<Rightarrow> 's fn_mem \<Rightarrow> ('r fn_answer \<times> 's fn_mem) option" where
  "fn_step \<Gamma> P (Default p) m = finished (fn_default p m)"
| "fn_step \<Gamma> P (Construct F s p) m = finished (fn_construct \<Gamma> P F s p m)"
| "fn_step \<Gamma> P (Emplace F s p) m = finished (emplace \<Gamma> P F s p m)"
| "fn_step \<Gamma> P (Reset p) m = finished (fn_reset p m)"
| "fn_step \<Gamma> P (Destroy p) m = finished (fn_destroy p m)"
| "fn_step \<Gamma> P (Move_construct p q) m = finished (fn_move_construct \<Gamma> p q m)"
| "fn_step \<Gamma> P (Move_assign p q) m = finished (fn_move_assign \<Gamma> p q m)"
| "fn_step \<Gamma> P (Call p x) m = map_option (\<lambda>(r, m'). (Returned r, m')) (fn_call \<Gamma> p x m)"
| "fn_step \<Gamma> P (Test p) m = map_option (\<lambda>b. (Holds b, m)) (fn_bool p m)"

text \<open>The same operations on a map from addresses to optional callables: no storage, no policy.\<close>

definition is_new :: "nat \<Rightarrow> 's fn_view \<Rightarrow> bool" where
  "is_new p A \<longleftrightarrow> A p = None \<and> MAX_ALIGN dvd p"

fun fn_spec ::
  "(ftype \<Rightarrow> ('s, 'a, 'r) callable_type) \<Rightarrow> ('s, 'a) fn_op \<Rightarrow> 's fn_view \<Rightarrow> ('r fn_answer \<times> 's fn_view) option" where
  "fn_spec \<Gamma> (Default p) A = finished (if is_new p A then Some (A(p := Some None)) else None)"
| "fn_spec \<Gamma> (Construct F s p) A = finished (if is_new p A then Some (A(p := Some (Some (F, s)))) else None)"
| "fn_spec \<Gamma> (Emplace F s p) A = finished (if A p \<noteq> None then Some (A(p := Some (Some (F, s)))) else None)"
| "fn_spec \<Gamma> (Reset p) A = finished (if A p \<noteq> None then Some (A(p := Some None)) else None)"
| "fn_spec \<Gamma> (Destroy p) A = finished (if A p \<noteq> None then Some (A(p := None)) else None)"
| "fn_spec \<Gamma> (Move_construct p q) A =
     finished (if A q \<noteq> None \<and> is_new p A then Some (A(p := A q, q := Some None)) else None)"
| "fn_spec \<Gamma> (Move_assign p q) A =
     finished (if A p \<noteq> None \<and> A q \<noteq> None then Some (if p = q then A else A(p := A q, q := Some None)) else None)"
| "fn_spec \<Gamma> (Call p x) A = (case A p of
       Some (Some (F, s)) \<Rightarrow> (case ct_call (\<Gamma> F) s x of (r, s') \<Rightarrow> Some (Returned r, A(p := Some (Some (F, s')))))
     | _ \<Rightarrow> None)"
| "fn_spec \<Gamma> (Test p) A = map_option (\<lambda>v. (Holds (v \<noteq> None), A)) (A p)"

text \<open>The callables a script stores have ordinary types that the static assertions admit.\<close>

fun fn_op_ok :: "(ftype \<Rightarrow> ('s, 'a, 'r) callable_type) \<Rightarrow> function_params \<Rightarrow> ('s, 'a) fn_op \<Rightarrow> bool" where
  "fn_op_ok \<Gamma> P (Construct F s p) \<longleftrightarrow> type_ok (\<Gamma> F) \<and> emplace_compiles \<Gamma> P F"
| "fn_op_ok \<Gamma> P (Emplace F s p) \<longleftrightarrow> type_ok (\<Gamma> F) \<and> emplace_compiles \<Gamma> P F"
| "fn_op_ok \<Gamma> P _ \<longleftrightarrow> True"

text \<open>A step corresponds to the abstract one: both fail, or both succeed and agree.\<close>

definition simulates ::
  "(ftype \<Rightarrow> ('s, 'a, 'r) callable_type) \<Rightarrow> function_params \<Rightarrow> ('r fn_answer \<times> 's fn_mem) option \<Rightarrow> ('r fn_answer \<times> 's fn_view) option \<Rightarrow> bool" where
  "simulates \<Gamma> P x y \<longleftrightarrow> rel_option (\<lambda>(r, m) (r', A). r = r' \<and> fn_inv \<Gamma> P m \<and> fn_abs m = A) x y"

lemma simulates_finished:
  "\<exists>m'. x = Some m' \<and> fn_inv \<Gamma> P m' \<and> fn_abs m' = A \<Longrightarrow> simulates \<Gamma> P (finished x) (finished (Some A))"
  "simulates \<Gamma> P (finished None) (finished None)"
  by (auto simp: simulates_def finished_def)

lemma fn_abs_None [simp]: "fn_abs m p = None \<longleftrightarrow> fns m p = None"
  by (simp add: fn_abs_def)

lemma fn_construct_refines:
  assumes inv: "fn_inv \<Gamma> P m" and p: "fns m p = None" "MAX_ALIGN dvd p" and F: "type_ok (\<Gamma> F)" "emplace_compiles \<Gamma> P F"
  shows "\<exists>m'. fn_construct \<Gamma> P F s p m = Some m' \<and> fn_inv \<Gamma> P m' \<and> fn_abs m' = (fn_abs m)(p := Some (Some (F, s)))"
proof -
  obtain m1 where m1: "fn_default p m = Some m1" "fn_inv \<Gamma> P m1" "fn_abs m1 = (fn_abs m)(p := Some None)"
    using fn_default_refines [OF inv p] by blast
  then obtain fn where "fns m1 p = Some fn" using fn_abs_None [of m1 p] by auto
  then show ?thesis using emplace_refines [OF m1(2) _ F, of p fn s] m1(1,3) by (simp add: fn_construct_def)
qed

lemma fn_move_construct_refines:
  assumes inv: "fn_inv \<Gamma> P m" and p: "fns m p = None" "MAX_ALIGN dvd p" and q: "fns m q = Some g"
  shows "\<exists>m'. fn_move_construct \<Gamma> p q m = Some m' \<and> fn_inv \<Gamma> P m' \<and> fn_abs m' = (fn_abs m)(p := fn_abs m q, q := Some None)"
proof -
  obtain m1 where m1: "fn_default p m = Some m1" "fn_inv \<Gamma> P m1" "fn_abs m1 = (fn_abs m)(p := Some None)"
    using fn_default_refines [OF inv p] by blast
  have pq: "p \<noteq> q" using p q by auto
  have "m1 = set_fn p Function_init m" using m1(1) p by (simp add: fn_default_def)
  then have f: "fns m1 p = Some Function_init" "fns m1 q = Some g" using q pq by (auto simp: set_fn_def)
  show ?thesis
    using move_from_refines [OF m1(2) f(1) _ _ f(2) pq] m1 q pq
    by (auto simp: fn_move_construct_def Function_init_def is_empty_def)
qed

lemma fn_move_assign_refines:
  assumes inv: "fn_inv \<Gamma> P m" and p: "fns m p = Some f" and q: "fns m q = Some g" and pq: "p \<noteq> q"
  shows "\<exists>m'. fn_move_assign \<Gamma> p q m = Some m' \<and> fn_inv \<Gamma> P m' \<and> fn_abs m' = (fn_abs m)(p := fn_abs m q, q := Some None)"
proof -
  obtain m1 f1 where r: "fn_reset p m = Some m1" "fn_inv \<Gamma> P m1" "fn_abs m1 = (fn_abs m)(p := Some None)"
    "fns m1 = (fns m)(p := Some f1)" "vtable f1 = None" "is_empty (storage f1)"
    by (rule fn_reset_refines [OF inv p])
  have f: "fns m1 p = Some f1" "fns m1 q = Some g" using r(4) q pq by auto
  show ?thesis
    using move_from_refines [OF r(2) f(1) r(5,6) f(2) pq] r(1,3) p q pq by (auto simp: fn_move_assign_def)
qed

lemma fn_call_simulates:
  assumes inv: "fn_inv \<Gamma> P m"
  shows "simulates \<Gamma> P (fn_step \<Gamma> P (Call p x) m) (fn_spec \<Gamma> (Call p x) (fn_abs m))"
proof (cases "fns m p")
  case None
  then show ?thesis by (simp add: fn_abs_def fn_call_def simulates_def)
next
  case (Some fn)
  show ?thesis
  proof (cases "fn_value (blocks m) fn")
    case None
    have "vtable fn = None" by (rule fn_ok_cases [OF fn_inv_fnD(2) [OF inv Some]]) (use None in auto)
    then show ?thesis using None Some by (simp add: fn_abs_def fn_call_def simulates_def)
  next
    case v: (Some Fs)
    obtain F s where Fs: "Fs = (F, s)" by (cases Fs)
    obtain r s' where c: "ct_call (\<Gamma> F) s x = (r, s')" by (cases "ct_call (\<Gamma> F) s x")
    show ?thesis using fn_call_refines [OF inv Some _ c] v Fs fn_absI [OF Some v] c
      by (auto simp: simulates_def)
  qed
qed

lemma fn_test_simulates:
  assumes inv: "fn_inv \<Gamma> P m"
  shows "simulates \<Gamma> P (fn_step \<Gamma> P (Test p) m) (fn_spec \<Gamma> (Test p) (fn_abs m))"
proof (cases "fns m p")
  case None
  then show ?thesis by (simp add: fn_abs_def fn_bool_def simulates_def)
next
  case (Some fn)
  have "vtable fn \<noteq> None \<longleftrightarrow> fn_value (blocks m) fn \<noteq> None"
    by (rule fn_ok_cases [OF fn_inv_fnD(2) [OF inv Some]]) auto
  then show ?thesis using Some inv by (simp add: fn_abs_def fn_bool_def simulates_def)
qed

text \<open>Operations on dead or live addresses where they must not be used fail on both sides.\<close>

lemma fn_ops_dead:
  "fns m p = None \<Longrightarrow> fn_reset p m = None" "fns m p = None \<Longrightarrow> emplace \<Gamma> P F s p m = None"
  "fns m p = None \<Longrightarrow> fn_destroy p m = None" "\<not> (fns m p = None \<and> MAX_ALIGN dvd p) \<Longrightarrow> fn_default p m = None"
  by (auto simp: fn_reset_def emplace_def fn_destroy_def fn_default_def)

lemma fn_step_simulates:
  assumes inv: "fn_inv \<Gamma> P m" and ok: "fn_op_ok \<Gamma> P op"
  shows "simulates \<Gamma> P (fn_step \<Gamma> P op m) (fn_spec \<Gamma> op (fn_abs m))"
proof (cases op)
  case (Default p)
  then show ?thesis using fn_default_refines [OF inv, of p] fn_ops_dead(4) [of m p]
    by (auto simp: is_new_def intro!: simulates_finished)
next
  case (Construct F s p)
  then show ?thesis using fn_construct_refines [OF inv, of p F s] fn_ops_dead(4) [of m p] ok
    by (auto simp: is_new_def fn_construct_def [of _ _ _ _ p m] intro!: simulates_finished)
next
  case (Emplace F s p)
  then show ?thesis using emplace_refines [OF inv, of p _ F s] fn_ops_dead(2) [of m p \<Gamma> P F s] ok
    by (cases "fns m p") (auto intro!: simulates_finished)
next
  case (Reset p)
  have "\<exists>m'. fn_reset p m = Some m' \<and> fn_inv \<Gamma> P m' \<and> fn_abs m' = (fn_abs m)(p := Some None)" if "fns m p = Some fn" for fn
    by (rule fn_reset_refines [OF inv that]) blast
  then show ?thesis using fn_ops_dead(1) [of m p] Reset
    by (cases "fns m p") (auto intro!: simulates_finished)
next
  case (Destroy p)
  then show ?thesis using fn_destroy_refines [OF inv, of p] fn_ops_dead(3) [of m p]
    by (cases "fns m p") (auto intro!: simulates_finished)
next
  case (Move_construct p q)
  then show ?thesis using fn_move_construct_refines [OF inv, of p q] fn_ops_dead(4) [of m p]
    by (cases "fns m q") (auto simp: is_new_def fn_move_construct_def [of _ p q m] intro!: simulates_finished)
next
  case (Move_assign p q)
  have "fn_move_assign \<Gamma> p p m = Some m" if "fns m p = Some f" for f using that by (simp add: fn_move_assign_def)
  moreover have "fn_move_assign \<Gamma> p q m = None" if "fns m p = None \<or> fns m q = None"
    using that by (cases "fns m p") (auto simp: fn_move_assign_def)
  ultimately show ?thesis using fn_move_assign_refines [OF inv, of p _ q] inv Move_assign
    by (cases "fns m p"; cases "fns m q"; cases "p = q") (auto intro!: simulates_finished)
next
  case (Call p x)
  then show ?thesis using fn_call_simulates [OF inv] by simp
next
  case (Test p)
  then show ?thesis using fn_test_simulates [OF inv] by simp
qed

interpretation fn: stepwise_refinement "fn_step \<Gamma> P" "fn_spec \<Gamma>" "fn_inv \<Gamma> P" fn_abs "fn_op_ok \<Gamma> P" for \<Gamma> P
proof
  fix m :: "'a fn_mem" and op :: "('a, 'b) fn_op"
  assume "fn_inv \<Gamma> P m" "fn_op_ok \<Gamma> P op"
  then have sim: "simulates \<Gamma> P (fn_step \<Gamma> P op m) (fn_spec \<Gamma> op (fn_abs m))" by (rule fn_step_simulates)
  show "map_option (map_prod id fn_abs) (fn_step \<Gamma> P op m) = fn_spec \<Gamma> op (fn_abs m)"
    using sim unfolding simulates_def
    by (cases "fn_step \<Gamma> P op m"; cases "fn_spec \<Gamma> op (fn_abs m)") auto
  show "fn_inv \<Gamma> P m'" if "fn_step \<Gamma> P op m = Some (x, m')" for x m'
    using sim that unfolding simulates_def by (cases "fn_spec \<Gamma> op (fn_abs m)") auto
qed

section \<open>Properties\<close>

text \<open>
  Two kinds of callables for the witnesses: a counter of 8 bytes that adds its argument to its state and
  returns the sum, and one of 48 bytes that returns its argument and is worn out when it is moved from.
\<close>

definition demo_types :: "ftype \<Rightarrow> (int, int, int) callable_type" where
  "demo_types F = (if F = 1 then \<lparr>ct_size = 8, ct_align = 8, ct_call = (\<lambda>s x. (s + x, s + x)), ct_move = (\<lambda>s. (s, s))\<rparr>
     else if F = 2 then \<lparr>ct_size = 48, ct_align = 16, ct_call = (\<lambda>s x. (x, s)), ct_move = (\<lambda>s. (s, 0))\<rparr>
     else \<lparr>ct_size = 32, ct_align = 32, ct_call = (\<lambda>s x. (x, s)), ct_move = (\<lambda>s. (s, s))\<rparr>)"

definition demo_script :: "(int, int) fn_op list" where
  "demo_script = [Construct 1 10 64, Call 64 5, Move_construct 128 64, Test 64, Call 128 2, Emplace 2 7 64, Call 64 3,
     Move_assign 128 64, Call 128 4, Test 64, Destroy 64, Destroy 128]"

lemma demo_script_ok:
  assumes "32 \<le> InlineSize P" "Policy P \<noteq> NoHeap"
  shows "\<forall>op \<in> set demo_script. fn_op_ok demo_types P op"
  using assms
  by (simp add: demo_script_def demo_types_def type_ok_def MAX_ALIGN_def emplace_compiles_def AllowHeap_def dvd_def)

text \<open>
  C18: A script of constructions, moves, assignments, calls and destructions on any number of
  \<^verbatim>\<open>Function\<close> objects gives the answers of a plain map from addresses to optional callables, if every callable
  that it stores has no extended alignment, a move constructor that preserves its value, and passes the static
  assertions of the instance (\<^const>\<open>fn_op_ok\<close>).  It fails exactly where the map says: a use of a dead \<^verbatim>\<open>Function\<close>, the call of an
  empty one, a construction at the address of a live one, or a construction at a misaligned address.  In
  particular no such script reads a dead or wrongly typed callable or deletes a block twice.
\<close>

theorem function_refines_slots:
  assumes "\<forall>op \<in> set ops. fn_op_ok \<Gamma> P op"
  shows "map_option (map_prod id fn_abs) (run_ops (fn_step \<Gamma> P) ops fn_mem_init) = run_ops (fn_spec \<Gamma>) ops (\<lambda>_. None)"
  using fn.run_refines [OF fn_inv_init(1) assms] by (simp add: fn_inv_init(2))

theorem function_refines_slots_witness:
  "map_option fst (run_ops (fn_step demo_types \<lparr>InlineSize = 32, Policy = CanUseHeap\<rparr>) demo_script fn_mem_init) =
    Some [Done, Returned 15, Done, Holds False, Returned 17, Done, Returned 3, Done, Returned 4, Holds False, Done, Done]"
proof -
  let ?P = "\<lparr>InlineSize = 32, Policy = CanUseHeap\<rparr>"
  have spec: "map_option fst (run_ops (fn_spec demo_types) demo_script (\<lambda>_. None)) =
    Some [Done, Returned 15, Done, Holds False, Returned 17, Done, Returned 3, Done, Returned 4, Holds False, Done, Done]"
    by (simp add: demo_script_def demo_types_def finished_def is_new_def MAX_ALIGN_def)
  have "map_option (map_prod id fn_abs) (run_ops (fn_step demo_types ?P) demo_script fn_mem_init) =
      run_ops (fn_spec demo_types) demo_script (\<lambda>_. None)"
    by (rule function_refines_slots [OF demo_script_ok]) simp_all
  then have "map_option fst (map_option (map_prod id fn_abs) (run_ops (fn_step demo_types ?P) demo_script fn_mem_init)) =
      map_option fst (run_ops (fn_spec demo_types) demo_script (\<lambda>_. None))" by (rule arg_cong)
  then show ?thesis unfolding spec by (simp add: option.map_comp o_def)
qed

text \<open>
  For such scripts the storage policy and the inline size cannot be observed: two instances of the template that
  admit the callables of a script give the same answers to it, whether an object lives in the inline
  bytes, where every move runs its move constructor, or in a heap block, which is handed over.
\<close>

lemma storage_policy_unobservable:
  assumes "\<forall>op \<in> set ops. fn_op_ok \<Gamma> P op" "\<forall>op \<in> set ops. fn_op_ok \<Gamma> P' op"
  shows "map_option fst (run_ops (fn_step \<Gamma> P) ops fn_mem_init) = map_option fst (run_ops (fn_step \<Gamma> P') ops fn_mem_init)"
  using fn.run_answers [OF fn_inv_init(1) assms(1)] fn.run_answers [OF fn_inv_init(1) assms(2)]
  by (simp add: fn_inv_init(2))

text \<open>
  C19: No object leaks and none is destroyed twice.  After any script, of every type as many objects have
  been constructed as have been destroyed or are owned by a live \<^verbatim>\<open>Function\<close>; every heap block in use is
  owned by exactly one \<^verbatim>\<open>Function\<close>; when all \<^verbatim>\<open>Function\<close>s are gone the heap is empty and everything that
  was made has been destroyed; and with the policy \<^verbatim>\<open>NoHeap\<close> no block is ever in use.
\<close>

theorem function_no_leak:
  assumes ops: "\<forall>op \<in> set ops. fn_op_ok \<Gamma> P op" and run: "run_ops (fn_step \<Gamma> P) ops fn_mem_init = Some (xs, m)"
  shows "made m F = destroyed m F + fn_count F (fn_abs m) \<and>
    (\<forall>a. blocks m a \<noteq> None \<longrightarrow> (\<exists>!p. \<exists>fn. fns m p = Some fn \<and> storage fn = heap_ptr (Some a))) \<and>
    (fns m = (\<lambda>_. None) \<longrightarrow> blocks m = (\<lambda>_. None) \<and> made m F = destroyed m F) \<and>
    (Policy P = NoHeap \<longrightarrow> blocks m = (\<lambda>_. None))"
proof -
  have inv: "fn_inv \<Gamma> P m" by (rule fn.run_keeps [OF fn_inv_init(1) ops run])
  then have sh: "fn_shape \<Gamma> P m" and cnt: "made m F = destroyed m F + fn_count F (fn_abs m)" by (simp_all add: fn_inv_def)
  have own: "\<exists>p fn. fns m p = Some fn \<and> storage fn = heap_ptr (Some a)" if "blocks m a \<noteq> None" for a
    using fn_shapeD(4) [OF sh] that by blast
  have one: "\<exists>!p. \<exists>fn. fns m p = Some fn \<and> storage fn = heap_ptr (Some a)" if "blocks m a \<noteq> None" for a
    using own [OF that] fn_shapeD(5) [OF sh] by (metis (no_types, lifting))
  have gone: "blocks m = (\<lambda>_. None) \<and> made m F = destroyed m F" if "fns m = (\<lambda>_. None)"
  proof -
    have "blocks m a = None" for a using own [of a] unfolding that by blast
    then show ?thesis using cnt that by (auto simp: fn_abs_def fn_count_def)
  qed
  have "blocks m = (\<lambda>_. None)" if no: "Policy P = NoHeap"
  proof (rule ext, rule ccontr)
    fix a
    assume "blocks m a \<noteq> None"
    then obtain p fn where p: "fns m p = Some fn" "storage fn = heap_ptr (Some a)" using own by blast
    show False
      by (rule fn_ok_cases [OF fn_shapeD(2) [OF sh p(1)]])
        (use p no in \<open>auto simp: is_empty_def emplace_compiles_def AllowHeap_def\<close>)
  qed
  then show ?thesis using cnt one gone by blast
qed

theorem function_no_leak_witness:
  "\<exists>xs m. run_ops (fn_step demo_types \<lparr>InlineSize = 32, Policy = CanUseHeap\<rparr>) demo_script fn_mem_init = Some (xs, m) \<and>
     blocks m = (\<lambda>_. None) \<and> made m 2 = destroyed m 2"
proof -
  let ?P = "\<lparr>InlineSize = 32, Policy = CanUseHeap\<rparr>"
  have ok: "\<forall>op \<in> set demo_script. fn_op_ok demo_types ?P op" by (rule demo_script_ok) simp_all
  have spec: "\<exists>xs. run_ops (fn_spec demo_types) demo_script (\<lambda>_. None) = Some (xs, \<lambda>_. None)"
    by (simp add: demo_script_def demo_types_def finished_def is_new_def MAX_ALIGN_def fun_eq_iff)
  have "map_option (map_prod id fn_abs) (run_ops (fn_step demo_types ?P) demo_script fn_mem_init) =
      run_ops (fn_spec demo_types) demo_script (\<lambda>_. None)"
    using fn.run_refines [OF fn_inv_init(1) ok] by (simp add: fn_inv_init(2))
  then obtain xs m where m: "run_ops (fn_step demo_types ?P) demo_script fn_mem_init = Some (xs, m)" "fn_abs m = (\<lambda>_. None)"
    using spec by auto
  have "fns m = (\<lambda>_. None)" using m(2) fn_abs_None [of m] by (auto simp: fun_eq_iff)
  then show ?thesis using function_no_leak [OF ok m(1), of 2] m(1) by blast
qed

text \<open>
  C35: The choice of the storage compares sizes only.  A callable of extended alignment that fits the
  inline bytes passes the static assertions and is placed there, although the bytes are aligned for
  \<^verbatim>\<open>std::max_align_t\<close> only: at a properly aligned \<^verbatim>\<open>Function\<close> whose storage is not aligned for the callable
  the construction is undefined, while the heap policy would have served it.
\<close>

theorem over_aligned_callable_undefined:
  assumes fits: "ct_size (\<Gamma> F) \<le> InlineSize P" "Policy P \<noteq> MustUseHeap"
    and p: "fns m p = None" "MAX_ALIGN dvd p" "\<not> ct_align (\<Gamma> F) dvd inline_address p"
  shows "emplace_compiles \<Gamma> P F \<and> fn_construct \<Gamma> P F s p m = None \<and>
    fn_construct \<Gamma> (P\<lparr>Policy := MustUseHeap\<rparr>) F s p m \<noteq> None"
  using assms
  by (simp add: emplace_compiles_def NeedsHeapForSize_def UseHeap_def ForceHeap_def AllowHeap_def fn_construct_def
      fn_default_def emplace_def fn_reset_def set_fn_def Function_init_def placement_new_def heap_new_def note_made_def)

theorem over_aligned_callable_undefined_witness:
  "fn_construct demo_types \<lparr>InlineSize = 32, Policy = NoHeap\<rparr> 3 0 64 fn_mem_init = None"
  using over_aligned_callable_undefined [of demo_types 3 "\<lparr>InlineSize = 32, Policy = NoHeap\<rparr>" fn_mem_init 64 0]
  by (simp add: demo_types_def fn_mem_init_def MAX_ALIGN_def inline_address_def)

end
