(* ===== verification/Group_Lock.thy ===== *)
theory Group_Lock
  imports Kernel_State Refinement_Interface
begin

text \<open>
  The reference vector and the group lock of waitable_utilities.hpp with several cores at work.

  The first part models \<^verbatim>\<open>WaitableRefVector\<close> as the array and the count that it is, and relates it to
  the lists that the kernel model uses.  The second part interleaves group locks: every core takes and
  releases groups of its choice, one atomic access to one lock flag at a time, and spins on a flag that
  is set.  No two cores ever hold the same lock, no assertion fails, and the sorted order of
  acquisition excludes deadlock: whenever some core is inside, some core can go on, and the locks taken
  so far are released after a bounded number of steps that are not spins.
\<close>

section \<open>The reference vector\<close>

record WaitableRefVector =
  ref_store :: "waitable_ptr list"
  ref_count :: nat

definition ref_init :: "nat \<Rightarrow> WaitableRefVector" where
  "ref_init N = \<lparr>ref_store = replicate N nullptr, ref_count = 0\<rparr>"

definition ref_empty :: "WaitableRefVector \<Rightarrow> bool" where
  "ref_empty v \<longleftrightarrow> ref_count v = 0"

definition ref_size :: "WaitableRefVector \<Rightarrow> nat" where
  "ref_size v = ref_count v"

definition ref_capacity :: "WaitableRefVector \<Rightarrow> nat" where
  "ref_capacity v = length (ref_store v)"

text \<open>The elements between \<^verbatim>\<open>begin()\<close> and \<^verbatim>\<open>end()\<close>.\<close>

definition ref_range :: "WaitableRefVector \<Rightarrow> waitable_ptr list" where
  "ref_range v = take (ref_count v) (ref_store v)"

definition ref_at :: "nat \<Rightarrow> WaitableRefVector \<Rightarrow> waitable_ptr option" where
  "ref_at i v = do { CORTOS_ASSERT (i < ref_count v); Some (ref_store v ! i) }"

definition ref_push :: "waitable_ptr \<Rightarrow> WaitableRefVector \<Rightarrow> WaitableRefVector option" where
  "ref_push w v = do {
     CORTOS_ASSERT (ref_count v < length (ref_store v));
     Some (v\<lparr>ref_store := (ref_store v)[ref_count v := w], ref_count := Suc (ref_count v)\<rparr>) }"

text \<open>\<^verbatim>\<open>std::ranges::copy\<close> to the position \<open>i\<close> of an array.\<close>

fun copy_to :: "waitable_ptr list \<Rightarrow> nat \<Rightarrow> waitable_ptr list \<Rightarrow> waitable_ptr list" where
  "copy_to [] i st = st"
| "copy_to (w # ws) i st = copy_to ws (Suc i) (st[i := w])"

definition ref_push_range :: "waitable_ptr list \<Rightarrow> WaitableRefVector \<Rightarrow> WaitableRefVector option" where
  "ref_push_range ws v = do {
     CORTOS_ASSERT (ref_count v + length ws \<le> length (ref_store v));
     Some (v\<lparr>ref_store := copy_to ws (ref_count v) (ref_store v), ref_count := ref_count v + length ws\<rparr>) }"

definition ref_pop :: "WaitableRefVector \<Rightarrow> WaitableRefVector option" where
  "ref_pop v = do { CORTOS_ASSERT (\<not> ref_empty v); Some (v\<lparr>ref_count := ref_count v - 1\<rparr>) }"

text \<open>\<^verbatim>\<open>std::ranges::sort\<close> over \<^verbatim>\<open>[begin(), end())\<close>; the rest of the array stays.\<close>

definition ref_sort_by_address :: "WaitableRefVector \<Rightarrow> WaitableRefVector" where
  "ref_sort_by_address v = (if ref_count v < 2 then v
     else v\<lparr>ref_store := sort (ref_range v) @ drop (ref_count v) (ref_store v)\<rparr>)"

definition ref_clear :: "WaitableRefVector \<Rightarrow> WaitableRefVector" where
  "ref_clear v = v\<lparr>ref_count := 0\<rparr>"

subsection \<open>It is a bounded list\<close>

definition ref_inv :: "nat \<Rightarrow> WaitableRefVector \<Rightarrow> bool" where
  "ref_inv N v \<longleftrightarrow> length (ref_store v) = N \<and> ref_count v \<le> N"

lemma copy_to_eq:
  assumes "i + length ws \<le> length st"
  shows "copy_to ws i st = take i st @ ws @ drop (i + length ws) st"
  using assms
proof (induction ws arbitrary: i st)
  case (Cons w ws)
  then have "copy_to (w # ws) i st = take (Suc i) (st[i := w]) @ ws @ drop (Suc i + length ws) (st[i := w])" by simp
  also have "take (Suc i) (st[i := w]) = take i st @ [w]"
    using Cons.prems by (simp add: take_Suc_conv_app_nth)
  finally show ?case by (simp add: drop_update_cancel)
qed simp

datatype ref_op = Push waitable_ptr | Push_range "waitable_ptr list" | Pop | Sort | Clear | At nat | Size | Is_empty

datatype ref_answer = Void | Ref waitable_ptr | Count nat | Truth bool

fun ref_step :: "ref_op \<Rightarrow> WaitableRefVector \<Rightarrow> (ref_answer \<times> WaitableRefVector) option" where
  "ref_step (Push w) v = map_option (Pair Void) (ref_push w v)"
| "ref_step (Push_range ws) v = map_option (Pair Void) (ref_push_range ws v)"
| "ref_step Pop v = map_option (Pair Void) (ref_pop v)"
| "ref_step Sort v = Some (Void, ref_sort_by_address v)"
| "ref_step Clear v = Some (Void, ref_clear v)"
| "ref_step (At i) v = map_option (\<lambda>w. (Ref w, v)) (ref_at i v)"
| "ref_step Size v = Some (Count (ref_size v), v)"
| "ref_step Is_empty v = Some (Truth (ref_empty v), v)"

text \<open>The same on lists of at most \<open>N\<close> references.\<close>

fun ref_spec :: "nat \<Rightarrow> ref_op \<Rightarrow> waitable_ptr list \<Rightarrow> (ref_answer \<times> waitable_ptr list) option" where
  "ref_spec N (Push w) xs = (if length xs < N then Some (Void, xs @ [w]) else None)"
| "ref_spec N (Push_range ws) xs = (if length xs + length ws \<le> N then Some (Void, xs @ ws) else None)"
| "ref_spec N Pop xs = (if xs = [] then None else Some (Void, butlast xs))"
| "ref_spec N Sort xs = Some (Void, sort xs)"
| "ref_spec N Clear xs = Some (Void, [])"
| "ref_spec N (At i) xs = (if i < length xs then Some (Ref (xs ! i), xs) else None)"
| "ref_spec N Size xs = Some (Count (length xs), xs)"
| "ref_spec N Is_empty xs = Some (Truth (xs = []), xs)"

lemma ref_range_length [simp]: "ref_inv N v \<Longrightarrow> length (ref_range v) = ref_count v"
  by (simp add: ref_inv_def ref_range_def)

lemma sort_short: "length xs < 2 \<Longrightarrow> sort xs = (xs :: waitable_ptr list)"
  by (cases xs rule: neighbours_differ.cases) simp_all

lemma ref_ops_range:
  assumes inv: "ref_inv N v"
  shows "ref_push w v = Some v' \<Longrightarrow> ref_inv N v' \<and> ref_range v' = ref_range v @ [w]"
    and "ref_push_range ws v = Some v' \<Longrightarrow> ref_inv N v' \<and> ref_range v' = ref_range v @ ws"
    and "ref_pop v = Some v' \<Longrightarrow> ref_inv N v' \<and> ref_range v' = butlast (ref_range v)"
    and "ref_inv N (ref_sort_by_address v) \<and> ref_range (ref_sort_by_address v) = sort (ref_range v)"
    and "ref_inv N (ref_clear v) \<and> ref_range (ref_clear v) = []"
proof -
  show "ref_push w v = Some v' \<Longrightarrow> ref_inv N v' \<and> ref_range v' = ref_range v @ [w]"
    using inv by (auto simp: ref_push_def ref_inv_def ref_range_def take_Suc_conv_app_nth split: if_splits)
  show "ref_push_range ws v = Some v' \<Longrightarrow> ref_inv N v' \<and> ref_range v' = ref_range v @ ws"
    using inv by (auto simp: ref_push_range_def ref_inv_def ref_range_def copy_to_eq split: if_splits)
  show "ref_pop v = Some v' \<Longrightarrow> ref_inv N v' \<and> ref_range v' = butlast (ref_range v)"
    using inv by (auto simp: ref_pop_def ref_inv_def ref_range_def ref_empty_def butlast_take split: if_splits)
  show "ref_inv N (ref_sort_by_address v) \<and> ref_range (ref_sort_by_address v) = sort (ref_range v)"
    using inv sort_short [of "ref_range v"] by (auto simp: ref_sort_by_address_def ref_inv_def ref_range_def)
  show "ref_inv N (ref_clear v) \<and> ref_range (ref_clear v) = []"
    using inv by (auto simp: ref_clear_def ref_inv_def ref_range_def)
qed

lemma ref_ops_defined:
  assumes inv: "ref_inv N v"
  shows "(ref_push w v = None) = (\<not> length (ref_range v) < N)"
    and "(ref_push_range ws v = None) = (\<not> length (ref_range v) + length ws \<le> N)"
    and "(ref_pop v = None) = (ref_range v = [])"
    and "ref_at i v = (if i < length (ref_range v) then Some (ref_range v ! i) else None)"
  using inv by (auto simp: ref_push_def ref_push_range_def ref_pop_def ref_at_def ref_inv_def ref_range_def ref_empty_def)

interpretation rv: stepwise_refinement ref_step "ref_spec N" "ref_inv N" ref_range "\<lambda>_. True" for N
proof
  fix v op
  assume inv: "ref_inv N v"
  show "map_option (map_prod id ref_range) (ref_step op v) = ref_spec N op (ref_range v)"
  proof (cases op)
    case (Push w)
    then show ?thesis using ref_ops_range(1) [OF inv] ref_ops_defined(1) [OF inv, of w] by (cases "ref_push w v") auto
  next
    case (Push_range ws)
    then show ?thesis using ref_ops_range(2) [OF inv] ref_ops_defined(2) [OF inv, of ws] by (cases "ref_push_range ws v") auto
  next
    case Pop
    then show ?thesis using ref_ops_range(3) [OF inv] ref_ops_defined(3) [OF inv] by (cases "ref_pop v") auto
  next
    case Is_empty
    have "ref_range v = [] \<longleftrightarrow> ref_count v = 0" using ref_range_length [OF inv] by (metis length_0_conv)
    then show ?thesis using Is_empty by (simp add: ref_empty_def)
  qed (use inv ref_ops_range(4,5) [OF inv] ref_ops_defined(4) [OF inv] ref_range_length [OF inv]
      in \<open>auto simp: ref_size_def ref_empty_def\<close>)
  show "ref_inv N v'" if "ref_step op v = Some (x, v')" for x v'
    using that inv ref_ops_range [OF inv] by (cases op) (auto split: if_splits)
qed

text \<open>
  C38: Every script of operations on a new \<^verbatim>\<open>WaitableRefVector\<close> answers like a list of at most \<^verbatim>\<open>Max\<close>
  references, and an assertion fails exactly when the list would grow past \<^verbatim>\<open>Max\<close>, is popped while it
  is empty, or is read past its end.
\<close>

theorem reference_vector_refines_list:
  "map_option (map_prod id ref_range) (run_ops ref_step ops (ref_init N)) = run_ops (ref_spec N) ops []"
  using rv.run_refines [of N "ref_init N" ops] by (simp add: ref_init_def ref_inv_def ref_range_def)

section \<open>Interleaved group locks\<close>

text \<open>
  Where a core is: it holds no group; it is about to lock the element \<open>i\<close>; it spins on the element \<open>i\<close>,
  with preemption disabled; it is in the critical section; it is about to unlock the last of the first
  \<open>n\<close> elements.
\<close>

datatype group_pc =
    GIdle
  | GLocking WaitableRefVector nat
  | GSpinning WaitableRefVector nat
  | GCritical WaitableRefVector
  | GUnlocking WaitableRefVector nat

text \<open>The lock flags, and for each core its preemption depth and its place.\<close>

record group_sys =
  g_flag :: "waitable_ptr \<Rightarrow> bool"
  g_depth :: "nat \<Rightarrow> u32"
  g_pc :: "nat \<Rightarrow> group_pc"

definition group_sys_init :: group_sys where
  "group_sys_init = \<lparr>g_flag = (\<lambda>_. False), g_depth = (\<lambda>_. 0), g_pc = (\<lambda>_. GIdle)\<rparr>"

text \<open>The first half of the constructor, which touches no lock.\<close>

definition group_vector :: "waitable_ptr list \<Rightarrow> WaitableRefVector option" where
  "group_vector ws = do {
     v \<leftarrow> ref_push_range ws (ref_init MAX_WAIT_NODES);
     let v = ref_sort_by_address v;
     CORTOS_ASSERT (list_all (\<lambda>i. ref_at i v \<noteq> ref_at (i - 1) v) [1..<ref_size v]);
     Some v }"

definition group_start :: "nat \<Rightarrow> waitable_ptr list \<Rightarrow> group_sys \<Rightarrow> group_sys option" where
  "group_start c ws s = do {
     CORTOS_ASSERT (g_pc s c = GIdle);
     v \<leftarrow> group_vector ws;
     Some (s\<lparr>g_pc := (g_pc s)(c := GLocking v 0)\<rparr>) }"

text \<open>
  One step of a core inside: the loop over the group, \<^verbatim>\<open>Spinlock::lock\<close> (which disables preemption and
  spins), the critical section as one step, and the destructor.  A failed \<^verbatim>\<open>test_and_set\<close> leaves
  everything as it is.  \<^verbatim>\<open>Spinlock::unlock\<close> is one step: it clears the shared flag and lowers the depth, which only
  its own core reads.  In the source \<^verbatim>\<open>enable_preemption\<close> only lowers the depth; the reschedule at depth 0 is commented out.
\<close>

fun group_step_at :: "nat \<Rightarrow> group_pc \<Rightarrow> group_sys \<Rightarrow> group_sys option" where
  "group_step_at c GIdle s = None"
| "group_step_at c (GLocking v i) s =
     (if i < length (ref_range v)
      then do {
        CORTOS_ASSERT (ref_range v ! i \<noteq> nullptr);
        Some (s\<lparr>g_depth := (g_depth s)(c := g_depth s c + 1), g_pc := (g_pc s)(c := GSpinning v i)\<rparr>) }
      else Some (s\<lparr>g_pc := (g_pc s)(c := GCritical v)\<rparr>))"
| "group_step_at c (GSpinning v i) s =
     (let w = ref_range v ! i in
      if g_flag s w then Some s
      else Some (s\<lparr>g_flag := (g_flag s)(w := True), g_pc := (g_pc s)(c := GLocking v (Suc i))\<rparr>))"
| "group_step_at c (GCritical v) s = Some (s\<lparr>g_pc := (g_pc s)(c := GUnlocking v (ref_size v))\<rparr>)"
| "group_step_at c (GUnlocking v 0) s = Some (s\<lparr>g_pc := (g_pc s)(c := GIdle)\<rparr>)"
| "group_step_at c (GUnlocking v (Suc n)) s = do {
     w \<leftarrow> ref_at n v;
     CORTOS_ASSERT (g_depth s c > 0);
     Some (s\<lparr>g_flag := (g_flag s)(w := False), g_depth := (g_depth s)(c := g_depth s c - 1),
       g_pc := (g_pc s)(c := GUnlocking v n)\<rparr>) }"

definition group_step :: "nat \<Rightarrow> group_sys \<Rightarrow> group_sys option" where
  "group_step c s = group_step_at c (g_pc s c) s"

text \<open>Any number of cores below \<^const>\<open>CORES\<close>, in any order.\<close>

inductive group_reachable :: "group_sys \<Rightarrow> bool" where
  init: "group_reachable group_sys_init"
| start: "group_reachable s \<Longrightarrow> c < CORES \<Longrightarrow> nullptr \<notin> set ws \<Longrightarrow> group_start c ws s = Some s' \<Longrightarrow> group_reachable s'"
| step: "group_reachable s \<Longrightarrow> c < CORES \<Longrightarrow> group_step c s = Some s' \<Longrightarrow> group_reachable s'"

subsection \<open>The invariant\<close>

fun group_held :: "group_pc \<Rightarrow> waitable_ptr list" where
  "group_held GIdle = []"
| "group_held (GLocking v i) = take i (ref_range v)"
| "group_held (GSpinning v i) = take i (ref_range v)"
| "group_held (GCritical v) = ref_range v"
| "group_held (GUnlocking v n) = take n (ref_range v)"

definition group_ok :: "WaitableRefVector \<Rightarrow> bool" where
  "group_ok v \<longleftrightarrow> ref_inv MAX_WAIT_NODES v \<and> sorted (ref_range v) \<and> distinct (ref_range v) \<and> nullptr \<notin> set (ref_range v)"

fun pc_ok :: "group_pc \<Rightarrow> bool" where
  "pc_ok GIdle = True"
| "pc_ok (GLocking v i) \<longleftrightarrow> group_ok v \<and> i \<le> ref_count v"
| "pc_ok (GSpinning v i) \<longleftrightarrow> group_ok v \<and> i < ref_count v"
| "pc_ok (GCritical v) \<longleftrightarrow> group_ok v"
| "pc_ok (GUnlocking v n) \<longleftrightarrow> group_ok v \<and> n \<le> ref_count v"

fun pc_depth :: "group_pc \<Rightarrow> nat" where
  "pc_depth (GSpinning v i) = Suc i"
| "pc_depth pc = length (group_held pc)"

definition group_inv :: "group_sys \<Rightarrow> bool" where
  "group_inv s \<longleftrightarrow>
     (\<forall>c. pc_ok (g_pc s c) \<and> g_depth s c = of_nat (pc_depth (g_pc s c)) \<and> (CORES \<le> c \<longrightarrow> g_pc s c = GIdle)) \<and>
     (\<forall>c d. c \<noteq> d \<longrightarrow> set (group_held (g_pc s c)) \<inter> set (group_held (g_pc s d)) = {}) \<and>
     (\<forall>w. g_flag s w \<longleftrightarrow> (\<exists>c. w \<in> set (group_held (g_pc s c))))"

lemma group_ok_length: "group_ok v \<Longrightarrow> length (ref_range v) = ref_count v" "group_ok v \<Longrightarrow> ref_count v \<le> MAX_WAIT_NODES"
  by (auto simp: group_ok_def ref_inv_def ref_range_def)

lemma ref_range_nth: "group_ok v \<Longrightarrow> i < ref_count v \<Longrightarrow> ref_range v ! i = ref_store v ! i"
  by (simp add: ref_range_def)

lemma all_nat_split: "(\<forall>i. P i) \<longleftrightarrow> P 0 \<and> (\<forall>i. P (Suc i))"
  using not0_implies_Suc by metis

lemma neighbours_differ_nth: "neighbours_differ xs \<longleftrightarrow> (\<forall>i. Suc i < length xs \<longrightarrow> xs ! Suc i \<noteq> xs ! i)"
proof (induction xs rule: neighbours_differ.induct)
  case (3 w v ws)
  have "(\<forall>i. Suc i < length (w # v # ws) \<longrightarrow> (w # v # ws) ! Suc i \<noteq> (w # v # ws) ! i) \<longleftrightarrow>
      v \<noteq> w \<and> (\<forall>i. Suc i < length (v # ws) \<longrightarrow> (v # ws) ! Suc i \<noteq> (v # ws) ! i)"
    by (subst all_nat_split) simp
  then show ?case using 3 by simp
qed simp_all

lemma unique_check:
  assumes u: "ref_inv N u"
  shows "list_all (\<lambda>i. ref_at i u \<noteq> ref_at (i - 1) u) [1..<ref_size u] \<longleftrightarrow> neighbours_differ (ref_range u)"
proof -
  have "list_all (\<lambda>i. ref_at i u \<noteq> ref_at (i - 1) u) [1..<ref_size u] \<longleftrightarrow>
      (\<forall>i. Suc i < ref_size u \<longrightarrow> ref_at (Suc i) u \<noteq> ref_at i u)"
    unfolding list_all_iff by (auto simp: less_eq_Suc_le [symmetric] gr0_conv_Suc dest: bspec [of _ _ "Suc _"])
  then show ?thesis
    using ref_ops_defined(4) [OF u] ref_range_length [OF u]
    by (simp add: neighbours_differ_nth ref_size_def)
qed

lemma group_vector_range:
  "map_option ref_range (group_vector ws) =
     (if length ws \<le> MAX_WAIT_NODES \<and> distinct ws then Some (sort ws) else None)"
  "group_vector ws = Some v \<Longrightarrow> ref_inv MAX_WAIT_NODES v"
proof -
  have i0: "ref_inv MAX_WAIT_NODES (ref_init MAX_WAIT_NODES)" "ref_range (ref_init MAX_WAIT_NODES) = []"
    by (simp_all add: ref_init_def ref_inv_def ref_range_def)
  show "map_option ref_range (group_vector ws) =
     (if length ws \<le> MAX_WAIT_NODES \<and> distinct ws then Some (sort ws) else None)"
  proof (cases "ref_push_range ws (ref_init MAX_WAIT_NODES)")
    case None
    then show ?thesis using ref_ops_defined(2) [OF i0(1), of ws] i0(2) by (simp add: group_vector_def)
  next
    case (Some u)
    then have u: "ref_inv MAX_WAIT_NODES u" "ref_range u = ws" "length ws \<le> MAX_WAIT_NODES"
      using ref_ops_range(2) [OF i0(1), of ws u] ref_ops_defined(2) [OF i0(1), of ws] i0(2) by auto
    show ?thesis
      using Some u ref_ops_range(4) [OF u(1)] unique_check [of MAX_WAIT_NODES "ref_sort_by_address u"] neighbours_differ_sorted [of "sort ws"]
      by (simp add: group_vector_def Let_def)
  qed
  show "group_vector ws = Some v \<Longrightarrow> ref_inv MAX_WAIT_NODES v"
    using ref_ops_range(2) [OF i0(1), of ws] ref_ops_range(4)
    by (auto simp: group_vector_def Let_def split: bind_splits if_splits)
qed

text \<open>The array version of the constructor agrees with the list version of the kernel model.\<close>

lemma group_vector_eq_lists:
  "map_option ref_range (group_vector ws) =
     do { v \<leftarrow> vec_push_range [] ws; let v = vec_sort_by_address v; CORTOS_ASSERT (neighbours_differ v); Some v }"
  using neighbours_differ_sorted [of "sort ws"]
  by (simp add: group_vector_range(1) vec_push_range_def vec_sort_eq Let_def)

subsection \<open>Every step keeps the invariant\<close>

abbreviation held_by :: "group_sys \<Rightarrow> nat \<Rightarrow> waitable_ptr set" where
  "held_by s c \<equiv> set (group_held (g_pc s c))"

lemma group_invD:
  assumes "group_inv s"
  shows "pc_ok (g_pc s c)" "g_depth s c = of_nat (pc_depth (g_pc s c))" "CORES \<le> c \<Longrightarrow> g_pc s c = GIdle"
    "c \<noteq> d \<Longrightarrow> held_by s c \<inter> held_by s d = {}" "g_flag s w \<longleftrightarrow> (\<exists>c. w \<in> held_by s c)"
  using assms unfolding group_inv_def by blast+

lemma group_flag_held:
  assumes "group_inv s" "g_pc s c = pc" "w \<in> set (group_held pc)"
  shows "g_flag s w"
  using assms group_invD(5) [OF assms(1), of w] by blast

text \<open>A core that moves from one place to another: the flags follow what it holds.\<close>

lemma group_inv_move:
  assumes inv: "group_inv s" and c: "c < CORES" and pc: "pc_ok pc"
    and s': "g_pc s' = (g_pc s)(c := pc)" "g_depth s' = (g_depth s)(c := of_nat (pc_depth pc))"
    and fl: "\<And>w. g_flag s' w \<longleftrightarrow> (if w \<in> set (group_held pc) then True else if w \<in> held_by s c then False else g_flag s w)"
    and new: "\<And>w. w \<in> set (group_held pc) \<Longrightarrow> w \<notin> held_by s c \<Longrightarrow> \<not> g_flag s w"
  shows "group_inv s'"
proof -
  have h: "held_by s' d = (if d = c then set (group_held pc) else held_by s d)" for d by (simp add: s'(1))
  have dis: "set (group_held pc) \<inter> held_by s d = {}" if "d \<noteq> c" for d
    using new group_invD(4) [OF inv that] group_invD(5) [OF inv] by blast
  have disj: "held_by s' d \<inter> held_by s' e = {}" if "d \<noteq> e" for d e
    using dis [of d] dis [of e] group_invD(4) [OF inv that] that by (auto simp: h)
  have flag: "g_flag s' w \<longleftrightarrow> (\<exists>d. w \<in> held_by s' d)" for w
  proof -
    have "(\<exists>d. w \<in> held_by s' d) \<longleftrightarrow> w \<in> set (group_held pc) \<or> (\<exists>d. d \<noteq> c \<and> w \<in> held_by s d)"
      by (auto simp: h)
    moreover have "(\<exists>d. d \<noteq> c \<and> w \<in> held_by s d) \<longleftrightarrow> g_flag s w \<and> w \<notin> held_by s c"
      using group_invD(4) [OF inv] group_invD(5) [OF inv, of w] by (metis disjoint_iff)
    ultimately show ?thesis using fl [of w] by auto
  qed
  have "pc_ok (g_pc s' d) \<and> g_depth s' d = of_nat (pc_depth (g_pc s' d)) \<and> (CORES \<le> d \<longrightarrow> g_pc s' d = GIdle)" for d
    using group_invD(1-3) [OF inv] pc c by (auto simp: s')
  then show ?thesis unfolding group_inv_def using disj flag by blast
qed

lemma group_inv_init: "group_inv group_sys_init"
  by (simp add: group_inv_def group_sys_init_def)

lemma group_start_inv:
  assumes inv: "group_inv s" and c: "c < CORES" and ws: "nullptr \<notin> set ws" and s': "group_start c ws s = Some s'"
  shows "group_inv s'"
proof -
  obtain v where v: "g_pc s c = GIdle" "group_vector ws = Some v" "s' = s\<lparr>g_pc := (g_pc s)(c := GLocking v 0)\<rparr>"
    using s' by (auto simp: group_start_def split: bind_splits if_splits)
  have r: "ref_range v = sort ws" "distinct ws"
    using group_vector_range(1) [of ws] v(2) by (auto split: if_splits)
  have ok: "group_ok v" using r ws group_vector_range(2) [OF v(2)] by (simp add: group_ok_def)
  have "g_depth s c = 0" using group_invD(2) [OF inv, of c] v(1) by simp
  then show ?thesis
    by (intro group_inv_move [OF inv c, of "GLocking v 0"]) (use ok v in auto)
qed

text \<open>A core that is inside never fails.\<close>

lemma group_step_inv:
  assumes inv: "group_inv s" and c: "c < CORES" and act: "g_pc s c \<noteq> GIdle"
  shows "\<exists>s'. group_step c s = Some s' \<and> group_inv s'"
proof (cases "g_pc s c")
  case GIdle
  then show ?thesis using act by simp
next
  case (GLocking v i)
  then have ok: "group_ok v" "i \<le> ref_count v" and d: "g_depth s c = of_nat i"
    using group_invD(1,2) [OF inv, of c] group_ok_length [of v] by auto
  show ?thesis
  proof (cases "i < ref_count v")
    case True
    let ?s = "s\<lparr>g_depth := (g_depth s)(c := g_depth s c + 1), g_pc := (g_pc s)(c := GSpinning v i)\<rparr>"
    have "ref_range v ! i \<noteq> nullptr" using ok(1) True group_ok_length [of v] unfolding group_ok_def by (metis nth_mem)
    then have "group_step c s = Some ?s" using GLocking True group_ok_length [OF ok(1)] by (simp add: group_step_def)
    moreover have "group_inv ?s"
      by (rule group_inv_move [OF inv c, of "GSpinning v i"])
        (use ok True d GLocking group_flag_held [OF inv] in \<open>auto simp: add.commute\<close>)
    ultimately show ?thesis by blast
  next
    case False
    let ?s = "s\<lparr>g_pc := (g_pc s)(c := GCritical v)\<rparr>"
    have i: "i = ref_count v" using False ok(2) by simp
    have "group_step c s = Some ?s" using GLocking False group_ok_length [OF ok(1)] by (simp add: group_step_def)
    moreover have "group_inv ?s"
      by (rule group_inv_move [OF inv c, of "GCritical v"])
        (use ok d i GLocking group_ok_length [OF ok(1)] group_flag_held [OF inv] in \<open>auto simp: fun_upd_idem\<close>)
    ultimately show ?thesis by blast
  qed
next
  case (GSpinning v i)
  then have ok: "group_ok v" "i < ref_count v" and d: "g_depth s c = of_nat (Suc i)"
    using group_invD(1,2) [OF inv, of c] by auto
  let ?w = "ref_range v ! i"
  let ?s = "s\<lparr>g_flag := (g_flag s)(?w := True), g_pc := (g_pc s)(c := GLocking v (Suc i))\<rparr>"
  show ?thesis
  proof (cases "g_flag s ?w")
    case True
    then show ?thesis using GSpinning inv by (simp add: group_step_def)
  next
    case False
    have t: "set (take (Suc i) (ref_range v)) = insert ?w (set (take i (ref_range v)))"
      using ok(2) group_ok_length [OF ok(1)] by (simp add: take_Suc_conv_app_nth)
    have len: "length (take (Suc i) (ref_range v)) = Suc i" using ok(2) group_ok_length [OF ok(1)] by simp
    have "group_step c s = Some ?s" using GSpinning False by (simp add: group_step_def)
    moreover have "group_inv ?s"
      by (rule group_inv_move [OF inv c, of "GLocking v (Suc i)"])
        (use ok d GSpinning False group_flag_held [OF inv] in \<open>auto simp: t len fun_upd_idem simp del: length_take\<close>)
    ultimately show ?thesis by blast
  qed
next
  case (GCritical v)
  then have ok: "group_ok v" and d: "g_depth s c = of_nat (ref_count v)"
    using group_invD(1,2) [OF inv, of c] group_ok_length [of v] by auto
  let ?s = "s\<lparr>g_pc := (g_pc s)(c := GUnlocking v (ref_size v))\<rparr>"
  have "group_step c s = Some ?s" using GCritical by (simp add: group_step_def)
  moreover have "group_inv ?s"
    by (rule group_inv_move [OF inv c, of "GUnlocking v (ref_size v)"])
      (use ok d GCritical group_ok_length [OF ok] group_flag_held [OF inv] in \<open>auto simp: ref_size_def fun_upd_idem\<close>)
  ultimately show ?thesis by blast
next
  case (GUnlocking v n)
  then have ok: "group_ok v" "n \<le> ref_count v" and d: "g_depth s c = of_nat n"
    using group_invD(1,2) [OF inv, of c] group_ok_length [of v] by auto
  show ?thesis
  proof (cases n)
    case 0
    let ?s = "s\<lparr>g_pc := (g_pc s)(c := GIdle)\<rparr>"
    have "group_step c s = Some ?s" using GUnlocking 0 by (simp add: group_step_def)
    moreover have "group_inv ?s"
      by (rule group_inv_move [OF inv c, of GIdle])
        (use d 0 GUnlocking group_flag_held [OF inv] in \<open>auto simp: fun_upd_idem\<close>)
    ultimately show ?thesis by blast
  next
    case (Suc k)
    let ?w = "ref_range v ! k"
    let ?s = "s\<lparr>g_flag := (g_flag s)(?w := False), g_depth := (g_depth s)(c := g_depth s c - 1),
       g_pc := (g_pc s)(c := GUnlocking v k)\<rparr>"
    have k: "k < length (ref_range v)" using Suc ok(2) group_ok_length [OF ok(1)] by simp
    have t: "set (take (Suc k) (ref_range v)) = insert ?w (set (take k (ref_range v)))"
      using k by (simp add: take_Suc_conv_app_nth)
    have nin: "?w \<notin> set (take k (ref_range v))"
      using ok(1) k unfolding group_ok_def by (metis distinct_take id_take_nth_drop not_distinct_conv_prefix take_Suc_conv_app_nth)
    have "Suc k \<le> MAX_WAIT_NODES" using group_ok_length [OF ok(1)] k by simp
    then have "unat (g_depth s c) = Suc k" using d Suc by (simp only: MAX_WAIT_NODES_def unat_of_nat) (simp add: take_bit_nat_eq_self)
    then have dp: "g_depth s c > 0" by (simp add: word_less_nat_alt)
    have at: "ref_at k v = Some ?w" using ok(1) k ref_ops_defined(4) [of MAX_WAIT_NODES v k] by (simp add: group_ok_def)
    have "group_step c s = Some ?s" using GUnlocking Suc dp at by (simp add: group_step_def)
    moreover have "group_inv ?s"
      by (rule group_inv_move [OF inv c, of "GUnlocking v k"])
        (use ok d Suc k GUnlocking t nin group_flag_held [OF inv] in \<open>auto simp: min_absorb2\<close>)
    ultimately show ?thesis by blast
  qed
qed

lemma group_reachable_inv: "group_reachable s \<Longrightarrow> group_inv s"
proof (induction rule: group_reachable.induct)
  case (step s c s')
  then have "g_pc s c \<noteq> GIdle" by (auto simp: group_step_def)
  then show ?case using group_step_inv [OF step.IH step.hyps(2)] step.hyps(3) by auto
qed (auto intro: group_inv_init group_start_inv)

section \<open>Ordered acquisition\<close>

text \<open>
  The interface of lock users that acquire in increasing order: \<open>held s c\<close> are the locks that \<open>c\<close> holds,
  \<open>want s c\<close> is the one it waits for.  In any set of users one waits for nothing that the set holds.
\<close>

locale ordered_acquisition =
  fixes consistent :: "'s \<Rightarrow> bool" and held :: "'s \<Rightarrow> nat \<Rightarrow> 'l::linorder set" and want :: "'s \<Rightarrow> nat \<Rightarrow> 'l option"
  assumes ordered: "consistent s \<Longrightarrow> want s c = Some w \<Longrightarrow> v \<in> held s c \<Longrightarrow> v < w"
begin

lemma no_circular_wait:
  assumes ok: "consistent s" and B: "finite B" "B \<noteq> {}"
  shows "\<exists>c \<in> B. \<forall>w. want s c = Some w \<longrightarrow> (\<forall>d \<in> B. w \<notin> held s d)"
proof (rule ccontr)
  assume neg: "\<not> ?thesis"
  then have all: "\<forall>c \<in> B. \<exists>w. want s c = Some w \<and> (\<exists>d \<in> B. w \<in> held s d)" by blast
  define W where "W = (\<lambda>c. the (want s c)) ` B"
  have W: "finite W" "W \<noteq> {}" using B by (simp_all add: W_def)
  have "Max W \<in> W" by (rule Max_in [OF W])
  then obtain c where c: "c \<in> B" "Max W = the (want s c)" unfolding W_def by blast
  then obtain w d where w: "want s c = Some w" "d \<in> B" "w \<in> held s d" using all by blast
  obtain u where u: "want s d = Some u" using all w(2) by blast
  have "w < u" by (rule ordered [OF ok u w(3)])
  moreover have "u \<le> Max W" using W(1) w(2) u by (auto simp: W_def intro!: Max_ge rev_image_eqI [of d])
  ultimately show False using c(2) w(1) by simp
qed

end

fun pc_want :: "group_pc \<Rightarrow> waitable_ptr option" where
  "pc_want (GSpinning v i) = Some (ref_range v ! i)"
| "pc_want _ = None"

lemma sorted_take_less:
  assumes "sorted xs" "distinct xs" "i < length xs" "x \<in> set (take i xs)"
  shows "x < (xs ! i :: 'a::linorder)"
proof -
  obtain j where j: "j < i" "x = xs ! j" using assms(3,4) by (auto simp: in_set_conv_nth)
  then show ?thesis using assms nth_eq_iff_index_eq [of xs j i] by (simp add: order_less_le sorted_nth_mono)
qed

interpretation gl: ordered_acquisition group_inv held_by "\<lambda>s c. pc_want (g_pc s c)"
proof
  fix s c w v
  assume inv: "group_inv s" and w: "pc_want (g_pc s c) = Some w" and v: "v \<in> held_by s c"
  obtain u i where u: "g_pc s c = GSpinning u i" "w = ref_range u ! i" using w by (cases "g_pc s c") auto
  then have "group_ok u" "i < length (ref_range u)"
    using group_invD(1) [OF inv, of c] group_ok_length [of u] by auto
  then show "v < w" using sorted_take_less [of "ref_range u" i v] u v by (simp add: group_ok_def)
qed

subsection \<open>Progress\<close>

text \<open>The number of steps, spins apart, that a core needs to get out again.\<close>

fun pc_work :: "group_pc \<Rightarrow> nat" where
  "pc_work GIdle = 0"
| "pc_work (GLocking v i) = 2 * (ref_count v - i) + ref_count v + 3"
| "pc_work (GSpinning v i) = 2 * (ref_count v - i) + ref_count v + 2"
| "pc_work (GCritical v) = ref_count v + 2"
| "pc_work (GUnlocking v n) = Suc n"

definition group_work :: "group_sys \<Rightarrow> nat" where
  "group_work s = (\<Sum>c < CORES. pc_work (g_pc s c))"

lemma group_work_step:
  assumes "c < CORES" "\<And>d. d \<noteq> c \<Longrightarrow> g_pc s' d = g_pc s d" "pc_work (g_pc s' c) < pc_work (g_pc s c)"
  shows "group_work s' < group_work s"
  unfolding group_work_def
proof (rule sum_strict_mono_ex1)
  show "\<forall>d \<in> {..<CORES}. pc_work (g_pc s' d) \<le> pc_work (g_pc s d)"
  proof
    fix d
    show "pc_work (g_pc s' d) \<le> pc_work (g_pc s d)" using assms by (cases "d = c") simp_all
  qed
qed (use assms in auto)

text \<open>A step is a spin on a set flag, or it brings its core closer to the end.\<close>

lemma group_step_work:
  assumes inv: "group_inv s" and c: "c < CORES" and step: "group_step c s = Some s'"
  shows "s' = s \<and> (\<exists>w. pc_want (g_pc s c) = Some w \<and> g_flag s w) \<or> group_work s' < group_work s"
proof (cases "\<exists>w. pc_want (g_pc s c) = Some w \<and> g_flag s w")
  case True
  then show ?thesis using step by (cases "g_pc s c") (auto simp: group_step_def)
next
  case False
  have ok: "pc_ok (g_pc s c)" by (rule group_invD(1) [OF inv])
  have "group_work s' < group_work s"
  proof (rule group_work_step [OF c])
    show "g_pc s' d = g_pc s d" if "d \<noteq> c" for d
      using step that by (cases "(c, g_pc s c, s)" rule: group_step_at.cases)
        (auto simp: group_step_def Let_def split: if_splits bind_splits)
    show "pc_work (g_pc s' c) < pc_work (g_pc s c)"
      using step False ok by (cases "(c, g_pc s c, s)" rule: group_step_at.cases)
        (auto simp: group_step_def Let_def ref_size_def group_ok_length split: if_splits bind_splits)
  qed
  then show ?thesis by blast
qed

lemma group_not_stuck:
  assumes inv: "group_inv s" and act: "\<exists>c. g_pc s c \<noteq> GIdle"
  shows "\<exists>c < CORES. \<exists>s'. group_step c s = Some s' \<and> group_work s' < group_work s"
proof -
  let ?B = "{c. g_pc s c \<noteq> GIdle}"
  have sub: "c < CORES" if "c \<in> ?B" for c using group_invD(3) [OF inv, of c] that by (metis linorder_not_le mem_Collect_eq)
  have "finite ?B" by (rule finite_subset [of _ "{..<CORES}"]) (use sub in auto)
  then obtain c where c: "c \<in> ?B" "\<forall>w. pc_want (g_pc s c) = Some w \<longrightarrow> (\<forall>d \<in> ?B. w \<notin> held_by s d)"
    using gl.no_circular_wait [OF inv, of ?B] act by blast
  then obtain s' where s': "group_step c s = Some s'" using group_step_inv [OF inv sub] by blast
  have "\<not> g_flag s w" if w: "pc_want (g_pc s c) = Some w" for w
  proof
    assume "g_flag s w"
    then obtain d where d: "w \<in> held_by s d" using group_invD(5) [OF inv] by blast
    then have "d \<in> ?B" by auto
    then show False using c(2) w d by blast
  qed
  then show ?thesis using group_step_work [OF inv sub [OF c(1)] s'] s' sub [OF c(1)] by blast
qed

section \<open>Properties of the group lock\<close>

text \<open>
  A schedule for the witnesses: core 0 takes the locks \<open>8\<close> and \<open>16\<close>, given in the wrong order, while core
  1 asks for \<open>16\<close> and \<open>24\<close>; both are inside when core 0 has locked \<open>8\<close> and core 1 has locked \<open>16\<close>.
\<close>

fun group_schedule :: "nat list \<Rightarrow> group_sys \<Rightarrow> group_sys option" where
  "group_schedule [] s = Some s"
| "group_schedule (c # cs) s = (case group_step c s of None \<Rightarrow> None | Some s' \<Rightarrow> group_schedule cs s')"

lemma group_schedule_reachable:
  "group_reachable s \<Longrightarrow> \<forall>c \<in> set cs. c < CORES \<Longrightarrow> group_schedule cs s = Some s' \<Longrightarrow> group_reachable s'"
  by (induction cs arbitrary: s) (auto split: option.splits intro: group_reachable.step)

definition demo_group :: "group_sys option" where
  "demo_group = do {
     s \<leftarrow> group_start 0 [16, 8] group_sys_init;
     s \<leftarrow> group_start 1 [16, 24] s;
     group_schedule [0, 0, 1, 1, 0] s }"

lemma demo_group_reachable:
  obtains s where "demo_group = Some s" "group_reachable s" "g_pc s 0 \<noteq> GIdle" "g_pc s 1 \<noteq> GIdle"
    "g_flag s 8" "g_flag s 16"
proof -
  obtain u where u: "group_vector [16, 8] = Some u" "ref_range u = [8, 16]"
    using group_vector_range(1) [of "[16, 8]"] by (auto simp: MAX_WAIT_NODES_def)
  obtain v where v: "group_vector [16, 24] = Some v" "ref_range v = [16, 24]"
    using group_vector_range(1) [of "[16, 24]"] by (auto simp: MAX_WAIT_NODES_def)
  let ?s1 = "group_sys_init\<lparr>g_pc := (\<lambda>_. GIdle)(0 := GLocking u 0)\<rparr>"
  let ?s2 = "group_sys_init\<lparr>g_pc := (\<lambda>_. GIdle)(0 := GLocking u 0, 1 := GLocking v 0)\<rparr>"
  have s1: "group_start 0 [16, 8] group_sys_init = Some ?s1" by (simp add: group_start_def group_sys_init_def u)
  have s2: "group_start 1 [16, 24] ?s1 = Some ?s2" by (simp add: group_start_def group_sys_init_def v)
  have "\<exists>s. group_schedule [0, 0, 1, 1, 0] ?s2 = Some s \<and> g_pc s 0 \<noteq> GIdle \<and> g_pc s 1 \<noteq> GIdle \<and> g_flag s 8 \<and> g_flag s 16"
    by (simp add: group_step_def group_sys_init_def u v)
  then obtain s where s: "group_schedule [0, 0, 1, 1, 0] ?s2 = Some s" "g_pc s 0 \<noteq> GIdle" "g_pc s 1 \<noteq> GIdle"
    "g_flag s 8" "g_flag s 16" by blast
  have "group_reachable ?s1" by (rule group_reachable.start [OF group_reachable.init _ _ s1]) (simp_all add: CORES_def)
  then have "group_reachable ?s2" by (rule group_reachable.start [OF _ _ _ s2]) (simp_all add: CORES_def)
  then have "group_reachable s" by (rule group_schedule_reachable [OF _ _ s(1)]) (simp add: CORES_def)
  moreover have "demo_group = Some s" using s1 s2 s(1) by (simp add: demo_group_def)
  ultimately show ?thesis using that s by blast
qed

text \<open>
  C12: In every interleaving of group locks by any of the cores no two cores hold the same lock, a lock
  flag is set exactly while some core holds the lock, the preemption depth of a core counts the locks
  it has asked for and not released, and no core that is inside fails an assertion.
\<close>

theorem group_lock_exclusive:
  assumes "group_reachable s"
  shows "(\<forall>c d. c \<noteq> d \<longrightarrow> set (group_held (g_pc s c)) \<inter> set (group_held (g_pc s d)) = {}) \<and>
    (\<forall>w. g_flag s w \<longleftrightarrow> (\<exists>c. w \<in> set (group_held (g_pc s c)))) \<and>
    (\<forall>c. g_depth s c = of_nat (pc_depth (g_pc s c))) \<and>
    (\<forall>c < CORES. g_pc s c \<noteq> GIdle \<longrightarrow> group_step c s \<noteq> None)"
proof -
  have inv: "group_inv s" by (rule group_reachable_inv [OF assms])
  have "group_step c s \<noteq> None" if "c < CORES" "g_pc s c \<noteq> GIdle" for c
    using group_step_inv [OF inv that] by auto
  then show ?thesis using inv unfolding group_inv_def by blast
qed

theorem group_lock_exclusive_witness:
  "\<exists>s. demo_group = Some s \<and> group_step 0 s \<noteq> None \<and> set (group_held (g_pc s 0)) \<inter> set (group_held (g_pc s 1)) = {}"
proof -
  obtain s where s: "demo_group = Some s" "group_reachable s" "g_pc s 0 \<noteq> GIdle" "g_pc s 1 \<noteq> GIdle"
    "g_flag s 8" "g_flag s 16" by (rule demo_group_reachable)
  have "(0 :: nat) < CORES" "(0 :: nat) \<noteq> 1" by (simp_all add: CORES_def)
  then show ?thesis using group_lock_exclusive [OF s(2)] s(1,3) by blast
qed

text \<open>
  C11: The group lock cannot deadlock.  In every reachable state in which some core is inside, some core
  can take a step that is not a spin; such steps strictly decrease the amount of work left, which is
  bounded by a constant, while a spin changes nothing.  Without new requests all locks taken so far are
  therefore released after a bounded number of steps that are not spins.
\<close>

theorem group_lock_deadlock_free:
  assumes "group_reachable s"
  shows "((\<exists>c. g_pc s c \<noteq> GIdle) \<longrightarrow> (\<exists>c < CORES. \<exists>s'. group_step c s = Some s' \<and> group_work s' < group_work s)) \<and>
    (\<forall>c < CORES. \<forall>s'. group_step c s = Some s' \<longrightarrow> s' = s \<or> group_work s' < group_work s) \<and>
    group_work s \<le> CORES * (3 * MAX_WAIT_NODES + 3)"
proof -
  have inv: "group_inv s" by (rule group_reachable_inv [OF assms])
  have "pc_work (g_pc s c) \<le> 3 * MAX_WAIT_NODES + 3" for c
    using group_invD(1) [OF inv, of c] group_ok_length(2) by (cases "g_pc s c") fastforce+
  then have "group_work s \<le> (\<Sum>c < CORES. 3 * MAX_WAIT_NODES + 3)" unfolding group_work_def by (intro sum_mono)
  then have "group_work s \<le> CORES * (3 * MAX_WAIT_NODES + 3)" by simp
  then show ?thesis using group_not_stuck [OF inv] group_step_work [OF inv] by blast
qed

theorem group_lock_deadlock_free_witness:
  "\<exists>s. demo_group = Some s \<and> (\<exists>c < CORES. \<exists>s'. group_step c s = Some s' \<and> group_work s' < group_work s)"
proof -
  obtain s where s: "demo_group = Some s" "group_reachable s" "g_pc s 0 \<noteq> GIdle" "g_pc s 1 \<noteq> GIdle"
    "g_flag s 8" "g_flag s 16" by (rule demo_group_reachable)
  then show ?thesis using group_lock_deadlock_free [OF s(2)] by blast
qed

end
