(* ===== verification/Wait_Pool.thy ===== *)
theory Wait_Pool
  imports Wait_Subsystem Refinement_Interface
begin

text \<open>
  The per-thread pool of wait nodes as its clients see it: an array of slots, each free or holding the
  group, the waitable and the index of one wait.  The bit mask and the nodes of \<open>Wait_Subsystem\<close> refine
  it operation by operation, so every script of operations does.
\<close>

section \<open>Operations\<close>

datatype pool_op = Alloc group_ptr waitable_ptr u8 | Free node_ptr | Reset_all | Free_count | Exhausted

datatype pool_answer = Unit | Node "node_ptr option" | Number nat | Flag bool

fun pool_step :: "pool_op \<Rightarrow> WaitNodePool \<times> node_heap \<Rightarrow> (pool_answer \<times> WaitNodePool \<times> node_heap) option" where
  "pool_step (Alloc g w i) s = map_option (map_prod Node id) (pool_alloc g w i s)"
| "pool_step (Free p) s = map_option (Pair Unit) (pool_free p s)"
| "pool_step Reset_all s = Some (Unit, pool_reset_all s)"
| "pool_step Free_count s = Some (Number (pool_free_count (fst s)), s)"
| "pool_step Exhausted s = Some (Flag (pool_empty (fst s)), s)"

section \<open>Slots\<close>

type_synonym slot = "(group_ptr option \<times> waitable_ptr option \<times> u8) option"

definition node_slot :: "WaitNode \<Rightarrow> slot" where
  "node_slot n = (if n_active n then Some (n_group n, n_waitable n, n_index n) else None)"

definition pool_slots :: "WaitNodePool \<times> node_heap \<Rightarrow> slot list" where
  "pool_slots s = map (\<lambda>i. node_slot (snd s (wp_owner (fst s), i))) [0..<MAX_WAIT_NODES]"

definition lowest_free :: "slot list \<Rightarrow> nat option" where
  "lowest_free xs = find (\<lambda>j. xs ! j = None) [0..<length xs]"

text \<open>
  An allocation takes the lowest free slot, or none when all are taken; it and the release of a slot
  that is not taken, or of a node of another pool, fail an assertion.
\<close>

fun pool_spec :: "tcb_ptr \<Rightarrow> pool_op \<Rightarrow> slot list \<Rightarrow> (pool_answer \<times> slot list) option" where
  "pool_spec t (Alloc g w i) xs =
     (if i = INVALID_INDEX then None
      else Some (case lowest_free xs of
        None \<Rightarrow> (Node None, xs)
      | Some j \<Rightarrow> (Node (Some (t, j)), xs[j := Some (Some g, Some w, i)])))"
| "pool_spec t (Free p) xs =
     (if fst p = t \<and> snd p < length xs \<and> xs ! snd p \<noteq> None then Some (Unit, xs[snd p := None]) else None)"
| "pool_spec t Reset_all xs = Some (Unit, replicate (length xs) None)"
| "pool_spec t Free_count xs = Some (Number (length (filter (\<lambda>x. x = None) xs)), xs)"
| "pool_spec t Exhausted xs = Some (Flag (None \<notin> set xs), xs)"

section \<open>Refinement\<close>

definition pool_of :: "tcb_ptr \<Rightarrow> WaitNodePool \<times> node_heap \<Rightarrow> bool" where
  "pool_of t s \<longleftrightarrow> pool_inv s \<and> wp_owner (fst s) = t"

lemma pool_slots_length [simp]: "length (pool_slots s) = MAX_WAIT_NODES"
  by (simp add: pool_slots_def)

lemma pool_slots_nth [simp]:
  "i < MAX_WAIT_NODES \<Longrightarrow> pool_slots s ! i = node_slot (snd s (wp_owner (fst s), i))"
  by (simp add: pool_slots_def)

lemma node_slot_None [simp]: "node_slot n = None \<longleftrightarrow> \<not> n_active n"
  by (simp add: node_slot_def)

lemma pool_slots_update:
  assumes "i < MAX_WAIT_NODES" "wp_owner pool' = wp_owner pool"
  shows "pool_slots (pool', h((wp_owner pool, i) := n)) = (pool_slots (pool, h))[i := node_slot n]"
  using assms by (intro nth_equalityI) (auto simp: nth_list_update)

lemma lowest_free_None: "lowest_free xs = None \<longleftrightarrow> None \<notin> set xs"
  by (auto simp: lowest_free_def find_None_iff in_set_conv_nth)

lemma lowest_free_Some:
  assumes "j < length xs" "xs ! j = None" "\<And>i. i < j \<Longrightarrow> xs ! i \<noteq> None"
  shows "lowest_free xs = Some j"
  using assms unfolding lowest_free_def find_Some_iff by (intro exI [of _ j]) auto

lemma all_taken:
  assumes "pool_inv (pool, h)"
  shows "free_mask pool = 0 \<longleftrightarrow> None \<notin> set (pool_slots (pool, h))"
  unfolding pool_mask_zero_iff [OF assms] by (auto simp: pool_slots_def node_slot_def image_iff)

lemma alloc_refines:
  assumes inv: "pool_of t (pool, h)"
  shows "map_option (map_prod Node pool_slots) (pool_alloc g w i (pool, h)) =
    pool_spec t (Alloc g w i) (pool_slots (pool, h))"
proof (cases "i = INVALID_INDEX \<or> free_mask pool = 0")
  case True
  then show ?thesis
    using inv all_taken [of pool h] lowest_free_None [of "pool_slots (pool, h)"]
    by (auto simp: pool_alloc_def pool_of_def)
next
  case False
  let ?b = "countr_zero (free_mask pool)"
  have p: "pool_inv (pool, h)" "wp_owner pool = t" using inv by (simp_all add: pool_of_def)
  have b: "?b < MAX_WAIT_NODES" "\<not> n_active (h (t, ?b))" "\<And>j. j < ?b \<Longrightarrow> n_active (h (t, j))"
    using pool_lowest_free [OF p(1)] False p(2) by auto
  then have "lowest_free (pool_slots (pool, h)) = Some ?b" using p(2) by (intro lowest_free_Some) auto
  then show ?thesis
    using pool_alloc_Some [OF p(1), of i g w] False b(1) p(2)
      pool_slots_update [OF b(1), of "pool\<lparr>free_mask := mask_clear (free_mask pool) ?b\<rparr>" pool h]
    by (simp add: node_slot_def)
qed

lemma free_refines:
  assumes inv: "pool_of t (pool, h)"
  shows "map_option pool_slots (pool_free p (pool, h)) =
    (if fst p = t \<and> snd p < MAX_WAIT_NODES \<and> pool_slots (pool, h) ! snd p \<noteq> None
     then Some ((pool_slots (pool, h))[snd p := None]) else None)"
proof (cases "fst p = t \<and> snd p < MAX_WAIT_NODES \<and> n_active (h p)")
  case True
  have p: "pool_inv (pool, h)" "wp_owner pool = t" using inv by (simp_all add: pool_of_def)
  have e: "p = (wp_owner pool, snd p)" using True p(2) by (cases p) simp
  show ?thesis
    using pool_free_Some [OF p(1), of "snd p"] True e p(2)
      pool_slots_update [of "snd p" "pool\<lparr>free_mask := mask_set (free_mask pool) (snd p)\<rparr>" pool h "node_reset (h p)"]
    by (simp add: node_slot_def)
next
  case False
  then show ?thesis using inv by (cases p) (auto simp: pool_free_def Let_def pool_of_def node_slot_def)
qed

lemma free_count_refines:
  assumes "pool_inv (pool, h)"
  shows "pool_free_count pool = length (filter (\<lambda>x. x = None) (pool_slots (pool, h)))"
proof -
  have "length (filter (\<lambda>x. x = None) (pool_slots (pool, h))) =
      card {i. i < MAX_WAIT_NODES \<and> pool_slots (pool, h) ! i = None}"
    by (simp add: length_filter_conv_card)
  also have "{i. i < MAX_WAIT_NODES \<and> pool_slots (pool, h) ! i = None} =
      {i. i < MAX_WAIT_NODES \<and> \<not> n_active (h (wp_owner pool, i))}" by auto
  finally show ?thesis by (simp add: pool_free_count_eq [OF assms])
qed

lemma reset_refines: "pool_slots (pool_reset_all (pool, h)) = replicate MAX_WAIT_NODES None"
  by (intro nth_equalityI) (simp_all add: pool_reset_all_def)

interpretation wp: stepwise_refinement pool_step "pool_spec t" "pool_of t" pool_slots "\<lambda>_. True" for t
proof
  fix s op
  assume inv: "pool_of t s"
  obtain pool h where s: "s = (pool, h)" by (cases s)
  have i: "pool_inv (pool, h)" using inv s by (simp add: pool_of_def)
  show "map_option (map_prod id pool_slots) (pool_step op s) = pool_spec t op (pool_slots s)"
  proof (cases op)
    case (Alloc g w i)
    then show ?thesis using alloc_refines [OF inv [unfolded s], of g w i]
      by (cases "pool_alloc g w i (pool, h)") (simp_all add: s case_prod_beta prod_eq_iff map_prod_def del: pool_spec.simps)
  next
    case (Free p)
    then show ?thesis using free_refines [OF inv [unfolded s], of p]
      by (cases "pool_free p (pool, h)") (simp_all add: s split: if_splits)
  qed (use all_taken [OF i] free_count_refines [OF i] reset_refines [of pool h] in
      \<open>simp_all add: s pool_empty_def\<close>)
  show "pool_of t s'" if st: "pool_step op s = Some (x, s')" for x s'
  proof (cases op)
    case (Alloc g w j)
    then obtain r where "pool_alloc g w j (pool, h) = Some (r, s')" using st s by auto
    then show ?thesis using pool_alloc_inv [OF i, of g w j r "fst s'" "snd s'"] inv s by (simp add: pool_of_def)
  next
    case (Free p)
    then have "pool_free p (pool, h) = Some s'" using st s by auto
    then show ?thesis using pool_free_inv [OF i, of p "fst s'" "snd s'"] inv s by (simp add: pool_of_def)
  next
    case Reset_all
    then have "s' = pool_reset_all (pool, h)" using st s by simp
    then show ?thesis using pool_reset_all_inv [OF i] inv s by (simp add: pool_of_def pool_reset_all_def)
  qed (use st inv in simp_all)
qed

lemma new_pool: "pool_of t (make_WaitNodePool t h)" "pool_slots (make_WaitNodePool t h) = replicate MAX_WAIT_NODES None"
  using make_WaitNodePool_inv [of t h]
  by (auto simp: pool_of_def make_WaitNodePool_def WaitNode_init_def intro!: nth_equalityI)

text \<open>
  C39: Every script of operations on the wait-node pool of a new thread answers like an array of eight
  slots in which an allocation takes the lowest free one: assertions fail exactly on an allocation with
  the invalid index and on the release of a node that is free or of another thread, and no operation
  indexes the array out of bounds.  After every script the pool is well-formed: a bit of the mask is
  set exactly when its node is inactive, no bit past the array is set, and every node still knows its
  thread and its slot.
\<close>

theorem wait_pool_well_formed:
  "map_option (map_prod id pool_slots) (run_ops pool_step ops (make_WaitNodePool t h)) =
     run_ops (pool_spec t) ops (replicate MAX_WAIT_NODES None) \<and>
   pred_option (\<lambda>(answers, s). pool_inv s) (run_ops pool_step ops (make_WaitNodePool t h))"
  using wp.run_refines [OF new_pool(1), of ops t h] wp.run_keeps [OF new_pool(1), of ops t h] new_pool(2) [of t h]
  by (cases "run_ops pool_step ops (make_WaitNodePool t h)") (auto simp: pool_of_def)

end
