(* ===== verification/Port_Cores.thy ===== *)
theory Port_Cores
  imports Port_Linux
begin

text \<open>
  The cores of the Linux port: \<^verbatim>\<open>cortos_port_start_cores\<close> spawns one OS thread per core beside the
  calling one, which becomes core 0; each runs a scheduler fiber that pumps the reschedule handler until
  only idle threads are left, and the caller joins them.  A step of the system is a step of the caller
  or of one core, in any order.  What runs inside a thread fiber is reduced to what the port sees of
  it: the fiber yields, exits, creates a context, pokes a core, or waits in \<^verbatim>\<open>cortos_port_idle\<close>, as one
  action here because \<open>Port_Linux\<close> shows that the wait loses no poke.
\<close>

section \<open>The system\<close>

text \<open>
  Where a core is: not spawned; about to call \<^verbatim>\<open>entry\<close>; at the test of the pump; inside a thread
  fiber; waiting for a poke; past the pump; poking the cores from \<open>n\<close> on; returned.
\<close>

datatype core_phase = Unborn | Entering | Pumping | InThread | Asleep | Deciding | Poking nat | Returned

text \<open>Where the caller is: spawning core \<open>n\<close>; running core 0; joining core \<open>n\<close>; returned.\<close>

datatype main_phase = Spawning nat | RunningCore0 | Joining nat | Finished

record cores_sys =
  cs_port :: port_state
  cs_phase :: "nat \<Rightarrow> core_phase"
  cs_main :: main_phase

definition cores_start :: "nat \<Rightarrow> port_state \<Rightarrow> cores_sys option" where
  "cores_start cores_to_use p = do {
     p \<leftarrow> cortos_port_start_cores cores_to_use p;
     Some \<lparr>cs_port = p, cs_phase = (\<lambda>_. Unborn), cs_main = Spawning 1\<rparr> }"

abbreviation at_phase :: "nat \<Rightarrow> core_phase \<Rightarrow> cores_sys \<Rightarrow> cores_sys" where
  "at_phase c ph s \<equiv> s\<lparr>cs_phase := (cs_phase s)(c := ph)\<rparr>"

definition main_step :: "cores_sys \<Rightarrow> cores_sys option" where
  "main_step s = (case cs_main s of
     Spawning n \<Rightarrow>
       (if n < cores_count (cs_port s) then Some ((at_phase n Entering s)\<lparr>cs_main := Spawning (Suc n)\<rparr>)
        else Some ((at_phase 0 Entering s)\<lparr>cs_main := RunningCore0\<rparr>))
   | RunningCore0 \<Rightarrow> (if cs_phase s 0 = Returned then Some (s\<lparr>cs_main := Joining 1\<rparr>) else None)
   | Joining n \<Rightarrow>
       (if n < cores_count (cs_port s)
        then (if cs_phase s n = Returned then Some (s\<lparr>cs_main := Joining (Suc n)\<rparr>) else None)
        else Some (s\<lparr>cs_port := port_reset (cs_port s), cs_main := Finished\<rparr>))
   | Finished \<Rightarrow> None)"

text \<open>\<^verbatim>\<open>CpuCore::start_scheduler\<close>, between two accesses to the shared state.\<close>

definition scheduler_step :: "nat \<Rightarrow> cores_sys \<Rightarrow> cores_sys option" where
  "scheduler_step c s = (case cs_phase s c of
     Entering \<Rightarrow> Some (at_phase c InThread s)
   | Pumping \<Rightarrow> Some (at_phase c (if pump_continues (cs_port s) then InThread else Deciding) s)
   | Deciding \<Rightarrow>
       (if shutdown_requested (cs_port s) then Some (at_phase c Returned s)
        else Some ((at_phase c (Poking 0) s)\<lparr>cs_port := (cs_port s)\<lparr>shutdown_requested := True\<rparr>\<rparr>))
   | Poking n \<Rightarrow>
       (if n < cores_count (cs_port s)
        then do {
          (_, p) \<leftarrow> cortos_port_send_reschedule_ipi c n (cs_port s);
          Some ((at_phase c (Poking (Suc n)) s)\<lparr>cs_port := p\<rparr>) }
        else Some (at_phase c Returned s))
   | Asleep \<Rightarrow>
       (if poke_pending (cs_port s) c
        then Some ((at_phase c Pumping s)\<lparr>cs_port := snd (poke_exchange c (cs_port s))\<rparr>) else None)
   | _ \<Rightarrow> None)"

text \<open>
  What a thread fiber does.  A thread that exits or creates a context is not an idle thread, and every
  core still counts its idle thread: more contexts than cores are active.  A fiber that pokes its own core
  yields.
\<close>

datatype thread_act = Yield | Idle | Exit | Create tcb_ptr | Poke nat

fun thread_step :: "nat \<Rightarrow> thread_act \<Rightarrow> cores_sys \<Rightarrow> cores_sys option" where
  "thread_step c Yield s = Some (at_phase c Pumping s)"
| "thread_step c Idle s =
     (let (pending, p) = poke_exchange c (cs_port s)
      in Some ((at_phase c (if pending then Pumping else Asleep) s)\<lparr>cs_port := p\<rparr>))"
| "thread_step c Exit s = do {
     CORTOS_ASSERT (pump_continues (cs_port s));
     p \<leftarrow> cortos_port_thread_exit (cs_port s);
     Some ((at_phase c Pumping s)\<lparr>cs_port := p\<rparr>) }"
| "thread_step c (Create t) s = do {
     CORTOS_ASSERT (pump_continues (cs_port s) \<and> active_contexts (cs_port s) \<noteq> - 1);
     Some (s\<lparr>cs_port := cortos_port_context_init t (cs_port s)\<rparr>) }"
| "thread_step c (Poke d) s = do {
     (_, p) \<leftarrow> cortos_port_send_reschedule_ipi c d (cs_port s);
     Some ((if d = c then at_phase c Pumping s else s)\<lparr>cs_port := p\<rparr>) }"

inductive cores_step :: "cores_sys \<Rightarrow> cores_sys \<Rightarrow> bool" where
  main: "main_step s = Some s' \<Longrightarrow> cores_step s s'"
| scheduler: "scheduler_step c s = Some s' \<Longrightarrow> cores_step s s'"
| thread: "cs_phase s c = InThread \<Longrightarrow> thread_step c a s = Some s' \<Longrightarrow> cores_step s s'"

text \<open>From a start with at least one thread that is not an idle thread.\<close>

inductive cores_reachable :: "nat \<Rightarrow> cores_sys \<Rightarrow> bool" for N where
  start: "cores_start N p = Some s \<Longrightarrow> N < unat (active_contexts p) \<Longrightarrow> \<not> shutdown_requested p \<Longrightarrow> cores_reachable N s"
| step: "cores_reachable N s \<Longrightarrow> cores_step s s' \<Longrightarrow> cores_reachable N s'"

section \<open>The invariant\<close>

definition quiescent :: "cores_sys \<Rightarrow> bool" where
  "quiescent s \<longleftrightarrow> \<not> pump_continues (cs_port s)"

text \<open>The phases in which a core may still go to sleep.\<close>

definition may_sleep :: "core_phase \<Rightarrow> bool" where
  "may_sleep ph \<longleftrightarrow> ph \<in> {Unborn, Entering, InThread, Asleep}"

fun spawned :: "nat \<Rightarrow> main_phase \<Rightarrow> (nat \<Rightarrow> core_phase) \<Rightarrow> bool" where
  "spawned N (Spawning n) f \<longleftrightarrow> 1 \<le> n \<and> n \<le> N \<and> f 0 = Unborn \<and> (\<forall>c. n \<le> c \<longrightarrow> f c = Unborn) \<and>
     (\<forall>c. 0 < c \<and> c < n \<longrightarrow> f c \<noteq> Unborn)"
| "spawned N RunningCore0 f \<longleftrightarrow> (\<forall>c. f c = Unborn \<longleftrightarrow> N \<le> c)"
| "spawned N (Joining n) f \<longleftrightarrow> (\<forall>c. f c = Unborn \<longleftrightarrow> N \<le> c) \<and> 1 \<le> n \<and> n \<le> N \<and> (\<forall>c < n. f c = Returned)"
| "spawned N Finished f \<longleftrightarrow> (\<forall>c. f c = (if c < N then Returned else Unborn))"

text \<open>
  Either the shutdown has not been asked for, and then some core sees the end if it has come; or it
  has, and then every core that may still sleep has a poke pending or coming.
\<close>

definition wakes_up :: "nat \<Rightarrow> cores_sys \<Rightarrow> bool" where
  "wakes_up N s \<longleftrightarrow>
     (if shutdown_requested (cs_port s)
      then quiescent s \<and> (\<forall>d < N. may_sleep (cs_phase s d) \<longrightarrow>
        poke_pending (cs_port s) d \<or> (\<exists>c. \<exists>n \<le> d. cs_phase s c = Poking n))
      else (quiescent s \<longrightarrow> (\<exists>c < N. cs_phase s c \<in> {Pumping, Deciding})) \<and>
        (\<forall>c n. cs_phase s c \<noteq> Poking n \<and> cs_phase s c \<noteq> Returned))"

definition cores_inv :: "nat \<Rightarrow> cores_sys \<Rightarrow> bool" where
  "cores_inv N s \<longleftrightarrow> 0 < N \<and> spawned N (cs_main s) (cs_phase s) \<and>
     (cs_main s \<noteq> Finished \<longrightarrow> cores_count (cs_port s) = N \<and> wakes_up N s \<and>
        (\<forall>c. cs_phase s c = Deciding \<longrightarrow> quiescent s)) \<and>
     (cs_main s = Finished \<longrightarrow> port_reset (cs_port s) = cs_port s)"

lemma cores_invD:
  assumes "cores_inv N s"
  shows "0 < N" "spawned N (cs_main s) (cs_phase s)"
    "cs_main s \<noteq> Finished \<Longrightarrow> cores_count (cs_port s) = N" "cs_main s \<noteq> Finished \<Longrightarrow> wakes_up N s"
    "cs_main s \<noteq> Finished \<Longrightarrow> cs_phase s c = Deciding \<Longrightarrow> quiescent s"
  using assms by (auto simp: cores_inv_def)

text \<open>A core with a phase other than \<^const>\<open>Unborn\<close> is one of the started ones.\<close>

lemma live_core:
  assumes "cores_inv N s" "cs_phase s c \<noteq> Unborn"
  shows "c < N" "\<And>n. cs_main s = Spawning n \<Longrightarrow> 0 < c \<and> c < n"
proof -
  note sp = cores_invD(2) [OF assms(1)]
  show "c < N"
  proof (rule ccontr)
    assume "\<not> c < N"
    then have "N \<le> c" by simp
    then show False using sp assms(2) by (cases "cs_main s") (simp_all split: if_splits)
  qed
  show "0 < c \<and> c < n" if "cs_main s = Spawning n" for n
    using sp assms(2) that by (cases "c = 0"; cases "n \<le> c") simp_all
qed

text \<open>The caller's view does not change when a live core moves on without returning.\<close>

lemma spawned_move:
  assumes "spawned N m f" "f c \<noteq> Unborn" "f c \<noteq> Returned" "ph \<noteq> Unborn"
  shows "spawned N m (f(c := ph))" "m \<noteq> Finished"
  using assms by (cases m; auto split: if_splits)+

text \<open>One core moves on, and the port changes at most in that a poke of this core is taken.\<close>

lemma wakes_up_move:
  assumes w: "wakes_up N s"
    and ph: "cs_phase s' = (cs_phase s)(c := ph)" "\<And>n. cs_phase s c \<noteq> Poking n"
    and port: "shutdown_requested (cs_port s') = shutdown_requested (cs_port s)" "quiescent s' = quiescent s"
      "\<And>d. d \<noteq> c \<Longrightarrow> poke_pending (cs_port s) d \<Longrightarrow> poke_pending (cs_port s') d"
    and sleep: "shutdown_requested (cs_port s) \<Longrightarrow> may_sleep ph \<Longrightarrow>
      may_sleep (cs_phase s c) \<and> (poke_pending (cs_port s) c \<longrightarrow> poke_pending (cs_port s') c)"
    and sees: "\<not> shutdown_requested (cs_port s) \<Longrightarrow> quiescent s \<Longrightarrow> cs_phase s c \<in> {Pumping, Deciding} \<Longrightarrow>
      ph \<in> {Pumping, Deciding}"
    and early: "\<not> shutdown_requested (cs_port s) \<Longrightarrow> ph \<noteq> Returned \<and> (\<forall>n. ph \<noteq> Poking n)"
  shows "wakes_up N s'"
proof (cases "shutdown_requested (cs_port s)")
  case True
  have "poke_pending (cs_port s') d \<or> (\<exists>e. \<exists>n \<le> d. cs_phase s' e = Poking n)"
    if d: "d < N" "may_sleep (cs_phase s' d)" for d
  proof -
    have "may_sleep (cs_phase s d)" using d(2) ph(1) sleep [OF True] by (cases "d = c") auto
    then consider "poke_pending (cs_port s) d" | e n where "n \<le> d" "cs_phase s e = Poking n"
      using w True d(1) by (auto simp: wakes_up_def)
    then show ?thesis
    proof cases
      case 1
      then show ?thesis using port(3) [of d] sleep [OF True] d(2) ph(1) by (cases "d = c") auto
    next
      case 2
      then have "cs_phase s' e = Poking n" using ph by (cases "e = c") auto
      then show ?thesis using 2(1) by blast
    qed
  qed
  then show ?thesis using w True port(1,2) by (simp add: wakes_up_def)
next
  case False
  have "\<exists>e < N. cs_phase s' e \<in> {Pumping, Deciding}" if q: "quiescent s"
  proof -
    obtain e where e: "e < N" "cs_phase s e \<in> {Pumping, Deciding}" using w False q by (auto simp: wakes_up_def)
    then have "cs_phase s' e \<in> {Pumping, Deciding}" using sees [OF False q] ph(1) by (cases "e = c") auto
    then show ?thesis using e(1) by blast
  qed
  moreover have "cs_phase s' e \<noteq> Poking n \<and> cs_phase s' e \<noteq> Returned" for e n
    using w False early [OF False] ph(1) by (cases "e = c") (auto simp: wakes_up_def)
  ultimately show ?thesis using False port(1,2) by (simp add: wakes_up_def)
qed

lemma cores_inv_start:
  assumes "cores_start N p = Some s" "N < unat (active_contexts p)" "\<not> shutdown_requested p"
  shows "cores_inv N s"
  using assms
  by (auto simp: cores_start_def cortos_port_start_cores_def cores_inv_def wakes_up_def quiescent_def pump_continues_def
      split: bind_splits if_splits)

lemma main_step_inv:
  assumes inv: "cores_inv N s" and st: "main_step s = Some s'"
  shows "cores_inv N s'"
proof (cases "cs_main s")
  case (Spawning n)
  note i = cores_invD [OF inv]
  have n: "1 \<le> n" "n \<le> N" "cs_phase s n = Unborn" "cs_phase s 0 = Unborn" using i(2) Spawning by auto
  let ?c = "if n < N then n else 0"
  have s': "s' = (at_phase ?c Entering s)\<lparr>cs_main := if n < N then Spawning (Suc n) else RunningCore0\<rparr>"
    using st i(3) Spawning by (auto simp: main_step_def)
  have u: "cs_phase s ?c = Unborn" using n by simp
  have "spawned N (cs_main s') (cs_phase s')"
    using i(2) Spawning n unfolding s' by (auto simp: not_le less_Suc_eq_le le_antisym)
  moreover have "wakes_up N s'"
    by (rule wakes_up_move [OF i(4), where c = ?c and ph = Entering])
      (use Spawning u in \<open>simp_all add: s' quiescent_def may_sleep_def\<close>)
  moreover have "quiescent s'" if "cs_phase s' c = Deciding" for c
    using that i(5) [of c] Spawning by (auto simp: s' quiescent_def split: if_splits)
  ultimately show ?thesis using i(1,3) Spawning by (simp add: cores_inv_def s')
next
  case RunningCore0
  then have "s' = s\<lparr>cs_main := Joining 1\<rparr>" "cs_phase s 0 = Returned" using st by (auto simp: main_step_def split: if_splits)
  then show ?thesis using inv RunningCore0 by (auto simp: cores_inv_def wakes_up_def quiescent_def)
next
  case (Joining n)
  show ?thesis
  proof (cases "n < N")
    case True
    then have "s' = s\<lparr>cs_main := Joining (Suc n)\<rparr>" "cs_phase s n = Returned"
      using st Joining cores_invD(3) [OF inv] by (auto simp: main_step_def split: if_splits)
    then show ?thesis using inv Joining True by (auto simp: cores_inv_def wakes_up_def quiescent_def less_Suc_eq)
  next
    case False
    then have "s' = s\<lparr>cs_port := port_reset (cs_port s), cs_main := Finished\<rparr>"
      using st Joining cores_invD(3) [OF inv] by (auto simp: main_step_def split: if_splits)
    then show ?thesis using inv Joining False by (auto simp: cores_inv_def port_reset_def)
  qed
next
  case Finished
  then show ?thesis using st by (simp add: main_step_def)
qed

lemma cores_inv_move:
  assumes inv: "cores_inv N s" and live: "cs_phase s c \<noteq> Unborn" "cs_phase s c \<noteq> Returned" "ph \<noteq> Unborn"
    and s': "cs_phase s' = (cs_phase s)(c := ph)" "cs_main s' = cs_main s" "cores_count (cs_port s') = cores_count (cs_port s)"
    and w: "wakes_up N s'" and q: "quiescent s \<Longrightarrow> quiescent s'" and dec: "ph = Deciding \<Longrightarrow> quiescent s'"
  shows "cores_inv N s'"
proof -
  have "spawned N (cs_main s') (cs_phase s')" "cs_main s \<noteq> Finished"
    using spawned_move [OF cores_invD(2) [OF inv] live] s' by simp_all
  moreover have "quiescent s'" if "cs_phase s' d = Deciding" for d
    using that cores_invD(5) [OF inv \<open>cs_main s \<noteq> Finished\<close>, of d] q dec s'(1) by (cases "d = c") auto
  ultimately show ?thesis using inv s' w by (simp add: cores_inv_def)
qed

lemma scheduler_step_inv:
  assumes inv: "cores_inv N s" and st: "scheduler_step c s = Some s'"
  shows "cores_inv N s'"
proof -
  have live: "cs_phase s c \<noteq> Unborn" "cs_phase s c \<noteq> Returned" using st by (auto simp: scheduler_step_def)
  have m: "cs_main s \<noteq> Finished" using spawned_move(2) [OF cores_invD(2) [OF inv] live, of Entering] by simp
  note w = cores_invD(4) [OF inv m] and n = cores_invD(3) [OF inv m]
  show ?thesis
  proof (cases "cs_phase s c")
    case Entering
    then have s': "s' = at_phase c InThread s" using st by (simp add: scheduler_step_def)
    show ?thesis
      by (rule cores_inv_move [OF inv live, where ph = InThread], simp, simp add: s', simp add: s', simp add: s',
          rule wakes_up_move [OF w, where c = c and ph = InThread])
        (use Entering in \<open>simp_all add: s' quiescent_def may_sleep_def\<close>)
  next
    case Pumping
    let ?ph = "if quiescent s then Deciding else InThread"
    have s': "s' = at_phase c ?ph s" using st Pumping by (auto simp: scheduler_step_def quiescent_def)
    have "quiescent s" if "shutdown_requested (cs_port s)" using w that by (simp add: wakes_up_def)
    then show ?thesis
      by (intro cores_inv_move [OF inv live, where ph = ?ph] wakes_up_move [OF w, where c = c and ph = ?ph])
        (use Pumping in \<open>auto simp: s' quiescent_def may_sleep_def split: if_splits\<close>)
  next
    case Asleep
    then have s': "s' = (at_phase c Pumping s)\<lparr>cs_port := (cs_port s)\<lparr>poke_pending := (poke_pending (cs_port s))(c := False)\<rparr>\<rparr>"
      using st by (simp add: scheduler_step_def poke_exchange_def split: if_splits)
    show ?thesis
      by (intro cores_inv_move [OF inv live, where ph = Pumping] wakes_up_move [OF w, where c = c and ph = Pumping])
        (use Asleep in \<open>simp_all add: s' quiescent_def may_sleep_def pump_continues_def\<close>)
  next
    case Deciding
    have q: "quiescent s" by (rule cores_invD(5) [OF inv m Deciding])
    show ?thesis
    proof (cases "shutdown_requested (cs_port s)")
      case True
      then have s': "s' = at_phase c Returned s" using st Deciding by (simp add: scheduler_step_def)
      show ?thesis
        by (intro cores_inv_move [OF inv live, where ph = Returned] wakes_up_move [OF w, where c = c and ph = Returned])
          (use Deciding True in \<open>simp_all add: s' quiescent_def may_sleep_def\<close>)
    next
      case False
      then have s': "s' = (at_phase c (Poking 0) s)\<lparr>cs_port := (cs_port s)\<lparr>shutdown_requested := True\<rparr>\<rparr>"
        using st Deciding by (simp add: scheduler_step_def)
      then have "wakes_up N s'" using q by (auto simp: wakes_up_def quiescent_def pump_continues_def)
      then show ?thesis
        by (intro cores_inv_move [OF inv live, where ph = "Poking 0"]) (simp_all add: s' quiescent_def pump_continues_def)
    qed
  next
    case (Poking i)
    have sd: "shutdown_requested (cs_port s)" "quiescent s"
      using w Poking by (auto simp: wakes_up_def split: if_splits)
    have poked: "poke_pending (cs_port s) d \<or> (\<exists>e j. e \<noteq> c \<and> j \<le> d \<and> cs_phase s e = Poking j) \<or> i \<le> d"
      if "d < N" "may_sleep (cs_phase s d)" for d
      using w sd(1) that Poking by (auto simp: wakes_up_def) (metis core_phase.inject)
    let ?ph = "if i < N then Poking (Suc i) else Returned"
    let ?p = "if i < N then (cs_port s)\<lparr>poke_pending := (poke_pending (cs_port s))(i := True)\<rparr> else cs_port s"
    have s': "s' = (at_phase c ?ph s)\<lparr>cs_port := ?p\<rparr>"
      using st Poking n by (auto simp: scheduler_step_def cortos_port_send_reschedule_ipi_def split: if_splits)
    have sel: "cs_phase s' = (cs_phase s)(c := ?ph)" "cs_port s' = ?p" by (simp_all add: s')
    have "poke_pending (cs_port s') d \<or> (\<exists>e. \<exists>j \<le> d. cs_phase s' e = Poking j)"
      if d: "d < N" "may_sleep (cs_phase s' d)" for d
    proof -
      have "may_sleep (cs_phase s d)" using d(2) Poking sel(1) by (cases "d = c") (auto simp: may_sleep_def split: if_splits)
      then consider "poke_pending (cs_port s) d" | e j where "e \<noteq> c" "j \<le> d" "cs_phase s e = Poking j" | "i \<le> d"
        using poked [OF d(1)] by blast
      then show ?thesis
      proof cases
        case 1
        then show ?thesis by (simp add: sel(2))
      next
        case 2
        then have "cs_phase s' e = Poking j" by (simp add: sel(1))
        then show ?thesis using 2(2) by blast
      next
        case 3
        show ?thesis
        proof (cases "i = d")
          case True
          then show ?thesis using d(1) by (simp add: sel(2))
        next
          case False
          then have "cs_phase s' c = Poking (Suc i)" "Suc i \<le> d" using 3 d(1) by (simp_all add: sel(1))
          then show ?thesis by blast
        qed
      qed
    qed
    then have "wakes_up N s'" using sd by (simp add: wakes_up_def s' quiescent_def pump_continues_def)
    then show ?thesis
      by (intro cores_inv_move [OF inv live, where ph = ?ph]) (use sd in \<open>auto simp: s' quiescent_def pump_continues_def\<close>)
  qed (use st in \<open>simp_all add: scheduler_step_def\<close>)
qed

lemma thread_step_inv:
  assumes inv: "cores_inv N s" and c: "cs_phase s c = InThread" and st: "thread_step c a s = Some s'"
  shows "cores_inv N s'"
proof -
  have live: "cs_phase s c \<noteq> Unborn" "cs_phase s c \<noteq> Returned" using c by simp_all
  have m: "cs_main s \<noteq> Finished" using spawned_move(2) [OF cores_invD(2) [OF inv] live, of Entering] by simp
  note w = cores_invD(4) [OF inv m] and n = cores_invD(3) [OF inv m]
  note move = cores_inv_move [OF inv live]
  show ?thesis
  proof (cases a)
    case Yield
    then have s': "s' = at_phase c Pumping s" using st by simp
    show ?thesis
      by (intro move [where ph = Pumping] wakes_up_move [OF w, where c = c and ph = Pumping])
        (use c in \<open>simp_all add: s' quiescent_def may_sleep_def\<close>)
  next
    case Idle
    let ?ph = "if poke_pending (cs_port s) c then Pumping else Asleep"
    have s': "s' = (at_phase c ?ph s)\<lparr>cs_port := (cs_port s)\<lparr>poke_pending := (poke_pending (cs_port s))(c := False)\<rparr>\<rparr>"
      using Idle st by (auto simp: poke_exchange_def)
    show ?thesis
      by (intro move [where ph = ?ph] wakes_up_move [OF w, where c = c and ph = ?ph])
        (use c in \<open>auto simp: s' quiescent_def may_sleep_def pump_continues_def split: if_splits\<close>)
  next
    case Exit
    then have go: "pump_continues (cs_port s)"
      and s': "s' = (at_phase c Pumping s)\<lparr>cs_port := (cs_port s)\<lparr>active_contexts := active_contexts (cs_port s) - 1\<rparr>\<rparr>"
      using st by (auto simp: cortos_port_thread_exit_def split: bind_splits if_splits)
    have sd: "\<not> shutdown_requested (cs_port s)" using w go by (auto simp: wakes_up_def quiescent_def)
    have "c < N" using live_core(1) [OF inv live(1)] .
    then have "wakes_up N s'" using w sd by (auto simp: wakes_up_def s')
    then show ?thesis by (intro move [where ph = Pumping]) (use go in \<open>simp_all add: s' quiescent_def\<close>)
  next
    case (Create t)
    then have go: "pump_continues (cs_port s)" "active_contexts (cs_port s) \<noteq> - 1"
      and s': "s' = s\<lparr>cs_port := cortos_port_context_init t (cs_port s)\<rparr>"
      using st by (auto split: if_splits)
    have "unat (active_contexts (cs_port s) + 1) = Suc (unat (active_contexts (cs_port s)))"
      using go(2) by (metis add.commute add_eq_0_iff unatSuc)
    then have go': "pump_continues (cs_port s')" using go(1) by (simp add: s' pump_continues_def cortos_port_context_init_def)
    have id: "(cs_phase s)(c := InThread) = cs_phase s" using c by (simp add: fun_upd_idem)
    show ?thesis
      by (intro move [where ph = InThread] wakes_up_move [OF w, where c = c and ph = InThread])
        (use c id go(1) go' in \<open>simp_all add: s' quiescent_def may_sleep_def cortos_port_context_init_def\<close>)
  next
    case (Poke d)
    let ?ph = "if d = c then Pumping else InThread"
    have id: "(cs_phase s)(c := InThread) = cs_phase s" using c by (simp add: fun_upd_idem)
    then have s': "s' = (at_phase c ?ph s)\<lparr>cs_port := (cs_port s)\<lparr>poke_pending := (poke_pending (cs_port s))(d := True)\<rparr>\<rparr>"
      using st Poke by (auto simp: cortos_port_send_reschedule_ipi_def split: if_splits)
    show ?thesis
      by (intro move [where ph = ?ph] wakes_up_move [OF w, where c = c and ph = ?ph])
        (use c in \<open>auto simp: s' quiescent_def may_sleep_def pump_continues_def split: if_splits\<close>)
  qed
qed

lemma cores_reachable_inv: "cores_reachable N s \<Longrightarrow> cores_inv N s"
proof (induction rule: cores_reachable.induct)
  case (start p s)
  then show ?case by (rule cores_inv_start)
next
  case (step s s')
  from step.hyps(2) step.IH show ?case
    by (cases rule: cores_step.cases) (auto intro: main_step_inv scheduler_step_inv thread_step_inv)
qed

section \<open>The shutdown completes\<close>

text \<open>How much a core and the caller have left to do once only idle threads are left.\<close>

fun phase_work :: "nat \<Rightarrow> core_phase \<Rightarrow> nat" where
  "phase_work N Unborn = N + 8"
| "phase_work N Entering = N + 7"
| "phase_work N InThread = N + 6"
| "phase_work N Asleep = N + 5"
| "phase_work N Pumping = N + 4"
| "phase_work N Deciding = N + 3"
| "phase_work N (Poking n) = Suc (N - n)"
| "phase_work N Returned = 0"

fun main_work :: "nat \<Rightarrow> main_phase \<Rightarrow> nat" where
  "main_work N (Spawning n) = N + 2"
| "main_work N RunningCore0 = N + 2"
| "main_work N (Joining n) = Suc (N - n)"
| "main_work N Finished = 0"

definition cores_work :: "nat \<Rightarrow> cores_sys \<Rightarrow> nat" where
  "cores_work N s = main_work N (cs_main s) + (\<Sum>c < N. phase_work N (cs_phase s c))"

lemma sum_phase_move:
  assumes "c < N" "phase_work N ph < phase_work N (f c)"
  shows "(\<Sum>d < N. phase_work N ((f(c := ph)) d)) < (\<Sum>d < N. phase_work N (f d))"
  by (rule sum_strict_mono_ex1) (use assms in auto)

lemma main_step_work:
  assumes inv: "cores_inv N s" and st: "main_step s = Some s'"
  shows "cores_work N s' < cores_work N s"
proof (cases "cs_main s")
  case (Spawning n)
  note i = cores_invD [OF inv]
  let ?c = "if n < N then n else 0"
  have "cs_phase s ?c = Unborn" "?c < N" using i(1,2) Spawning by auto
  then have "(\<Sum>d < N. phase_work N (((cs_phase s)(?c := Entering)) d)) < (\<Sum>d < N. phase_work N (cs_phase s d))"
    by (intro sum_phase_move) simp_all
  then show ?thesis using st i(3) Spawning by (auto simp: main_step_def cores_work_def split: if_splits)
next
  case (Joining n)
  then have "cores_count (cs_port s) = N" "n \<le> N" using cores_invD(2,3) [OF inv] by auto
  then show ?thesis using st Joining by (auto simp: main_step_def cores_work_def split: if_splits)
next
  case RunningCore0
  then show ?thesis using st cores_invD(1) [OF inv] by (auto simp: main_step_def cores_work_def split: if_splits)
next
  case Finished
  then show ?thesis using st by (simp add: main_step_def)
qed

lemma core_move_work:
  assumes "cores_inv N s" "cs_phase s c \<noteq> Unborn" "cs_phase s' = (cs_phase s)(c := ph)" "cs_main s' = cs_main s"
    and "phase_work N ph < phase_work N (cs_phase s c)"
  shows "cores_work N s' < cores_work N s"
  using sum_phase_move [OF live_core(1) [OF assms(1,2)], of ph "cs_phase s"] assms(3-5) by (simp add: cores_work_def)

lemma scheduler_step_work:
  assumes inv: "cores_inv N s" and st: "scheduler_step c s = Some s'" and q: "quiescent s"
  shows "cores_work N s' < cores_work N s"
proof -
  have live: "cs_phase s c \<noteq> Unborn" "cs_phase s c \<noteq> Returned" using st by (auto simp: scheduler_step_def)
  have m: "cs_main s \<noteq> Finished" using spawned_move(2) [OF cores_invD(2) [OF inv] live, of Entering] by simp
  have n: "cores_count (cs_port s) = N" by (rule cores_invD(3) [OF inv m])
  have "cs_phase s' = (cs_phase s)(c := cs_phase s' c) \<and> cs_main s' = cs_main s \<and>
      phase_work N (cs_phase s' c) < phase_work N (cs_phase s c)"
    using st q n
    by (cases "cs_phase s c")
      (auto simp: scheduler_step_def quiescent_def cortos_port_send_reschedule_ipi_def poke_exchange_def split: if_splits)
  then show ?thesis using core_move_work [OF inv live(1)] by blast
qed

lemma thread_step_work:
  assumes inv: "cores_inv N s" and c: "cs_phase s c = InThread" and st: "thread_step c a s = Some s'" and q: "quiescent s"
  shows "cores_work N s' < cores_work N s \<or> cs_phase s' = cs_phase s \<and> cs_main s' = cs_main s"
proof -
  have "cs_main s' = cs_main s \<and> (cs_phase s' = cs_phase s \<or>
      cs_phase s' = (cs_phase s)(c := cs_phase s' c) \<and> phase_work N (cs_phase s' c) < phase_work N (cs_phase s c))"
    using st q c by (cases a) (auto simp: quiescent_def cortos_port_send_reschedule_ipi_def poke_exchange_def split: if_splits)
  then show ?thesis using core_move_work [OF inv, of c s' "cs_phase s' c"] c by auto
qed

text \<open>A core that has not returned can move, or the one that will wake it can.\<close>

lemma scheduler_step_enabled:
  "scheduler_step c s \<noteq> None \<longleftrightarrow> cs_phase s c \<in> {Entering, Pumping, Deciding} \<or> (\<exists>n. cs_phase s c = Poking n) \<or>
     cs_phase s c = Asleep \<and> poke_pending (cs_port s) c"
  by (cases "cs_phase s c") (auto simp: scheduler_step_def cortos_port_send_reschedule_ipi_def)

lemma core_progress:
  assumes inv: "cores_inv N s" and q: "quiescent s" and m: "cs_main s \<noteq> Finished"
    and c: "c < N" "cs_phase s c \<noteq> Unborn" "cs_phase s c \<noteq> Returned"
  shows "\<exists>s'. cores_step s s' \<and> cores_work N s' < cores_work N s"
proof -
  have move: "\<exists>s'. cores_step s s' \<and> cores_work N s' < cores_work N s" if en: "scheduler_step d s \<noteq> None" for d
  proof -
    obtain s' where "scheduler_step d s = Some s'" using en by blast
    then show ?thesis using scheduler_step_work [OF inv _ q] cores_step.scheduler by blast
  qed
  show ?thesis
  proof (cases "scheduler_step c s = None")
    case False
    then show ?thesis by (rule move)
  next
    case True
    then have "cs_phase s c = InThread \<or> cs_phase s c = Asleep \<and> \<not> poke_pending (cs_port s) c"
      using c(2,3) scheduler_step_enabled [of c s] by (cases "cs_phase s c") auto
    then show ?thesis
    proof (elim disjE conjE)
      assume t: "cs_phase s c = InThread"
      then have "cores_step s (at_phase c Pumping s)" by (rule cores_step.thread [where a = Yield]) simp
      moreover have "cores_work N (at_phase c Pumping s) < cores_work N s"
        by (rule core_move_work [OF inv c(2), where ph = Pumping]) (simp_all add: t)
      ultimately show ?thesis by blast
    next
      assume a: "cs_phase s c = Asleep" "\<not> poke_pending (cs_port s) c"
      then have "may_sleep (cs_phase s c)" by (simp add: may_sleep_def)
      then have "\<exists>d. cs_phase s d \<in> {Pumping, Deciding} \<or> (\<exists>n. cs_phase s d = Poking n)"
        using cores_invD(4) [OF inv m] q c(1) a(2) unfolding wakes_up_def
        by (cases "shutdown_requested (cs_port s)") (simp_all, blast+)
      then obtain d where "cs_phase s d \<in> {Pumping, Deciding} \<or> (\<exists>n. cs_phase s d = Poking n)" by blast
      then show ?thesis using scheduler_step_enabled [of d s] by (intro move) blast
    qed
  qed
qed

lemma shutdown_progress:
  assumes inv: "cores_inv N s" and q: "quiescent s" and m: "cs_main s \<noteq> Finished"
  shows "\<exists>s'. cores_step s s' \<and> cores_work N s' < cores_work N s"
proof (cases "main_step s")
  case (Some s')
  then show ?thesis using main_step_work [OF inv Some] cores_step.main by blast
next
  case None
  note i = cores_invD [OF inv]
  obtain c where "c < N" "cs_phase s c \<noteq> Unborn" "cs_phase s c \<noteq> Returned"
  proof (cases "cs_main s")
    case RunningCore0
    then show ?thesis using None i(1,2) by (intro that [of 0]) (auto simp: main_step_def split: if_splits)
  next
    case (Joining n)
    then show ?thesis using None i(2,3) by (intro that [of n]) (auto simp: main_step_def split: if_splits)
  qed (use None m in \<open>auto simp: main_step_def split: if_splits\<close>)
  then show ?thesis by (rule core_progress [OF inv q m])
qed

lemma cores_work_bound:
  assumes "cores_inv N s"
  shows "cores_work N s \<le> (N + 8) * (N + 1)"
proof -
  have "phase_work N ph \<le> N + 8" for ph by (cases ph) simp_all
  then have "(\<Sum>c < N. phase_work N (cs_phase s c)) \<le> (\<Sum>c < N. N + 8)" by (intro sum_mono)
  moreover have "main_work N (cs_main s) \<le> N + 8" by (cases "cs_main s") simp_all
  ultimately show ?thesis by (simp add: cores_work_def algebra_simps)
qed

lemma quiescent_step:
  assumes inv: "cores_inv N s" and q: "quiescent s" and st: "cores_step s s'"
  shows "quiescent s'"
  using st
proof (cases rule: cores_step.cases)
  case main
  then show ?thesis using q
    by (auto simp: main_step_def quiescent_def pump_continues_def port_reset_def split: main_phase.splits if_splits)
next
  case (scheduler c)
  then show ?thesis using q
    by (auto simp: scheduler_step_def quiescent_def pump_continues_def cortos_port_send_reschedule_ipi_def poke_exchange_def
        split: core_phase.splits if_splits)
next
  case (thread c a)
  from thread(2) show ?thesis using q
    by (cases a) (auto simp: quiescent_def pump_continues_def cortos_port_send_reschedule_ipi_def poke_exchange_def split: if_splits)
qed

text \<open>
  C13: The port shuts down.  Once at most one context per core is active, which stays so, some step of
  the caller of \<^verbatim>\<open>cortos_port_start_cores\<close> or of a core is always possible that leaves less work until
  the call has returned, every step except a poke leaves less work, and the work is bounded: no core is
  left asleep and the call returns.  When it has returned, every core has returned from its scheduler
  and the state of the port has been reset.
\<close>

theorem port_shutdown_completes:
  assumes "cores_reachable N s" "quiescent s"
  shows "(cs_main s \<noteq> Finished \<longrightarrow> (\<exists>s'. cores_step s s' \<and> cores_work N s' < cores_work N s)) \<and>
    (\<forall>s'. cores_step s s' \<longrightarrow> quiescent s' \<and>
       (cores_work N s' < cores_work N s \<or> cs_phase s' = cs_phase s \<and> cs_main s' = cs_main s)) \<and>
    cores_work N s \<le> (N + 8) * (N + 1) \<and>
    (cs_main s = Finished \<longrightarrow> (\<forall>c < N. cs_phase s c = Returned) \<and> port_reset (cs_port s) = cs_port s)"
proof -
  have inv: "cores_inv N s" by (rule cores_reachable_inv [OF assms(1)])
  have "cores_work N s' < cores_work N s \<or> cs_phase s' = cs_phase s \<and> cs_main s' = cs_main s" if "cores_step s s'" for s'
    using that
    by (cases rule: cores_step.cases)
      (auto dest: main_step_work [OF inv] scheduler_step_work [OF inv _ assms(2)] thread_step_work [OF inv _ _ assms(2)])
  moreover have "(\<forall>c < N. cs_phase s c = Returned) \<and> port_reset (cs_port s) = cs_port s" if "cs_main s = Finished"
    using inv that by (simp add: cores_inv_def)
  ultimately show ?thesis
    using shutdown_progress [OF inv assms(2)] cores_work_bound [OF inv] quiescent_step [OF inv assms(2)] by blast
qed

text \<open>Two cores and one thread: the caller spawns core 1 and becomes core 0, whose thread exits.\<close>

definition demo_cores :: "cores_sys option" where
  "demo_cores = do {
     s \<leftarrow> cores_start 2 (port_state_init\<lparr>active_contexts := 3, handler_registered := True\<rparr>);
     s \<leftarrow> main_step s;
     s \<leftarrow> main_step s;
     s \<leftarrow> scheduler_step 0 s;
     thread_step 0 Exit s }"

lemma demo_cores_reachable:
  obtains s where "demo_cores = Some s" "cores_reachable 2 s" "quiescent s" "cs_main s = RunningCore0"
proof -
  let ?p = "port_state_init\<lparr>active_contexts := 3, handler_registered := True\<rparr>"
  have "\<exists>s0 s1 s2 s3 s. cores_start 2 ?p = Some s0 \<and> main_step s0 = Some s1 \<and> main_step s1 = Some s2 \<and>
      scheduler_step 0 s2 = Some s3 \<and> cs_phase s3 0 = InThread \<and> thread_step 0 Exit s3 = Some s \<and>
      quiescent s \<and> cs_main s = RunningCore0"
    by (simp add: cores_start_def cortos_port_start_cores_def CORTOS_PORT_CORE_COUNT_def main_step_def scheduler_step_def
        port_state_init_def pump_continues_def cortos_port_thread_exit_def quiescent_def)
  then obtain s0 s1 s2 s3 s where s: "cores_start 2 ?p = Some s0" "main_step s0 = Some s1" "main_step s1 = Some s2"
    "scheduler_step 0 s2 = Some s3" "cs_phase s3 0 = InThread" "thread_step 0 Exit s3 = Some s"
    "quiescent s" "cs_main s = RunningCore0" by blast
  have "cores_reachable 2 s0" by (rule cores_reachable.start [OF s(1)]) (simp_all add: port_state_init_def)
  then have "cores_reachable 2 s1" by (rule cores_reachable.step) (rule cores_step.main [OF s(2)])
  then have "cores_reachable 2 s2" by (rule cores_reachable.step) (rule cores_step.main [OF s(3)])
  then have "cores_reachable 2 s3" by (rule cores_reachable.step) (rule cores_step.scheduler [OF s(4)])
  then have "cores_reachable 2 s" by (rule cores_reachable.step) (rule cores_step.thread [OF s(5,6)])
  then show thesis using that s by (simp add: demo_cores_def)
qed

theorem port_shutdown_completes_witness:
  "\<exists>s s'. demo_cores = Some s \<and> cores_step s s' \<and> cores_work 2 s' < cores_work 2 s"
proof -
  obtain s where s: "demo_cores = Some s" "cores_reachable 2 s" "quiescent s" "cs_main s = RunningCore0"
    by (rule demo_cores_reachable)
  then show ?thesis using port_shutdown_completes [OF s(2,3)] by auto
qed

end
