(* ===== verification/Port_Config.thy ===== *)
theory Port_Config
  imports Memory_Layout
begin

text \<open>
  What a port has to define: the macros of port_traits.h, the checks that port.h makes on them with the
  preprocessor, and the static assertions of the Linux port.  A macro that is not defined is \<^const>\<open>None\<close>.
\<close>

section \<open>The traits of a port\<close>

record port_traits =
  CONTEXT_SIZE :: "int option"
  CONTEXT_ALIGN :: "int option"
  STACK_ALIGN :: "int option"
  CACHE_LINE :: "int option"
  CORE_COUNT :: "int option"
  SCHEDULING_TYPE :: "int option"
  ENVIRONMENT :: "int option"

text \<open>An undefined macro is \<open>0\<close> in a condition of the preprocessor.\<close>

definition macro :: "int option \<Rightarrow> int" where
  "macro m = (case m of None \<Rightarrow> 0 | Some x \<Rightarrow> x)"

definition power_of_two_check :: "int \<Rightarrow> bool" where
  "power_of_two_check x \<longleftrightarrow> x AND (x - 1) = 0"

definition port_traits_accepted :: "port_traits \<Rightarrow> bool" where
  "port_traits_accepted T \<longleftrightarrow>
     CONTEXT_SIZE T \<noteq> None \<and> CONTEXT_ALIGN T \<noteq> None \<and> STACK_ALIGN T \<noteq> None \<and> CACHE_LINE T \<noteq> None \<and>
     CORE_COUNT T \<noteq> None \<and> SCHEDULING_TYPE T \<noteq> None \<and> ENVIRONMENT T \<noteq> None \<and>
     \<not> macro (CONTEXT_SIZE T) \<le> 0 \<and> \<not> macro (CONTEXT_ALIGN T) \<le> 0 \<and> \<not> macro (STACK_ALIGN T) \<le> 0 \<and>
     \<not> macro (CACHE_LINE T) \<le> 0 \<and> \<not> macro (CORE_COUNT T) \<le> 0 \<and>
     power_of_two_check (macro (CONTEXT_ALIGN T)) \<and> power_of_two_check (macro (STACK_ALIGN T)) \<and>
     power_of_two_check (macro (CACHE_LINE T)) \<and>
     \<not> (macro (SCHEDULING_TYPE T) \<noteq> 1 \<and> macro (SCHEDULING_TYPE T) \<noteq> 2) \<and>
     \<not> (macro (ENVIRONMENT T) \<noteq> 1 \<and> macro (ENVIRONMENT T) \<noteq> 2)"

text \<open>The traits of the Linux port.\<close>

definition linux_port_traits :: port_traits where
  "linux_port_traits = \<lparr>CONTEXT_SIZE = Some 40, CONTEXT_ALIGN = Some 8, STACK_ALIGN = Some 16, CACHE_LINE = Some 64,
     CORE_COUNT = Some 4, SCHEDULING_TYPE = Some 2, ENVIRONMENT = Some 2\<rparr>"

text \<open>
  Its static assertions; the size and the alignment of \<^verbatim>\<open>cortos_port_context\<close> are the compiler's.
\<close>

definition linux_static_asserts :: "int \<Rightarrow> int \<Rightarrow> port_traits \<Rightarrow> bool" where
  "linux_static_asserts sizeof_context alignof_context T \<longleftrightarrow>
     sizeof_context = macro (CONTEXT_SIZE T) \<and> alignof_context = macro (CONTEXT_ALIGN T) \<and>
     power_of_two_check (macro (STACK_ALIGN T)) \<and> macro (SCHEDULING_TYPE T) = 2 \<and> macro (ENVIRONMENT T) = 2"

section \<open>What acceptance means\<close>

lemma power_of_two_check_pow: "power_of_two_check (2 ^ k)"
proof -
  have "(2 ^ k - 1 :: int) = mask k" by (simp add: mask_eq_exp_minus_1)
  moreover have "(2 ^ k :: int) AND mask k = 0" by (simp add: and_exp_eq_0_iff_not_bit and.commute bit_mask_iff flip: take_bit_eq_mask)
  ultimately show ?thesis by (simp add: power_of_two_check_def)
qed

lemma power_of_two_check_iff: "0 < x \<Longrightarrow> power_of_two_check x \<longleftrightarrow> (\<exists>k. x = 2 ^ k)"
proof
  show "power_of_two_check x" if "\<exists>k. x = 2 ^ k" using that power_of_two_check_pow by auto
  assume "0 < x" "power_of_two_check x"
  then show "\<exists>k. x = 2 ^ k"
  proof (induction "nat x" arbitrary: x rule: less_induct)
    case less
    have r: "x AND (x - 1) = 2 * (x div 2 AND (x - 1) div 2)" by (subst and_int_rec) auto
    show ?case
    proof (cases "even x")
      case True
      then obtain y where y: "x = 2 * y" by blast
      have "(2 * y - 1) div 2 = y - 1" by simp
      then have "power_of_two_check y" "0 < y" "nat y < nat x"
        using r less.prems y by (auto simp: power_of_two_check_def)
      then obtain k where "y = 2 ^ k" using less.hyps by blast
      then show ?thesis using y by (intro exI [of _ "Suc k"]) simp
    next
      case False
      then obtain y where y: "x = 2 * y + 1" by (blast elim: oddE)
      then have "y = 0" using r less.prems by (simp add: power_of_two_check_def)
      then show ?thesis using y by (intro exI [of _ 0]) simp
    qed
  qed
qed

lemma port_traits_accepted_powers:
  assumes "port_traits_accepted T"
  obtains j k l where "CONTEXT_ALIGN T = Some (2 ^ j)" "STACK_ALIGN T = Some (2 ^ k)" "CACHE_LINE T = Some (2 ^ l)"
  using assms power_of_two_check_iff
  by (auto simp: port_traits_accepted_def macro_def not_le split: option.splits)

lemma linux_port_accepted:
  "port_traits_accepted linux_port_traits" "linux_static_asserts 40 8 linux_port_traits"
  "CORE_COUNT linux_port_traits = Some (int CORTOS_PORT_CORE_COUNT)"
  by (simp_all add: port_traits_accepted_def linux_static_asserts_def linux_port_traits_def macro_def
      power_of_two_check_def CORTOS_PORT_CORE_COUNT_def)

end
