(* ===== verification/Port_Diagnostics.thy ===== *)
theory Port_Diagnostics
  imports Cortos_Prelude
begin

text \<open>
  What \<^verbatim>\<open>cortos_port_system_error\<close> prints before it terminates the program: the place of the failed
  assertion, the lines of the source around it and the two auxiliary values.  A file is the list of its
  lines, and \<^const>\<open>None\<close> when it cannot be opened; the output is the list of bytes written.
\<close>

section \<open>The conversions of \<^verbatim>\<open>printf\<close>\<close>

text \<open>Digits of a number in a base of at most 16, with the upper-case letters of \<^verbatim>\<open>%X\<close>.\<close>

definition digit_char :: "nat \<Rightarrow> char" where
  "digit_char d = ''0123456789ABCDEF'' ! d"

function digits_in :: "nat \<Rightarrow> nat \<Rightarrow> string" where
  "digits_in b n = (if b < 2 \<or> n < b then [digit_char n] else digits_in b (n div b) @ [digit_char (n mod b)])"
  by pat_completeness auto
termination
  by (relation "measure snd") auto

declare digits_in.simps [simp del]

text \<open>\<^verbatim>\<open>%d\<close>, \<^verbatim>\<open>%4d\<close>, \<^verbatim>\<open>%lX\<close> and \<^verbatim>\<open>%s\<close>, which stops at the first zero byte\<close>

definition fmt_d :: "int \<Rightarrow> string" where
  "fmt_d i = (if i < 0 then ''-'' else []) @ digits_in 10 (nat \<bar>i\<bar>)"

definition fmt_4d :: "int \<Rightarrow> string" where
  "fmt_4d i = replicate (4 - length (fmt_d i)) (CHR '' '') @ fmt_d i"

definition fmt_lX :: "u64 \<Rightarrow> string" where
  "fmt_lX x = digits_in 16 (unat x)"

definition fmt_s :: "string \<Rightarrow> string" where
  "fmt_s s = takeWhile (\<lambda>c. c \<noteq> CHR 0x00) s"

section \<open>The source around a line\<close>

definition ESC :: string where "ESC = [CHR 0x1B]"
definition CLR_RESET :: string where "CLR_RESET = ESC @ ''[0m''"
definition CLR_RED :: string where "CLR_RED = ESC @ ''[1;31m''"
definition CLR_ORANGE :: string where "CLR_ORANGE = ESC @ ''[38;5;208m''"

text \<open>The two box-drawing characters in UTF-8.\<close>

definition BOX_RIGHT :: string where "BOX_RIGHT = [CHR 0xE2, CHR 0x94, CHR 0x9C]"
definition BOX_CORNER :: string where "BOX_CORNER = [CHR 0xE2, CHR 0x94, CHR 0x94]"

definition context_line :: "int \<Rightarrow> int \<Rightarrow> string \<Rightarrow> string" where
  "context_line target_line current text =
     BOX_RIGHT @ '' '' @ CLR_ORANGE @ fmt_4d current @ CLR_RESET @ ''  '' @
     (if current = target_line then CLR_RED @ ''>> '' @ fmt_s text @ CLR_RESET @ [CHR 0x0A]
      else ''   '' @ fmt_s text @ [CHR 0x0A])"

text \<open>The loop over the lines; \<open>current\<close> is the number of lines read so far.\<close>

fun context_loop :: "int \<Rightarrow> int \<Rightarrow> int \<Rightarrow> int \<Rightarrow> string list \<Rightarrow> string" where
  "context_loop target_line start stop current [] = []"
| "context_loop target_line start stop current (text # rest) =
     (let current = current + 1
      in (if current \<ge> start \<and> current \<le> stop then context_line target_line current text else []) @
         (if current > stop then [] else context_loop target_line start stop current rest))"

text \<open>The sum and the difference are of type \<^verbatim>\<open>int\<close>: an overflow is undefined.\<close>

definition int_range :: "int \<Rightarrow> bool" where
  "int_range x \<longleftrightarrow> - (2 ^ 31) \<le> x \<and> x < 2 ^ 31"

definition print_formatted_context :: "string list option \<Rightarrow> int \<Rightarrow> int \<Rightarrow> string option" where
  "print_formatted_context fs target_line rng = (case fs of
     None \<Rightarrow> Some []
   | Some texts \<Rightarrow> do {
       CORTOS_ASSERT (int_range (target_line - rng));
       let start = (if target_line - rng > 0 then target_line - rng else 1);
       CORTOS_ASSERT (int_range (target_line + rng));
       let stop = target_line + rng;
       Some (context_loop target_line start stop 0 texts) })"

text \<open>The output of \<^verbatim>\<open>cortos_port_system_error\<close>; the program then terminates.\<close>

definition cortos_port_system_error ::
  "(string \<Rightarrow> string list option) \<Rightarrow> u64 \<Rightarrow> u64 \<Rightarrow> string \<Rightarrow> int \<Rightarrow> string option" where
  "cortos_port_system_error files auxilary1 auxilary2 file_optional line_optional = do {
     ctx \<leftarrow> print_formatted_context (files file_optional) line_optional 2;
     Some (''KERNEL PANIC at '' @ fmt_s file_optional @ '':'' @ fmt_d line_optional @ [CHR 0x0A] @ ctx @
       BOX_CORNER @ '' AUX1: 0x'' @ fmt_lX auxilary1 @ '', AUX2: 0x'' @ fmt_lX auxilary2 @ [CHR 0x0A]) }"

section \<open>What is printed\<close>

text \<open>The lines of a window of the file, with their numbers.\<close>

definition window :: "int \<Rightarrow> int \<Rightarrow> string list \<Rightarrow> (int \<times> string) list" where
  "window start stop texts = filter (\<lambda>(i, t). start \<le> i \<and> i \<le> stop) (zip (map int [1..<Suc (length texts)]) texts)"

lemma context_loop_window:
  "context_loop l start stop (int n) texts =
     concat (map (\<lambda>(i, t). context_line l i t)
       (filter (\<lambda>(i, t). start \<le> i \<and> i \<le> stop) (zip (map int [Suc n..<Suc (n + length texts)]) texts)))"
proof (induction texts arbitrary: n)
  case (Cons t rest)
  have up: "[Suc n..<Suc (n + length (t # rest))] = Suc n # [Suc (Suc n)..<Suc (Suc n + length rest)]"
    by (simp add: upt_rec)
  have none: "filter (\<lambda>(i, t). start \<le> i \<and> i \<le> stop) (zip (map int [Suc (Suc n)..<Suc (Suc n + length rest)]) rest) = []"
    if "int (Suc n) > stop" using that by (auto simp: filter_empty_conv dest!: set_zip_leftD)
  show ?case unfolding up using Cons.IH [of "Suc n"] none by (simp add: Let_def del: upt_Suc) (simp add: add.commute)
qed simp

lemma print_formatted_context_window:
  assumes "0 < l" "0 \<le> r" "l + r < 2 ^ 31"
  shows "print_formatted_context (Some texts) l r =
    Some (concat (map (\<lambda>(i, t). context_line l i t) (window (l - r) (l + r) texts)))"
proof -
  have "window (max 1 (l - r)) e texts = window (l - r) e texts" for e
    unfolding window_def by (rule filter_cong) (auto dest!: set_zip_leftD)
  moreover have "(if l - r > 0 then l - r else 1) = max 1 (l - r)" by auto
  ultimately show ?thesis
    using assms context_loop_window [of l "max 1 (l - r)" "l + r" 0 texts]
    by (simp add: print_formatted_context_def int_range_def window_def Let_def del: upt_Suc)
qed

end
