(* ===== verification/Time_Port.thy ===== *)
theory Time_Port
  imports Port_Linux
begin

text \<open>
  The time types of time.hpp and the time half of port_linux_boost.cpp: a clock that is advanced by
  tests, the registered interrupt handler and the armed one-shot deadline.
\<close>

section \<open>Time points and durations\<close>

record TimePoint =
  tp_value :: u64

record Duration =
  d_value :: u64

definition timepoint_less :: "TimePoint \<Rightarrow> TimePoint \<Rightarrow> bool" where
  "timepoint_less a b \<longleftrightarrow> tp_value a < tp_value b"

definition timepoint_le :: "TimePoint \<Rightarrow> TimePoint \<Rightarrow> bool" where
  "timepoint_le a b \<longleftrightarrow> tp_value a \<le> tp_value b"

definition timepoint_max :: TimePoint where
  "timepoint_max = \<lparr>tp_value = 0xFFFFFFFFFFFFFFFF\<rparr>"

definition timepoint_add :: "TimePoint \<Rightarrow> Duration \<Rightarrow> TimePoint" where
  "timepoint_add tp d = \<lparr>tp_value = tp_value tp + d_value d\<rparr>"

definition duration_add :: "Duration \<Rightarrow> Duration \<Rightarrow> Duration" where
  "duration_add a b = \<lparr>d_value = d_value a + d_value b\<rparr>"

definition duration_between :: "TimePoint \<Rightarrow> TimePoint \<Rightarrow> Duration" where
  "duration_between a b =
     (if tp_value a \<ge> tp_value b then \<lparr>d_value = tp_value a - tp_value b\<rparr> else \<lparr>d_value = 0\<rparr>)"

text \<open>\<^verbatim>\<open>(a + b - 1) / b\<close> on 64 bits, as the drivers compute it\<close>

definition ceil_div_u64 :: "u64 \<Rightarrow> u64 \<Rightarrow> u64" where
  "ceil_div_u64 a b = (a + b - 1) div b"

section \<open>The time port\<close>

record TimeState =
  irq_enabled :: bool
  time_now :: u64
  armed_deadline :: u64
  isr_registered :: bool

definition UINT64_MAX :: u64 where "UINT64_MAX = 0xFFFFFFFFFFFFFFFF"

definition TimeState_init :: TimeState where
  "TimeState_init =
     \<lparr>irq_enabled = False, time_now = 0, armed_deadline = UINT64_MAX, isr_registered = False\<rparr>"

definition cortos_port_time_setup :: "u32 \<Rightarrow> TimeState \<Rightarrow> TimeState" where
  "cortos_port_time_setup tick_hz ts = ts"

definition cortos_port_time_now :: "TimeState \<Rightarrow> u64" where
  "cortos_port_time_now ts = time_now ts"

definition cortos_port_time_freq_hz :: u64 where
  "cortos_port_time_freq_hz = 1000000"

definition cortos_port_time_reset :: "u64 \<Rightarrow> TimeState \<Rightarrow> TimeState" where
  "cortos_port_time_reset t ts = ts\<lparr>time_now := t, armed_deadline := UINT64_MAX\<rparr>"

definition cortos_port_time_register_isr_handler :: "TimeState \<Rightarrow> TimeState" where
  "cortos_port_time_register_isr_handler ts = ts\<lparr>isr_registered := True\<rparr>"

definition cortos_port_time_irq_enable :: "TimeState \<Rightarrow> TimeState" where
  "cortos_port_time_irq_enable ts = ts\<lparr>irq_enabled := True\<rparr>"

definition cortos_port_time_irq_disable :: "TimeState \<Rightarrow> TimeState" where
  "cortos_port_time_irq_disable ts = ts\<lparr>irq_enabled := False\<rparr>"

text \<open>Without interference the compare-exchange succeeds at once.\<close>

definition cortos_port_time_arm :: "u64 \<Rightarrow> TimeState \<Rightarrow> TimeState" where
  "cortos_port_time_arm deadline ts =
     (if deadline < armed_deadline ts then ts\<lparr>armed_deadline := deadline\<rparr> else ts)"

definition cortos_port_time_disarm :: "TimeState \<Rightarrow> TimeState" where
  "cortos_port_time_disarm ts = ts\<lparr>armed_deadline := UINT64_MAX\<rparr>"

definition cortos_port_time_advance :: "u64 \<Rightarrow> TimeState \<Rightarrow> TimeState" where
  "cortos_port_time_advance delta ts = ts\<lparr>time_now := time_now ts + delta\<rparr>"

lemmas time_port_defs =
  cortos_port_time_setup_def cortos_port_time_now_def cortos_port_time_reset_def
  cortos_port_time_register_isr_handler_def cortos_port_time_irq_enable_def
  cortos_port_time_irq_disable_def cortos_port_time_arm_def cortos_port_time_disarm_def
  cortos_port_time_advance_def

section \<open>Conversions\<close>

text \<open>
  Rounding up is exact on 64 bits when the sum does not wrap, which holds for every product of two
  32-bit numbers and every divisor below \<open>2 ^ 32\<close>.
\<close>

lemma ceil_div_exact:
  assumes "unat a + unat b < 2 ^ 64" "0 < unat b"
  shows "unat (ceil_div_u64 a b) = (unat a + unat b - 1) div unat b"
proof -
  have "unat (a + b) = unat a + unat b" using assms(1) by (simp add: unat_add_lem [THEN iffD1])
  moreover have "a + b \<noteq> 0" using calculation assms(2) by (metis add_is_0 not_gr0 unat_0)
  ultimately have "unat (a + b - 1) = unat a + unat b - 1" by (simp add: unat_minus_one)
  then show ?thesis by (simp add: ceil_div_u64_def unat_div)
qed

text \<open>
  A rounded-up quotient is the least number of ticks that covers the requested time: it never
  falls short and is less than one tick too long.
\<close>

lemma ceil_div_covers:
  fixes x b :: nat
  assumes "0 < b"
  shows "x \<le> (x + b - 1) div b * b" "(x + b - 1) div b * b < x + b"
proof -
  have "(x + b - 1) div b * b + (x + b - 1) mod b = x + b - 1" by simp
  moreover have "(x + b - 1) mod b < b" using assms by simp
  ultimately show "x \<le> (x + b - 1) div b * b" "(x + b - 1) div b * b < x + b" using assms by linarith+
qed

lemma unat_u32_bound: "unat (x :: u32) < 2 ^ 32"
  using unsigned_less [of x, where ?'a = nat] by simp

lemma product_u32_bound: "unat (x :: u32) * unat (y :: u32) \<le> (2 ^ 32 - 1) * (2 ^ 32 - 1)"
  using unat_u32_bound [of x] unat_u32_bound [of y] by (intro mult_le_mono) simp_all

lemma unat_ucast_32_64: "unat (ucast (x :: u32) :: u64) = unat x"
proof -
  have "unat x < 2 ^ 64" using unat_u32_bound [of x] by simp
  then show ?thesis by (simp add: unsigned_ucast_eq take_bit_nat_eq_self)
qed

lemma unat_product_u32: "unat (ucast (x :: u32) * ucast (y :: u32) :: u64) = unat x * unat y"
proof -
  have "unat x * unat y < 2 ^ 64" using product_u32_bound [of x y] by simp
  then show ?thesis by (simp add: unat_mult_lem [THEN iffD1] unat_ucast_32_64)
qed

text \<open>The conversion of \<open>amount\<close> units of \<open>1 / unit\<close> seconds at a frequency of 32 bits.\<close>

lemma conversion_exact:
  fixes amount freq :: u32
  assumes "0 < unat unit" "unat unit < 2 ^ 32"
  shows "unat (ceil_div_u64 (ucast amount * ucast freq) unit) =
    (unat amount * unat freq + unat unit - 1) div unat unit"
proof -
  have "unat amount * unat freq + unat unit < 2 ^ 64" using product_u32_bound [of amount freq] assms by simp
  then show ?thesis using ceil_div_exact [of "ucast amount * ucast freq" unit] assms by (simp add: unat_product_u32)
qed

lemma word_le_of_nat: "t < 2 ^ 64 \<Longrightarrow> (w :: u64) \<le> of_nat t \<longleftrightarrow> unat w \<le> t"
  by (simp add: word_le_nat_alt unat_of_nat take_bit_nat_eq_self)

section \<open>Interrupt guards\<close>

text \<open>
  The two halves of an \<^verbatim>\<open>IrqGuard\<close> cancel out unless the nesting depth wraps.
\<close>

lemma irq_guard_undone:
  assumes "interrupt_disable_depth p c \<noteq> 0xFFFFFFFF"
  shows "cortos_port_irq_restore c (fst (cortos_port_irq_save c p)) (snd (cortos_port_irq_save c p)) = p"
proof -
  have "interrupt_disable_depth p c + 1 \<noteq> 0"
    using assms eq_neg_iff_add_eq_0 [of "interrupt_disable_depth p c" 1] by auto
  then show ?thesis
    by (simp add: cortos_port_irq_save_def cortos_port_irq_restore_def set_irq_depth_def word_neq_0_conv)
qed

end
