(* ===== verification/Timer_Interface.thy ===== *)
theory Timer_Interface
  imports Cortos_Prelude "HOL-Library.Multiset"
begin

text \<open>
  The contract that the time drivers share (time.hpp), as a locale: callbacks are scheduled at
  absolute times, cancelled by their handles, and invoked when the clock has reached their time.
  The client's view is a script of operations; what a driver answers is what a list of pending
  callbacks allows.

  Callbacks may themselves call the driver.  A callback is a program that asks for the time, schedules
  and cancels, and goes on according to the answers; which program a function runs may depend on all
  calls made so far, so a callback can keep state.  Drivers differ in how many callbacks they hold, in
  the order in which they run the callbacks that fall due at the same moment, and in when a due callback
  can no longer be cancelled; the specification leaves these open.
\<close>

section \<open>The specification\<close>

text \<open>A pending callback: its handle, its time, the function and the argument.\<close>

type_synonym timer = "u64 \<times> u64 \<times> u64"
type_synonym pending = "(u32 \<times> timer) list"

datatype timer_op = Schedule u64 u64 u64 | Cancel u32 | Advance u64

datatype timer_result = Handle u32 | Cancelled bool | Fired "(u64 \<times> u64) list"

datatype cb_prog = Return | Call_now "u64 \<Rightarrow> cb_prog" | Call_schedule u64 u64 u64 "u32 \<Rightarrow> cb_prog"
  | Call_cancel u32 "bool \<Rightarrow> cb_prog"

text \<open>What a function does with an argument, given the calls so far, the present one included.\<close>

type_synonym behaviour = "(u64 \<times> u64) list \<Rightarrow> u64 \<Rightarrow> u64 \<Rightarrow> cb_prog"

definition is_due :: "nat \<Rightarrow> u32 \<times> timer \<Rightarrow> bool" where
  "is_due t e \<longleftrightarrow> unat (fst (snd e)) \<le> t"

definition the_call :: "u32 \<times> timer \<Rightarrow> u64 \<times> u64" where
  "the_call e = snd (snd e)"

definition without :: "u32 \<Rightarrow> pending \<Rightarrow> pending" where
  "without h xs = filter (\<lambda>e. fst e \<noteq> h) xs"

text \<open>
  Scheduling when the next handle is \<open>n\<close> and \<open>xs\<close> are pending; \<open>room k\<close> says whether a driver that holds
  \<open>k\<close> callbacks accepts another.  After \<open>2 ^ 32 - 2\<close> handles the counter of the drivers would wrap, and the
  specification ends: \<^const>\<open>None\<close>.
\<close>

definition schedule_spec :: "(nat \<Rightarrow> bool) \<Rightarrow> u64 \<Rightarrow> u64 \<Rightarrow> u64 \<Rightarrow> nat \<times> pending \<Rightarrow> (u32 \<times> nat \<times> pending) option" where
  "schedule_spec room tp cb arg = (\<lambda>(n, xs).
     if cb = 0 \<or> \<not> room (length xs) then Some (0, n, xs)
     else if Suc n < 2 ^ 32 then Some (of_nat n, Suc n, xs @ [(of_nat n, tp, cb, arg)]) else None)"

primrec prog_spec :: "(nat \<Rightarrow> bool) \<Rightarrow> nat \<Rightarrow> cb_prog \<Rightarrow> nat \<times> pending \<Rightarrow> (nat \<times> pending) option" where
  "prog_spec room t Return = (\<lambda>st. Some st)"
| "prog_spec room t (Call_now f) = (\<lambda>st. prog_spec room t (f (of_nat t)) st)"
| "prog_spec room t (Call_schedule tp cb arg f) =
     (\<lambda>st. case schedule_spec room tp cb arg st of None \<Rightarrow> None | Some (h, st1) \<Rightarrow> prog_spec room t (f h) st1)"
| "prog_spec room t (Call_cancel h f) =
     (\<lambda>(n, xs). prog_spec room t (f (h \<in> fst ` set xs)) (n, without h xs))"

text \<open>
  One interrupt at time \<open>t\<close>, for the handles \<open>D\<close> that were due when it began: a due callback is taken out
  of the pending ones, and called later in the same interrupt.  At the end none of \<open>D\<close> is left: each was
  called, or cancelled before it was taken out.  Callbacks that the callbacks schedule for a time that has come
  may be called in the same interrupt or in the next one.
\<close>

inductive isr_run :: "(nat \<Rightarrow> bool) \<Rightarrow> behaviour \<Rightarrow> nat \<Rightarrow> u32 set \<Rightarrow> nat \<times> pending \<Rightarrow> pending \<Rightarrow> (u64 \<times> u64) list \<Rightarrow>
    (u64 \<times> u64) list \<Rightarrow> (nat \<times> pending) option \<Rightarrow> bool"
  for room :: "nat \<Rightarrow> bool" and beh :: behaviour and t :: nat and D :: "u32 set" where
  isr_end: "D \<inter> fst ` set xs = {} \<Longrightarrow> isr_run room beh t D (n, xs) [] cs [] (Some (n, xs))"
| isr_take: "e \<in> set xs \<Longrightarrow> is_due t e \<Longrightarrow> isr_run room beh t D (n, without (fst e) xs) (fl @ [e]) cs evs out \<Longrightarrow>
    isr_run room beh t D (n, xs) fl cs evs out"
| isr_call: "the_call e = (cb, arg) \<Longrightarrow> prog_spec room t (beh (cs @ [(cb, arg)]) cb arg) st = Some st1 \<Longrightarrow>
    isr_run room beh t D st1 (fl1 @ fl2) (cs @ [(cb, arg)]) evs out \<Longrightarrow>
    isr_run room beh t D st (fl1 @ e # fl2) cs ((cb, arg) # evs) out"
| isr_exhausted: "the_call e = (cb, arg) \<Longrightarrow> prog_spec room t (beh (cs @ [(cb, arg)]) cb arg) st = None \<Longrightarrow>
    isr_run room beh t D st (fl1 @ e # fl2) cs ((cb, arg) # evs) None"

text \<open>A callback that is called as soon as it is taken out.\<close>

lemma isr_take_call:
  assumes "e \<in> set xs" "is_due t e" "the_call e = (cb, arg)"
    "prog_spec room t (beh (cs @ [(cb, arg)]) cb arg) (n, without (fst e) xs) = Some st1"
    "isr_run room beh t D st1 [] (cs @ [(cb, arg)]) evs out"
  shows "isr_run room beh t D (n, xs) [] cs ((cb, arg) # evs) out"
  using isr_take [OF assms(1,2), of room beh D n "[]"] isr_call [where ?fl1.0 = "[]" and ?fl2.0 = "[]" and beh = beh, OF assms(3,4)] assms(5)
  by simp

lemma isr_take_exhausted:
  assumes "e \<in> set xs" "is_due t e" "the_call e = (cb, arg)"
    "prog_spec room t (beh (cs @ [(cb, arg)]) cb arg) (n, without (fst e) xs) = None"
  shows "isr_run room beh t D (n, xs) [] cs ((cb, arg) # evs) None"
  using isr_take [OF assms(1,2), of room beh D n "[]"] isr_exhausted [where ?fl1.0 = "[]" and ?fl2.0 = "[]" and beh = beh, OF assms(3,4)]
  by simp

text \<open>Several callbacks that are taken out before the first of them is called.\<close>

lemma without_other: "h \<notin> fst ` set xs \<Longrightarrow> without h xs = xs"
  unfolding without_def by (intro filter_True) (metis image_eqI)

lemma isr_take_all:
  "isr_run room beh t D (n, filter (\<lambda>e. fst e \<notin> fst ` set ys) xs) (fl @ ys) cs evs out \<Longrightarrow> set ys \<subseteq> set xs \<Longrightarrow>
   distinct (map fst ys) \<Longrightarrow> (\<And>e. e \<in> set ys \<Longrightarrow> is_due t e) \<Longrightarrow> isr_run room beh t D (n, xs) fl cs evs out"
proof (induction ys arbitrary: xs fl)
  case (Cons e ys)
  have "filter (\<lambda>x. fst x \<notin> fst ` set ys) (without (fst e) xs) = filter (\<lambda>x. fst x \<notin> fst ` set (e # ys)) xs"
    by (auto simp: without_def intro!: filter_cong)
  moreover have "fst x \<noteq> fst e" if "x \<in> set ys" for x using Cons.prems(3) that by (metis distinct.simps(2) image_eqI list.simps(9) list.set_map)
  then have "set ys \<subseteq> set (without (fst e) xs)" using Cons.prems(2) by (auto simp: without_def)
  ultimately have "isr_run room beh t D (n, without (fst e) xs) (fl @ [e]) cs evs out"
    using Cons.IH [of "without (fst e) xs" "fl @ [e]"] Cons.prems by simp
  then show ?case using isr_take [of e xs t] Cons.prems(2,4) by simp
qed simp

text \<open>New callbacks get new handles: those that were taken out do not come back.\<close>

lemma schedule_spec_avoids:
  "schedule_spec room tp cb arg (n, xs) = Some (h, n1, xs1) \<Longrightarrow> n < 2 ^ 32 \<Longrightarrow> D \<inter> fst ` set xs = {} \<Longrightarrow>
   \<forall>g \<in> D. unat g < n \<Longrightarrow> D \<inter> fst ` set xs1 = {} \<and> (\<forall>g \<in> D. unat g < n1) \<and> n1 < 2 ^ 32"
proof -
  assume a: "schedule_spec room tp cb arg (n, xs) = Some (h, n1, xs1)" "n < 2 ^ 32" "D \<inter> fst ` set xs = {}" "\<forall>g \<in> D. unat g < n"
  have "unat (of_nat n :: u32) = n" using a(2) by (simp add: unat_of_nat take_bit_nat_eq_self)
  then have "(of_nat n :: u32) \<notin> D" using a(4) by (metis less_irrefl)
  then have "D \<inter> fst ` set (xs @ [(of_nat n, tp, cb, arg)]) = {}" using a(3) by simp
  moreover have "n1 = n \<and> xs1 = xs \<or> n1 = Suc n \<and> Suc n < 2 ^ 32 \<and> xs1 = xs @ [(of_nat n, tp, cb, arg)]"
    using a(1) by (auto simp: schedule_spec_def split: if_splits)
  ultimately show ?thesis using a(2-4) by (metis less_SucI)
qed

lemma prog_spec_avoids:
  "prog_spec room t p (n, xs) = Some (n1, xs1) \<Longrightarrow> n < 2 ^ 32 \<Longrightarrow> D \<inter> fst ` set xs = {} \<Longrightarrow> \<forall>g \<in> D. unat g < n \<Longrightarrow>
   D \<inter> fst ` set xs1 = {} \<and> (\<forall>g \<in> D. unat g < n1) \<and> n1 < 2 ^ 32"
proof (induction p arbitrary: n xs)
  case (Call_now f)
  then show ?case using Call_now.IH [of "f (of_nat t)" n xs] by simp
next
  case (Call_schedule tp cb arg f)
  obtain h n2 xs2 where sp: "schedule_spec room tp cb arg (n, xs) = Some (h, n2, xs2)"
    "prog_spec room t (f h) (n2, xs2) = Some (n1, xs1)"
    using Call_schedule.prems(1) by (auto split: option.splits)
  have "D \<inter> fst ` set xs2 = {} \<and> (\<forall>g \<in> D. unat g < n2) \<and> n2 < 2 ^ 32"
    by (rule schedule_spec_avoids [OF sp(1) Call_schedule.prems(2-4)])
  then show ?case using Call_schedule.IH [OF _ sp(2)] by blast
next
  case (Call_cancel h f)
  have "D \<inter> fst ` set (without h xs) = {}" using Call_cancel.prems(3) by (auto simp: without_def)
  then show ?case using Call_cancel.IH [of "f (h \<in> fst ` set xs)" n "without h xs"] Call_cancel.prems by simp
qed simp_all

text \<open>
  When the callbacks do not call the driver, an interrupt calls exactly the callbacks that were due, each once, and
  leaves the others.
\<close>

lemma isr_run_quiet:
  "isr_run room (\<lambda>cs cb arg. Return) t D st fl cs evs out \<Longrightarrow> distinct (map fst (snd st)) \<Longrightarrow>
   D = fst ` {e \<in> set us. is_due t e} \<Longrightarrow> set (snd st) \<subseteq> set us \<Longrightarrow>
   out = Some (fst st, filter (\<lambda>e. \<not> is_due t e) (snd st)) \<and>
   mset evs = mset (map the_call (fl @ filter (is_due t) (snd st)))"
proof (induction rule: isr_run.induct)
  case (isr_end xs n cs)
  then have "\<forall>e \<in> set xs. \<not> is_due t e" by fastforce
  then have "filter (is_due t) xs = []" "filter (\<lambda>e. \<not> is_due t e) xs = xs" by (auto simp: filter_empty_conv)
  then show ?case by simp
next
  case (isr_take e xs n fl cs evs out)
  have inj: "inj_on fst (set xs)" using isr_take.prems(1) by (simp add: distinct_map)
  have "distinct (map fst (without (fst e) xs))" "set (without (fst e) xs) \<subseteq> set us"
    using isr_take.prems by (auto simp: without_def distinct_map_filter)
  then have IH: "out = Some (n, filter (\<lambda>e. \<not> is_due t e) (without (fst e) xs))"
    "mset evs = mset (map the_call ((fl @ [e]) @ filter (is_due t) (without (fst e) xs)))"
    using isr_take.IH isr_take.prems(2) by simp_all
  have w: "without (fst e) xs = filter (\<lambda>x. x \<noteq> e) xs"
    unfolding without_def using inj isr_take.hyps(1) by (intro filter_cong) (auto dest: inj_onD)
  have "distinct xs" using isr_take.prems(1) by (simp add: distinct_map)
  then have "filter (\<lambda>x. x \<noteq> e) xs = remove1 e xs" by (simp add: distinct_remove1_removeAll removeAll_filter_not_eq eq_commute)
  then have "mset (filter (is_due t) xs) = add_mset e (mset (filter (is_due t) (filter (\<lambda>x. x \<noteq> e) xs)))"
    using isr_take.hyps(1,2) by (simp add: filter_remove1)
  moreover have "filter (\<lambda>e. \<not> is_due t e) (filter (\<lambda>x. x \<noteq> e) xs) = filter (\<lambda>e. \<not> is_due t e) xs"
    using isr_take.hyps(2) by (auto intro: filter_cong)
  ultimately show ?case using IH unfolding w by simp
next
  case (isr_call e cb arg cs st st1 fl1 fl2 evs out)
  then show ?case by simp
qed simp_all

text \<open>
  The answers that a script may get; \<open>timer_runs room beh ops (n, t, xs) cs rs out\<close>: the next handle is \<open>n\<close>,
  the clock shows \<open>t\<close>, \<open>xs\<close> are pending and \<open>cs\<close> are the calls so far.
\<close>

inductive timer_runs :: "(nat \<Rightarrow> bool) \<Rightarrow> behaviour \<Rightarrow> timer_op list \<Rightarrow> nat \<times> nat \<times> pending \<Rightarrow> (u64 \<times> u64) list \<Rightarrow>
    timer_result list \<Rightarrow> (nat \<times> nat \<times> pending) option \<Rightarrow> bool"
  for room :: "nat \<Rightarrow> bool" and beh :: behaviour where
  runs_end: "timer_runs room beh [] st cs [] (Some st)"
| runs_schedule: "schedule_spec room tp cb arg (n, xs) = Some (h, n1, xs1) \<Longrightarrow>
    timer_runs room beh ops (n1, t, xs1) cs rs out \<Longrightarrow>
    timer_runs room beh (Schedule tp cb arg # ops) (n, t, xs) cs (Handle h # rs) out"
| runs_schedule_exhausted: "schedule_spec room tp cb arg (n, xs) = None \<Longrightarrow>
    timer_runs room beh (Schedule tp cb arg # ops) (n, t, xs) cs rs None"
| runs_cancel: "timer_runs room beh ops (n, t, without h xs) cs rs out \<Longrightarrow>
    timer_runs room beh (Cancel h # ops) (n, t, xs) cs (Cancelled (h \<in> fst ` set xs) # rs) out"
| runs_advance: "isr_run room beh (t + unat d) (fst ` {e \<in> set xs. is_due (t + unat d) e}) (n, xs) [] cs evs (Some (n1, xs1)) \<Longrightarrow>
    timer_runs room beh ops (n1, t + unat d, xs1) (cs @ evs) rs out \<Longrightarrow>
    timer_runs room beh (Advance d # ops) (n, t, xs) cs (Fired evs # rs) out"
| runs_advance_exhausted:
    "isr_run room beh (t + unat d) (fst ` {e \<in> set xs. is_due (t + unat d) e}) (n, xs) [] cs evs None \<Longrightarrow>
    timer_runs room beh (Advance d # ops) (n, t, xs) cs (Fired evs # rs) None"

fun advance_sum :: "timer_op list \<Rightarrow> nat" where
  "advance_sum [] = 0"
| "advance_sum (Advance d # ops) = unat d + advance_sum ops"
| "advance_sum (Schedule _ _ _ # ops) = advance_sum ops"
| "advance_sum (Cancel _ # ops) = advance_sum ops"

section \<open>Running a driver\<close>

text \<open>A callback on a driver with the given operations.\<close>

primrec run_prog ::
  "(u64 \<Rightarrow> u64 \<Rightarrow> u64 \<Rightarrow> 's \<Rightarrow> (u32 \<times> 's) option) \<Rightarrow> (u32 \<Rightarrow> 's \<Rightarrow> (bool \<times> 's) option) \<Rightarrow> ('s \<Rightarrow> u64 option) \<Rightarrow>
   cb_prog \<Rightarrow> 's \<Rightarrow> 's option" where
  "run_prog sched canc now Return = (\<lambda>s. Some s)"
| "run_prog sched canc now (Call_now f) =
     (\<lambda>s. case now s of None \<Rightarrow> None | Some t \<Rightarrow> run_prog sched canc now (f t) s)"
| "run_prog sched canc now (Call_schedule tp cb arg f) =
     (\<lambda>s. case sched tp cb arg s of None \<Rightarrow> None | Some (h, s1) \<Rightarrow> run_prog sched canc now (f h) s1)"
| "run_prog sched canc now (Call_cancel h f) =
     (\<lambda>s. case canc h s of None \<Rightarrow> None | Some (b, s1) \<Rightarrow> run_prog sched canc now (f b) s1)"

definition run_callback ::
  "(u64 \<Rightarrow> u64 \<Rightarrow> u64 \<Rightarrow> 's \<Rightarrow> (u32 \<times> 's) option) \<Rightarrow> (u32 \<Rightarrow> 's \<Rightarrow> (bool \<times> 's) option) \<Rightarrow> ('s \<Rightarrow> u64 option) \<Rightarrow>
   ('s \<Rightarrow> (u64 \<times> u64) list) \<Rightarrow> behaviour \<Rightarrow> u64 \<Rightarrow> u64 \<Rightarrow> 's \<Rightarrow> 's option" where
  "run_callback sched canc now calls beh cb arg s = run_prog sched canc now (beh (calls s) cb arg) s"

text \<open>A script on a driver; \<open>calls\<close> lists the callbacks invoked so far.\<close>

fun timer_run ::
  "(u64 \<Rightarrow> u64 \<Rightarrow> u64 \<Rightarrow> 's \<Rightarrow> (u32 \<times> 's) option) \<Rightarrow> (u32 \<Rightarrow> 's \<Rightarrow> (bool \<times> 's) option) \<Rightarrow>
   (u64 \<Rightarrow> 's \<Rightarrow> 's option) \<Rightarrow> ('s \<Rightarrow> (u64 \<times> u64) list) \<Rightarrow> timer_op list \<Rightarrow> 's
   \<Rightarrow> (timer_result list \<times> 's) option" where
  "timer_run sched canc adv calls [] s = Some ([], s)"
| "timer_run sched canc adv calls (Schedule tp cb arg # ops) s = do {
     (h, s1) \<leftarrow> sched tp cb arg s;
     (rs, s2) \<leftarrow> timer_run sched canc adv calls ops s1; Some (Handle h # rs, s2) }"
| "timer_run sched canc adv calls (Cancel h # ops) s = do {
     (b, s1) \<leftarrow> canc h s;
     (rs, s2) \<leftarrow> timer_run sched canc adv calls ops s1; Some (Cancelled b # rs, s2) }"
| "timer_run sched canc adv calls (Advance d # ops) s = do {
     s1 \<leftarrow> adv d s;
     (rs, s2) \<leftarrow> timer_run sched canc adv calls ops s1;
     Some (Fired (drop (length (calls s)) (calls s1)) # rs, s2) }"

text \<open>An example: function 7 schedules function 9 three ticks ahead, and function 8 cancels handle 2.\<close>

definition timer_demo_beh :: behaviour where
  "timer_demo_beh cs cb arg =
     (if cb = 7 then Call_now (\<lambda>now. Call_schedule (now + 3) 9 arg (\<lambda>h. Return))
      else if cb = 8 then Call_cancel 2 (\<lambda>b. Return) else Return)"

definition timer_demo_script :: "timer_op list" where
  "timer_demo_script = [Schedule 20 7 1, Schedule 20 6 2, Schedule 5 8 0, Advance 10, Advance 10, Advance 10, Cancel 1]"

section \<open>The contract of the operations\<close>

text \<open>
  \<open>rep n t s xs\<close>: state \<open>s\<close> of the driver holds the pending callbacks \<open>xs\<close>, hands out \<open>n\<close> next and
  its clock shows \<open>t\<close>.  \<open>safe s\<close>: the operations return, even when the handle counter has wrapped.
\<close>

locale timer_operations =
  fixes rep :: "nat \<Rightarrow> nat \<Rightarrow> 's \<Rightarrow> pending \<Rightarrow> bool"
    and safe :: "'s \<Rightarrow> bool"
    and schedule :: "u64 \<Rightarrow> u64 \<Rightarrow> u64 \<Rightarrow> 's \<Rightarrow> (u32 \<times> 's) option"
    and cancel :: "u32 \<Rightarrow> 's \<Rightarrow> (bool \<times> 's) option"
    and now :: "'s \<Rightarrow> u64 option"
    and calls :: "'s \<Rightarrow> (u64 \<times> u64) list"
    and room :: "nat \<Rightarrow> bool"
  assumes rep_safe: "rep n t s xs \<Longrightarrow> safe s"
    and schedule_safe: "safe s \<Longrightarrow> \<exists>h s'. schedule tp cb arg s = Some (h, s') \<and> safe s' \<and> calls s' = calls s"
    and cancel_safe: "safe s \<Longrightarrow> \<exists>b s'. cancel h s = Some (b, s') \<and> safe s' \<and> calls s' = calls s"
    and now_safe: "safe s \<Longrightarrow> now s \<noteq> None"
    and schedule_rep: "rep n t s xs \<Longrightarrow> schedule_spec room tp cb arg (n, xs) = Some (h, n1, xs1) \<Longrightarrow>
      \<exists>s'. schedule tp cb arg s = Some (h, s') \<and> rep n1 t s' xs1 \<and> calls s' = calls s"
    and cancel_rep: "rep n t s xs \<Longrightarrow>
      \<exists>s'. cancel h s = Some (h \<in> fst ` set xs, s') \<and> rep n t s' (without h xs) \<and> calls s' = calls s"
    and now_rep: "rep n t s xs \<Longrightarrow> now s = Some (of_nat t)"
begin

text \<open>A callback does to the driver what it does to the pending callbacks.\<close>

lemma prog_safe: "safe s \<Longrightarrow> \<exists>s'. run_prog schedule cancel now p s = Some s' \<and> safe s' \<and> calls s' = calls s"
proof (induction p arbitrary: s)
  case Return
  then show ?case by simp
next
  case (Call_now f)
  obtain t where "now s = Some t" using now_safe [OF Call_now.prems] by blast
  then show ?case using Call_now.IH [of "f t" s] Call_now.prems by simp
next
  case (Call_schedule tp cb arg f)
  obtain h s1 where "schedule tp cb arg s = Some (h, s1)" "safe s1" "calls s1 = calls s"
    using schedule_safe [OF Call_schedule.prems] by blast
  then show ?case using Call_schedule.IH [of "f h" s1] by simp
next
  case (Call_cancel h f)
  obtain b s1 where "cancel h s = Some (b, s1)" "safe s1" "calls s1 = calls s"
    using cancel_safe [OF Call_cancel.prems] by blast
  then show ?case using Call_cancel.IH [of "f b" s1] by simp
qed

lemma prog_rep:
  "rep n t s xs \<Longrightarrow> prog_spec room t p (n, xs) = Some (n1, xs1) \<Longrightarrow>
   \<exists>s'. run_prog schedule cancel now p s = Some s' \<and> rep n1 t s' xs1 \<and> calls s' = calls s"
proof (induction p arbitrary: s n xs)
  case Return
  then show ?case by simp
next
  case (Call_now f)
  then show ?case using now_rep [OF Call_now.prems(1)] by simp
next
  case (Call_schedule tp cb arg f)
  obtain h n2 xs2 where sp: "schedule_spec room tp cb arg (n, xs) = Some (h, n2, xs2)"
    "prog_spec room t (f h) (n2, xs2) = Some (n1, xs1)"
    using Call_schedule.prems(2) by (auto split: option.splits)
  obtain s1 where "schedule tp cb arg s = Some (h, s1)" "rep n2 t s1 xs2" "calls s1 = calls s"
    using schedule_rep [OF Call_schedule.prems(1) sp(1)] by blast
  then show ?case using Call_schedule.IH [of "f h" n2 s1 xs2] sp(2) by simp
next
  case (Call_cancel h f)
  obtain s1 where "cancel h s = Some (h \<in> fst ` set xs, s1)" "rep n t s1 (without h xs)" "calls s1 = calls s"
    using cancel_rep [OF Call_cancel.prems(1)] by blast
  then show ?case using Call_cancel.IH [of "f (h \<in> fst ` set xs)" n s1 "without h xs"] Call_cancel.prems(2) by simp
qed

abbreviation callback :: "behaviour \<Rightarrow> u64 \<Rightarrow> u64 \<Rightarrow> 's \<Rightarrow> 's option" where
  "callback \<equiv> run_callback schedule cancel now calls"

lemma callback_safe: "safe s \<Longrightarrow> \<exists>s'. callback beh cb arg s = Some s' \<and> safe s' \<and> calls s' = calls s"
  by (simp add: run_callback_def prog_safe)

end

section \<open>The contract of a driver\<close>

locale timer_driver = timer_operations +
  fixes advance :: "(u64 \<Rightarrow> u64 \<Rightarrow> 'a \<Rightarrow> 'a option) \<Rightarrow> u64 \<Rightarrow> 'a \<Rightarrow> 'a option" and horizon :: nat
  assumes advance_safe: "safe s \<Longrightarrow> \<exists>s' evs. advance (callback beh) d s = Some s' \<and> safe s' \<and> calls s' = calls s @ evs"
    and advance_rep: "rep n t s xs \<Longrightarrow> t + unat d < horizon \<Longrightarrow>
      \<exists>s' evs out. advance (callback beh) d s = Some s' \<and> calls s' = calls s @ evs \<and>
        isr_run room beh (t + unat d) (fst ` {e \<in> set xs. is_due (t + unat d) e}) (n, xs) [] (calls s) evs out \<and>
        (case out of None \<Rightarrow> safe s' | Some (n1, xs1) \<Rightarrow> rep n1 (t + unat d) s' xs1)"
begin

lemma script_safe:
  "safe s \<Longrightarrow> \<exists>rs s'. timer_run schedule cancel (advance (callback beh)) calls ops s = Some (rs, s') \<and> safe s'"
proof (induction ops arbitrary: s)
  case (Cons op ops)
  show ?case
  proof (cases op)
    case (Schedule tp cb arg)
    then show ?thesis using schedule_safe [OF Cons.prems, of tp cb arg] Cons.IH by fastforce
  next
    case (Cancel h)
    then show ?thesis using cancel_safe [OF Cons.prems, of h] Cons.IH by fastforce
  next
    case (Advance d)
    then show ?thesis using advance_safe [OF Cons.prems, of beh d] Cons.IH by fastforce
  qed
qed simp

text \<open>A driver answers every script in a way that the specification allows.\<close>

lemma timer_refines:
  "rep n t s xs \<Longrightarrow> t + advance_sum ops < horizon \<Longrightarrow>
   \<exists>rs s' out. timer_run schedule cancel (advance (callback beh)) calls ops s = Some (rs, s') \<and>
     timer_runs room beh ops (n, t, xs) (calls s) rs out \<and>
     (case out of None \<Rightarrow> safe s' | Some (n1, t1, xs1) \<Rightarrow> rep n1 t1 s' xs1)"
proof (induction ops arbitrary: n t s xs)
  case Nil
  then show ?case by (auto intro: runs_end)
next
  case (Cons op ops)
  note safe = rep_safe [OF Cons.prems(1)]
  show ?case
  proof (cases op)
    case (Schedule tp cb arg)
    show ?thesis
    proof (cases "schedule_spec room tp cb arg (n, xs)")
      case None
      obtain rs s' where "timer_run schedule cancel (advance (callback beh)) calls (op # ops) s = Some (rs, s')" "safe s'"
        using script_safe [OF safe] by blast
      then show ?thesis using runs_schedule_exhausted [OF None] Schedule by fastforce
    next
      case (Some r)
      obtain h n1 xs1 where r: "schedule_spec room tp cb arg (n, xs) = Some (h, n1, xs1)" using Some by (cases r) auto
      obtain s1 where s1: "schedule tp cb arg s = Some (h, s1)" "rep n1 t s1 xs1" "calls s1 = calls s"
        using schedule_rep [OF Cons.prems(1) r] by blast
      have "t + advance_sum ops < horizon" using Cons.prems(2) Schedule by simp
      from Cons.IH [OF s1(2) this] obtain rs s' out where
        "timer_run schedule cancel (advance (callback beh)) calls ops s1 = Some (rs, s')"
        "timer_runs room beh ops (n1, t, xs1) (calls s) rs out"
        "case out of None \<Rightarrow> safe s' | Some (n1, t1, xs1) \<Rightarrow> rep n1 t1 s' xs1" unfolding s1(3) by blast
      then show ?thesis using runs_schedule [OF r] Schedule s1(1)
        by (intro exI [of _ "Handle h # rs"] exI [of _ s'] exI [of _ out]) simp
    qed
  next
    case (Cancel h)
    obtain s1 where s1: "cancel h s = Some (h \<in> fst ` set xs, s1)" "rep n t s1 (without h xs)" "calls s1 = calls s"
      using cancel_rep [OF Cons.prems(1), of h] by blast
    have "t + advance_sum ops < horizon" using Cons.prems(2) Cancel by simp
    from Cons.IH [OF s1(2) this] obtain rs s' out where
      "timer_run schedule cancel (advance (callback beh)) calls ops s1 = Some (rs, s')"
      "timer_runs room beh ops (n, t, without h xs) (calls s) rs out"
      "case out of None \<Rightarrow> safe s' | Some (n1, t1, xs1) \<Rightarrow> rep n1 t1 s' xs1" unfolding s1(3) by blast
    then show ?thesis using runs_cancel Cancel s1(1)
      by (intro exI [of _ "Cancelled (h \<in> fst ` set xs) # rs"] exI [of _ s'] exI [of _ out]) simp
  next
    case (Advance d)
    let ?t = "t + unat d" and ?D = "fst ` {e \<in> set xs. is_due (t + unat d) e}"
    have lt: "?t < horizon" "?t + advance_sum ops < horizon" using Cons.prems(2) Advance by simp_all
    obtain s1 evs out1 where s1: "advance (callback beh) d s = Some s1" "calls s1 = calls s @ evs"
      "isr_run room beh ?t ?D (n, xs) [] (calls s) evs out1"
      "case out1 of None \<Rightarrow> safe s1 | Some (n1, xs1) \<Rightarrow> rep n1 ?t s1 xs1"
      using advance_rep [OF Cons.prems(1) lt(1), of beh] by blast
    show ?thesis
    proof (cases out1)
      case None
      then have "safe s1" using s1(4) by simp
      then obtain rs s' where rs: "timer_run schedule cancel (advance (callback beh)) calls ops s1 = Some (rs, s')" "safe s'"
        using script_safe by blast
      have "timer_runs room beh (op # ops) (n, t, xs) (calls s) (Fired evs # rs) None"
        unfolding Advance by (rule runs_advance_exhausted) (use s1(3) None in simp)
      then show ?thesis using Advance s1(1,2) rs
        by (intro exI [of _ "Fired evs # rs"] exI [of _ s'] exI [of _ None]) simp
    next
      case (Some st)
      obtain n1 xs1 where st: "out1 = Some (n1, xs1)" using Some by (cases st) auto
      then have "rep n1 ?t s1 xs1" using s1(4) by simp
      from Cons.IH [OF this lt(2)] obtain rs s' out where l:
        "timer_run schedule cancel (advance (callback beh)) calls ops s1 = Some (rs, s')"
        "timer_runs room beh ops (n1, ?t, xs1) (calls s @ evs) rs out"
        "case out of None \<Rightarrow> safe s' | Some (n1, t1, xs1) \<Rightarrow> rep n1 t1 s' xs1" unfolding s1(2) by blast
      have "timer_runs room beh (op # ops) (n, t, xs) (calls s) (Fired evs # rs) out"
        unfolding Advance by (rule runs_advance [OF _ l(2)]) (use s1(3) st in simp)
      then show ?thesis using Advance s1(1,2) l(1,3)
        by (intro exI [of _ "Fired evs # rs"] exI [of _ s'] exI [of _ out]) simp
    qed
  qed
qed

end

end
