(* ===== verification/Time_Slots.thy ===== *)
theory Time_Slots
  imports Time_Port Timer_Interface "HOL-Library.Multiset"
begin

text \<open>
  What the periodic and the tickless time driver have in common: both files declare the same slot
  array, the same handle counter, the same interrupt guard and the same loop that runs the callbacks
  that are due.  The two drivers themselves are in theories \<open>Time_Periodic\<close> and \<open>Time_Tickless\<close>.

  Callbacks are code of the application: a parameter \<open>act\<close> of the definitions that call them.  A
  callback may itself call the driver, so it works on the whole state; \<^const>\<open>None\<close> stands for a call
  that fails.  Which callbacks were called with which arguments is recorded.
\<close>

section \<open>State\<close>

definition MAX_SCHEDULED_CALLBACKS :: nat where "MAX_SCHEDULED_CALLBACKS = 16"

record Slot =
  s_id :: u32
  s_when :: u64
  s_cb :: u64
  s_arg :: u64

definition Slot_init :: Slot where
  "Slot_init = \<lparr>s_id = 0, s_when = 0, s_cb = 0, s_arg = 0\<rparr>"

record DriverState =
  ds_initialised :: bool
  ds_frequency_hz :: u32
  ds_next_id :: u32
  ds_started :: bool
  ds_slots :: "Slot list"

definition DriverState_init :: DriverState where
  "DriverState_init =
     \<lparr>ds_initialised = False, ds_frequency_hz = 0, ds_next_id = 1, ds_started = False,
      ds_slots = replicate MAX_SCHEDULED_CALLBACKS Slot_init\<rparr>"

record timer_sys =
  ts_irq :: port_state
  ts_time :: TimeState
  ts_ds :: DriverState
  ts_calls :: "(u64 \<times> u64) list"

definition timer_sys_init :: timer_sys where
  "timer_sys_init =
     \<lparr>ts_irq = port_state_init, ts_time = TimeState_init, ts_ds = DriverState_init, ts_calls = []\<rparr>"

lemmas timer_init_defs =
  timer_sys_init_def DriverState_init_def TimeState_init_def port_state_init_def

type_synonym callbacks = "u64 \<Rightarrow> u64 \<Rightarrow> timer_sys \<Rightarrow> timer_sys option"

section \<open>Operations\<close>

text \<open>\<^verbatim>\<open>IrqGuard\<close> around a block, on core \<open>c\<close>\<close>

definition with_IrqGuard :: "nat \<Rightarrow> (timer_sys \<Rightarrow> 'r \<times> timer_sys) \<Rightarrow> timer_sys \<Rightarrow> 'r \<times> timer_sys" where
  "with_IrqGuard c body s =
     (let (st, p) = cortos_port_irq_save c (ts_irq s);
          (r, s) = body (s\<lparr>ts_irq := p\<rparr>)
      in (r, s\<lparr>ts_irq := cortos_port_irq_restore c st (ts_irq s)\<rparr>))"

text \<open>The index of the first slot with a property.\<close>

fun find_slot :: "(Slot \<Rightarrow> bool) \<Rightarrow> Slot list \<Rightarrow> nat option" where
  "find_slot P [] = None"
| "find_slot P (x # xs) = (if P x then Some 0 else map_option Suc (find_slot P xs))"

text \<open>\<^verbatim>\<open>next_id++\<close>, skipping the invalid handle 0\<close>

definition take_id :: "DriverState \<Rightarrow> u32 \<times> DriverState" where
  "take_id ds =
     (let i = ds_next_id ds; ds = ds\<lparr>ds_next_id := ds_next_id ds + 1\<rparr>
      in if i = 0 then (ds_next_id ds, ds\<lparr>ds_next_id := ds_next_id ds + 1\<rparr>) else (i, ds))"

text \<open>The loop of \<^verbatim>\<open>schedule_at\<close>: \<^const>\<open>None\<close> when there is no free slot.\<close>

definition claim_slot :: "u64 \<Rightarrow> u64 \<Rightarrow> u64 \<Rightarrow> DriverState \<Rightarrow> (u32 \<times> DriverState) option" where
  "claim_slot tp cb arg ds =
     (case find_slot (\<lambda>s. s_id s = 0) (ds_slots ds) of
        None \<Rightarrow> None
      | Some i \<Rightarrow> (let (h, ds) = take_id ds
          in Some (h, ds\<lparr>ds_slots := (ds_slots ds)[i := \<lparr>s_id = h, s_when = tp, s_cb = cb, s_arg = arg\<rparr>]\<rparr>)))"

text \<open>The loop of \<^verbatim>\<open>cancel\<close>.\<close>

definition release_slot :: "u32 \<Rightarrow> DriverState \<Rightarrow> DriverState option" where
  "release_slot h ds =
     (case find_slot (\<lambda>s. s_id s = h) (ds_slots ds) of
        None \<Rightarrow> None
      | Some i \<Rightarrow> Some (ds\<lparr>ds_slots := (ds_slots ds)[i := Slot_init]\<rparr>))"

text \<open>
  \<^verbatim>\<open>fire_due_isr\<close>: the slots in order; a slot is read when the loop reaches it, and is freed before
  its callback runs.
\<close>

fun fire_slots :: "callbacks \<Rightarrow> u64 \<Rightarrow> nat list \<Rightarrow> timer_sys \<Rightarrow> timer_sys option" where
  "fire_slots act now_ticks [] s = Some s"
| "fire_slots act now_ticks (i # is) s =
     (let slot = ds_slots (ts_ds s) ! i
      in if s_id slot \<noteq> 0 \<and> s_when slot \<le> now_ticks
         then do {
           s \<leftarrow> act (s_cb slot) (s_arg slot)
             (s\<lparr>ts_ds := (ts_ds s)\<lparr>ds_slots := (ds_slots (ts_ds s))[i := Slot_init]\<rparr>,
               ts_calls := ts_calls s @ [(s_cb slot, s_arg slot)]\<rparr>);
           fire_slots act now_ticks is s }
         else fire_slots act now_ticks is s)"

definition fire_due_isr :: "callbacks \<Rightarrow> u64 \<Rightarrow> timer_sys \<Rightarrow> timer_sys option" where
  "fire_due_isr act now_ticks s = fire_slots act now_ticks [0..<MAX_SCHEDULED_CALLBACKS] s"

text \<open>The port delivers timer interrupts once a handler is registered and they are enabled.\<close>

definition timer_irq_on :: "timer_sys \<Rightarrow> bool" where
  "timer_irq_on s \<longleftrightarrow> irq_enabled (ts_time s) \<and> isr_registered (ts_time s)"

section \<open>The slots hold the pending callbacks\<close>

definition slot_entry :: "Slot \<Rightarrow> u32 \<times> timer" where
  "slot_entry s = (s_id s, s_when s, s_cb s, s_arg s)"

definition live :: "Slot list \<Rightarrow> pending" where
  "live ss = map slot_entry (filter (\<lambda>s. s_id s \<noteq> 0) ss)"

definition slots_rep :: "nat \<Rightarrow> DriverState \<Rightarrow> pending \<Rightarrow> bool" where
  "slots_rep n ds xs \<longleftrightarrow>
     length (ds_slots ds) = MAX_SCHEDULED_CALLBACKS \<and> mset (live (ds_slots ds)) = mset xs \<and>
     distinct (map fst xs) \<and> 0 < n \<and> n < 2 ^ 32 \<and> ds_next_id ds = of_nat n \<and>
     (\<forall>e \<in> set xs. 0 < unat (fst e) \<and> unat (fst e) < n)"

lemma slots_repD:
  assumes "slots_rep n ds xs"
  shows "length (ds_slots ds) = MAX_SCHEDULED_CALLBACKS" "mset (live (ds_slots ds)) = mset xs"
    "distinct (map fst xs)" "0 < n" "n < 2 ^ 32" "ds_next_id ds = of_nat n"
    "\<And>e. e \<in> set xs \<Longrightarrow> 0 < unat (fst e) \<and> unat (fst e) < n"
  using assms by (auto simp: slots_rep_def)

lemma live_append [simp]: "live (xs @ ys) = live xs @ live ys"
  by (simp add: live_def)

lemma live_Cons [simp]: "live (s # ss) = (if s_id s \<noteq> 0 then [slot_entry s] else []) @ live ss"
  by (simp add: live_def)

lemma live_Nil [simp]: "live [] = []"
  by (simp add: live_def)

lemma find_slot_None: "find_slot P xs = None \<longleftrightarrow> (\<forall>x \<in> set xs. \<not> P x)"
  by (induction xs) auto

lemma find_slot_Some: "find_slot P xs = Some i \<Longrightarrow> i < length xs \<and> P (xs ! i)"
  by (induction xs arbitrary: i) (auto split: if_splits)

lemma length_live: "length (live ss) + length (filter (\<lambda>s. s_id s = 0) ss) = length ss"
  by (induction ss) auto

text \<open>Replacing one slot exchanges its entry.\<close>

lemma mset_live_update:
  assumes "i < length ss"
  shows "mset (live (ss[i := x])) + (if s_id (ss ! i) \<noteq> 0 then {#slot_entry (ss ! i)#} else {#}) =
    mset (live ss) + (if s_id x \<noteq> 0 then {#slot_entry x#} else {#})"
proof -
  have "ss = take i ss @ ss ! i # drop (Suc i) ss" using assms by (simp add: id_take_nth_drop)
  then have "live ss = live (take i ss) @ (if s_id (ss ! i) \<noteq> 0 then [slot_entry (ss ! i)] else []) @
      live (drop (Suc i) ss)" by (metis live_append live_Cons)
  moreover have "live (ss[i := x]) = live (take i ss) @ (if s_id x \<noteq> 0 then [slot_entry x] else []) @
      live (drop (Suc i) ss)" using assms by (simp add: upd_conv_take_nth_drop)
  ultimately show ?thesis by auto
qed

lemma free_slot_iff:
  assumes "slots_rep n ds xs"
  shows "find_slot (\<lambda>s. s_id s = 0) (ds_slots ds) = None \<longleftrightarrow> \<not> length xs < MAX_SCHEDULED_CALLBACKS"
proof -
  have "length xs = length (live (ds_slots ds))"
    using slots_repD(2) [OF assms] by (metis size_mset)
  then have "length xs + length (filter (\<lambda>s. s_id s = 0) (ds_slots ds)) = MAX_SCHEDULED_CALLBACKS"
    using length_live [of "ds_slots ds"] slots_repD(1) [OF assms] by simp
  moreover have "(\<forall>x \<in> set (ds_slots ds). s_id x \<noteq> 0) \<longleftrightarrow> length (filter (\<lambda>s. s_id s = 0) (ds_slots ds)) = 0"
    by (simp add: filter_empty_conv)
  ultimately show ?thesis unfolding find_slot_None by linarith
qed

lemma claim_slot_full:
  assumes "slots_rep n ds xs" "\<not> length xs < MAX_SCHEDULED_CALLBACKS"
  shows "claim_slot tp cb arg ds = None"
  using free_slot_iff [OF assms(1)] assms(2) by (simp add: claim_slot_def)

lemma claim_slot_room:
  assumes r: "slots_rep n ds xs" and room: "length xs < MAX_SCHEDULED_CALLBACKS" and n: "Suc n < 2 ^ 32"
  obtains i ds' where "claim_slot tp cb arg ds = Some (of_nat n, ds')"
    "slots_rep (Suc n) ds' (xs @ [(of_nat n, tp, cb, arg)])"
    "ds_slots ds' = (ds_slots ds)[i := \<lparr>s_id = of_nat n, s_when = tp, s_cb = cb, s_arg = arg\<rparr>]"
    "ds_initialised ds' = ds_initialised ds"
proof -
  note d = slots_repD [OF r]
  obtain i where i: "find_slot (\<lambda>s. s_id s = 0) (ds_slots ds) = Some i"
    using free_slot_iff [OF r] room by (cases "find_slot (\<lambda>s. s_id s = 0) (ds_slots ds)") auto
  have il: "i < length (ds_slots ds)" "s_id (ds_slots ds ! i) = 0" using find_slot_Some [OF i] by auto
  have u: "unat (of_nat n :: u32) = n" using d(5) by (simp add: unat_of_nat take_bit_nat_eq_self)
  then have nz: "(of_nat n :: u32) \<noteq> 0" using d(4) by auto
  let ?x = "\<lparr>s_id = of_nat n, s_when = tp, s_cb = cb, s_arg = arg\<rparr>"
  let ?ds = "ds\<lparr>ds_next_id := of_nat n + 1, ds_slots := (ds_slots ds)[i := ?x]\<rparr>"
  have "claim_slot tp cb arg ds = Some (of_nat n, ?ds)"
    using i nz d(6) by (simp add: claim_slot_def take_id_def Let_def)
  moreover have "slots_rep (Suc n) ?ds (xs @ [(of_nat n, tp, cb, arg)])"
  proof -
    have "mset (live ((ds_slots ds)[i := ?x])) = mset xs + {#(of_nat n, tp, cb, arg)#}"
      using mset_live_update [OF il(1), of ?x] il(2) nz d(2) by (simp add: slot_entry_def)
    moreover have "of_nat n \<notin> fst ` set xs" using d(7) u by fastforce
    ultimately show ?thesis using d n u by (fastforce simp: slots_rep_def ac_simps)
  qed
  ultimately show ?thesis using that [of ?ds i] by simp
qed

text \<open>Taking an entry out of a list of distinct handles.\<close>

lemma mset_filter_other:
  assumes "mset xs = mset ys + {#e#}" "distinct (map fst xs)"
  shows "mset ys = mset (without (fst e) xs)" "fst e \<in> fst ` set xs"
proof -
  have "distinct (map fst (e # ys))"
    using assms mset_eq_imp_distinct_iff [of "map fst xs" "map fst (e # ys)"] by simp
  then have e: "fst e \<notin> fst ` set ys" by auto
  have "filter (\<lambda>x. fst x \<noteq> fst e) ys = ys" using e by (intro filter_True) (metis image_eqI)
  then have "filter_mset (\<lambda>x. fst x \<noteq> fst e) (mset ys) = mset ys" by (metis mset_filter)
  then show "mset ys = mset (without (fst e) xs)" using assms(1) by (simp add: without_def)
  have "e \<in># mset xs" using assms(1) by simp
  then show "fst e \<in> fst ` set xs" by simp
qed

lemma handle_in_slots:
  assumes "slots_rep n ds xs" "h \<noteq> 0"
  shows "h \<in> fst ` set xs \<longleftrightarrow> (\<exists>s \<in> set (ds_slots ds). s_id s = h)"
proof -
  have "set xs = set (live (ds_slots ds))" using slots_repD(2) [OF assms(1)] by (metis set_mset_mset)
  then show ?thesis using assms(2) by (auto simp: live_def slot_entry_def image_iff)
qed

lemma zero_no_handle: "slots_rep n ds xs \<Longrightarrow> 0 \<notin> fst ` set xs"
  by (force dest: slots_repD(7))

lemma release_slot_unknown:
  assumes "slots_rep n ds xs" "h \<noteq> 0" "h \<notin> fst ` set xs"
  shows "release_slot h ds = None"
proof -
  have "find_slot (\<lambda>s. s_id s = h) (ds_slots ds) = None"
    using handle_in_slots [OF assms(1,2)] assms(3) by (simp add: find_slot_None)
  then show ?thesis by (simp add: release_slot_def)
qed

lemma release_slot_known:
  assumes r: "slots_rep n ds xs" and h: "h \<noteq> 0" "h \<in> fst ` set xs"
  obtains i where "release_slot h ds = Some (ds\<lparr>ds_slots := (ds_slots ds)[i := Slot_init]\<rparr>)"
    "slots_rep n (ds\<lparr>ds_slots := (ds_slots ds)[i := Slot_init]\<rparr>) (without h xs)"
proof -
  note d = slots_repD [OF r]
  obtain i where i: "find_slot (\<lambda>s. s_id s = h) (ds_slots ds) = Some i"
    using handle_in_slots [OF r h(1)] h(2) find_slot_None [of "\<lambda>s. s_id s = h" "ds_slots ds"] by fastforce
  have il: "i < length (ds_slots ds)" "s_id (ds_slots ds ! i) = h" using find_slot_Some [OF i] by auto
  let ?ss = "(ds_slots ds)[i := Slot_init]" and ?e = "slot_entry (ds_slots ds ! i)"
  have "mset xs = mset (live ?ss) + {#?e#}"
    using mset_live_update [OF il(1), of Slot_init] il(2) h(1) d(2) by (simp add: Slot_init_def)
  then have "mset (live ?ss) = mset (without h xs)"
    using mset_filter_other(1) [OF _ d(3), of "live ?ss" ?e] il(2) by (simp add: slot_entry_def)
  then have "slots_rep n (ds\<lparr>ds_slots := ?ss\<rparr>) (without h xs)"
    using d by (auto simp: slots_rep_def distinct_map_filter without_def)
  then show ?thesis using that [of i] i by (simp add: release_slot_def)
qed

lemma slots_rep_init: "slots_rep 1 DriverState_init []"
  by (simp add: slots_rep_def DriverState_init_def live_def Slot_init_def)

lemma with_IrqGuard_eq:
  assumes "interrupt_disable_depth (ts_irq s) c \<noteq> 0xFFFFFFFF"
    and "\<And>p. body (s\<lparr>ts_irq := p\<rparr>) = (r, f (s\<lparr>ts_irq := p\<rparr>))" "\<And>p. ts_irq (f (s\<lparr>ts_irq := p\<rparr>)) = p"
    and "\<And>p q. (f (s\<lparr>ts_irq := p\<rparr>))\<lparr>ts_irq := q\<rparr> = f (s\<lparr>ts_irq := q\<rparr>)"
  shows "with_IrqGuard c body s = (r, f s)"
  using irq_guard_undone [OF assms(1)] assms(2-4) by (simp add: with_IrqGuard_def case_prod_unfold Let_def)

section \<open>Callbacks that are still to be visited\<close>

text \<open>
  Of the handles \<open>D\<close> that were due when the interrupt began at time \<open>t\<close>, none is in a slot of \<open>V\<close>: those were
  visited.  Callbacks may claim and free slots meanwhile, but a claimed slot has a new handle.
\<close>

definition cleared :: "nat set \<Rightarrow> u32 set \<Rightarrow> nat \<Rightarrow> nat \<Rightarrow> DriverState \<Rightarrow> bool" where
  "cleared V D n t ds \<longleftrightarrow>
     (\<forall>h \<in> D. 0 < unat h \<and> unat h < n) \<and>
     (\<forall>i < length (ds_slots ds). s_id (ds_slots ds ! i) \<in> D \<longrightarrow> i \<notin> V \<and> unat (s_when (ds_slots ds ! i)) \<le> t)"

lemma nth_update: "j < length ss \<Longrightarrow> ss[i := x] ! j = (if j = i then x else ss ! j)"
  by (cases "i = j") simp_all

lemma cleared_update:
  "cleared V D n t ds \<Longrightarrow> s_id x \<notin> D \<Longrightarrow> n \<le> n1 \<Longrightarrow> ds_slots ds1 = (ds_slots ds)[i := x] \<Longrightarrow> cleared V D n1 t ds1"
  by (fastforce simp: cleared_def nth_update)

lemma cleared_no_zero: "cleared V D n t ds \<Longrightarrow> 0 \<notin> D"
  by (force simp: cleared_def)

lemma cleared_no_next: "cleared V D n t ds \<Longrightarrow> n < 2 ^ 32 \<Longrightarrow> of_nat n \<notin> D"
  by (force simp: cleared_def unat_of_nat take_bit_nat_eq_self)

lemma cleared_empty [simp]: "cleared V {} n t ds"
  by (simp add: cleared_def)

text \<open>The state of a driver between and during interrupts; \<open>c\<close> is the core that the driver runs on.\<close>

definition slot_rep :: "nat \<Rightarrow> nat set \<Rightarrow> u32 set \<Rightarrow> nat \<Rightarrow> nat \<Rightarrow> timer_sys \<Rightarrow> pending \<Rightarrow> bool" where
  "slot_rep c V D n t s xs \<longleftrightarrow>
     slots_rep n (ts_ds s) xs \<and> cleared V D n t (ts_ds s) \<and> time_now (ts_time s) = of_nat t \<and> t < 2 ^ 64 \<and>
     interrupt_disable_depth (ts_irq s) c \<noteq> 0xFFFFFFFF \<and> timer_irq_on s"

lemma slot_repD:
  assumes "slot_rep c V D n t s xs"
  shows "slots_rep n (ts_ds s) xs" "cleared V D n t (ts_ds s)" "time_now (ts_time s) = of_nat t" "t < 2 ^ 64"
    "interrupt_disable_depth (ts_irq s) c \<noteq> 0xFFFFFFFF" "timer_irq_on s"
  using assms by (simp_all add: slot_rep_def)

text \<open>Claiming and freeing a slot, for both drivers.\<close>

lemma claim_slot_rep:
  assumes r: "slot_rep c V D n t s xs" and sp: "schedule_spec (\<lambda>k. k < MAX_SCHEDULED_CALLBACKS) tp cb arg (n, xs) = Some (h, n1, xs1)"
    and cb: "cb \<noteq> 0"
  shows "claim_slot tp cb arg (ts_ds s) = None \<and> h = 0 \<and> n1 = n \<and> xs1 = xs \<or>
    (\<exists>ds. claim_slot tp cb arg (ts_ds s) = Some (h, ds) \<and> slots_rep n1 ds xs1 \<and> cleared V D n1 t ds \<and>
      ds_initialised ds = ds_initialised (ts_ds s))"
proof (cases "length xs < MAX_SCHEDULED_CALLBACKS")
  case False
  then show ?thesis using claim_slot_full [OF slot_repD(1) [OF r]] sp by (simp add: schedule_spec_def)
next
  case True
  then have n: "Suc n < 2 ^ 32" "h = of_nat n" "n1 = Suc n" "xs1 = xs @ [(of_nat n, tp, cb, arg)]"
    using sp cb by (auto simp: schedule_spec_def split: if_splits)
  obtain i ds where ds: "claim_slot tp cb arg (ts_ds s) = Some (of_nat n, ds)"
    "slots_rep (Suc n) ds (xs @ [(of_nat n, tp, cb, arg)])"
    "ds_slots ds = (ds_slots (ts_ds s))[i := \<lparr>s_id = of_nat n, s_when = tp, s_cb = cb, s_arg = arg\<rparr>]"
    "ds_initialised ds = ds_initialised (ts_ds s)"
    by (rule claim_slot_room [OF slot_repD(1) [OF r] True n(1)])
  have "of_nat n \<notin> D" using cleared_no_next [OF slot_repD(2) [OF r]] n(1) by simp
  then have "cleared V D (Suc n) t ds" using cleared_update [OF slot_repD(2) [OF r] _ _ ds(3)] by simp
  then show ?thesis using ds n by simp
qed

lemma release_slot_rep:
  assumes r: "slot_rep c V D n t s xs" and h: "h \<noteq> 0"
  shows "h \<notin> fst ` set xs \<and> release_slot h (ts_ds s) = None \<and> without h xs = xs \<or>
    h \<in> fst ` set xs \<and> (\<exists>ds. release_slot h (ts_ds s) = Some ds \<and> slots_rep n ds (without h xs) \<and> cleared V D n t ds \<and>
      ds_initialised ds = ds_initialised (ts_ds s))"
proof (cases "h \<in> fst ` set xs")
  case True
  let ?ds = "\<lambda>i. (ts_ds s)\<lparr>ds_slots := (ds_slots (ts_ds s))[i := Slot_init]\<rparr>"
  obtain i where i: "release_slot h (ts_ds s) = Some (?ds i)" "slots_rep n (?ds i) (without h xs)"
    by (rule release_slot_known [OF slot_repD(1) [OF r] h True])
  have "cleared V D n t (?ds i)"
    by (rule cleared_update [OF slot_repD(2) [OF r], where x = Slot_init and i = i])
      (simp_all add: Slot_init_def cleared_no_zero [OF slot_repD(2) [OF r]])
  then show ?thesis using i True by simp
next
  case False
  then show ?thesis using release_slot_unknown [OF slot_repD(1) [OF r] h] without_other by blast
qed

text \<open>The loop reaches a slot that is due, and frees it.\<close>

lemma slot_pending:
  assumes "slots_rep n ds xs" "i < length (ds_slots ds)" "s_id (ds_slots ds ! i) \<noteq> 0"
  shows "slot_entry (ds_slots ds ! i) \<in> set xs"
proof -
  have "set xs = set (live (ds_slots ds))" using slots_repD(2) [OF assms(1)] by (metis set_mset_mset)
  then show ?thesis using assms(2,3) by (auto simp: live_def)
qed

lemma free_slot_rep:
  assumes r: "slot_rep c V D n t s xs" and i: "i < MAX_SCHEDULED_CALLBACKS" "s_id (ds_slots (ts_ds s) ! i) \<noteq> 0"
  shows "slot_rep c (insert i V) D n t
    (s\<lparr>ts_ds := (ts_ds s)\<lparr>ds_slots := (ds_slots (ts_ds s))[i := Slot_init]\<rparr>, ts_calls := cs\<rparr>)
    (without (s_id (ds_slots (ts_ds s) ! i)) xs)"
proof -
  note d = slots_repD [OF slot_repD(1) [OF r]]
  let ?ss = "(ds_slots (ts_ds s))[i := Slot_init]" and ?e = "slot_entry (ds_slots (ts_ds s) ! i)"
  have e: "fst ?e = s_id (ds_slots (ts_ds s) ! i)" by (simp add: slot_entry_def)
  have "mset xs = mset (live ?ss) + {#?e#}"
    using mset_live_update [of i "ds_slots (ts_ds s)" Slot_init] i d(1,2) by (simp add: Slot_init_def)
  then have "mset (live ?ss) = mset (without (fst ?e) xs)"
    using mset_filter_other(1) [OF _ d(3), of "live ?ss" ?e] by simp
  then have "slots_rep n ((ts_ds s)\<lparr>ds_slots := ?ss\<rparr>) (without (fst ?e) xs)"
    using d by (auto simp: slots_rep_def distinct_map_filter without_def)
  moreover have "cleared (insert i V) D n t ((ts_ds s)\<lparr>ds_slots := ?ss\<rparr>)"
    using slot_repD(2) [OF r] cleared_no_zero [OF slot_repD(2) [OF r]]
    by (auto simp: cleared_def nth_update Slot_init_def split: if_splits)
  ultimately show ?thesis using r by (simp add: slot_rep_def e timer_irq_on_def)
qed

text \<open>It passes over a slot that is free or not due.\<close>

lemma skip_slot_rep:
  assumes r: "slot_rep c V D n t s xs"
    and i: "\<not> (s_id (ds_slots (ts_ds s) ! i) \<noteq> 0 \<and> s_when (ds_slots (ts_ds s) ! i) \<le> of_nat t)"
  shows "slot_rep c (insert i V) D n t s xs"
proof -
  have "cleared (insert i V) D n t (ts_ds s)"
    using slot_repD(2) [OF r] i cleared_no_zero [OF slot_repD(2) [OF r]] word_le_of_nat [OF slot_repD(4) [OF r]]
    unfolding cleared_def by (metis insert_iff)
  then show ?thesis using r by (simp add: slot_rep_def)
qed

lemma all_visited:
  assumes r: "slot_rep c {..<MAX_SCHEDULED_CALLBACKS} D n t s xs"
  shows "D \<inter> fst ` set xs = {}"
proof -
  note d = slots_repD [OF slot_repD(1) [OF r]]
  have "set xs = set (live (ds_slots (ts_ds s)))" using d(2) by (metis set_mset_mset)
  then have "\<exists>i < MAX_SCHEDULED_CALLBACKS. h = s_id (ds_slots (ts_ds s) ! i)" if "h \<in> fst ` set xs" for h
    using that d(1) by (auto simp: live_def slot_entry_def in_set_conv_nth)
  then show ?thesis using slot_repD(2) [OF r] d(1) by (fastforce simp: cleared_def)
qed

lemma due_handles_cleared:
  assumes r: "slots_rep n ds xs"
  shows "cleared {} (fst ` {e \<in> set xs. is_due t e}) n t ds"
proof -
  note d = slots_repD [OF r]
  have "unat (s_when (ds_slots ds ! i)) \<le> t"
    if i: "i < length (ds_slots ds)" "s_id (ds_slots ds ! i) \<in> fst ` {e \<in> set xs. is_due t e}" for i
  proof -
    obtain e where e: "e \<in> set xs" "is_due t e" "fst e = s_id (ds_slots ds ! i)" using i(2) by auto
    have "s_id (ds_slots ds ! i) \<noteq> 0" using d(7) [OF e(1)] e(3) by auto
    then have "slot_entry (ds_slots ds ! i) = e"
      using slot_pending [OF r i(1)] d(3) e(1,3) inj_onD [of fst "set xs" "slot_entry (ds_slots ds ! i)" e]
      by (simp add: distinct_map slot_entry_def)
    then show ?thesis using e(2) by (auto simp: is_due_def slot_entry_def)
  qed
  then show ?thesis using d(7) by (auto simp: cleared_def)
qed

section \<open>The loop of the interrupt handler\<close>

text \<open>
  What the loop needs of the operations that callbacks use: they are operations on the pending callbacks
  that leave the callbacks that are still to be visited where they are.
\<close>

locale slot_callbacks =
  fixes c :: nat and safe :: "timer_sys \<Rightarrow> bool"
    and schedule :: "u64 \<Rightarrow> u64 \<Rightarrow> u64 \<Rightarrow> timer_sys \<Rightarrow> (u32 \<times> timer_sys) option"
    and cancel :: "u32 \<Rightarrow> timer_sys \<Rightarrow> (bool \<times> timer_sys) option"
    and now :: "timer_sys \<Rightarrow> u64 option"
    and room :: "nat \<Rightarrow> bool"
  assumes operations: "timer_operations (\<lambda>n t s xs. slot_rep c V D n t s xs \<and> safe s) safe schedule cancel now ts_calls room"
    and safe_frame: "safe s \<Longrightarrow> safe (s\<lparr>ts_ds := (ts_ds s)\<lparr>ds_slots := ss\<rparr>, ts_calls := cs\<rparr>)"
begin

lemmas callback_ok = timer_operations.callback_safe [OF operations]
lemmas callback_rep = timer_operations.prog_rep [OF operations]

lemma fire_slots_safe:
  "safe s \<Longrightarrow> \<exists>s' evs. fire_slots (run_callback schedule cancel now ts_calls beh) t is s = Some s' \<and> safe s' \<and>
     ts_calls s' = ts_calls s @ evs"
proof (induction "is" arbitrary: s)
  case (Cons i "is")
  let ?slot = "ds_slots (ts_ds s) ! i"
  let ?s = "s\<lparr>ts_ds := (ts_ds s)\<lparr>ds_slots := (ds_slots (ts_ds s))[i := Slot_init]\<rparr>,
    ts_calls := ts_calls s @ [(s_cb ?slot, s_arg ?slot)]\<rparr>"
  show ?case
  proof (cases "s_id ?slot \<noteq> 0 \<and> s_when ?slot \<le> t")
    case True
    obtain s1 where s1: "run_callback schedule cancel now ts_calls beh (s_cb ?slot) (s_arg ?slot) ?s = Some s1" "safe s1"
      "ts_calls s1 = ts_calls ?s" using callback_ok [OF safe_frame [OF Cons.prems]] by blast
    then show ?thesis using True Cons.IH [OF s1(2)] by (auto simp: Let_def)
  next
    case False
    then show ?thesis using Cons by (auto simp: Let_def)
  qed
qed simp

text \<open>The loop is an interrupt of the specification: it takes and calls one callback after the other.\<close>

lemma fire_slots_isr:
  "slot_rep c V D n t s xs \<Longrightarrow> safe s \<Longrightarrow> set is \<union> V = {..<MAX_SCHEDULED_CALLBACKS} \<Longrightarrow>
   \<exists>s' evs out. fire_slots (run_callback schedule cancel now ts_calls beh) (of_nat t) is s = Some s' \<and>
     ts_calls s' = ts_calls s @ evs \<and> safe s' \<and>
     isr_run room beh t D (n, xs) [] (ts_calls s) evs out \<and>
     (\<forall>n1 xs1. out = Some (n1, xs1) \<longrightarrow> slot_rep c {..<MAX_SCHEDULED_CALLBACKS} D n1 t s' xs1)"
proof (induction "is" arbitrary: V n s xs)
  case Nil
  then show ?case using isr_end [OF all_visited] by fastforce
next
  case (Cons i "is")
  let ?slot = "ds_slots (ts_ds s) ! i" and ?act = "run_callback schedule cancel now ts_calls beh"
  have V: "set is \<union> insert i V = {..<MAX_SCHEDULED_CALLBACKS}" "i < MAX_SCHEDULED_CALLBACKS" using Cons.prems(3) by auto
  show ?case
  proof (cases "s_id ?slot \<noteq> 0 \<and> s_when ?slot \<le> of_nat t")
    case False
    then have "fire_slots ?act (of_nat t) (i # is) s = fire_slots ?act (of_nat t) is s" by (auto simp: Let_def)
    then show ?thesis using Cons.IH [OF skip_slot_rep [OF Cons.prems(1) False] Cons.prems(2) V(1)] by presburger
  next
    case True
    let ?call = "(s_cb ?slot, s_arg ?slot)" and ?e = "slot_entry ?slot"
    let ?s = "s\<lparr>ts_ds := (ts_ds s)\<lparr>ds_slots := (ds_slots (ts_ds s))[i := Slot_init]\<rparr>, ts_calls := ts_calls s @ [?call]\<rparr>"
    let ?p = "beh (ts_calls s @ [?call]) (s_cb ?slot) (s_arg ?slot)" and ?xs = "without (fst ?e) xs"
    have e: "?e \<in> set xs" "is_due t ?e" "the_call ?e = ?call" "fst ?e = s_id ?slot"
      using slot_pending [OF slot_repD(1) [OF Cons.prems(1)], of i] True V(2) slots_repD(1) [OF slot_repD(1) [OF Cons.prems(1)]]
        word_le_of_nat [OF slot_repD(4) [OF Cons.prems(1)], of "s_when ?slot"]
      by (simp_all add: is_due_def the_call_def slot_entry_def)
    have r1: "slot_rep c (insert i V) D n t ?s ?xs" and safe1: "safe ?s"
      using free_slot_rep [OF Cons.prems(1) V(2)] True e(4) safe_frame [OF Cons.prems(2)] by simp_all
    have run: "fire_slots ?act (of_nat t) (i # is) s =
        (case run_prog schedule cancel now ?p ?s of None \<Rightarrow> None | Some s1 \<Rightarrow> fire_slots ?act (of_nat t) is s1)"
      using True by (simp add: Let_def run_callback_def Option.bind_def split: option.splits)
    show ?thesis
    proof (cases "prog_spec room t ?p (n, ?xs)")
      case None
      obtain s1 where s1: "run_prog schedule cancel now ?p ?s = Some s1" "safe s1" "ts_calls s1 = ts_calls s @ [?call]"
        using timer_operations.prog_safe [OF operations safe1] by fastforce
      obtain s2 evs where s2: "fire_slots ?act (of_nat t) is s1 = Some s2" "safe s2" "ts_calls s2 = ts_calls s1 @ evs"
        using fire_slots_safe [OF s1(2)] by blast
      have "isr_run room beh t D (n, xs) [] (ts_calls s) (?call # evs) None"
        by (rule isr_take_exhausted [where beh = beh, OF e(1-3) None])
      then show ?thesis using run s1 s2 by (intro exI [of _ s2] exI [of _ "?call # evs"] exI [of _ None]) simp
    next
      case (Some st)
      obtain n1 xs1 where st: "prog_spec room t ?p (n, ?xs) = Some (n1, xs1)" using Some by (cases st) auto
      obtain s1 where s1: "run_prog schedule cancel now ?p ?s = Some s1" "slot_rep c (insert i V) D n1 t s1 xs1" "safe s1"
        "ts_calls s1 = ts_calls s @ [?call]"
        using callback_rep [OF conjI [OF r1 safe1] st] by fastforce
      obtain s2 evs out where s2: "fire_slots ?act (of_nat t) is s1 = Some s2" "safe s2" "ts_calls s2 = ts_calls s1 @ evs"
        "isr_run room beh t D (n1, xs1) [] (ts_calls s @ [?call]) evs out"
        "\<forall>n1 xs1. out = Some (n1, xs1) \<longrightarrow> slot_rep c {..<MAX_SCHEDULED_CALLBACKS} D n1 t s2 xs1"
        using Cons.IH [OF s1(2,3) V(1)] s1(4) by metis
      have "isr_run room beh t D (n, xs) [] (ts_calls s) (?call # evs) out"
        by (rule isr_take_call [where beh = beh, OF e(1-3) st s2(4)])
      then show ?thesis using run s1 s2 by (intro exI [of _ s2] exI [of _ "?call # evs"] exI [of _ out]) simp
    qed
  qed
qed

lemma fire_due_isr_run:
  assumes r: "slot_rep c {} {} n t s xs" and safe: "safe s"
  shows "\<exists>s' evs out. fire_due_isr (run_callback schedule cancel now ts_calls beh) (of_nat t) s = Some s' \<and>
     ts_calls s' = ts_calls s @ evs \<and> safe s' \<and>
     isr_run room beh t (fst ` {e \<in> set xs. is_due t e}) (n, xs) [] (ts_calls s) evs out \<and>
     (\<forall>n1 xs1. out = Some (n1, xs1) \<longrightarrow> slot_rep c {} {} n1 t s' xs1)"
proof -
  let ?D = "fst ` {e \<in> set xs. is_due t e}"
  have "slot_rep c {} ?D n t s xs"
    using r due_handles_cleared [OF slot_repD(1) [OF r], of t] by (simp add: slot_rep_def)
  moreover have "set [0..<MAX_SCHEDULED_CALLBACKS] \<union> {} = {..<MAX_SCHEDULED_CALLBACKS}" by auto
  ultimately obtain s' evs out where "fire_due_isr (run_callback schedule cancel now ts_calls beh) (of_nat t) s = Some s'"
    "ts_calls s' = ts_calls s @ evs" "safe s'" "isr_run room beh t ?D (n, xs) [] (ts_calls s) evs out"
    "\<forall>n1 xs1. out = Some (n1, xs1) \<longrightarrow> slot_rep c {..<MAX_SCHEDULED_CALLBACKS} ?D n1 t s' xs1"
    unfolding fire_due_isr_def using fire_slots_isr [of "{}" ?D n t s xs "[0..<MAX_SCHEDULED_CALLBACKS]" beh] safe by blast
  then show ?thesis by (intro exI [of _ s'] exI [of _ evs] exI [of _ out]) (simp add: slot_rep_def)
qed

end

end
