(* ===== verification/Time_Periodic.thy ===== *)
theory Time_Periodic
  imports Time_Slots
begin

text \<open>
  time_driver_periodic.cpp: the driver whose interrupt comes at a fixed rate.  It is shown to
  implement the contract \<open>timer_driver\<close> with 16 callbacks, for callbacks that call the driver.
\<close>

section \<open>Operations\<close>

definition periodic_initialise :: "u32 \<Rightarrow> timer_sys \<Rightarrow> timer_sys option" where
  "periodic_initialise frequency_hz s = do {
     CORTOS_ASSERT (\<not> ds_initialised (ts_ds s));
     Some (s\<lparr>ts_ds := (ts_ds s)\<lparr>ds_initialised := True, ds_frequency_hz := frequency_hz\<rparr>\<rparr>) }"

definition periodic_finalise :: "timer_sys \<Rightarrow> timer_sys option" where
  "periodic_finalise s = do {
     CORTOS_ASSERT (ds_initialised (ts_ds s));
     Some (s\<lparr>ts_ds := DriverState_init\<rparr>) }"

definition periodic_now :: "timer_sys \<Rightarrow> TimePoint" where
  "periodic_now s = \<lparr>tp_value = cortos_port_time_now (ts_time s)\<rparr>"

definition periodic_schedule_at :: "nat \<Rightarrow> u64 \<Rightarrow> u64 \<Rightarrow> u64 \<Rightarrow> timer_sys \<Rightarrow> u32 \<times> timer_sys" where
  "periodic_schedule_at c tp cb arg s =
     (if cb = 0 then (0, s)
      else with_IrqGuard c (\<lambda>s. case claim_slot tp cb arg (ts_ds s) of
          None \<Rightarrow> (0, s)
        | Some (h, ds) \<Rightarrow> (h, s\<lparr>ts_ds := ds\<rparr>)) s)"

definition periodic_cancel :: "nat \<Rightarrow> u32 \<Rightarrow> timer_sys \<Rightarrow> bool \<times> timer_sys" where
  "periodic_cancel c h s =
     (if h = 0 then (False, s)
      else with_IrqGuard c (\<lambda>s. case release_slot h (ts_ds s) of
          None \<Rightarrow> (False, s)
        | Some ds \<Rightarrow> (True, s\<lparr>ts_ds := ds\<rparr>)) s)"



definition periodic_start :: "timer_sys \<Rightarrow> timer_sys option" where
  "periodic_start s =
     (if ds_started (ts_ds s) then Some s
      else do {
        CORTOS_ASSERT (ds_frequency_hz (ts_ds s) > 0);
        let tm = cortos_port_time_register_isr_handler (ts_time s);
        let tm = cortos_port_time_setup (ds_frequency_hz (ts_ds s)) tm;
        let tm = cortos_port_time_irq_enable tm;
        Some (s\<lparr>ts_time := tm, ts_ds := (ts_ds s)\<lparr>ds_started := True\<rparr>\<rparr>) })"

definition periodic_stop :: "timer_sys \<Rightarrow> timer_sys" where
  "periodic_stop s =
     (if \<not> ds_started (ts_ds s) then s
      else s\<lparr>ts_time := cortos_port_time_irq_disable (ts_time s),
             ts_ds := (ts_ds s)\<lparr>ds_started := False\<rparr>\<rparr>)"

definition periodic_on_timer_isr :: "callbacks \<Rightarrow> timer_sys \<Rightarrow> timer_sys option" where
  "periodic_on_timer_isr act s = fire_due_isr act (cortos_port_time_now (ts_time s)) s"

section \<open>The driver implements the contract\<close>

text \<open>
  A step of time: the clock moves up to the next tick, and the port delivers the interrupt of that tick
  (port.h, lines 300 to 302) if it is enabled.
\<close>

definition periodic_advance :: "callbacks \<Rightarrow> u64 \<Rightarrow> timer_sys \<Rightarrow> timer_sys option" where
  "periodic_advance act d s =
     (let s = s\<lparr>ts_time := cortos_port_time_advance d (ts_time s)\<rparr>
      in if timer_irq_on s then periodic_on_timer_isr act s else Some s)"

lemma periodic_schedule_eq:
  assumes "interrupt_disable_depth (ts_irq s) c \<noteq> 0xFFFFFFFF" "cb \<noteq> 0"
  shows "periodic_schedule_at c tp cb arg s = (case claim_slot tp cb arg (ts_ds s) of
      None \<Rightarrow> (0, s) | Some (h, ds) \<Rightarrow> (h, s\<lparr>ts_ds := ds\<rparr>))"
proof (cases "claim_slot tp cb arg (ts_ds s)")
  case None
  with assms show ?thesis unfolding periodic_schedule_at_def
    by (simp add: with_IrqGuard_eq [where f = "\<lambda>s. s" and r = 0])
next
  case (Some r)
  with assms show ?thesis unfolding periodic_schedule_at_def
    by (simp add: with_IrqGuard_eq [where f = "\<lambda>s. s\<lparr>ts_ds := snd r\<rparr>" and r = "fst r"] case_prod_unfold)
qed

lemma periodic_cancel_eq:
  assumes "interrupt_disable_depth (ts_irq s) c \<noteq> 0xFFFFFFFF" "h \<noteq> 0"
  shows "periodic_cancel c h s = (case release_slot h (ts_ds s) of
      None \<Rightarrow> (False, s) | Some ds \<Rightarrow> (True, s\<lparr>ts_ds := ds\<rparr>))"
proof (cases "release_slot h (ts_ds s)")
  case None
  with assms show ?thesis unfolding periodic_cancel_def
    by (simp add: with_IrqGuard_eq [where f = "\<lambda>s. s" and r = False])
next
  case (Some ds)
  with assms show ?thesis unfolding periodic_cancel_def
    by (simp add: with_IrqGuard_eq [where f = "\<lambda>s. s\<lparr>ts_ds := ds\<rparr>" and r = True])
qed

text \<open>The operations, in the form that callbacks and scripts use them.\<close>

abbreviation periodic_sched :: "nat \<Rightarrow> u64 \<Rightarrow> u64 \<Rightarrow> u64 \<Rightarrow> timer_sys \<Rightarrow> (u32 \<times> timer_sys) option" where
  "periodic_sched c \<equiv> \<lambda>tp cb arg s. Some (periodic_schedule_at c tp cb arg s)"

abbreviation periodic_canc :: "nat \<Rightarrow> u32 \<Rightarrow> timer_sys \<Rightarrow> (bool \<times> timer_sys) option" where
  "periodic_canc c \<equiv> \<lambda>h s. Some (periodic_cancel c h s)"

abbreviation periodic_clock :: "timer_sys \<Rightarrow> u64 option" where
  "periodic_clock \<equiv> \<lambda>s. Some (tp_value (periodic_now s))"

abbreviation periodic_callback :: "nat \<Rightarrow> behaviour \<Rightarrow> callbacks" where
  "periodic_callback c \<equiv> run_callback (periodic_sched c) (periodic_canc c) periodic_clock ts_calls"

lemma with_IrqGuard_calls:
  assumes "\<And>s r s'. body s = (r, s') \<Longrightarrow> ts_calls s' = ts_calls s"
  shows "ts_calls (snd (with_IrqGuard c body s)) = ts_calls s"
  using assms by (auto simp: with_IrqGuard_def Let_def split: prod.splits)

lemma periodic_calls:
  "ts_calls (snd (periodic_schedule_at c tp cb arg s)) = ts_calls s"
  "ts_calls (snd (periodic_cancel c h s)) = ts_calls s"
  by (auto simp: periodic_schedule_at_def periodic_cancel_def intro!: with_IrqGuard_calls split: option.splits)

lemma periodic_operations:
  "timer_operations (\<lambda>n t s xs. slot_rep c V D n t s xs \<and> True) (\<lambda>s. True)
     (periodic_sched c) (periodic_canc c) periodic_clock ts_calls (\<lambda>k. k < MAX_SCHEDULED_CALLBACKS)"
proof (unfold_locales, goal_cases)
  case (2 s tp cb arg)
  show ?case using periodic_calls(1) [of c tp cb arg s] by (cases "periodic_schedule_at c tp cb arg s") simp
next
  case (3 s h)
  show ?case using periodic_calls(2) [of c h s] by (cases "periodic_cancel c h s") simp
next
  case (5 n t s xs tp cb arg h n1 xs1)
  then have r: "slot_rep c V D n t s xs" by simp
  show ?case
  proof (cases "cb = 0")
    case True
    then show ?thesis using 5 by (auto simp: periodic_schedule_at_def schedule_spec_def)
  next
    case False
    then show ?thesis
      using claim_slot_rep [OF r 5(2) False] periodic_schedule_eq [OF slot_repD(5) [OF r] False, of tp arg] r
      by (auto simp: slot_rep_def timer_irq_on_def)
  qed
next
  case (6 n t s xs h)
  then have r: "slot_rep c V D n t s xs" by simp
  show ?case
  proof (cases "h = 0")
    case True
    then show ?thesis using r zero_no_handle [OF slot_repD(1) [OF r]] without_other [of h xs] by (auto simp: periodic_cancel_def)
  next
    case False
    from release_slot_rep [OF r False] show ?thesis
      using periodic_cancel_eq [OF slot_repD(5) [OF r] False] r
      by (elim disjE conjE exE) (simp_all add: slot_rep_def timer_irq_on_def)
  qed
qed (auto simp: slot_rep_def periodic_now_def cortos_port_time_now_def)

interpretation ps: slot_callbacks c "\<lambda>s. True" "periodic_sched c" "periodic_canc c" periodic_clock
  "\<lambda>k. k < MAX_SCHEDULED_CALLBACKS" for c
  by (rule slot_callbacks.intro) (simp_all add: periodic_operations [simplified])

interpretation pd: timer_driver "slot_rep c {} {}" "\<lambda>s. True" "periodic_sched c" "periodic_canc c" periodic_clock
  ts_calls "\<lambda>k. k < MAX_SCHEDULED_CALLBACKS" periodic_advance "2 ^ 64" for c
proof (rule timer_driver.intro)
  show "timer_operations (slot_rep c {} {}) (\<lambda>s. True) (periodic_sched c) (periodic_canc c) periodic_clock ts_calls
      (\<lambda>k. k < MAX_SCHEDULED_CALLBACKS)"
    using periodic_operations [of c "{}" "{}"] by simp
  show "timer_driver_axioms (slot_rep c {} {}) (\<lambda>s. True) (periodic_sched c) (periodic_canc c) periodic_clock ts_calls
      (\<lambda>k. k < MAX_SCHEDULED_CALLBACKS) periodic_advance (2 ^ 64)"
  proof (rule timer_driver_axioms.intro)
    fix s beh d
    show "\<exists>s' evs. periodic_advance (periodic_callback c beh) d s = Some s' \<and> True \<and> ts_calls s' = ts_calls s @ evs"
      using ps.fire_slots_safe [where c = c and s = "s\<lparr>ts_time := cortos_port_time_advance d (ts_time s)\<rparr>" and beh = beh]
      by (fastforce simp: periodic_advance_def periodic_on_timer_isr_def fire_due_isr_def Let_def)
  next
    fix n t s xs and d :: u64 and beh
    assume r: "slot_rep c {} {} n t s xs" and t: "t + unat d < 2 ^ 64"
    let ?s = "s\<lparr>ts_time := cortos_port_time_advance d (ts_time s)\<rparr>"
    have r1: "slot_rep c {} {} n (t + unat d) ?s xs"
      using r t by (simp add: slot_rep_def cortos_port_time_advance_def timer_irq_on_def)
    then have adv: "periodic_advance (periodic_callback c beh) d s =
        fire_due_isr (periodic_callback c beh) (of_nat (t + unat d)) ?s"
      using slot_repD(3,6) [OF r1] unfolding periodic_advance_def periodic_on_timer_isr_def Let_def cortos_port_time_now_def
      by presburger
    obtain s' evs out where "fire_due_isr (periodic_callback c beh) (of_nat (t + unat d)) ?s = Some s'"
      "ts_calls s' = ts_calls ?s @ evs"
      "isr_run (\<lambda>k. k < MAX_SCHEDULED_CALLBACKS) beh (t + unat d) (fst ` {e \<in> set xs. is_due (t + unat d) e})
         (n, xs) [] (ts_calls ?s) evs out"
      "\<forall>n1 xs1. out = Some (n1, xs1) \<longrightarrow> slot_rep c {} {} n1 (t + unat d) s' xs1"
      using ps.fire_due_isr_run [OF r1, of beh] by blast
    then show "\<exists>s' evs out. periodic_advance (periodic_callback c beh) d s = Some s' \<and> ts_calls s' = ts_calls s @ evs \<and>
        isr_run (\<lambda>k. k < MAX_SCHEDULED_CALLBACKS) beh (t + unat d) (fst ` {e \<in> set xs. is_due (t + unat d) e})
          (n, xs) [] (ts_calls s) evs out \<and>
        (case out of None \<Rightarrow> True | Some (n1, xs1) \<Rightarrow> slot_rep c {} {} n1 (t + unat d) s' xs1)"
      unfolding adv by (intro exI [of _ s'] exI [of _ evs] exI [of _ out]) (simp split: option.split)
  qed
qed

section \<open>Properties\<close>

lemma periodic_bring_up:
  assumes "0 < f"
  obtains s0 s1 where "periodic_initialise f timer_sys_init = Some s0" "periodic_start s0 = Some s1"
    "slot_rep c {} {} 1 0 s1 []" "ts_calls s1 = []"
proof -
  let ?s0 = "timer_sys_init\<lparr>ts_ds := DriverState_init\<lparr>ds_initialised := True, ds_frequency_hz := f\<rparr>\<rparr>"
  let ?s1 = "?s0\<lparr>ts_time := TimeState_init\<lparr>irq_enabled := True, isr_registered := True\<rparr>,
    ts_ds := (ts_ds ?s0)\<lparr>ds_started := True\<rparr>\<rparr>"
  have "periodic_initialise f timer_sys_init = Some ?s0"
    by (simp add: periodic_initialise_def timer_sys_init_def DriverState_init_def)
  moreover have "periodic_start ?s0 = Some ?s1"
    using assms by (simp add: periodic_start_def timer_init_defs time_port_defs)
  moreover have "slot_rep c {} {} 1 0 ?s1 []"
    using slots_rep_init by (simp add: slot_rep_def timer_irq_on_def slots_rep_def timer_init_defs)
  ultimately show ?thesis using that [of ?s0 ?s1] by (simp add: timer_init_defs)
qed

text \<open>
  C27: the periodic driver, once initialised with a positive frequency and started, answers every script
  of \<^verbatim>\<open>schedule_at\<close>, \<^verbatim>\<open>cancel\<close> and tick interrupts as a set of at most 16 pending callbacks allows, whatever
  the callbacks do with \<^verbatim>\<open>now\<close>, \<^verbatim>\<open>schedule_at\<close> and \<^verbatim>\<open>cancel\<close> from inside the interrupt: handles are fresh, and 0 only
  when the request is refused for want of a slot or of a function; a cancelled callback is never run; each interrupt
  takes every callback whose time had come out of the pending ones before it calls it, and calls it once,
  unless an earlier callback of the same interrupt cancelled it.  The script must not run the 64-bit clock around, and
  the statement ends when \<open>2 ^ 32 - 2\<close> handles have been given out.
\<close>

theorem periodic_refines_timers:
  assumes "0 < f" "advance_sum ops < 2 ^ 64"
  shows "\<exists>s0 s1 rs s2 out. periodic_initialise f timer_sys_init = Some s0 \<and> periodic_start s0 = Some s1 \<and>
    timer_run (periodic_sched c) (periodic_canc c) (periodic_advance (periodic_callback c beh)) ts_calls ops s1 =
      Some (rs, s2) \<and>
    timer_runs (\<lambda>k. k < MAX_SCHEDULED_CALLBACKS) beh ops (1, 0, []) [] rs out"
proof -
  obtain s0 s1 where s: "periodic_initialise f timer_sys_init = Some s0" "periodic_start s0 = Some s1"
    "slot_rep c {} {} 1 0 s1 []" "ts_calls s1 = []" by (rule periodic_bring_up [OF assms(1)])
  from pd.timer_refines [OF s(3), of ops beh] assms(2) s(1,2,4) show ?thesis by fastforce
qed

lemma periodic_demo_run:
  "map_option fst (do {
     s0 \<leftarrow> periodic_initialise 100 timer_sys_init;
     s1 \<leftarrow> periodic_start s0;
     timer_run (periodic_sched 0) (periodic_canc 0) (periodic_advance (periodic_callback 0 timer_demo_beh)) ts_calls
       timer_demo_script s1 }) =
   Some [Handle 1, Handle 2, Handle 3, Fired [(8, 0)], Fired [(7, 1)], Fired [(9, 1)], Cancelled False]"
  by code_simp

theorem periodic_refines_timers_witness:
  "\<exists>out. timer_runs (\<lambda>k. k < MAX_SCHEDULED_CALLBACKS) timer_demo_beh timer_demo_script (1, 0, []) []
     [Handle 1, Handle 2, Handle 3, Fired [(8, 0)], Fired [(7, 1)], Fired [(9, 1)], Cancelled False] out"
  using periodic_refines_timers [of 100 timer_demo_script 0 timer_demo_beh] periodic_demo_run by (auto simp: timer_demo_script_def)


end
