(* ===== verification/Time_Tickless.thy ===== *)
theory Time_Tickless
  imports Time_Slots
begin

text \<open>
  time_driver_tickless.cpp: the driver that arms a one-shot interrupt for the earliest deadline.
  It implements the contract \<open>timer_driver\<close> on a port that delivers an interrupt only when the armed
  deadline has come, and whose one-shot is used up by the interrupt.
\<close>

section \<open>Operations\<close>

definition earliest_deadline :: "Slot list \<Rightarrow> u64" where
  "earliest_deadline ss =
     foldl (\<lambda>earliest slot. if s_id slot \<noteq> 0 \<and> s_when slot < earliest then s_when slot else earliest)
       UINT64_MAX ss"

definition rearm_locked :: "timer_sys \<Rightarrow> timer_sys" where
  "rearm_locked s =
     (let earliest = earliest_deadline (ds_slots (ts_ds s))
      in if earliest = UINT64_MAX then s\<lparr>ts_time := cortos_port_time_disarm (ts_time s)\<rparr>
         else s\<lparr>ts_time := cortos_port_time_arm earliest (ts_time s)\<rparr>)"

definition tickless_initialise :: "u32 \<Rightarrow> timer_sys \<Rightarrow> timer_sys option" where
  "tickless_initialise frequency_hz s = do {
     CORTOS_ASSERT (\<not> ds_initialised (ts_ds s));
     Some (s\<lparr>ts_ds := (ts_ds s)\<lparr>ds_frequency_hz := frequency_hz\<rparr>\<rparr>) }"

definition tickless_finalise :: "timer_sys \<Rightarrow> timer_sys option" where
  "tickless_finalise s = do {
     CORTOS_ASSERT (ds_initialised (ts_ds s));
     Some (s\<lparr>ts_ds := DriverState_init\<rparr>) }"

definition tickless_now :: "timer_sys \<Rightarrow> TimePoint" where
  "tickless_now s = \<lparr>tp_value = cortos_port_time_now (ts_time s)\<rparr>"

definition tickless_schedule_at :: "nat \<Rightarrow> u64 \<Rightarrow> u64 \<Rightarrow> u64 \<Rightarrow> timer_sys \<Rightarrow> u32 \<times> timer_sys" where
  "tickless_schedule_at c tp cb arg s =
     (if cb = 0 then (0, s)
      else with_IrqGuard c (\<lambda>s. case claim_slot tp cb arg (ts_ds s) of
          None \<Rightarrow> (0, s)
        | Some (h, ds) \<Rightarrow> (h, rearm_locked (s\<lparr>ts_ds := ds\<rparr>))) s)"

definition tickless_cancel :: "nat \<Rightarrow> u32 \<Rightarrow> timer_sys \<Rightarrow> bool \<times> timer_sys" where
  "tickless_cancel c h s =
     (if h = 0 then (False, s)
      else with_IrqGuard c (\<lambda>s. case release_slot h (ts_ds s) of
          None \<Rightarrow> (False, s)
        | Some ds \<Rightarrow> (True, rearm_locked (s\<lparr>ts_ds := ds\<rparr>))) s)"

definition tickless_from_milliseconds :: "u32 \<Rightarrow> timer_sys \<Rightarrow> Duration" where
  "tickless_from_milliseconds ms s =
     \<lparr>d_value = ceil_div_u64 (ucast ms * ucast (ds_frequency_hz (ts_ds s))) 1000\<rparr>"

definition tickless_from_microseconds :: "u32 \<Rightarrow> timer_sys \<Rightarrow> Duration" where
  "tickless_from_microseconds us s =
     \<lparr>d_value = ceil_div_u64 (ucast us * ucast (ds_frequency_hz (ts_ds s))) 1000000\<rparr>"

definition tickless_start :: "nat \<Rightarrow> timer_sys \<Rightarrow> timer_sys" where
  "tickless_start c s =
     (if ds_started (ts_ds s) then s
      else
        (let s = s\<lparr>ts_time := cortos_port_time_setup 0
                     (cortos_port_time_register_isr_handler (ts_time s))\<rparr>;
             s = snd (with_IrqGuard c (\<lambda>s. ((), rearm_locked s)) s)
         in s\<lparr>ts_time := cortos_port_time_irq_enable (ts_time s),
              ts_ds := (ts_ds s)\<lparr>ds_started := True\<rparr>\<rparr>))"

definition tickless_stop :: "timer_sys \<Rightarrow> timer_sys" where
  "tickless_stop s =
     (if \<not> ds_started (ts_ds s) then s
      else s\<lparr>ts_time := cortos_port_time_disarm (cortos_port_time_irq_disable (ts_time s)),
             ts_ds := (ts_ds s)\<lparr>ds_started := False\<rparr>\<rparr>)"

definition tickless_on_timer_isr :: "callbacks \<Rightarrow> nat \<Rightarrow> timer_sys \<Rightarrow> timer_sys option" where
  "tickless_on_timer_isr act c s = do {
     s \<leftarrow> fire_due_isr act (cortos_port_time_now (ts_time s)) s;
     Some (snd (with_IrqGuard c (\<lambda>s. ((), rearm_locked s)) s)) }"

section \<open>The armed deadline\<close>

lemma earliest_le_fold:
  "foldl (\<lambda>e slot. if s_id slot \<noteq> 0 \<and> s_when slot < e then s_when slot else e) m ss \<le> m"
proof (induction ss arbitrary: m)
  case (Cons x ss)
  let ?m = "if s_id x \<noteq> 0 \<and> s_when x < m then s_when x else m"
  have "?m \<le> m" by auto
  then show ?case using order.trans [OF Cons.IH [of ?m]] by simp
qed simp

lemma earliest_fold_le:
  "slot \<in> set ss \<Longrightarrow> s_id slot \<noteq> 0 \<Longrightarrow>
   foldl (\<lambda>e slot. if s_id slot \<noteq> 0 \<and> s_when slot < e then s_when slot else e) m ss \<le> s_when slot"
proof (induction ss arbitrary: m)
  case (Cons x ss)
  show ?case
  proof (cases "slot = x")
    case True
    let ?m = "if s_id x \<noteq> 0 \<and> s_when x < m then s_when x else m"
    have "?m \<le> s_when slot" using True Cons.prems(2) by auto
    then show ?thesis using order.trans [OF earliest_le_fold [of ?m ss]] by simp
  next
    case False
    then show ?thesis using Cons by simp
  qed
qed simp

text \<open>No pending callback is due before the armed deadline.\<close>

definition armed_ok :: "timer_sys \<Rightarrow> bool" where
  "armed_ok s \<longleftrightarrow> (\<forall>slot \<in> set (ds_slots (ts_ds s)). s_id slot \<noteq> 0 \<longrightarrow>
     armed_deadline (ts_time s) \<le> s_when slot)"

lemma rearm_locked_armed: "armed_ok (rearm_locked s)"
proof -
  let ?e = "earliest_deadline (ds_slots (ts_ds s))"
  have le: "?e \<le> s_when slot" if "slot \<in> set (ds_slots (ts_ds s))" "s_id slot \<noteq> 0" for slot
    using earliest_fold_le [OF that] by (simp add: earliest_deadline_def)
  have "armed_deadline (ts_time (rearm_locked s)) \<le> ?e"
    by (auto simp: rearm_locked_def Let_def cortos_port_time_disarm_def cortos_port_time_arm_def)
  moreover have "ds_slots (ts_ds (rearm_locked s)) = ds_slots (ts_ds s)"
    by (simp add: rearm_locked_def Let_def)
  ultimately show ?thesis using le unfolding armed_ok_def by (metis order.trans)
qed

lemma rearm_locked_sel [simp]:
  "ts_ds (rearm_locked s) = ts_ds s" "ts_irq (rearm_locked s) = ts_irq s"
  "ts_calls (rearm_locked s) = ts_calls s" "time_now (ts_time (rearm_locked s)) = time_now (ts_time s)"
  "irq_enabled (ts_time (rearm_locked s)) = irq_enabled (ts_time s)"
  "isr_registered (ts_time (rearm_locked s)) = isr_registered (ts_time s)"
  "rearm_locked (s\<lparr>ts_irq := p\<rparr>) = (rearm_locked s)\<lparr>ts_irq := p\<rparr>"
  by (simp_all add: rearm_locked_def Let_def cortos_port_time_disarm_def cortos_port_time_arm_def)

lemma rearm_locked_irq_ds [simp]:
  "rearm_locked (s\<lparr>ts_irq := p, ts_ds := ds\<rparr>) = (rearm_locked (s\<lparr>ts_ds := ds\<rparr>))\<lparr>ts_irq := p\<rparr>"
  by (simp add: rearm_locked_def Let_def)

section \<open>The driver implements the contract\<close>

text \<open>
  A step of time: the clock moves, and the port delivers the interrupt if it is armed and the deadline has come (port.h,
  lines 304 to 307; a deadline of \<open>UINT64_MAX\<close> is the disarmed state).  The interrupt uses up the one-shot: what the driver arms from then on is a new deadline
  (lines 361 to 366).  The port may also deliver interrupts that nothing asked for: \<open>spurious\<close>.
\<close>

definition deadline_passed :: "TimeState \<Rightarrow> bool" where
  "deadline_passed ts \<longleftrightarrow> armed_deadline ts \<noteq> UINT64_MAX \<and> armed_deadline ts \<le> cortos_port_time_now ts"

definition tickless_advance :: "(timer_sys \<Rightarrow> bool) \<Rightarrow> nat \<Rightarrow> callbacks \<Rightarrow> u64 \<Rightarrow> timer_sys \<Rightarrow> timer_sys option" where
  "tickless_advance spurious c act d s =
     (let s = s\<lparr>ts_time := cortos_port_time_advance d (ts_time s)\<rparr>
      in if timer_irq_on s \<and> (deadline_passed (ts_time s) \<or> spurious s)
         then tickless_on_timer_isr act c (s\<lparr>ts_time := cortos_port_time_disarm (ts_time s)\<rparr>)
         else Some s)"

text \<open>The operations, in the form that callbacks and scripts use them.\<close>

abbreviation tickless_sched :: "nat \<Rightarrow> u64 \<Rightarrow> u64 \<Rightarrow> u64 \<Rightarrow> timer_sys \<Rightarrow> (u32 \<times> timer_sys) option" where
  "tickless_sched c \<equiv> \<lambda>tp cb arg s. Some (tickless_schedule_at c tp cb arg s)"

abbreviation tickless_canc :: "nat \<Rightarrow> u32 \<Rightarrow> timer_sys \<Rightarrow> (bool \<times> timer_sys) option" where
  "tickless_canc c \<equiv> \<lambda>h s. Some (tickless_cancel c h s)"

abbreviation tickless_clock :: "timer_sys \<Rightarrow> u64 option" where
  "tickless_clock \<equiv> \<lambda>s. Some (tp_value (tickless_now s))"

abbreviation tickless_callback :: "nat \<Rightarrow> behaviour \<Rightarrow> callbacks" where
  "tickless_callback c \<equiv> run_callback (tickless_sched c) (tickless_canc c) tickless_clock ts_calls"

text \<open>The flag that \<^verbatim>\<open>initialise\<close> does not set, and no other operation either.\<close>

abbreviation unset :: "timer_sys \<Rightarrow> bool" where
  "unset s \<equiv> \<not> ds_initialised (ts_ds s)"

text \<open>Between interrupts the port is armed for the earliest pending callback.\<close>

definition tickless_rep :: "nat \<Rightarrow> nat \<Rightarrow> nat \<Rightarrow> timer_sys \<Rightarrow> pending \<Rightarrow> bool" where
  "tickless_rep c n t s xs \<longleftrightarrow> slot_rep c {} {} n t s xs \<and> armed_ok s \<and> unset s"

lemma guarded_rearm:
  assumes "interrupt_disable_depth (ts_irq s) c \<noteq> 0xFFFFFFFF"
  shows "with_IrqGuard c (\<lambda>s. ((), rearm_locked s)) s = ((), rearm_locked s)"
  using assms by (intro with_IrqGuard_eq) simp_all

lemma tickless_schedule_eq:
  assumes "interrupt_disable_depth (ts_irq s) c \<noteq> 0xFFFFFFFF" "cb \<noteq> 0"
  shows "tickless_schedule_at c tp cb arg s = (case claim_slot tp cb arg (ts_ds s) of
      None \<Rightarrow> (0, s) | Some (h, ds) \<Rightarrow> (h, rearm_locked (s\<lparr>ts_ds := ds\<rparr>)))"
proof (cases "claim_slot tp cb arg (ts_ds s)")
  case None
  with assms show ?thesis unfolding tickless_schedule_at_def
    by (simp add: with_IrqGuard_eq [where f = "\<lambda>s. s" and r = 0])
next
  case (Some r)
  with assms show ?thesis unfolding tickless_schedule_at_def
    by (simp add: with_IrqGuard_eq [where f = "\<lambda>s. rearm_locked (s\<lparr>ts_ds := snd r\<rparr>)" and r = "fst r"] case_prod_unfold)
qed

lemma tickless_cancel_eq:
  assumes "interrupt_disable_depth (ts_irq s) c \<noteq> 0xFFFFFFFF" "h \<noteq> 0"
  shows "tickless_cancel c h s = (case release_slot h (ts_ds s) of
      None \<Rightarrow> (False, s) | Some ds \<Rightarrow> (True, rearm_locked (s\<lparr>ts_ds := ds\<rparr>)))"
proof (cases "release_slot h (ts_ds s)")
  case None
  with assms show ?thesis unfolding tickless_cancel_def
    by (simp add: with_IrqGuard_eq [where f = "\<lambda>s. s" and r = False])
next
  case (Some ds)
  with assms show ?thesis unfolding tickless_cancel_def
    by (simp add: with_IrqGuard_eq [where f = "\<lambda>s. rearm_locked (s\<lparr>ts_ds := ds\<rparr>)" and r = True])
qed

lemma claim_release_initialised:
  "claim_slot tp cb arg ds = Some (h, ds') \<Longrightarrow> ds_initialised ds' = ds_initialised ds"
  "release_slot h ds = Some ds' \<Longrightarrow> ds_initialised ds' = ds_initialised ds"
  by (auto simp: claim_slot_def release_slot_def take_id_def Let_def split: option.splits if_splits)

lemma tickless_schedule_frame:
  assumes "unset s"
  shows "unset (snd (tickless_schedule_at c tp cb arg s)) \<and> ts_calls (snd (tickless_schedule_at c tp cb arg s)) = ts_calls s"
  using assms claim_release_initialised(1)
  by (auto simp: tickless_schedule_at_def with_IrqGuard_def Let_def split: option.splits prod.splits)

lemma tickless_cancel_frame:
  assumes "unset s"
  shows "unset (snd (tickless_cancel c h s)) \<and> ts_calls (snd (tickless_cancel c h s)) = ts_calls s"
  using assms claim_release_initialised(2)
  by (auto simp: tickless_cancel_def with_IrqGuard_def Let_def split: option.splits prod.splits)

text \<open>What an operation makes of the slots, and that it leaves the port armed.\<close>

lemma tickless_schedule_rep:
  assumes r: "slot_rep c V D n t s xs" "unset s"
    and sp: "schedule_spec (\<lambda>k. k < MAX_SCHEDULED_CALLBACKS) tp cb arg (n, xs) = Some (h, n1, xs1)"
  shows "\<exists>s'. tickless_schedule_at c tp cb arg s = (h, s') \<and> slot_rep c V D n1 t s' xs1 \<and> unset s' \<and>
    ts_calls s' = ts_calls s \<and> (armed_ok s \<longrightarrow> armed_ok s')"
proof (cases "cb = 0")
  case True
  then show ?thesis using sp r by (auto simp: tickless_schedule_at_def schedule_spec_def)
next
  case False
  then show ?thesis
    using claim_slot_rep [OF r(1) sp False] tickless_schedule_eq [OF slot_repD(5) [OF r(1)] False, of tp arg] r
    by (auto simp: slot_rep_def timer_irq_on_def rearm_locked_armed)
qed

lemma tickless_cancel_rep:
  assumes r: "slot_rep c V D n t s xs" "unset s"
  shows "\<exists>s'. tickless_cancel c h s = (h \<in> fst ` set xs, s') \<and> slot_rep c V D n t s' (without h xs) \<and> unset s' \<and>
    ts_calls s' = ts_calls s \<and> (armed_ok s \<longrightarrow> armed_ok s')"
proof (cases "h = 0")
  case True
  then show ?thesis using r zero_no_handle [OF slot_repD(1) [OF r(1)]] without_other [of h xs]
    by (auto simp: tickless_cancel_def)
next
  case False
  from release_slot_rep [OF r(1) False] show ?thesis
    using tickless_cancel_eq [OF slot_repD(5) [OF r(1)] False] r
    by (elim disjE conjE exE) (simp_all add: slot_rep_def timer_irq_on_def rearm_locked_armed)
qed

text \<open>
  The same operations twice: during an interrupt, when the port need not be armed, and between interrupts.
\<close>

lemma tickless_operations:
  assumes A: "\<And>s s'. armed_ok s \<longrightarrow> armed_ok s' \<Longrightarrow> A s \<Longrightarrow> A s'"
  shows "timer_operations (\<lambda>n t s xs. slot_rep c V D n t s xs \<and> A s \<and> unset s) unset
     (tickless_sched c) (tickless_canc c) tickless_clock ts_calls (\<lambda>k. k < MAX_SCHEDULED_CALLBACKS)"
proof (unfold_locales, goal_cases)
  case (2 s tp cb arg)
  then show ?case using tickless_schedule_frame [of s c tp cb arg] by (cases "tickless_schedule_at c tp cb arg s") simp
next
  case (3 s h)
  then show ?case using tickless_cancel_frame [of s c h] by (cases "tickless_cancel c h s") simp
next
  case (5 n t s xs tp cb arg h n1 xs1)
  then obtain s' where "tickless_schedule_at c tp cb arg s = (h, s')" "slot_rep c V D n1 t s' xs1" "unset s'"
    "ts_calls s' = ts_calls s" "armed_ok s \<longrightarrow> armed_ok s'" using tickless_schedule_rep [of c V D n t s xs] by blast
  then show ?case using 5 A by simp
next
  case (6 n t s xs h)
  then obtain s' where "tickless_cancel c h s = (h \<in> fst ` set xs, s')" "slot_rep c V D n t s' (without h xs)" "unset s'"
    "ts_calls s' = ts_calls s" "armed_ok s \<longrightarrow> armed_ok s'" using tickless_cancel_rep [of c V D n t s xs h] by blast
  then show ?case using 6 A by simp
qed (auto simp: slot_rep_def tickless_now_def cortos_port_time_now_def)

interpretation ts: slot_callbacks c unset "tickless_sched c" "tickless_canc c" tickless_clock
  "\<lambda>k. k < MAX_SCHEDULED_CALLBACKS" for c
  by (rule slot_callbacks.intro) (use tickless_operations [where A = "\<lambda>s. True"] in simp_all)

lemma tickless_on_timer_isr_safe:
  assumes "unset s"
  shows "\<exists>s' evs. tickless_on_timer_isr (tickless_callback c beh) c s = Some s' \<and> unset s' \<and> ts_calls s' = ts_calls s @ evs"
proof -
  obtain s1 evs where "fire_due_isr (tickless_callback c beh) (cortos_port_time_now (ts_time s)) s = Some s1" "unset s1"
    "ts_calls s1 = ts_calls s @ evs" unfolding fire_due_isr_def using ts.fire_slots_safe [OF assms] by blast
  then show ?thesis by (simp add: tickless_on_timer_isr_def with_IrqGuard_def Let_def split: prod.split)
qed

text \<open>The interrupt handler runs what is due and arms the port again.\<close>

lemma tickless_on_timer_isr_rep:
  assumes r: "slot_rep c {} {} n t s xs" "unset s"
  shows "\<exists>s' evs out. tickless_on_timer_isr (tickless_callback c beh) c s = Some s' \<and> ts_calls s' = ts_calls s @ evs \<and>
    isr_run (\<lambda>k. k < MAX_SCHEDULED_CALLBACKS) beh t (fst ` {e \<in> set xs. is_due t e}) (n, xs) [] (ts_calls s) evs out \<and>
    (case out of None \<Rightarrow> unset s' | Some (n1, xs1) \<Rightarrow> tickless_rep c n1 t s' xs1)"
proof -
  obtain s1 evs out where s1: "fire_due_isr (tickless_callback c beh) (of_nat t) s = Some s1" "unset s1"
    "ts_calls s1 = ts_calls s @ evs"
    "isr_run (\<lambda>k. k < MAX_SCHEDULED_CALLBACKS) beh t (fst ` {e \<in> set xs. is_due t e}) (n, xs) [] (ts_calls s) evs out"
    "\<forall>n1 xs1. out = Some (n1, xs1) \<longrightarrow> slot_rep c {} {} n1 t s1 xs1"
    using ts.fire_due_isr_run [OF r] by blast
  let ?s = "snd (with_IrqGuard c (\<lambda>s. ((), rearm_locked s)) s1)"
  have run: "tickless_on_timer_isr (tickless_callback c beh) c s = Some ?s"
    using s1(1) slot_repD(3) [OF r(1)] by (simp add: tickless_on_timer_isr_def cortos_port_time_now_def)
  have fr: "unset ?s" "ts_calls ?s = ts_calls s1" using s1(2) by (simp_all add: with_IrqGuard_def Let_def split: prod.split)
  have "tickless_rep c n1 t ?s xs1" if "out = Some (n1, xs1)" for n1 xs1
  proof -
    have "slot_rep c {} {} n1 t s1 xs1" using s1(5) that by simp
    moreover from this have "?s = rearm_locked s1" using guarded_rearm [OF slot_repD(5)] by simp
    ultimately show ?thesis using s1(2) by (simp add: tickless_rep_def slot_rep_def timer_irq_on_def rearm_locked_armed)
  qed
  then show ?thesis using run fr s1(3,4)
    by (intro exI [of _ ?s] exI [of _ evs] exI [of _ out]) (simp split: option.split)
qed

text \<open>While the deadline has not come there is nothing to run.\<close>

lemma armed_before_pending:
  assumes "slot_rep c V D n t s xs" "armed_ok s" "e \<in> set xs"
  shows "armed_deadline (ts_time s) \<le> fst (snd e)"
proof -
  have "set xs = set (live (ds_slots (ts_ds s)))" using slots_repD(2) [OF slot_repD(1) [OF assms(1)]] by (metis set_mset_mset)
  then obtain slot where "slot \<in> set (ds_slots (ts_ds s))" "s_id slot \<noteq> 0" "s_when slot = fst (snd e)"
    using assms(3) by (auto simp: live_def slot_entry_def)
  then show ?thesis using assms(2) by (auto simp: armed_ok_def)
qed

lemma not_armed_not_due:
  assumes r: "slot_rep c {} {} n t s xs" "armed_ok s" and no: "\<not> deadline_passed (ts_time s)" "e \<in> set xs"
    and t: "t < 2 ^ 64 - 1"
  shows "\<not> is_due t e"
proof -
  have "\<not> UINT64_MAX \<le> of_nat t" using t word_le_of_nat [OF slot_repD(4) [OF r(1)]] by (simp add: UINT64_MAX_def)
  then have "\<not> armed_deadline (ts_time s) \<le> of_nat t"
    using no(1) slot_repD(3) [OF r(1)] by (auto simp: deadline_passed_def cortos_port_time_now_def)
  then have "\<not> fst (snd e) \<le> of_nat t" using armed_before_pending [OF r no(2)] by (meson order.trans)
  then show ?thesis using word_le_of_nat [OF slot_repD(4) [OF r(1)]] by (simp add: is_due_def)
qed

interpretation td: timer_driver "tickless_rep c" unset "tickless_sched c" "tickless_canc c" tickless_clock
  ts_calls "\<lambda>k. k < MAX_SCHEDULED_CALLBACKS" "tickless_advance spurious c" "2 ^ 64 - 1" for c spurious
proof (rule timer_driver.intro)
  show "timer_operations (tickless_rep c) unset (tickless_sched c) (tickless_canc c) tickless_clock ts_calls
      (\<lambda>k. k < MAX_SCHEDULED_CALLBACKS)"
    using tickless_operations [of armed_ok c "{}" "{}"] unfolding tickless_rep_def by blast
  show "timer_driver_axioms (tickless_rep c) unset (tickless_sched c) (tickless_canc c) tickless_clock ts_calls
      (\<lambda>k. k < MAX_SCHEDULED_CALLBACKS) (tickless_advance spurious c) (2 ^ 64 - 1)"
  proof (rule timer_driver_axioms.intro)
    fix s beh d
    assume u: "unset s"
    show "\<exists>s' evs. tickless_advance spurious c (tickless_callback c beh) d s = Some s' \<and> unset s' \<and>
        ts_calls s' = ts_calls s @ evs"
      using u tickless_on_timer_isr_safe [of "s\<lparr>ts_time := t\<rparr>" c beh for t] by (simp add: tickless_advance_def Let_def)
  next
    fix n t s xs and d :: u64 and beh
    assume r: "tickless_rep c n t s xs" and t: "t + unat d < 2 ^ 64 - 1"
    let ?t = "t + unat d" and ?s = "s\<lparr>ts_time := cortos_port_time_advance d (ts_time s)\<rparr>"
    let ?D = "fst ` {e \<in> set xs. is_due ?t e}" and ?act = "tickless_callback c beh"
    have r1: "slot_rep c {} {} n ?t ?s xs" "armed_ok ?s" "unset ?s"
      using r t by (simp_all add: tickless_rep_def slot_rep_def cortos_port_time_advance_def timer_irq_on_def armed_ok_def)
    then have r2: "slot_rep c {} {} n ?t (?s\<lparr>ts_time := cortos_port_time_disarm (ts_time ?s)\<rparr>) xs"
      by (simp add: slot_rep_def cortos_port_time_disarm_def timer_irq_on_def)
    show "\<exists>s' evs out. tickless_advance spurious c ?act d s = Some s' \<and> ts_calls s' = ts_calls s @ evs \<and>
        isr_run (\<lambda>k. k < MAX_SCHEDULED_CALLBACKS) beh ?t ?D (n, xs) [] (ts_calls s) evs out \<and>
        (case out of None \<Rightarrow> unset s' | Some (n1, xs1) \<Rightarrow> tickless_rep c n1 ?t s' xs1)"
    proof (cases "deadline_passed (ts_time ?s) \<or> spurious ?s")
      case True
      then have "tickless_advance spurious c ?act d s =
          tickless_on_timer_isr ?act c (?s\<lparr>ts_time := cortos_port_time_disarm (ts_time ?s)\<rparr>)"
        using slot_repD(6) [OF r1(1)] unfolding tickless_advance_def Let_def by presburger
      then show ?thesis using tickless_on_timer_isr_rep [OF r2, of beh] r1(3) by simp
    next
      case False
      then have "tickless_advance spurious c ?act d s = Some ?s" unfolding tickless_advance_def Let_def by presburger
      moreover have "?D \<inter> fst ` set xs = {}"
        using not_armed_not_due [OF r1(1,2) _ _ t] False by blast
      ultimately show ?thesis using isr_end [of ?D xs] r1
        by (intro exI [of _ ?s] exI [of _ "[]"] exI [of _ "Some (n, xs)"]) (simp add: tickless_rep_def)
    qed
  qed
qed

section \<open>Properties\<close>

lemma tickless_bring_up:
  obtains s0 where "tickless_initialise f timer_sys_init = Some s0" "tickless_rep c 1 0 (tickless_start c s0) []"
    "ts_calls (tickless_start c s0) = []"
proof -
  let ?s0 = "timer_sys_init\<lparr>ts_ds := DriverState_init\<lparr>ds_frequency_hz := f\<rparr>\<rparr>"
  let ?s1 = "?s0\<lparr>ts_time := TimeState_init\<lparr>isr_registered := True\<rparr>\<rparr>"
  have init: "tickless_initialise f timer_sys_init = Some ?s0"
    by (simp add: tickless_initialise_def timer_init_defs)
  have "with_IrqGuard c (\<lambda>s. ((), rearm_locked s)) ?s1 = ((), rearm_locked ?s1)"
    by (rule guarded_rearm) (simp add: timer_init_defs)
  then have st: "tickless_start c ?s0 = (rearm_locked ?s1)\<lparr>ts_time := (ts_time (rearm_locked ?s1))\<lparr>irq_enabled := True\<rparr>,
      ts_ds := (ts_ds ?s0)\<lparr>ds_started := True\<rparr>\<rparr>"
    by (simp add: tickless_start_def timer_sys_init_def DriverState_init_def time_port_defs Let_def)
  moreover have "armed_ok (rearm_locked ?s1)" by (rule rearm_locked_armed)
  moreover have "isr_registered (ts_time (rearm_locked ?s1))"
    by (simp add: rearm_locked_def Let_def cortos_port_time_disarm_def cortos_port_time_arm_def)
  ultimately have "tickless_rep c 1 0 (tickless_start c ?s0) []"
    using slots_rep_init by (simp add: tickless_rep_def slot_rep_def timer_irq_on_def armed_ok_def slots_rep_def timer_init_defs)
  then show ?thesis using that init st by (simp add: timer_init_defs)
qed

text \<open>
  C28: the tickless driver answers every script of \<^verbatim>\<open>schedule_at\<close>, \<^verbatim>\<open>cancel\<close> and steps of time as a set of at most 16
  pending callbacks allows, whatever the callbacks do with \<^verbatim>\<open>now\<close>, \<^verbatim>\<open>schedule_at\<close> and \<^verbatim>\<open>cancel\<close> from inside the interrupt.
  Time passes on a port that delivers one interrupt when the deadline it is armed for has come, that is
  disarmed by the interrupt, and that may deliver others besides: so no callback whose time has come is slept through,
  also when interrupts come only as armed.  At the end the port is armed no later than any pending time below
  the disarmed value \<open>2 ^ 64 - 1\<close>.  The script must leave the 64-bit clock below that value, and the statement ends
  when \<open>2 ^ 32 - 2\<close> handles have been given out.
\<close>

theorem tickless_refines_timers:
  assumes "advance_sum ops < 2 ^ 64 - 1"
  shows "\<exists>s0 rs s2 out. tickless_initialise f timer_sys_init = Some s0 \<and>
    timer_run (tickless_sched c) (tickless_canc c) (tickless_advance spurious c (tickless_callback c beh)) ts_calls ops
      (tickless_start c s0) = Some (rs, s2) \<and>
    timer_runs (\<lambda>k. k < MAX_SCHEDULED_CALLBACKS) beh ops (1, 0, []) [] rs out \<and>
    (case out of None \<Rightarrow> True | Some (n, t, ys) \<Rightarrow>
       (\<forall>(h, w, cb, arg) \<in> set ys. w < UINT64_MAX \<longrightarrow> armed_deadline (ts_time s2) \<le> w))"
proof -
  obtain s0 where s: "tickless_initialise f timer_sys_init = Some s0" "tickless_rep c 1 0 (tickless_start c s0) []"
    "ts_calls (tickless_start c s0) = []" by (rule tickless_bring_up)
  have "0 + advance_sum ops < 2 ^ 64 - 1" using assms by simp
  from td.timer_refines [OF s(2) this, of spurious beh] obtain rs s2 out where l:
    "timer_run (tickless_sched c) (tickless_canc c) (tickless_advance spurious c (tickless_callback c beh)) ts_calls ops
      (tickless_start c s0) = Some (rs, s2)"
    "timer_runs (\<lambda>k. k < MAX_SCHEDULED_CALLBACKS) beh ops (1, 0, []) [] rs out"
    "case out of None \<Rightarrow> unset s2 | Some (n, t, ys) \<Rightarrow> tickless_rep c n t s2 ys" unfolding s(3) by blast
  have "armed_deadline (ts_time s2) \<le> w" if "out = Some (n, t, ys)" "(h, w, cb, arg) \<in> set ys" for n t ys h w cb arg
    using l(3) that armed_before_pending [of c "{}" "{}" n t s2 ys "(h, w, cb, arg)"] by (simp add: tickless_rep_def)
  then have "case out of None \<Rightarrow> True | Some (n, t, ys) \<Rightarrow>
      (\<forall>(h, w, cb, arg) \<in> set ys. w < UINT64_MAX \<longrightarrow> armed_deadline (ts_time s2) \<le> w)" by (auto split: option.split)
  with s(1) l(1,2) show ?thesis by blast
qed

lemma tickless_demo_run:
  "map_option fst (do {
     s0 \<leftarrow> tickless_initialise 100 timer_sys_init;
     timer_run (tickless_sched 2) (tickless_canc 2) (tickless_advance (\<lambda>s. False) 2 (tickless_callback 2 timer_demo_beh))
       ts_calls timer_demo_script (tickless_start 2 s0) }) =
   Some [Handle 1, Handle 2, Handle 3, Fired [(8, 0)], Fired [(7, 1)], Fired [(9, 1)], Cancelled False]"
  by code_simp

theorem tickless_refines_timers_witness:
  "\<exists>out. timer_runs (\<lambda>k. k < MAX_SCHEDULED_CALLBACKS) timer_demo_beh timer_demo_script (1, 0, []) []
     [Handle 1, Handle 2, Handle 3, Fired [(8, 0)], Fired [(7, 1)], Fired [(9, 1)], Cancelled False] out"
  using tickless_refines_timers [of timer_demo_script 100 2 "\<lambda>s. False" timer_demo_beh] tickless_demo_run
  by (auto simp: timer_demo_script_def)

text \<open>
  C32: \<^verbatim>\<open>initialise\<close> of the tickless driver does not set the flag that \<^verbatim>\<open>finalise\<close> requires.  After
  initialising, starting and any script of operations, whatever the callbacks do, \<^verbatim>\<open>finalise\<close> fails its assertion, and
  \<^verbatim>\<open>initialise\<close> may be called again although the driver was never finalised.
\<close>

theorem tickless_finalise_fails:
  "\<exists>s0 rs s2. tickless_initialise f timer_sys_init = Some s0 \<and>
    timer_run (tickless_sched c) (tickless_canc c) (tickless_advance spurious c (tickless_callback c beh)) ts_calls ops
      (tickless_start c s0) = Some (rs, s2) \<and>
    tickless_finalise s2 = None \<and> tickless_initialise g s2 \<noteq> None"
proof -
  obtain s0 where s: "tickless_initialise f timer_sys_init = Some s0" "tickless_rep c 1 0 (tickless_start c s0) []"
    by (rule tickless_bring_up)
  then have "unset (tickless_start c s0)" by (simp add: tickless_rep_def)
  then obtain rs s2 where
    "timer_run (tickless_sched c) (tickless_canc c) (tickless_advance spurious c (tickless_callback c beh)) ts_calls ops
      (tickless_start c s0) = Some (rs, s2)" "unset s2" using td.script_safe by blast
  moreover from this have "tickless_finalise s2 = None" "tickless_initialise g s2 \<noteq> None"
    by (simp_all add: tickless_finalise_def tickless_initialise_def)
  ultimately show ?thesis using s(1) by blast
qed

text \<open>
  C30: at every 32-bit frequency and for every 32-bit amount the conversions of the tickless driver
  give the least number of ticks that covers the requested time; nothing wraps.
\<close>

theorem tickless_conversions_cover:
  fixes ms us :: u32
  shows "unat ms * unat (ds_frequency_hz (ts_ds s)) \<le> unat (d_value (tickless_from_milliseconds ms s)) * 1000 \<and>
    unat (d_value (tickless_from_milliseconds ms s)) * 1000 < unat ms * unat (ds_frequency_hz (ts_ds s)) + 1000 \<and>
    unat us * unat (ds_frequency_hz (ts_ds s)) \<le> unat (d_value (tickless_from_microseconds us s)) * 1000000 \<and>
    unat (d_value (tickless_from_microseconds us s)) * 1000000 < unat us * unat (ds_frequency_hz (ts_ds s)) + 1000000"
  using conversion_exact [of 1000 ms "ds_frequency_hz (ts_ds s)"]
    conversion_exact [of 1000000 us "ds_frequency_hz (ts_ds s)"]
    ceil_div_covers [of 1000 "unat ms * unat (ds_frequency_hz (ts_ds s))"] ceil_div_covers [of 1000000 "unat us * unat (ds_frequency_hz (ts_ds s))"]
  by (simp add: tickless_from_milliseconds_def tickless_from_microseconds_def)

end
