(* ===== verification/Time_Simulation.thy ===== *)
theory Time_Simulation
  imports Time_Port Timer_Interface
begin

text \<open>
  time_driver_simulation.cpp: the driver of the simulation, whose clock either is advanced by tests
  (virtual mode) or follows the steady clock of the host (real-time mode).  In virtual mode it
  implements the contract \<open>timer_driver\<close> without a bound on the number of callbacks, for callbacks that
  call the driver.

  The driver state is allocated by \<^verbatim>\<open>initialise\<close> and deleted by \<^verbatim>\<open>finalise\<close>; the pointer to it is null,
  valid, or dangling.  The reading of the steady clock, in nanoseconds, is an argument \<open>clk\<close>.  The
  mutex is held for a few list operations only, which are one step here; callbacks run outside it
  and may call the driver.
\<close>

section \<open>State\<close>

datatype Mode = RealTime | Virtual

record Event =
  ev_id :: u32
  ev_when :: u64
  ev_cb :: u64
  ev_arg :: u64
  ev_cancelled :: bool

record SimState =
  sim_mode :: Mode
  sim_tick_frequency_hz :: u32
  sim_next_id :: u32
  sim_events :: "Event list"
  sim_running :: bool
  sim_thread_joinable :: bool
  sim_virtual_now :: u64
  sim_realtime_epoch :: int
  sim_started :: bool

definition SimState_init :: SimState where
  "SimState_init =
     \<lparr>sim_mode = Virtual, sim_tick_frequency_hz = 1000, sim_next_id = 1, sim_events = [],
      sim_running = False, sim_thread_joinable = False, sim_virtual_now = 0, sim_realtime_epoch = 0,
      sim_started = False\<rparr>"

datatype sim_ptr = Null | Live SimState | Dangling

record sim_sys =
  sim_ds :: sim_ptr
  sim_calls :: "(u64 \<times> u64) list"

definition sim_sys_init :: sim_sys where
  "sim_sys_init = \<lparr>sim_ds = Null, sim_calls = []\<rparr>"

type_synonym sim_callbacks = "u64 \<Rightarrow> u64 \<Rightarrow> sim_sys \<Rightarrow> sim_sys option"

text \<open>
  \<^verbatim>\<open>CORTOS_ASSERT(sim::ds != nullptr)\<close> and the accesses through the pointer: the assertion fails on
  null, and the access is undefined on a dangling pointer.
\<close>

definition sim_deref :: "sim_sys \<Rightarrow> SimState option" where
  "sim_deref s = (case sim_ds s of Live d \<Rightarrow> Some d | _ \<Rightarrow> None)"

definition sim_store :: "SimState \<Rightarrow> sim_sys \<Rightarrow> sim_sys" where
  "sim_store d s = s\<lparr>sim_ds := Live d\<rparr>"

section \<open>Operations\<close>

definition sim_initialise :: "u32 \<Rightarrow> sim_sys \<Rightarrow> sim_sys option" where
  "sim_initialise frequency_hz s = do {
     CORTOS_ASSERT (sim_ds s = Null);
     Some (sim_store (SimState_init\<lparr>sim_tick_frequency_hz := frequency_hz\<rparr>) s) }"

text \<open>
  Deleting the state destroys the thread object, which ends the program when the thread was not
  joined.  The pointer keeps its value.
\<close>

definition sim_finalise :: "sim_sys \<Rightarrow> sim_sys option" where
  "sim_finalise s = do {
     d \<leftarrow> sim_deref s;
     CORTOS_ASSERT (\<not> sim_thread_joinable d);
     Some (s\<lparr>sim_ds := Dangling\<rparr>) }"

definition realtime_now_ticks :: "int \<Rightarrow> SimState \<Rightarrow> u64" where
  "realtime_now_ticks clk d =
     (if \<not> sim_started d then 0
      else (of_int (max (clk - sim_realtime_epoch d) 0) * ucast (sim_tick_frequency_hz d)) div 1000000000)"

definition sim_now :: "int \<Rightarrow> sim_sys \<Rightarrow> u64 option" where
  "sim_now clk s = do {
     d \<leftarrow> sim_deref s;
     Some (if sim_mode d = Virtual then sim_virtual_now d else realtime_now_ticks clk d) }"

definition sim_schedule_at :: "u64 \<Rightarrow> u64 \<Rightarrow> u64 \<Rightarrow> sim_sys \<Rightarrow> (u32 \<times> sim_sys) option" where
  "sim_schedule_at tp cb arg s = do {
     d \<leftarrow> sim_deref s;
     (if cb = 0 then Some (0, s)
      else do {
        let (h, d) = (sim_next_id d, d\<lparr>sim_next_id := sim_next_id d + 1\<rparr>);
        let (h, d) = (if h = 0 then (sim_next_id d, d\<lparr>sim_next_id := sim_next_id d + 1\<rparr>) else (h, d));
        let e = \<lparr>ev_id = h, ev_when = tp, ev_cb = cb, ev_arg = arg, ev_cancelled = False\<rparr>;
        Some (h, sim_store (d\<lparr>sim_events := sim_events d @ [e]\<rparr>) s) }) }"

fun cancel_event :: "u32 \<Rightarrow> Event list \<Rightarrow> Event list option" where
  "cancel_event h [] = None"
| "cancel_event h (e # es) =
     (if ev_id e = h \<and> \<not> ev_cancelled e then Some (e\<lparr>ev_cancelled := True\<rparr> # es)
      else map_option ((#) e) (cancel_event h es))"

definition sim_cancel :: "u32 \<Rightarrow> sim_sys \<Rightarrow> (bool \<times> sim_sys) option" where
  "sim_cancel h s = do {
     d \<leftarrow> sim_deref s;
     (if h = 0 then Some (False, s)
      else (case cancel_event h (sim_events d) of
          None \<Rightarrow> Some (False, s)
        | Some es \<Rightarrow> Some (True, sim_store (d\<lparr>sim_events := es\<rparr>) s))) }"

definition sim_from_milliseconds :: "u32 \<Rightarrow> sim_sys \<Rightarrow> u64 option" where
  "sim_from_milliseconds ms s = do {
     d \<leftarrow> sim_deref s; Some ((ucast ms * ucast (sim_tick_frequency_hz d) + 999) div 1000) }"

definition sim_from_microseconds :: "u32 \<Rightarrow> sim_sys \<Rightarrow> u64 option" where
  "sim_from_microseconds us s = do {
     d \<leftarrow> sim_deref s; Some ((ucast us * ucast (sim_tick_frequency_hz d) + 999999) div 1000000) }"

definition sim_start :: "int \<Rightarrow> sim_sys \<Rightarrow> sim_sys option" where
  "sim_start clk s = do {
     d \<leftarrow> sim_deref s;
     let d = d\<lparr>sim_started := True\<rparr>;
     (if sim_mode d = RealTime \<and> \<not> sim_running d
      then do {
        CORTOS_ASSERT (\<not> sim_thread_joinable d);
        Some (sim_store (d\<lparr>sim_running := True, sim_realtime_epoch := clk, sim_thread_joinable := True\<rparr>) s) }
      else Some (sim_store d s)) }"

definition sim_stop :: "sim_sys \<Rightarrow> sim_sys option" where
  "sim_stop s = do {
     d \<leftarrow> sim_deref s;
     (if sim_mode d = RealTime \<and> sim_running d
      then Some (sim_store (d\<lparr>sim_running := False, sim_thread_joinable := False\<rparr>) s)
      else Some s) }"

definition event_due :: "u64 \<Rightarrow> Event \<Rightarrow> bool" where
  "event_due now_ticks e \<longleftrightarrow> ev_id e \<noteq> 0 \<and> \<not> ev_cancelled e \<and> ev_when e \<le> now_ticks"

fun call_events :: "sim_callbacks \<Rightarrow> Event list \<Rightarrow> sim_sys \<Rightarrow> sim_sys option" where
  "call_events act [] s = Some s"
| "call_events act (e # es) s = do {
     s \<leftarrow> (if ev_cb e \<noteq> 0
          then act (ev_cb e) (ev_arg e) (s\<lparr>sim_calls := sim_calls s @ [(ev_cb e, ev_arg e)]\<rparr>)
          else Some s);
     call_events act es s }"

text \<open>The due events are taken out together with the cancelled ones, then called in order.\<close>

definition fire_due_callbacks :: "sim_callbacks \<Rightarrow> u64 \<Rightarrow> sim_sys \<Rightarrow> sim_sys option" where
  "fire_due_callbacks act now_ticks s = do {
     d \<leftarrow> sim_deref s;
     let due = filter (event_due now_ticks) (sim_events d);
     let marked = map (\<lambda>e. if event_due now_ticks e then e\<lparr>ev_cancelled := True\<rparr> else e) (sim_events d);
     let d = d\<lparr>sim_events := filter (\<lambda>e. \<not> ev_cancelled e) marked\<rparr>;
     call_events act due (sim_store d s) }"

definition sim_on_timer_isr :: "sim_callbacks \<Rightarrow> int \<Rightarrow> sim_sys \<Rightarrow> sim_sys option" where
  "sim_on_timer_isr act clk s = do { t \<leftarrow> sim_now clk s; fire_due_callbacks act t s }"

text \<open>
  One round of \<^verbatim>\<open>realtime_thread_main\<close>; \<open>sleep_for\<close> stands for what the rest of the program does in the
  millisecond of sleep.  \<^const>\<open>None\<close> inside is the end of the thread.
\<close>

definition realtime_thread_round :: "(sim_sys \<Rightarrow> sim_sys option) \<Rightarrow> sim_callbacks \<Rightarrow> int \<Rightarrow> sim_sys \<Rightarrow> sim_sys option option" where
  "realtime_thread_round sleep_for act clk s = do {
     d \<leftarrow> sim_deref s;
     (if sim_running d then do {
        s \<leftarrow> sleep_for s;
        s \<leftarrow> sim_on_timer_isr act clk s;
        Some (Some s) }
      else Some None) }"

definition sim_set_mode :: "Mode \<Rightarrow> sim_sys \<Rightarrow> sim_sys option" where
  "sim_set_mode mode s = do {
     d \<leftarrow> sim_deref s;
     CORTOS_ASSERT (\<not> sim_running d);
     Some (sim_store (d\<lparr>sim_mode := mode\<rparr>) s) }"

definition sim_get_mode :: "sim_sys \<Rightarrow> Mode option" where
  "sim_get_mode s = do { d \<leftarrow> sim_deref s; Some (sim_mode d) }"

definition sim_reset :: "u64 \<Rightarrow> sim_sys \<Rightarrow> sim_sys option" where
  "sim_reset tp s = do {
     d \<leftarrow> sim_deref s;
     CORTOS_ASSERT (\<not> sim_running d);
     Some (sim_store (d\<lparr>sim_events := [], sim_next_id := 1, sim_virtual_now := tp, sim_started := False,
                        sim_realtime_epoch := 0\<rparr>) s) }"

definition sim_advance_to :: "sim_callbacks \<Rightarrow> int \<Rightarrow> u64 \<Rightarrow> sim_sys \<Rightarrow> sim_sys option" where
  "sim_advance_to act clk tp s = do {
     d \<leftarrow> sim_deref s;
     CORTOS_ASSERT (sim_mode d = Virtual);
     let target = max tp (sim_virtual_now d);
     sim_on_timer_isr act clk (sim_store (d\<lparr>sim_virtual_now := target\<rparr>) s) }"

definition sim_advance_by :: "sim_callbacks \<Rightarrow> int \<Rightarrow> u64 \<Rightarrow> sim_sys \<Rightarrow> sim_sys option" where
  "sim_advance_by act clk dur s = do {
     d \<leftarrow> sim_deref s;
     CORTOS_ASSERT (sim_mode d = Virtual);
     sim_advance_to act clk (sim_virtual_now d + dur) s }"

section \<open>The driver implements the contract in virtual mode\<close>

definition event_entry :: "Event \<Rightarrow> u32 \<times> timer" where
  "event_entry e = (ev_id e, ev_when e, ev_cb e, ev_arg e)"

definition live_events :: "Event list \<Rightarrow> pending" where
  "live_events es = map event_entry (filter (\<lambda>e. \<not> ev_cancelled e) es)"

definition sim_rep :: "nat \<Rightarrow> nat \<Rightarrow> sim_sys \<Rightarrow> pending \<Rightarrow> bool" where
  "sim_rep n t s xs \<longleftrightarrow> (\<exists>d. sim_ds s = Live d \<and> sim_mode d = Virtual \<and>
     live_events (sim_events d) = xs \<and> distinct (map fst xs) \<and> 0 < n \<and> n < 2 ^ 32 \<and>
     sim_next_id d = of_nat n \<and> sim_virtual_now d = of_nat t \<and> t < 2 ^ 64 \<and>
     (\<forall>e \<in> set (sim_events d). ev_id e \<noteq> 0 \<and> unat (ev_id e) < n \<and> ev_cb e \<noteq> 0))"

lemma sim_repE:
  assumes "sim_rep n t s xs"
  obtains d where "sim_ds s = Live d" "sim_deref s = Some d" "sim_mode d = Virtual"
    "live_events (sim_events d) = xs" "distinct (map fst xs)" "0 < n" "n < 2 ^ 32"
    "sim_next_id d = of_nat n" "sim_virtual_now d = of_nat t" "t < 2 ^ 64"
    "\<forall>e \<in> set (sim_events d). ev_id e \<noteq> 0 \<and> unat (ev_id e) < n \<and> ev_cb e \<noteq> 0"
  using assms by (auto simp: sim_rep_def sim_deref_def)

lemma live_events_simps [simp]:
  "live_events [] = []"
  "live_events (e # es) = (if ev_cancelled e then [] else [event_entry e]) @ live_events es"
  "live_events (es @ es') = live_events es @ live_events es'"
  by (simp_all add: live_events_def)

lemma cancel_event_None: "cancel_event h es = None \<longleftrightarrow> h \<notin> fst ` set (live_events es)"
  by (induction es) (auto simp: event_entry_def)

lemma cancel_event_Some:
  "cancel_event h es = Some es' \<Longrightarrow> distinct (map fst (live_events es)) \<Longrightarrow>
   live_events es' = without h (live_events es) \<and>
   (\<forall>e' \<in> set es'. \<exists>e \<in> set es. ev_id e' = ev_id e \<and> ev_cb e' = ev_cb e)"
proof (induction es arbitrary: es')
  case (Cons e es)
  show ?case
  proof (cases "ev_id e = h \<and> \<not> ev_cancelled e")
    case True
    then have "h \<notin> fst ` set (live_events es)" using Cons.prems(2) by (auto simp: event_entry_def)
    then have "without h (live_events es) = live_events es"
      by (simp add: without_other)
    then show ?thesis using True Cons.prems(1) by (auto simp: event_entry_def without_def)
  next
    case False
    then obtain es1 where es1: "cancel_event h es = Some es1" "es' = e # es1" using Cons.prems(1) by auto
    have "distinct (map fst (live_events es))" using Cons.prems(2) by (auto split: if_splits)
    from Cons.IH [OF es1(1) this] show ?thesis using False es1(2) by (auto simp: event_entry_def without_def)
  qed
qed simp

lemma live_events_unmarked:
  "live_events (filter (\<lambda>e. \<not> ev_cancelled e)
     (map (\<lambda>e. if event_due t e then e\<lparr>ev_cancelled := True\<rparr> else e) es)) =
   filter (\<lambda>x. \<not> (fst x \<noteq> 0 \<and> fst (snd x) \<le> t)) (live_events es)"
  by (induction es) (auto simp: event_due_def event_entry_def)

lemma due_live_events:
  "map event_entry (filter (event_due t) es) = filter (\<lambda>x. fst x \<noteq> 0 \<and> fst (snd x) \<le> t) (live_events es)"
  by (induction es) (auto simp: event_due_def event_entry_def)

text \<open>The operations keep the state alive, the mode, the clock and the thread.\<close>

definition sim_at :: "(u64 \<Rightarrow> bool \<Rightarrow> bool) \<Rightarrow> sim_sys \<Rightarrow> bool" where
  "sim_at A s \<longleftrightarrow> (\<exists>d. sim_ds s = Live d \<and> sim_mode d = Virtual \<and> A (sim_virtual_now d) (sim_thread_joinable d))"

lemma sim_store_sel [simp]:
  "sim_calls (sim_store d s) = sim_calls s" "sim_deref (sim_store d s) = Some d"
  "sim_at A (sim_store d s) \<longleftrightarrow> sim_mode d = Virtual \<and> A (sim_virtual_now d) (sim_thread_joinable d)"
  "sim_at A (s\<lparr>sim_calls := cs\<rparr>) \<longleftrightarrow> sim_at A s"
  by (simp_all add: sim_store_def sim_deref_def sim_at_def)

lemma sim_at_mono: "sim_at A s \<Longrightarrow> sim_at (\<lambda>v j. True) s"
  by (auto simp: sim_at_def)

lemma sim_schedule_at_safe:
  "sim_at A s \<Longrightarrow> \<exists>h s'. sim_schedule_at tp cb arg s = Some (h, s') \<and> sim_at A s' \<and> sim_calls s' = sim_calls s"
  by (auto simp: sim_at_def sim_schedule_at_def sim_deref_def sim_store_def Let_def)

lemma sim_cancel_safe:
  "sim_at A s \<Longrightarrow> \<exists>b s'. sim_cancel h s = Some (b, s') \<and> sim_at A s' \<and> sim_calls s' = sim_calls s"
  by (auto simp: sim_at_def sim_cancel_def sim_deref_def sim_store_def split: option.split)

lemma sim_schedule_at_rep:
  assumes r: "sim_rep n t s xs" and sp: "schedule_spec (\<lambda>k. True) tp cb arg (n, xs) = Some (h, n1, xs1)"
  shows "\<exists>s'. sim_schedule_at tp cb arg s = Some (h, s') \<and> sim_rep n1 t s' xs1 \<and> sim_calls s' = sim_calls s"
proof -
  obtain d where d: "sim_ds s = Live d" "sim_deref s = Some d" "sim_mode d = Virtual"
    "live_events (sim_events d) = xs" "distinct (map fst xs)" "0 < n" "n < 2 ^ 32"
    "sim_next_id d = of_nat n" "sim_virtual_now d = of_nat t" "t < 2 ^ 64"
    "\<forall>e \<in> set (sim_events d). ev_id e \<noteq> 0 \<and> unat (ev_id e) < n \<and> ev_cb e \<noteq> 0"
    by (rule sim_repE [OF r])
  show ?thesis
  proof (cases "cb = 0")
    case True
    then show ?thesis using r sp d(2) by (simp add: sim_schedule_at_def schedule_spec_def)
  next
    case False
    then have ok: "Suc n < 2 ^ 32" "h = of_nat n" "n1 = Suc n" "xs1 = xs @ [(of_nat n, tp, cb, arg)]"
      using sp by (auto simp: schedule_spec_def split: if_splits)
    have u: "unat (of_nat n :: u32) = n" using d(7) by (simp add: unat_of_nat take_bit_nat_eq_self)
    then have nz: "(of_nat n :: u32) \<noteq> 0" using d(6) by auto
    let ?e = "\<lparr>ev_id = of_nat n, ev_when = tp, ev_cb = cb, ev_arg = arg, ev_cancelled = False\<rparr>"
    let ?s = "sim_store (d\<lparr>sim_next_id := of_nat n + 1, sim_events := sim_events d @ [?e]\<rparr>) s"
    have run: "sim_schedule_at tp cb arg s = Some (of_nat n, ?s)"
      using d(2,8) False nz by (simp add: sim_schedule_at_def Let_def)
    have "of_nat n \<notin> fst ` set xs" using d(4,11) u by (force simp: live_events_def event_entry_def)
    moreover have "\<forall>e \<in> set (sim_events d @ [?e]). ev_id e \<noteq> 0 \<and> unat (ev_id e) < Suc n \<and> ev_cb e \<noteq> 0"
      using d(11) False u nz by auto
    moreover have "of_nat n + 1 = (of_nat (Suc n) :: u32)" by simp
    ultimately have "sim_rep (Suc n) t ?s (xs @ [(of_nat n, tp, cb, arg)])"
      using d(3-10) ok(1) unfolding sim_rep_def
      by (intro exI [of _ "d\<lparr>sim_next_id := of_nat n + 1, sim_events := sim_events d @ [?e]\<rparr>"])
         (simp add: sim_store_def event_entry_def)
    with run ok show ?thesis by simp
  qed
qed

lemma sim_cancel_rep:
  assumes r: "sim_rep n t s xs"
  shows "\<exists>s'. sim_cancel h s = Some (h \<in> fst ` set xs, s') \<and> sim_rep n t s' (without h xs) \<and> sim_calls s' = sim_calls s"
proof -
  obtain d where d: "sim_ds s = Live d" "sim_deref s = Some d" "sim_mode d = Virtual"
    "live_events (sim_events d) = xs" "distinct (map fst xs)" "0 < n" "n < 2 ^ 32"
    "sim_next_id d = of_nat n" "sim_virtual_now d = of_nat t" "t < 2 ^ 64"
    "\<forall>e \<in> set (sim_events d). ev_id e \<noteq> 0 \<and> unat (ev_id e) < n \<and> ev_cb e \<noteq> 0"
    by (rule sim_repE [OF r])
  show ?thesis
  proof (cases "h \<in> fst ` set xs")
    case True
    then obtain es where es: "cancel_event h (sim_events d) = Some es"
      using cancel_event_None [of h "sim_events d"] d(4) by auto
    have h: "h \<noteq> 0" using True d(4,11) by (fastforce simp: live_events_def event_entry_def)
    let ?s = "sim_store (d\<lparr>sim_events := es\<rparr>) s"
    have l: "live_events es = without h xs" "\<forall>e' \<in> set es. \<exists>e \<in> set (sim_events d). ev_id e' = ev_id e \<and> ev_cb e' = ev_cb e"
      using cancel_event_Some [OF es] d(4,5) by auto
    then have "\<forall>e \<in> set es. ev_id e \<noteq> 0 \<and> unat (ev_id e) < n \<and> ev_cb e \<noteq> 0" using d(11) by metis
    then have "sim_rep n t ?s (without h xs)"
      using d l(1) by (simp add: sim_rep_def sim_store_def distinct_map_filter without_def)
    moreover have "sim_cancel h s = Some (True, ?s)" using d(2) h es by (simp add: sim_cancel_def)
    ultimately show ?thesis using True by simp
  next
    case False
    then have "cancel_event h (sim_events d) = None" using cancel_event_None d(4) by simp
    then have "sim_cancel h s = Some (False, s)" using d(2) by (simp add: sim_cancel_def)
    then show ?thesis using r False by (simp add: without_other)
  qed
qed

text \<open>The operations in virtual mode, when \<open>A\<close> holds of the clock and the thread.\<close>

lemma sim_operations:
  "timer_operations (\<lambda>n t s xs. sim_rep n t s xs \<and> sim_at A s) (sim_at A) sim_schedule_at sim_cancel (sim_now clk)
     sim_calls (\<lambda>k. True)"
proof (unfold_locales, goal_cases)
  case (2 s tp cb arg)
  then show ?case by (rule sim_schedule_at_safe)
next
  case (3 s h)
  then show ?case by (rule sim_cancel_safe)
next
  case (5 n t s xs tp cb arg h n1 xs1)
  then show ?case using sim_schedule_at_rep [of n t s xs tp cb arg h n1 xs1] sim_schedule_at_safe [of A s tp cb arg] by auto
next
  case (6 n t s xs h)
  then show ?case using sim_cancel_rep [of n t s xs h] sim_cancel_safe [of A s h] by auto
qed (auto simp: sim_now_def sim_deref_def sim_rep_def sim_at_def)

abbreviation sim_callback :: "int \<Rightarrow> behaviour \<Rightarrow> sim_callbacks" where
  "sim_callback clk \<equiv> run_callback sim_schedule_at sim_cancel (sim_now clk) sim_calls"

lemmas sim_callback_safe = timer_operations.callback_safe [OF sim_operations]
lemmas sim_prog_rep = timer_operations.prog_rep [OF sim_operations]
lemmas sim_prog_safe = timer_operations.prog_safe [OF sim_operations]

section \<open>The interrupt handler\<close>

lemma call_events_safe:
  "sim_at A s \<Longrightarrow> \<exists>s' evs. call_events (sim_callback clk beh) es s = Some s' \<and> sim_at A s' \<and> sim_calls s' = sim_calls s @ evs"
proof (induction es arbitrary: s)
  case (Cons e es)
  show ?case
  proof (cases "ev_cb e = 0")
    case True
    then show ?thesis using Cons by simp
  next
    case False
    let ?s = "s\<lparr>sim_calls := sim_calls s @ [(ev_cb e, ev_arg e)]\<rparr>"
    have "sim_at A ?s" using Cons.prems by simp
    then obtain s1 where s1: "sim_callback clk beh (ev_cb e) (ev_arg e) ?s = Some s1" "sim_at A s1" "sim_calls s1 = sim_calls ?s"
      using sim_callback_safe by blast
    then show ?thesis using Cons.IH [OF s1(2)] False by auto
  qed
qed simp

text \<open>The callbacks that were taken out together are called in the order of their events.\<close>

lemma call_events_isr:
  "sim_rep n t s xs \<Longrightarrow> (\<And>e. e \<in> set es \<Longrightarrow> ev_cb e \<noteq> 0) \<Longrightarrow> D \<inter> fst ` set xs = {} \<Longrightarrow> \<forall>h \<in> D. unat h < n \<Longrightarrow>
   \<exists>s' evs out. call_events (sim_callback clk beh) es s = Some s' \<and> sim_calls s' = sim_calls s @ evs \<and>
     isr_run (\<lambda>k. True) beh t D (n, xs) (map event_entry es) (sim_calls s) evs out \<and>
     (case out of None \<Rightarrow> sim_at (\<lambda>v j. True) s' | Some (n1, xs1) \<Rightarrow> sim_rep n1 t s' xs1)"
proof (induction es arbitrary: n s xs)
  case Nil
  then show ?case using isr_end [OF Nil(3)] by fastforce
next
  case (Cons e es)
  let ?call = "(ev_cb e, ev_arg e)" and ?s = "s\<lparr>sim_calls := sim_calls s @ [(ev_cb e, ev_arg e)]\<rparr>"
  let ?p = "beh (sim_calls s @ [?call]) (ev_cb e) (ev_arg e)" and ?act = "sim_callback clk beh"
  have cb: "ev_cb e \<noteq> 0" "\<And>e. e \<in> set es \<Longrightarrow> ev_cb e \<noteq> 0" using Cons.prems(2) by auto
  have call: "the_call (event_entry e) = ?call" by (simp add: the_call_def event_entry_def)
  have n: "n < 2 ^ 32" using Cons.prems(1) by (auto simp: sim_rep_def)
  have r1: "sim_rep n t ?s xs \<and> sim_at (\<lambda>v j. True) ?s" using Cons.prems(1) by (auto simp: sim_rep_def sim_at_def)
  have run: "call_events ?act (e # es) s =
      (case run_prog sim_schedule_at sim_cancel (sim_now clk) ?p ?s of None \<Rightarrow> None | Some s1 \<Rightarrow> call_events ?act es s1)"
    using cb(1) by (simp add: run_callback_def Option.bind_def split: option.splits)
  show ?case
  proof (cases "prog_spec (\<lambda>k. True) t ?p (n, xs)")
    case None
    obtain s1 where s1: "run_prog sim_schedule_at sim_cancel (sim_now clk) ?p ?s = Some s1" "sim_at (\<lambda>v j. True) s1"
      "sim_calls s1 = sim_calls ?s" using sim_prog_safe [OF r1 [THEN conjunct2]] by blast
    obtain s2 evs where s2: "call_events ?act es s1 = Some s2" "sim_at (\<lambda>v j. True) s2" "sim_calls s2 = sim_calls s1 @ evs"
      using call_events_safe [OF s1(2)] by blast
    have "isr_run (\<lambda>k. True) beh t D (n, xs) (map event_entry (e # es)) (sim_calls s) (?call # evs) None"
      using isr_exhausted [where ?fl1.0 = "[]" and beh = beh and ?fl2.0 = "map event_entry es", OF call None] by simp
    then show ?thesis using run s1 s2 by (intro exI [of _ s2] exI [of _ "?call # evs"] exI [of _ None]) simp
  next
    case (Some st)
    obtain n1 xs1 where st: "prog_spec (\<lambda>k. True) t ?p (n, xs) = Some (n1, xs1)" using Some by (cases st) auto
    obtain s1 where s1: "run_prog sim_schedule_at sim_cancel (sim_now clk) ?p ?s = Some s1" "sim_rep n1 t s1 xs1"
      "sim_calls s1 = sim_calls s @ [?call]" using sim_prog_rep [OF r1 st] by fastforce
    have D: "D \<inter> fst ` set xs1 = {}" "\<forall>h \<in> D. unat h < n1" using prog_spec_avoids [OF st n Cons.prems(3,4)] by simp_all
    obtain s2 evs out where s2: "call_events ?act es s1 = Some s2" "sim_calls s2 = sim_calls s1 @ evs"
      "isr_run (\<lambda>k. True) beh t D (n1, xs1) (map event_entry es) (sim_calls s @ [?call]) evs out"
      "case out of None \<Rightarrow> sim_at (\<lambda>v j. True) s2 | Some (n1, xs1) \<Rightarrow> sim_rep n1 t s2 xs1"
      using Cons.IH [OF s1(2) cb(2) D] s1(3) by metis
    have "isr_run (\<lambda>k. True) beh t D (n, xs) (map event_entry (e # es)) (sim_calls s) (?call # evs) out"
      using isr_call [where ?fl1.0 = "[]" and beh = beh and ?fl2.0 = "map event_entry es", OF call st] s2(3) by simp
    then show ?thesis using run s1 s2 by (intro exI [of _ s2] exI [of _ "?call # evs"] exI [of _ out]) simp
  qed
qed

text \<open>Taking out what is due.\<close>

lemma fire_due_callbacks_isr:
  assumes r: "sim_rep n t s xs"
  shows "\<exists>s' evs out. fire_due_callbacks (sim_callback clk beh) (of_nat t) s = Some s' \<and> sim_calls s' = sim_calls s @ evs \<and>
     isr_run (\<lambda>k. True) beh t (fst ` {e \<in> set xs. is_due t e}) (n, xs) [] (sim_calls s) evs out \<and>
     (case out of None \<Rightarrow> sim_at (\<lambda>v j. True) s' | Some (n1, xs1) \<Rightarrow> sim_rep n1 t s' xs1)"
proof -
  obtain d where d: "sim_ds s = Live d" "sim_deref s = Some d" "sim_mode d = Virtual"
    "live_events (sim_events d) = xs" "distinct (map fst xs)" "0 < n" "n < 2 ^ 32"
    "sim_next_id d = of_nat n" "sim_virtual_now d = of_nat t" "t < 2 ^ 64"
    "\<forall>e \<in> set (sim_events d). ev_id e \<noteq> 0 \<and> unat (ev_id e) < n \<and> ev_cb e \<noteq> 0"
    by (rule sim_repE [OF r])
  let ?t = "of_nat t :: u64" and ?D = "fst ` {e \<in> set xs. is_due t e}"
  let ?due = "filter (event_due ?t) (sim_events d)"
  let ?es = "filter (\<lambda>e. \<not> ev_cancelled e) (map (\<lambda>e. if event_due ?t e then e\<lparr>ev_cancelled := True\<rparr> else e) (sim_events d))"
  let ?s = "sim_store (d\<lparr>sim_events := ?es\<rparr>) s" and ?ys = "filter (is_due t) xs"
  have due: "fst x \<noteq> 0 \<and> fst (snd x) \<le> ?t \<longleftrightarrow> is_due t x" if "x \<in> set xs" for x
    using that d(4,11) word_le_of_nat [OF d(10)] by (force simp: is_due_def live_events_def event_entry_def)
  have ys: "map event_entry ?due = ?ys" unfolding due_live_events d(4) using due by (intro filter_cong) auto
  have rest: "live_events ?es = filter (\<lambda>e. \<not> is_due t e) xs"
    unfolding live_events_unmarked d(4) using due by (intro filter_cong) auto
  have "\<forall>e \<in> set ?es. ev_id e \<noteq> 0 \<and> unat (ev_id e) < n \<and> ev_cb e \<noteq> 0" using d(11) by auto
  then have r1: "sim_rep n t ?s (filter (\<lambda>e. \<not> is_due t e) xs)"
    using d rest by (simp add: sim_rep_def sim_store_def distinct_map_filter)
  have D: "?D \<inter> fst ` set (filter (\<lambda>e. \<not> is_due t e) xs) = {}" using d(5) by (auto simp: distinct_map dest: inj_onD)
  have Dn: "\<forall>h \<in> ?D. unat h < n" using d(4,11) by (auto simp: live_events_def event_entry_def)
  have cb: "\<And>e. e \<in> set ?due \<Longrightarrow> ev_cb e \<noteq> 0" using d(11) by auto
  obtain s' evs out where s': "call_events (sim_callback clk beh) ?due ?s = Some s'" "sim_calls s' = sim_calls s @ evs"
    "isr_run (\<lambda>k. True) beh t ?D (n, filter (\<lambda>e. \<not> is_due t e) xs) ?ys (sim_calls s) evs out"
    "case out of None \<Rightarrow> sim_at (\<lambda>v j. True) s' | Some (n1, xs1) \<Rightarrow> sim_rep n1 t s' xs1"
    using call_events_isr [where es = ?due and clk = clk and beh = beh, OF r1 cb D Dn] unfolding ys by simp blast
  have taken: "filter (\<lambda>e. fst e \<notin> fst ` set ?ys) xs = filter (\<lambda>e. \<not> is_due t e) xs"
    using d(5) by (intro filter_cong) (auto simp: distinct_map dest: inj_onD)
  have "isr_run (\<lambda>k. True) beh t ?D (n, xs) [] (sim_calls s) evs out"
  proof (rule isr_take_all [where ys = ?ys])
    show "isr_run (\<lambda>k. True) beh t ?D (n, filter (\<lambda>e. fst e \<notin> fst ` set ?ys) xs) ([] @ ?ys) (sim_calls s) evs out"
      unfolding taken using s'(3) by simp
  qed (use d(5) in \<open>auto simp: distinct_map_filter\<close>)
  moreover have "fire_due_callbacks (sim_callback clk beh) ?t s = Some s'"
    using d(2) s'(1) by (simp add: fire_due_callbacks_def Let_def)
  ultimately show ?thesis using s'(2,4) by blast
qed

lemma fire_due_callbacks_safe:
  assumes "sim_at A s"
  shows "\<exists>s' evs. fire_due_callbacks (sim_callback clk beh) t s = Some s' \<and> sim_at A s' \<and> sim_calls s' = sim_calls s @ evs"
proof -
  obtain d where d: "sim_deref s = Some d" "sim_mode d = Virtual" "A (sim_virtual_now d) (sim_thread_joinable d)"
    using assms by (auto simp: sim_at_def sim_deref_def)
  have "sim_at A (sim_store (d\<lparr>sim_events := es\<rparr>) s)" for es using d(2,3) by simp
  from call_events_safe [OF this] show ?thesis using d(1) by (fastforce simp: fire_due_callbacks_def Let_def)
qed

lemma sim_advance_to_safe:
  assumes "sim_ds s = Live d" "sim_mode d = Virtual" "A (max tp (sim_virtual_now d)) (sim_thread_joinable d)"
  shows "\<exists>s' evs. sim_advance_to (sim_callback clk beh) clk tp s = Some s' \<and> sim_at A s' \<and> sim_calls s' = sim_calls s @ evs"
proof -
  let ?s = "sim_store (d\<lparr>sim_virtual_now := max tp (sim_virtual_now d)\<rparr>) s"
  have "sim_at A ?s" using assms by simp
  from fire_due_callbacks_safe [OF this] show ?thesis
    using assms(1,2) sim_store_sel(2) unfolding sim_advance_to_def sim_on_timer_isr_def sim_now_def
    by (simp add: Let_def sim_deref_def [of s])
qed

lemma sim_advance_by_rep:
  assumes r: "sim_rep n t s xs" and t: "t + unat d < 2 ^ 64"
  obtains s1 where "sim_advance_by act clk d s = fire_due_callbacks act (of_nat (t + unat d)) s1"
    "sim_rep n (t + unat d) s1 xs" "sim_calls s1 = sim_calls s"
proof -
  obtain D where D: "sim_ds s = Live D" "sim_deref s = Some D" "sim_mode D = Virtual"
    "live_events (sim_events D) = xs" "distinct (map fst xs)" "0 < n" "n < 2 ^ 32"
    "sim_next_id D = of_nat n" "sim_virtual_now D = of_nat t" "t < 2 ^ 64"
    "\<forall>e \<in> set (sim_events D). ev_id e \<noteq> 0 \<and> unat (ev_id e) < n \<and> ev_cb e \<noteq> 0"
    by (rule sim_repE [OF r])
  let ?s = "sim_store (D\<lparr>sim_virtual_now := of_nat (t + unat d)\<rparr>) s"
  have le: "max (of_nat t + d) (of_nat t) = (of_nat (t + unat d) :: u64)"
    using t by (simp add: max_def word_le_nat_alt unat_of_nat unat_word_ariths(1) take_bit_nat_eq_self
        unsigned_eq_0_iff)
  have "sim_advance_by act clk d s = fire_due_callbacks act (of_nat (t + unat d)) ?s"
    using D(1-3,9) le
    by (simp add: sim_advance_by_def sim_advance_to_def sim_on_timer_isr_def sim_now_def Let_def)
  moreover have "sim_rep n (t + unat d) ?s xs" using D t by (simp add: sim_rep_def sim_store_def)
  ultimately show ?thesis using that by simp
qed

interpretation sd: timer_driver sim_rep "sim_at (\<lambda>v j. True)" sim_schedule_at sim_cancel "sim_now clk" sim_calls
  "\<lambda>k. True" "\<lambda>act. sim_advance_by act clk" "2 ^ 64" for clk
proof (rule timer_driver.intro)
  have "sim_rep n t s xs \<Longrightarrow> sim_at (\<lambda>v j. True) s" for n t s xs by (auto simp: sim_rep_def sim_at_def)
  then have "(\<lambda>n t s xs. sim_rep n t s xs \<and> sim_at (\<lambda>v j. True) s) = sim_rep" by blast
  then show "timer_operations sim_rep (sim_at (\<lambda>v j. True)) sim_schedule_at sim_cancel (sim_now clk) sim_calls (\<lambda>k. True)"
    using sim_operations [of "\<lambda>v j. True" clk] by simp
  show "timer_driver_axioms sim_rep (sim_at (\<lambda>v j. True)) sim_schedule_at sim_cancel (sim_now clk) sim_calls (\<lambda>k. True)
      (\<lambda>act. sim_advance_by act clk) (2 ^ 64)"
  proof (rule timer_driver_axioms.intro)
    fix s beh d
    assume "sim_at (\<lambda>v j. True) s"
    then show "\<exists>s' evs. sim_advance_by (sim_callback clk beh) clk d s = Some s' \<and> sim_at (\<lambda>v j. True) s' \<and>
        sim_calls s' = sim_calls s @ evs"
      using sim_advance_to_safe [where A = "\<lambda>v j. True"] by (fastforce simp: sim_at_def sim_advance_by_def sim_deref_def)
  next
    fix n t s xs and d :: u64 and beh
    assume r: "sim_rep n t s xs" and t: "t + unat d < 2 ^ 64"
    obtain s1 where s1: "sim_advance_by (sim_callback clk beh) clk d s =
        fire_due_callbacks (sim_callback clk beh) (of_nat (t + unat d)) s1"
      "sim_rep n (t + unat d) s1 xs" "sim_calls s1 = sim_calls s" by (rule sim_advance_by_rep [OF r t])
    from fire_due_callbacks_isr [OF s1(2), of clk beh]
    show "\<exists>s' evs out. sim_advance_by (sim_callback clk beh) clk d s = Some s' \<and> sim_calls s' = sim_calls s @ evs \<and>
        isr_run (\<lambda>k. True) beh (t + unat d) (fst ` {e \<in> set xs. is_due (t + unat d) e}) (n, xs) [] (sim_calls s) evs out \<and>
        (case out of None \<Rightarrow> sim_at (\<lambda>v j. True) s' | Some (n1, xs1) \<Rightarrow> sim_rep n1 (t + unat d) s' xs1)"
      unfolding s1(1,3) .
  qed
qed

section \<open>Properties\<close>

lemma sim_rep_init:
  obtains s where "sim_initialise f sim_sys_init = Some s" "sim_rep 1 0 s []" "sim_calls s = []" "sim_at (\<lambda>v j. \<not> j) s"
  by (simp add: sim_initialise_def sim_sys_init_def sim_rep_def sim_store_def SimState_init_def sim_at_def)

text \<open>
  C29: the simulation driver, initialised and in virtual mode, answers every script of \<^verbatim>\<open>schedule_at\<close>,
  \<^verbatim>\<open>cancel\<close> and \<^verbatim>\<open>advance_by\<close> as an unbounded set of pending callbacks allows, whatever the callbacks do with \<^verbatim>\<open>now\<close>,
  \<^verbatim>\<open>schedule_at\<close> and \<^verbatim>\<open>cancel\<close>: the callbacks whose time has come are taken out of the pending ones before the first of them
  runs, and each runs once.  The script must not run the 64-bit clock around, and the statement ends when
  \<open>2 ^ 32 - 2\<close> handles have been given out.
\<close>

theorem simulation_refines_timers:
  assumes "advance_sum ops < 2 ^ 64"
  shows "\<exists>s0 rs s1 out. sim_initialise f sim_sys_init = Some s0 \<and>
    timer_run sim_schedule_at sim_cancel (sim_advance_by (sim_callback clk beh) clk) sim_calls ops s0 = Some (rs, s1) \<and>
    timer_runs (\<lambda>k. True) beh ops (1, 0, []) [] rs out"
proof -
  obtain s0 where s: "sim_initialise f sim_sys_init = Some s0" "sim_rep 1 0 s0 []" "sim_calls s0 = []"
    by (rule sim_rep_init)
  have "0 + advance_sum ops < 2 ^ 64" using assms by simp
  from sd.timer_refines [OF s(2) this, of clk beh] s(1,3) show ?thesis by fastforce
qed

lemma sim_demo_run:
  "map_option fst (do {
     s0 \<leftarrow> sim_initialise 1000 sim_sys_init;
     timer_run sim_schedule_at sim_cancel (sim_advance_by (sim_callback 0 timer_demo_beh) 0) sim_calls timer_demo_script s0 }) =
   Some [Handle 1, Handle 2, Handle 3, Fired [(8, 0)], Fired [(7, 1)], Fired [(9, 1)], Cancelled False]"
  by code_simp

theorem simulation_refines_timers_witness:
  "\<exists>out. timer_runs (\<lambda>k. True) timer_demo_beh timer_demo_script (1, 0, []) []
     [Handle 1, Handle 2, Handle 3, Fired [(8, 0)], Fired [(7, 1)], Fired [(9, 1)], Cancelled False] out"
  using simulation_refines_timers [of timer_demo_script 1000 0 timer_demo_beh] sim_demo_run by (auto simp: timer_demo_script_def)

lemma virtual_script_keeps_thread:
  "sim_at (\<lambda>v j. \<not> j) s \<Longrightarrow>
   \<exists>rs s'. timer_run sim_schedule_at sim_cancel (sim_advance_by (sim_callback clk beh) clk) sim_calls ops s = Some (rs, s') \<and>
     sim_at (\<lambda>v j. \<not> j) s'"
proof (induction ops arbitrary: s)
  case (Cons op ops)
  show ?case
  proof (cases op)
    case (Schedule tp cb arg)
    then show ?thesis using sim_schedule_at_safe [OF Cons.prems, of tp cb arg] Cons.IH by fastforce
  next
    case (Cancel h)
    then show ?thesis using sim_cancel_safe [OF Cons.prems, of h] Cons.IH by fastforce
  next
    case (Advance d)
    obtain D where D: "sim_ds s = Live D" "sim_mode D = Virtual" "\<not> sim_thread_joinable D"
      using Cons.prems by (auto simp: sim_at_def)
    then have "\<exists>s' evs. sim_advance_by (sim_callback clk beh) clk d s = Some s' \<and> sim_at (\<lambda>v j. \<not> j) s' \<and>
        sim_calls s' = sim_calls s @ evs"
      using sim_advance_to_safe [of s D "\<lambda>v j. \<not> j" "sim_virtual_now D + d" clk beh]
      by (simp add: sim_advance_by_def sim_deref_def)
    then show ?thesis using Advance Cons.IH by fastforce
  qed
qed simp

text \<open>
  C33: \<^verbatim>\<open>finalise\<close> deletes the driver state but does not reset the pointer.  After \<^verbatim>\<open>initialise\<close> and any script of
  operations in virtual mode, whatever the callbacks do, \<^verbatim>\<open>finalise\<close> succeeds, and from then on \<^verbatim>\<open>initialise\<close> fails
  its assertion: the driver cannot be brought up again.  A second \<^verbatim>\<open>finalise\<close> or a late call of an operation passes the assertion on the
  pointer and uses the deleted object.
\<close>

theorem simulation_finalise_dangles:
  "\<exists>s0 rs s1 s2. sim_initialise f sim_sys_init = Some s0 \<and>
    timer_run sim_schedule_at sim_cancel (sim_advance_by (sim_callback clk beh) clk) sim_calls ops s0 = Some (rs, s1) \<and>
    sim_finalise s1 = Some s2 \<and> sim_ds s2 = Dangling \<and> sim_initialise g s2 = None \<and> sim_finalise s2 = None"
proof -
  obtain s0 where s: "sim_initialise f sim_sys_init = Some s0" "sim_at (\<lambda>v j. \<not> j) s0" by (rule sim_rep_init)
  obtain rs s1 where s1:
    "timer_run sim_schedule_at sim_cancel (sim_advance_by (sim_callback clk beh) clk) sim_calls ops s0 = Some (rs, s1)"
    "sim_at (\<lambda>v j. \<not> j) s1" using virtual_script_keeps_thread [OF s(2)] by blast
  then have "sim_finalise s1 = Some (s1\<lparr>sim_ds := Dangling\<rparr>)" by (auto simp: sim_finalise_def sim_at_def sim_deref_def)
  with s(1) s1(1) show ?thesis by (simp add: sim_finalise_def sim_initialise_def sim_deref_def)
qed

lemma div_mod_short:
  fixes P :: nat
  assumes "2 ^ 64 \<le> P"
  shows "P mod 2 ^ 64 div 1000000000 < P div 1000000000"
proof -
  have "1 \<le> P div 2 ^ 64" using assms div_le_mono [of "2 ^ 64" P "2 ^ 64"] by simp
  moreover have "P div 2 ^ 64 * 2 ^ 64 + P mod 2 ^ 64 = P" by (rule div_mult_mod_eq)
  moreover have "1 * 2 ^ 64 \<le> P div 2 ^ 64 * 2 ^ 64" using calculation(1) by (rule mult_le_mono1)
  ultimately have "2 ^ 64 + P mod 2 ^ 64 \<le> P" by (metis add_le_mono1 mult_1)
  then have "P mod 2 ^ 64 + 1000000000 \<le> P" by simp
  then have "(P mod 2 ^ 64 + 1000000000) div 1000000000 \<le> P div 1000000000" by (rule div_le_mono)
  then show ?thesis by simp
qed

text \<open>
  C34: in real-time mode the clock computes nanoseconds times frequency on 64 bits before it divides.  For every
  frequency and every elapsed time that the host's clock can represent, it shows the elapsed ticks, rounded down, exactly when
  that product is below \<open>2 ^ 64\<close>; from then on it shows too little: the product has wrapped, and the clock has gone
  backwards.
\<close>

theorem realtime_clock_exact_until_wrap:
  assumes "sim_ds s = Live d" "sim_mode d = RealTime" "sim_started d" "0 \<le> elapsed" "elapsed < 2 ^ 63"
  shows "\<exists>v. sim_now (sim_realtime_epoch d + elapsed) s = Some v \<and>
    (nat elapsed * unat (sim_tick_frequency_hz d) < 2 ^ 64 \<longrightarrow>
      unat v = nat elapsed * unat (sim_tick_frequency_hz d) div 10 ^ 9) \<and>
    (2 ^ 64 \<le> nat elapsed * unat (sim_tick_frequency_hz d) \<longrightarrow>
      unat v < nat elapsed * unat (sim_tick_frequency_hz d) div 10 ^ 9)"
proof -
  let ?P = "nat elapsed * unat (sim_tick_frequency_hz d)"
  let ?v = "(of_int elapsed * ucast (sim_tick_frequency_hz d)) div 1000000000 :: u64"
  have "of_int elapsed = (of_nat (nat elapsed) :: u64)" using assms(4) by simp
  then have P: "of_int elapsed * ucast (sim_tick_frequency_hz d) = (of_nat ?P :: u64)"
    by simp
  have "unat (of_nat ?P :: u64) = ?P mod 2 ^ 64" by (simp only: unat_of_nat take_bit_eq_mod) simp
  then have "unat ?v = ?P mod 2 ^ 64 div 1000000000" unfolding P unat_div by simp
  moreover have "sim_now (sim_realtime_epoch d + elapsed) s = Some ?v"
    using assms by (simp add: sim_now_def sim_deref_def realtime_now_ticks_def)
  ultimately show ?thesis using div_mod_short [of ?P] by (intro exI [of _ ?v]) auto
qed

text \<open>At a million ticks per second the clock is wrong a little more than five hours after the start.\<close>

theorem realtime_clock_exact_until_wrap_witness:
  "\<exists>v. sim_now (0 + 18446744073710)
      \<lparr>sim_ds = Live (SimState_init\<lparr>sim_mode := RealTime, sim_tick_frequency_hz := 1000000, sim_started := True\<rparr>), sim_calls = []\<rparr> =
      Some v \<and> unat v < 18446744073"
  using realtime_clock_exact_until_wrap [of
    "\<lparr>sim_ds = Live (SimState_init\<lparr>sim_mode := RealTime, sim_tick_frequency_hz := 1000000, sim_started := True\<rparr>), sim_calls = []\<rparr>"
    "SimState_init\<lparr>sim_mode := RealTime, sim_tick_frequency_hz := 1000000, sim_started := True\<rparr>" 18446744073710]
  by (simp add: SimState_init_def)

text \<open>
  \<^verbatim>\<open>advance_to\<close> never moves the virtual clock backwards, whatever the callbacks do with the driver: a target in the
  past leaves the clock where it is.
\<close>

theorem advance_to_monotone:
  assumes "sim_ds s = Live d" "sim_mode d = Virtual"
  shows "\<exists>s'. sim_advance_to (sim_callback clk beh) clk tp s = Some s' \<and>
    sim_now clk s' = Some (max tp (sim_virtual_now d))"
  using sim_advance_to_safe [of s d "\<lambda>v j. v = max tp (sim_virtual_now d)" tp clk beh] assms
  by (auto simp: sim_at_def sim_now_def sim_deref_def)

theorem advance_to_monotone_witness:
  "\<exists>s'. sim_advance_to (sim_callback 0 timer_demo_beh) 0 3 \<lparr>sim_ds = Live (SimState_init\<lparr>sim_virtual_now := 10\<rparr>), sim_calls = []\<rparr> = Some s' \<and>
     sim_now 0 s' = Some 10"
  using advance_to_monotone [of "\<lparr>sim_ds = Live (SimState_init\<lparr>sim_virtual_now := 10\<rparr>), sim_calls = []\<rparr>"
      "SimState_init\<lparr>sim_virtual_now := 10\<rparr>" 0 timer_demo_beh 3]
  by (simp add: SimState_init_def)

end
