(* ===== verification/Ring_Buffer_SMP.thy ===== *)
theory Ring_Buffer_SMP
  imports Ring_Buffer "HOL-Library.Sublist"
begin

text \<open>
  mpsc_ring_buffer.hpp under interference: any number of producers and the one consumer, one shared
  access at a time, in any order (sequentially consistent).  The buffer and its arithmetic are those
  of theory \<open>Ring_Buffer\<close>; here \<^verbatim>\<open>push\<close> and \<^verbatim>\<open>pop\<close> are cut at every access to \<^verbatim>\<open>head\<close>, to a sequence
  number or to the storage of a cell.

  \<open>claimed\<close> records the values in the order in which the producers won their compare-exchange, and
  \<open>received\<close> the values in the order in which \<^verbatim>\<open>pop\<close> returned them.
\<close>

section \<open>Steps\<close>

datatype 'a producer_pc =
    P_idle
  | P_check 'a u64
  | P_reload 'a
  | P_cas 'a u64
  | P_write 'a u64
  | P_publish 'a u64

datatype 'a consumer_pc =
    C_idle
  | C_take u64
  | C_read u64
  | C_free 'a u64

record 'a smp =
  ring :: "'a MpscRingBuffer"
  producer :: "nat \<Rightarrow> 'a producer_pc"
  consumer :: "'a consumer_pc"
  claimed :: "'a list"
  received :: "'a list"

definition smp_init :: "nat \<Rightarrow> 'a smp" where
  "smp_init N = \<lparr>ring = MpscRingBuffer_init N, producer = (\<lambda>_. P_idle), consumer = C_idle,
                  claimed = [], received = []\<rparr>"

definition set_pc :: "nat \<Rightarrow> 'a producer_pc \<Rightarrow> 'a smp \<Rightarrow> 'a smp" where
  "set_pc k pc s = s\<lparr>producer := (producer s)(k := pc)\<rparr>"

text \<open>
  The steps of \<^verbatim>\<open>push\<close> by producer \<open>k\<close>; the second argument is the result when the call returns.  The
  weak compare-exchange may also fail when the head is unchanged.
\<close>

inductive push_step :: "nat \<Rightarrow> 'a smp \<Rightarrow> bool option \<Rightarrow> 'a smp \<Rightarrow> bool" for k :: nat where
  push_load: "producer s k = P_idle \<Longrightarrow> push_step k s None (set_pc k (P_check v (rb_head (ring s))) s)"
| push_free: "producer s k = P_check v pos \<Longrightarrow>
    seq_diff (sequence (cell_at (ring s) pos)) pos = Some 0 \<Longrightarrow>
    push_step k s None (set_pc k (P_cas v pos) s)"
| push_full: "producer s k = P_check v pos \<Longrightarrow>
    seq_diff (sequence (cell_at (ring s) pos)) pos = Some d \<Longrightarrow> d < 0 \<Longrightarrow>
    push_step k s (Some False) (set_pc k P_idle s)"
| push_ahead: "producer s k = P_check v pos \<Longrightarrow>
    seq_diff (sequence (cell_at (ring s) pos)) pos = Some d \<Longrightarrow> d > 0 \<Longrightarrow>
    push_step k s None (set_pc k (P_reload v) s)"
| push_reload: "producer s k = P_reload v \<Longrightarrow>
    push_step k s None (set_pc k (P_check v (rb_head (ring s))) s)"
| push_claim: "producer s k = P_cas v pos \<Longrightarrow> rb_head (ring s) = pos \<Longrightarrow>
    push_step k s None ((set_pc k (P_write v pos) s)
      \<lparr>ring := (ring s)\<lparr>rb_head := pos + 1\<rparr>, claimed := claimed s @ [v]\<rparr>)"
| push_cas_fail: "producer s k = P_cas v pos \<Longrightarrow>
    push_step k s None (set_pc k (P_check v (rb_head (ring s))) s)"
| push_write: "producer s k = P_write v pos \<Longrightarrow>
    push_step k s None ((set_pc k (P_publish v pos) s)
      \<lparr>ring := set_cell pos ((cell_at (ring s) pos)\<lparr>storage := Some v\<rparr>) (ring s)\<rparr>)"
| push_publish: "producer s k = P_publish v pos \<Longrightarrow>
    push_step k s (Some True) ((set_pc k P_idle s)
      \<lparr>ring := set_cell pos ((cell_at (ring s) pos)\<lparr>sequence := pos + 1\<rparr>) (ring s)\<rparr>)"

text \<open>The steps of \<^verbatim>\<open>pop\<close>; reading a cell without an object has no successor.\<close>

inductive pop_step :: "'a smp \<Rightarrow> 'a option option \<Rightarrow> 'a smp \<Rightarrow> bool" where
  pop_nothing: "consumer s = C_idle \<Longrightarrow>
    seq_diff (sequence (cell_at (ring s) (rb_tail (ring s)))) (rb_tail (ring s) + 1) = Some d \<Longrightarrow> d \<noteq> 0 \<Longrightarrow>
    pop_step s (Some None) s"
| pop_found: "consumer s = C_idle \<Longrightarrow>
    seq_diff (sequence (cell_at (ring s) (rb_tail (ring s)))) (rb_tail (ring s) + 1) = Some 0 \<Longrightarrow>
    pop_step s None (s\<lparr>consumer := C_take (rb_tail (ring s))\<rparr>)"
| pop_take: "consumer s = C_take pos \<Longrightarrow>
    pop_step s None (s\<lparr>ring := (ring s)\<lparr>rb_tail := pos + 1\<rparr>, consumer := C_read pos\<rparr>)"
| pop_read: "consumer s = C_read pos \<Longrightarrow> storage (cell_at (ring s) pos) = Some v \<Longrightarrow>
    pop_step s None (s\<lparr>ring := set_cell pos ((cell_at (ring s) pos)\<lparr>storage := None\<rparr>) (ring s),
                       consumer := C_free v pos\<rparr>)"
| pop_free: "consumer s = C_free v pos \<Longrightarrow>
    pop_step s (Some (Some v))
      (s\<lparr>ring := set_cell pos ((cell_at (ring s) pos)\<lparr>sequence := pos + of_nat (length (cells (ring s)))\<rparr>) (ring s),
         consumer := C_idle, received := received s @ [v]\<rparr>)"

inductive smp_reachable :: "nat \<Rightarrow> 'a smp \<Rightarrow> bool" for N :: nat where
  smp_start: "smp_reachable N (smp_init N)"
| smp_push: "smp_reachable N s \<Longrightarrow> push_step k s r s' \<Longrightarrow> smp_reachable N s'"
| smp_pop: "smp_reachable N s \<Longrightarrow> pop_step s r s' \<Longrightarrow> smp_reachable N s'"

section \<open>The invariant\<close>

text \<open>A producer that has claimed a position and not yet published it.\<close>

fun inflight :: "'a producer_pc \<Rightarrow> ('a \<times> u64) option" where
  "inflight (P_write v pos) = Some (v, pos)"
| "inflight (P_publish v pos) = Some (v, pos)"
| "inflight P_idle = None"
| "inflight (P_check v pos) = None"
| "inflight (P_reload v) = None"
| "inflight (P_cas v pos) = None"

definition busy :: "'a smp \<Rightarrow> nat \<Rightarrow> bool" where
  "busy s p \<longleftrightarrow> (\<exists>k v. inflight (producer s k) = Some (v, of_nat p))"

lemma busy_sel [simp]:
  "busy (s\<lparr>ring := r\<rparr>) = busy s" "busy (s\<lparr>consumer := c\<rparr>) = busy s"
  "busy (s\<lparr>claimed := xs\<rparr>) = busy s" "busy (s\<lparr>received := ys\<rparr>) = busy s"
  by (simp_all add: busy_def fun_eq_iff)

fun tail_ahead :: "'a consumer_pc \<Rightarrow> nat" where
  "tail_ahead C_idle = 0"
| "tail_ahead (C_take pos) = 0"
| "tail_ahead (C_read pos) = 1"
| "tail_ahead (C_free v pos) = 1"

text \<open>
  With \<open>H\<close> claims and \<open>F\<close> completed pops, the \<open>N\<close> cells are those of the positions from \<open>F\<close> to
  \<open>F + N - 1\<close>.  A position below \<open>H\<close> is published or in flight, a position from \<open>H\<close> on is free.
\<close>

definition cells_inv :: "nat \<Rightarrow> 'a smp \<Rightarrow> bool" where
  "cells_inv N s \<longleftrightarrow> (let H = length (claimed s); F = length (received s); C = cells (ring s) in
     (\<forall>p. H \<le> p \<longrightarrow> p < F + N \<longrightarrow> sequence (C ! (p mod N)) = of_nat p) \<and>
     (\<forall>p. F \<le> p \<longrightarrow> p < H \<longrightarrow>
        (if busy s p then sequence (C ! (p mod N)) = of_nat p
         else sequence (C ! (p mod N)) = of_nat (p + 1) \<and>
              (storage (C ! (p mod N)) = Some (claimed s ! p) \<or>
               p = F \<and> consumer s = C_free (claimed s ! p) (of_nat p)))))"

definition producer_inv :: "nat \<Rightarrow> 'a smp \<Rightarrow> nat \<Rightarrow> bool" where
  "producer_inv N s k \<longleftrightarrow> (let H = length (claimed s); F = length (received s) in
     (case producer s k of
        P_idle \<Rightarrow> True
      | P_reload v \<Rightarrow> True
      | P_check v pos \<Rightarrow> (\<exists>p \<le> H. pos = of_nat p)
      | P_cas v pos \<Rightarrow> (\<exists>p \<le> H. pos = of_nat p \<and> (p = H \<longrightarrow> H < F + N))
      | P_write v pos \<Rightarrow> (\<exists>p. pos = of_nat p \<and> F \<le> p \<and> p < H \<and> claimed s ! p = v)
      | P_publish v pos \<Rightarrow> (\<exists>p. pos = of_nat p \<and> F \<le> p \<and> p < H \<and> claimed s ! p = v \<and>
                               storage (cells (ring s) ! (p mod N)) = Some v)))"

definition consumer_inv :: "'a smp \<Rightarrow> bool" where
  "consumer_inv s \<longleftrightarrow> (let H = length (claimed s); F = length (received s) in
     (case consumer s of
        C_idle \<Rightarrow> True
      | C_take pos \<Rightarrow> pos = of_nat F \<and> F < H \<and> \<not> busy s F
      | C_read pos \<Rightarrow> pos = of_nat F \<and> F < H \<and> \<not> busy s F
      | C_free v pos \<Rightarrow> pos = of_nat F \<and> F < H \<and> \<not> busy s F \<and> v = claimed s ! F))"

definition smp_inv :: "nat \<Rightarrow> 'a smp \<Rightarrow> bool" where
  "smp_inv N s \<longleftrightarrow> (let H = length (claimed s); F = length (received s) in
     ring_capacity N \<and> length (cells (ring s)) = N \<and> H \<le> 2 ^ 62 \<and> F \<le> H \<and> H \<le> F + N \<and>
     rb_head (ring s) = of_nat H \<and> rb_tail (ring s) = of_nat (F + tail_ahead (consumer s)) \<and>
     prefix (received s) (claimed s) \<and> cells_inv N s \<and> (\<forall>k. producer_inv N s k) \<and> consumer_inv s \<and>
     (\<forall>k k' v v' pos. inflight (producer s k) = Some (v, pos) \<longrightarrow>
        inflight (producer s k') = Some (v', pos) \<longrightarrow> k = k'))"

section \<open>Facts of the invariant\<close>

lemma of_nat_u64_eq: "p < 2 ^ 64 \<Longrightarrow> q < 2 ^ 64 \<Longrightarrow> (of_nat p :: u64) = of_nat q \<longleftrightarrow> p = q"
  by (simp add: word_unat_eq_iff unat_of_nat take_bit_nat_eq_self)

lemma smp_invD:
  assumes "smp_inv N s"
  shows "ring_capacity N" "length (cells (ring s)) = N" "length (claimed s) \<le> 2 ^ 62"
    "length (received s) \<le> length (claimed s)" "length (claimed s) \<le> length (received s) + N"
    "rb_head (ring s) = of_nat (length (claimed s))"
    "rb_tail (ring s) = of_nat (length (received s) + tail_ahead (consumer s))"
    "prefix (received s) (claimed s)" "cells_inv N s" "producer_inv N s k"
    "consumer_inv s"
    "inflight (producer s k) = Some (v, pos) \<Longrightarrow> inflight (producer s k') = Some (v', pos) \<Longrightarrow> k = k'"
  using assms unfolding smp_inv_def Let_def by blast+

lemma smp_invI:
  assumes "cells_inv N s" "\<And>k. producer_inv N s k" "consumer_inv s"
    and "\<And>k k' v v' pos. inflight (producer s k) = Some (v, pos) \<Longrightarrow>
      inflight (producer s k') = Some (v', pos) \<Longrightarrow> k = k'"
    and "ring_capacity N" "length (cells (ring s)) = N" "length (claimed s) \<le> 2 ^ 62"
    and "length (received s) \<le> length (claimed s)" "length (claimed s) \<le> length (received s) + N"
    and "rb_head (ring s) = of_nat (length (claimed s))"
    and "rb_tail (ring s) = of_nat (length (received s) + tail_ahead (consumer s))"
    and "prefix (received s) (claimed s)"
  shows "smp_inv N s"
  using assms unfolding smp_inv_def Let_def by blast

lemma smp_inv_bounds:
  assumes "smp_inv N s"
  shows "2 \<le> N" "N < 2 ^ 62" "length (received s) + N < 2 ^ 63" "length (claimed s) < 2 ^ 63"
proof -
  show "2 \<le> N" "N < 2 ^ 62" using ring_capacity_bounds [OF smp_invD(1) [OF assms]] by auto
  then show "length (received s) + N < 2 ^ 63" "length (claimed s) < 2 ^ 63"
    using smp_invD(3,4) [OF assms] by simp_all
qed

lemma cell_at_pos:
  assumes "smp_inv N s" "p < 2 ^ 63"
  shows "cell_at (ring s) (of_nat p) = cells (ring s) ! (p mod N)"
    "set_cell (of_nat p) c (ring s) = (ring s)\<lparr>cells := (cells (ring s))[p mod N := c]\<rparr>"
  using cell_index_mod [OF smp_invD(1) [OF assms(1)] assms(2)] smp_invD(2) [OF assms(1)]
  by (simp_all add: cell_at_def set_cell_def)

lemma cells_free:
  assumes "smp_inv N s" "length (claimed s) \<le> p" "p < length (received s) + N"
  shows "sequence (cells (ring s) ! (p mod N)) = of_nat p"
  using smp_invD(9) [OF assms(1)] assms(2,3) by (simp add: cells_inv_def Let_def)

lemma cells_taken:
  assumes "smp_inv N s" "length (received s) \<le> p" "p < length (claimed s)"
  shows "busy s p \<Longrightarrow> sequence (cells (ring s) ! (p mod N)) = of_nat p"
    and "\<not> busy s p \<Longrightarrow> sequence (cells (ring s) ! (p mod N)) = of_nat (p + 1)"
    and "\<not> busy s p \<Longrightarrow> storage (cells (ring s) ! (p mod N)) = Some (claimed s ! p) \<or>
           p = length (received s) \<and> consumer s = C_free (claimed s ! p) (of_nat p)"
  using smp_invD(9) [OF assms(1)] assms(2,3) by (simp_all add: cells_inv_def Let_def)

text \<open>Every index is that of one position of the window.\<close>

lemma window_position:
  fixes F N :: nat
  assumes "0 < N"
  obtains w where "F \<le> w" "w < F + N" "w mod N = p mod N"
proof -
  let ?w = "F + (p + N * F - F) mod N"
  have "?w mod N = p mod N"
  proof -
    have "?w mod N = (F + (p + N * F - F)) mod N" by (simp add: mod_add_right_eq)
    also have "F + (p + N * F - F) = p + N * F" using assms by (cases N) auto
    finally show ?thesis by simp
  qed
  moreover have "?w < F + N" using assms by simp
  ultimately show ?thesis using that [of ?w] by simp
qed

lemma window_sequence:
  assumes inv: "smp_inv N s" and w: "length (received s) \<le> w" "w < length (received s) + N"
  obtains q where "sequence (cells (ring s) ! (w mod N)) = of_nat q" "q = w \<or> w < length (claimed s) \<and> q = w + 1"
proof (cases "w < length (claimed s)")
  case True
  then show ?thesis using that [of w] that [of "w + 1"] cells_taken(1,2) [OF inv w(1) True]
    by (cases "busy s w") auto
next
  case False
  then show ?thesis using that [of w] cells_free [OF inv _ w(2)] by auto
qed

text \<open>What a producer that has loaded position \<open>p\<close> can see.\<close>

lemma check_sequence:
  assumes inv: "smp_inv N s" and p: "p \<le> length (claimed s)"
  obtains q where "sequence (cell_at (ring s) (of_nat p)) = of_nat q" "q < 2 ^ 63"
    "q = p \<longrightarrow> p = length (claimed s) \<longrightarrow> length (claimed s) < length (received s) + N"
    "q < p \<longrightarrow> length (claimed s) = length (received s) + N"
proof -
  note b = smp_inv_bounds [OF inv] and d = smp_invD(3-5) [OF inv]
  have cell: "cell_at (ring s) (of_nat p) = cells (ring s) ! (p mod N)"
    using cell_at_pos(1) [OF inv] p b(4) by simp
  obtain w where w: "length (received s) \<le> w" "w < length (received s) + N" "w mod N = p mod N"
    using window_position [of N "length (received s)" p] b(1) by auto
  obtain q where q: "sequence (cells (ring s) ! (w mod N)) = of_nat q"
    "q = w \<or> w < length (claimed s) \<and> q = w + 1" by (rule window_sequence [OF inv w(1,2)])
  have wp: "w = p" if "length (received s) \<le> p" "p < length (received s) + N"
    using mod_window_inj [of w p N] that w by auto
  have wF: "w = length (received s)" if "p = length (received s) + N"
    using mod_window_inj [of w "length (received s)" N] that w by auto
  have full: "length (claimed s) = length (received s) + N" if "q < p"
  proof (rule ccontr)
    assume "length (claimed s) \<noteq> length (received s) + N"
    then have "p < length (received s) + N" using p d(3) by linarith
    moreover have "length (received s) \<le> p" using that q(2) w(1) by linarith
    ultimately have "w = p" using wp by blast
    then show False using that q(2) by linarith
  qed
  have free: "p \<noteq> length (received s) + N" if "q = p"
  proof
    assume e: "p = length (received s) + N"
    then have "w = length (received s)" using wF by blast
    then show False using q(2) that b(1) e by linarith
  qed
  have bound: "q < 2 ^ 63" using q(2) w(2) b(3,4) by linarith
  have sq: "sequence (cell_at (ring s) (of_nat p)) = of_nat q" using q(1) cell w(3) by simp
  show ?thesis
  proof (rule that [OF sq bound])
    show "q = p \<longrightarrow> p = length (claimed s) \<longrightarrow> length (claimed s) < length (received s) + N"
      using free d(3) by fastforce
  qed (use full in blast)
qed

lemma smp_inv_init: "ring_capacity N \<Longrightarrow> smp_inv N (smp_init N :: 'a smp)"
  using ring_capacity_bounds [of N]
  by (simp add: smp_inv_def smp_init_def MpscRingBuffer_init_def cells_inv_def producer_inv_def
      consumer_inv_def)

section \<open>Every step keeps the invariant\<close>

lemma set_pc_sel [simp]:
  "ring (set_pc k pc s) = ring s" "consumer (set_pc k pc s) = consumer s"
  "claimed (set_pc k pc s) = claimed s" "received (set_pc k pc s) = received s"
  "producer (set_pc k pc s) = (producer s)(k := pc)"
  by (simp_all add: set_pc_def)

text \<open>A producer does not notice what happens to positions other than its own.\<close>

lemma producer_inv_frame:
  assumes "producer_inv N s j" "producer s' j = producer s j"
    and "length (claimed s) \<le> length (claimed s')" "\<And>p. p < length (claimed s) \<Longrightarrow> claimed s' ! p = claimed s ! p"
    and "length (received s) \<le> length (received s')"
    and "\<And>v p. inflight (producer s j) = Some (v, of_nat p) \<Longrightarrow> length (received s) \<le> p \<Longrightarrow>
      p < length (claimed s) \<Longrightarrow> length (received s') \<le> p \<and>
      storage (cells (ring s') ! (p mod N)) = storage (cells (ring s) ! (p mod N))"
  shows "producer_inv N s' j"
proof (cases "producer s j")
  case (P_check v pos)
  then obtain p where "p \<le> length (claimed s)" "pos = of_nat p"
    using assms(1) by (auto simp: producer_inv_def Let_def)
  then have "\<exists>p \<le> length (claimed s'). pos = of_nat p" using assms(3) by (intro exI [of _ p]) simp
  then show ?thesis using P_check assms(2) by (simp add: producer_inv_def Let_def)
next
  case (P_cas v pos)
  then obtain p where "p \<le> length (claimed s)" "pos = of_nat p"
    "p = length (claimed s) \<longrightarrow> length (claimed s) < length (received s) + N"
    using assms(1) by (auto simp: producer_inv_def Let_def)
  then have "p \<le> length (claimed s') \<and> pos = of_nat p \<and>
      (p = length (claimed s') \<longrightarrow> length (claimed s') < length (received s') + N)"
    using assms(3,5) by auto
  then show ?thesis using P_cas assms(2) by (auto simp: producer_inv_def Let_def)
next
  case (P_write v pos)
  then obtain p where p: "pos = of_nat p" "length (received s) \<le> p" "p < length (claimed s)" "claimed s ! p = v"
    using assms(1) by (auto simp: producer_inv_def Let_def)
  then have "length (received s') \<le> p" using assms(6) [of v p] P_write by simp
  then show ?thesis using P_write p assms(2,3,4) by (auto simp: producer_inv_def Let_def)
next
  case (P_publish v pos)
  then obtain p where p: "pos = of_nat p" "length (received s) \<le> p" "p < length (claimed s)" "claimed s ! p = v"
    "storage (cells (ring s) ! (p mod N)) = Some v"
    using assms(1) by (auto simp: producer_inv_def Let_def)
  then have "length (received s') \<le> p" "storage (cells (ring s') ! (p mod N)) = Some v"
    using assms(6) [of v p] P_publish by simp_all
  then show ?thesis using P_publish p assms(2,3,4) by (auto simp: producer_inv_def Let_def)
qed (use assms(2) in \<open>simp_all add: producer_inv_def\<close>)

lemma consumer_inv_frame:
  assumes "consumer_inv s" "consumer s' = consumer s" "length (received s') = length (received s)"
    and "length (claimed s) \<le> length (claimed s')" "\<And>p. p < length (claimed s) \<Longrightarrow> claimed s' ! p = claimed s ! p"
    and "length (received s) < length (claimed s) \<Longrightarrow> \<not> busy s (length (received s)) \<Longrightarrow>
      \<not> busy s' (length (received s))"
  shows "consumer_inv s'"
  using assms by (cases "consumer s") (auto simp: consumer_inv_def Let_def)

lemma busy_enter:
  assumes "inflight (producer s k) = None" "producer s' = (producer s)(k := pc)" "inflight pc = Some (v, pos)"
  shows "busy s' q \<longleftrightarrow> busy s q \<or> pos = of_nat q"
proof
  assume "busy s' q"
  then obtain j u where "inflight (producer s' j) = Some (u, of_nat q)" by (auto simp: busy_def)
  then show "busy s q \<or> pos = of_nat q" using assms(2,3) by (cases "j = k") (auto simp: busy_def)
next
  assume "busy s q \<or> pos = of_nat q"
  then show "busy s' q"
  proof
    assume "busy s q"
    then obtain j u where j: "inflight (producer s j) = Some (u, of_nat q)" by (auto simp: busy_def)
    then have "j \<noteq> k" using assms(1) by auto
    then show ?thesis using j assms(2) unfolding busy_def by (metis fun_upd_other)
  qed (use assms(2,3) in \<open>auto simp: busy_def\<close>)
qed

text \<open>Steps by which a producer moves without having claimed a position.\<close>

lemma smp_inv_quiet:
  assumes inv: "smp_inv N s" and q: "inflight (producer s k) = None" "inflight pc = None"
    and pi: "producer_inv N (set_pc k pc s) k"
  shows "smp_inv N (set_pc k pc s)"
proof -
  have fl: "inflight (producer (set_pc k pc s) j) = inflight (producer s j)" for j using q by simp
  then have b: "busy (set_pc k pc s) = busy s" by (simp add: busy_def fun_eq_iff)
  have pv: "producer_inv N (set_pc k pc s) j" for j
  proof (cases "j = k")
    case False
    show ?thesis by (rule producer_inv_frame [OF smp_invD(10) [OF inv]]) (use False in simp_all)
  qed (use pi in simp)
  have cv: "cells_inv N (set_pc k pc s)" "consumer_inv (set_pc k pc s)"
    using smp_invD(9,11) [OF inv] unfolding cells_inv_def consumer_inv_def b set_pc_sel by blast+
  have dv: "j = j'" if "inflight (producer (set_pc k pc s) j) = Some (u, pos)"
    "inflight (producer (set_pc k pc s) j') = Some (u', pos)" for j j' u u' pos
    using that smp_invD(12) [OF inv] unfolding fl by blast
  show ?thesis
    by (rule smp_invI [OF cv(1) pv cv(2) dv]) (use smp_invD(1-8) [OF inv] in simp_all)
qed

text \<open>The position of a producer in flight.\<close>

lemma inflight_position:
  assumes inv: "smp_inv N s" and f: "inflight (producer s k) = Some (v, pos)"
  obtains p where "pos = of_nat p" "length (received s) \<le> p" "p < length (claimed s)" "claimed s ! p = v"
    "busy s p" "p < 2 ^ 63"
proof -
  obtain p where p: "pos = of_nat p" "length (received s) \<le> p" "p < length (claimed s)" "claimed s ! p = v"
    using smp_invD(10) [OF inv, of k] f by (cases "producer s k") (auto simp: producer_inv_def Let_def)
  moreover have "busy s p" using f p(1) by (auto simp: busy_def)
  moreover have "p < 2 ^ 63" using p(3) smp_inv_bounds(4) [OF inv] by simp
  ultimately show ?thesis using that by blast
qed

lemma busy_below:
  assumes "smp_inv N s" "busy s p" "p < 2 ^ 63"
  shows "length (received s) \<le> p" "p < length (claimed s)"
proof -
  obtain k v where "inflight (producer s k) = Some (v, of_nat p)" using assms(2) by (auto simp: busy_def)
  then obtain q where "(of_nat p :: u64) = of_nat q" "length (received s) \<le> q" "q < length (claimed s)" "q < 2 ^ 63"
    by (rule inflight_position [OF assms(1)])
  then show "length (received s) \<le> p" "p < length (claimed s)" using of_nat_u64_eq [of p q] assms(3) by auto
qed

lemma smp_inv_claim:
  assumes inv: "smp_inv N s" and pc: "producer s k = P_cas v pos" "rb_head (ring s) = pos"
    and bound: "length (claimed s) < 2 ^ 62"
  shows "smp_inv N ((set_pc k (P_write v pos) s)
      \<lparr>ring := (ring s)\<lparr>rb_head := pos + 1\<rparr>, claimed := claimed s @ [v]\<rparr>)" (is "smp_inv N ?s")
proof -
  note d = smp_invD [OF inv] and b = smp_inv_bounds [OF inv]
  let ?H = "length (claimed s)" and ?F = "length (received s)"
  obtain p where p: "p \<le> ?H" "pos = of_nat p" "p = ?H \<Longrightarrow> ?H < ?F + N"
    using d(10) [of k] pc(1) by (auto simp: producer_inv_def Let_def)
  have "(of_nat p :: u64) = of_nat ?H" using p(2) pc(2) d(6) by metis
  moreover have "p < 2 ^ 64" "?H < 2 ^ 64" using p(1) b(4) by simp_all
  ultimately have pH: "p = ?H" using of_nat_u64_eq by blast
  then have room: "?H < ?F + N" and pos: "pos = of_nat ?H" using p by auto
  have fl: "inflight (producer ?s j) = (if j = k then Some (v, pos) else inflight (producer s j))" for j by simp
  have none: "inflight (producer s k) = None" using pc(1) by simp
  have bz: "busy ?s q \<longleftrightarrow> busy s q \<or> q = ?H" if "q < 2 ^ 63" for q
    using busy_enter [OF none, of ?s "P_write v pos" v pos q] of_nat_u64_eq [of q ?H] that b(4) pos by auto
  have pinv: "producer_inv N ?s j" for j
  proof (cases "j = k")
    case True
    then show ?thesis using pos d(4)
      by (auto simp: producer_inv_def intro!: exI [of _ ?H])
  next
    case False
    show ?thesis by (rule producer_inv_frame [OF d(10)]) (use False in \<open>simp_all add: nth_append\<close>)
  qed
  have cinv: "consumer_inv ?s"
  proof -
    have "busy ?s ?F \<longleftrightarrow> busy s ?F \<or> ?F = ?H" using bz [of ?F] d(4) b(4) by simp
    then show ?thesis by (intro consumer_inv_frame [OF d(11)]) (simp_all add: nth_append)
  qed
  have cv: "cells_inv N ?s"
    unfolding cells_inv_def Let_def
  proof (intro conjI allI impI)
    fix q assume "length (claimed ?s) \<le> q" "q < length (received ?s) + N"
    then show "sequence (cells (ring ?s) ! (q mod N)) = of_nat q" using cells_free [OF inv, of q] by simp
  next
    fix q assume q: "length (received ?s) \<le> q" "q < length (claimed ?s)"
    then have "q < 2 ^ 63" using b(4) by simp
    then show "if busy ?s q then sequence (cells (ring ?s) ! (q mod N)) = of_nat q
      else sequence (cells (ring ?s) ! (q mod N)) = of_nat (q + 1) \<and>
        (storage (cells (ring ?s) ! (q mod N)) = Some (claimed ?s ! q) \<or>
         q = length (received ?s) \<and> consumer ?s = C_free (claimed ?s ! q) (of_nat q))"
      using bz [of q] q cells_taken [OF inv, of q] cells_free [OF inv, of q] room
      by (cases "q = ?H") (auto simp: nth_append)
  qed
  have dv: "j = j'" if "inflight (producer ?s j) = Some (w, x)" "inflight (producer ?s j') = Some (w', x)" for j j' w w' x
  proof -
    have "x \<noteq> pos" if f: "inflight (producer s i) = Some (u, x)" for i u
    proof -
      obtain q where "x = of_nat q" "q < ?H" "q < 2 ^ 63" by (rule inflight_position [OF inv f])
      then show ?thesis using of_nat_u64_eq [of q ?H] pos b(4) by simp
    qed
    then show ?thesis using that d(12) [of j w x j' w'] unfolding fl by (auto split: if_splits)
  qed
  show ?thesis
    by (rule smp_invI [OF cv pinv cinv dv]) (use d(1,2,4,7,8) bound room pos in \<open>simp_all add: add.commute\<close>)
qed

lemma other_index:
  fixes p q F N :: nat
  assumes "F \<le> p" "p < F + N" "F \<le> q" "q < F + N" "p \<noteq> q"
  shows "p mod N \<noteq> q mod N"
  using mod_window_inj [of p q N] assms by auto

lemma smp_inv_write:
  assumes inv: "smp_inv N s" and pc: "producer s k = P_write v pos"
  shows "smp_inv N ((set_pc k (P_publish v pos) s)
      \<lparr>ring := set_cell pos ((cell_at (ring s) pos)\<lparr>storage := Some v\<rparr>) (ring s)\<rparr>)" (is "smp_inv N ?s")
proof -
  note d = smp_invD [OF inv] and b = smp_inv_bounds [OF inv]
  let ?C = "cells (ring s)" and ?F = "length (received s)" and ?H = "length (claimed s)"
  obtain p where p: "pos = of_nat p" "?F \<le> p" "p < ?H" "claimed s ! p = v" "busy s p" "p < 2 ^ 63"
    by (rule inflight_position [OF inv, of k v pos]) (simp add: pc)
  have pN: "p < ?F + N" "p mod N < length ?C" using p(3) d(2,5) b(1) by simp_all
  have ring: "ring ?s = (ring s)\<lparr>cells := ?C[p mod N := (?C ! (p mod N))\<lparr>storage := Some v\<rparr>]\<rparr>"
    using cell_at_pos [OF inv p(6)] p(1) by simp
  have fl: "inflight (producer ?s j) = inflight (producer s j)" for j using pc by simp
  then have bz: "busy ?s = busy s" by (simp add: busy_def fun_eq_iff)
  have sq: "sequence (cells (ring ?s) ! i) = sequence (?C ! i)" for i
    using pN(2) unfolding ring by (cases "i = p mod N") simp_all
  have st: "storage (cells (ring ?s) ! (q mod N)) = storage (?C ! (q mod N))"
    if "?F \<le> q" "q < ?H" "q \<noteq> p" for q
    using other_index [of ?F q N p] that p(2) pN(1) d(5) unfolding ring by simp
  have pv: "producer_inv N ?s j" for j
  proof (cases "j = k")
    case True
    have "storage (cells (ring ?s) ! (p mod N)) = Some v" using pN(2) unfolding ring by simp
    then show ?thesis using True p(1-4) by (auto simp: producer_inv_def)
  next
    case False
    show ?thesis
    proof (rule producer_inv_frame [OF d(10)])
      fix u q assume q: "inflight (producer s j) = Some (u, of_nat q)" "?F \<le> q" "q < ?H"
      have "q \<noteq> p" using d(12) [of j u "of_nat q" k v] q(1) pc p(1) False by auto
      then show "length (received ?s) \<le> q \<and> storage (cells (ring ?s) ! (q mod N)) = storage (?C ! (q mod N))"
        using st q(2,3) by simp
    qed (use False in simp_all)
  qed
  have sv: "consumer_inv ?s" by (rule consumer_inv_frame [OF d(11)]) (use bz in simp_all)
  have cv: "cells_inv N ?s"
    unfolding cells_inv_def Let_def
  proof (intro conjI allI impI)
    fix q assume "length (claimed ?s) \<le> q" "q < length (received ?s) + N"
    then show "sequence (cells (ring ?s) ! (q mod N)) = of_nat q"
      using cells_free [OF inv, of q] unfolding sq by simp
  next
    fix q assume q: "length (received ?s) \<le> q" "q < length (claimed ?s)"
    then show "if busy ?s q then sequence (cells (ring ?s) ! (q mod N)) = of_nat q
      else sequence (cells (ring ?s) ! (q mod N)) = of_nat (q + 1) \<and>
        (storage (cells (ring ?s) ! (q mod N)) = Some (claimed ?s ! q) \<or>
         q = length (received ?s) \<and> consumer ?s = C_free (claimed ?s ! q) (of_nat q))"
      using cells_taken [OF inv, of q] st [of q] p(5) unfolding sq bz by (cases "q = p") auto
  qed
  have rv: "length (cells (ring ?s)) = N" "rb_head (ring ?s) = of_nat ?H"
    "rb_tail (ring ?s) = of_nat (?F + tail_ahead (consumer s))" using d(2,6,7) unfolding ring by simp_all
  have dv: "j = j'" if "inflight (producer ?s j) = Some (w, x)" "inflight (producer ?s j') = Some (w', x)" for j j' w w' x
    using that d(12) unfolding fl by blast
  show ?thesis
    by (rule smp_invI [OF cv pv sv dv]) (use rv d(1,3,4,5,8) in simp_all)
qed

lemma smp_inv_publish:
  assumes inv: "smp_inv N s" and pc: "producer s k = P_publish v pos"
  shows "smp_inv N ((set_pc k P_idle s)
      \<lparr>ring := set_cell pos ((cell_at (ring s) pos)\<lparr>sequence := pos + 1\<rparr>) (ring s)\<rparr>)" (is "smp_inv N ?s")
proof -
  note d = smp_invD [OF inv] and b = smp_inv_bounds [OF inv]
  let ?C = "cells (ring s)" and ?F = "length (received s)" and ?H = "length (claimed s)"
  obtain p where p: "pos = of_nat p" "?F \<le> p" "p < ?H" "claimed s ! p = v" "busy s p" "p < 2 ^ 63"
    by (rule inflight_position [OF inv, of k v pos]) (simp add: pc)
  have pN: "p < ?F + N" "p mod N < length ?C" using p(3) d(2,5) b(1) by simp_all
  have stv: "storage (?C ! (p mod N)) = Some v"
  proof -
    obtain q where "pos = of_nat q" "q < ?H" "storage (?C ! (q mod N)) = Some v"
      using d(10) [of k] pc by (auto simp: producer_inv_def Let_def)
    then show ?thesis using of_nat_u64_eq [of p q] p(1,6) b(4) by simp
  qed
  have ring: "ring ?s = (ring s)\<lparr>cells := ?C[p mod N := (?C ! (p mod N))\<lparr>sequence := of_nat (p + 1)\<rparr>]\<rparr>"
    using cell_at_pos [OF inv p(6)] p(1) by (simp add: add.commute)
  have fl: "inflight (producer ?s j) = (if j = k then None else inflight (producer s j))" for j by simp
  have bz: "busy ?s q \<longleftrightarrow> busy s q \<and> q \<noteq> p" if "q < 2 ^ 63" for q
  proof
    assume "busy ?s q"
    then obtain j u where j: "j \<noteq> k" "inflight (producer s j) = Some (u, of_nat q)"
      unfolding busy_def fl by (auto split: if_splits)
    then have "q \<noteq> p" using d(12) [of j u "of_nat q" k v] pc p(1) by auto
    then show "busy s q \<and> q \<noteq> p" using j(2) by (auto simp: busy_def)
  next
    assume q: "busy s q \<and> q \<noteq> p"
    then obtain j u where j: "inflight (producer s j) = Some (u, of_nat q)" by (auto simp: busy_def)
    have "j \<noteq> k" using j pc q of_nat_u64_eq [of p q] p(1,6) that by auto
    then show "busy ?s q" using j unfolding busy_def fl by metis
  qed
  have st: "storage (cells (ring ?s) ! i) = storage (?C ! i)" for i
    using pN(2) unfolding ring by (cases "i = p mod N") simp_all
  have sq: "sequence (cells (ring ?s) ! (q mod N)) = (if q = p then of_nat (p + 1) else sequence (?C ! (q mod N)))"
    if "?F \<le> q" "q < ?F + N" for q
    using other_index [of ?F q N p] that p(2) pN unfolding ring by (cases "q = p") simp_all
  have pv: "producer_inv N ?s j" for j
  proof (cases "j = k")
    case False
    show ?thesis by (rule producer_inv_frame [OF d(10)]) (use False st in simp_all)
  qed (simp add: producer_inv_def)
  have sv: "consumer_inv ?s"
    using bz [of ?F] d(4) b(4) by (intro consumer_inv_frame [OF d(11)]) simp_all
  have cv: "cells_inv N ?s"
    unfolding cells_inv_def Let_def
  proof (intro conjI allI impI)
    fix q assume "length (claimed ?s) \<le> q" "q < length (received ?s) + N"
    then show "sequence (cells (ring ?s) ! (q mod N)) = of_nat q"
      using cells_free [OF inv, of q] sq [of q] p(3) d(4) by simp
  next
    fix q assume q: "length (received ?s) \<le> q" "q < length (claimed ?s)"
    then have "q < ?F + N" "q < 2 ^ 63" using d(5) b(4) by simp_all
    then show "if busy ?s q then sequence (cells (ring ?s) ! (q mod N)) = of_nat q
      else sequence (cells (ring ?s) ! (q mod N)) = of_nat (q + 1) \<and>
        (storage (cells (ring ?s) ! (q mod N)) = Some (claimed ?s ! q) \<or>
         q = length (received ?s) \<and> consumer ?s = C_free (claimed ?s ! q) (of_nat q))"
      using cells_taken [OF inv, of q] q sq [of q] bz [of q] p(4,5) stv unfolding st by auto
  qed
  have rv: "length (cells (ring ?s)) = N" "rb_head (ring ?s) = of_nat ?H"
    "rb_tail (ring ?s) = of_nat (?F + tail_ahead (consumer s))" using d(2,6,7) unfolding ring by simp_all
  have dv: "j = j'" if "inflight (producer ?s j) = Some (w, x)" "inflight (producer ?s j') = Some (w', x)" for j j' w w' x
    using that d(12) unfolding fl by (metis option.distinct(1))
  show ?thesis
    by (rule smp_invI [OF cv pv sv dv]) (use rv d(1,3,4,5,8) in simp_all)
qed

section \<open>The consumer\<close>

lemma seq_diff_zero:
  assumes "p < 2 ^ 63" "q < 2 ^ 63"
  shows "seq_diff (of_nat p) (of_nat q) = Some 0 \<longleftrightarrow> p = q"
  using seq_diff_small [OF assms] by simp

lemma pop_found_published:
  assumes inv: "smp_inv N s" and c: "consumer s = C_idle"
    and z: "seq_diff (sequence (cell_at (ring s) (rb_tail (ring s)))) (rb_tail (ring s) + 1) = Some 0"
  shows "length (received s) < length (claimed s)" "\<not> busy s (length (received s))"
    "rb_tail (ring s) = of_nat (length (received s))"
proof -
  note b = smp_inv_bounds [OF inv]
  let ?F = "length (received s)"
  have F: "?F < 2 ^ 63" "?F + 1 < 2 ^ 63" "?F < ?F + N" using b by simp_all
  show t: "rb_tail (ring s) = of_nat ?F" using smp_invD(7) [OF inv] c by simp
  have cell: "cell_at (ring s) (of_nat ?F) = cells (ring s) ! (?F mod N)" by (rule cell_at_pos(1) [OF inv F(1)])
  obtain q where q: "sequence (cells (ring s) ! (?F mod N)) = of_nat q"
    "q = ?F \<or> ?F < length (claimed s) \<and> q = ?F + 1" by (rule window_sequence [OF inv order_refl F(3)])
  have "rb_tail (ring s) + 1 = of_nat (?F + 1)" unfolding t by (simp add: add.commute)
  then have "seq_diff (of_nat q) (of_nat (?F + 1)) = Some 0"
    using z q(1) cell unfolding t by (simp add: add.commute)
  moreover have "q < 2 ^ 63" using q(2) F by auto
  ultimately have "q = ?F + 1" using seq_diff_zero F(2) by blast
  then show lt: "?F < length (claimed s)" using q(2) by simp
  show "\<not> busy s ?F"
  proof
    assume "busy s ?F"
    then have "(of_nat q :: u64) = of_nat ?F" using cells_taken(1) [OF inv order_refl lt] q(1) by metis
    then show False using of_nat_u64_eq [of q ?F] \<open>q = ?F + 1\<close> F by simp
  qed
qed

lemma smp_inv_consumer:
  assumes inv: "smp_inv N s" and c: "tail_ahead (consumer s) = t" "\<And>u x. consumer s \<noteq> C_free u x"
    and r: "r = (ring s)\<lparr>rb_tail := of_nat (length (received s) + tail_ahead cp)\<rparr>"
    and ci: "consumer_inv (s\<lparr>ring := r, consumer := cp\<rparr>)"
  shows "smp_inv N (s\<lparr>ring := r, consumer := cp\<rparr>)" (is "smp_inv N ?s")
proof -
  note d = smp_invD [OF inv]
  have bz: "busy ?s = busy s" by simp
  have pv: "producer_inv N ?s j" for j by (rule producer_inv_frame [OF d(10)]) (simp_all add: r)
  have cv: "cells_inv N ?s" using d(9) c(2) unfolding cells_inv_def Let_def bz
    by (auto simp: r split: if_split_asm)
  have dv: "j = j'" if "inflight (producer ?s j) = Some (w, x)" "inflight (producer ?s j') = Some (w', x)" for j j' w w' x
    using that d(12) by simp
  show ?thesis by (rule smp_invI [OF cv pv ci dv]) (use d(1-8) in \<open>simp_all add: r\<close>)
qed

lemma smp_inv_read:
  assumes inv: "smp_inv N s" and c: "consumer s = C_read pos"
  shows "\<exists>v. storage (cell_at (ring s) pos) = Some v"
    and "storage (cell_at (ring s) pos) = Some v \<Longrightarrow>
      smp_inv N (s\<lparr>ring := set_cell pos ((cell_at (ring s) pos)\<lparr>storage := None\<rparr>) (ring s),
                   consumer := C_free v pos\<rparr>)" (is "_ \<Longrightarrow> smp_inv N ?s")
proof -
  note d = smp_invD [OF inv] and b = smp_inv_bounds [OF inv]
  let ?C = "cells (ring s)" and ?F = "length (received s)" and ?H = "length (claimed s)"
  have p: "pos = of_nat ?F" "?F < ?H" "\<not> busy s ?F"
    using d(11) c by (simp_all add: consumer_inv_def Let_def)
  have F: "?F < 2 ^ 63" "?F mod N < length ?C" using b(3,1) d(2) by simp_all
  have cell: "cell_at (ring s) pos = ?C ! (?F mod N)" using cell_at_pos(1) [OF inv F(1)] p(1) by simp
  have val: "storage (cell_at (ring s) pos) = Some (claimed s ! ?F)"
    using cells_taken(3) [OF inv order_refl p(2,3)] c cell by simp
  then show "\<exists>v. storage (cell_at (ring s) pos) = Some v" by simp
  assume "storage (cell_at (ring s) pos) = Some v"
  then have v: "v = claimed s ! ?F" using val by simp
  have ring: "ring ?s = (ring s)\<lparr>cells := ?C[?F mod N := (?C ! (?F mod N))\<lparr>storage := None\<rparr>]\<rparr>"
    using cell_at_pos(2) [OF inv F(1)] p(1) cell by simp
  have bz: "busy ?s = busy s" by simp
  have sq: "sequence (cells (ring ?s) ! i) = sequence (?C ! i)" for i
    using F(2) unfolding ring by (cases "i = ?F mod N") simp_all
  have st: "storage (cells (ring ?s) ! (q mod N)) = storage (?C ! (q mod N))"
    if "?F \<le> q" "q < ?H" "q \<noteq> ?F" for q
    using other_index [of ?F q N ?F] that d(5) b(1) unfolding ring by simp
  have pv: "producer_inv N ?s j" for j
  proof (rule producer_inv_frame [OF d(10)])
    fix u q assume q: "inflight (producer s j) = Some (u, of_nat q)" "?F \<le> q" "q < ?H"
    then have "busy s q" by (auto simp: busy_def)
    then have "q \<noteq> ?F" using p(3) by metis
    then show "length (received ?s) \<le> q \<and> storage (cells (ring ?s) ! (q mod N)) = storage (?C ! (q mod N))"
      using st q(2,3) by simp
  qed simp_all
  have cv: "cells_inv N ?s"
    unfolding cells_inv_def Let_def
  proof (intro conjI allI impI)
    fix q assume "length (claimed ?s) \<le> q" "q < length (received ?s) + N"
    then show "sequence (cells (ring ?s) ! (q mod N)) = of_nat q"
      using cells_free [OF inv, of q] unfolding sq by simp
  next
    fix q assume q: "length (received ?s) \<le> q" "q < length (claimed ?s)"
    then show "if busy ?s q then sequence (cells (ring ?s) ! (q mod N)) = of_nat q
      else sequence (cells (ring ?s) ! (q mod N)) = of_nat (q + 1) \<and>
        (storage (cells (ring ?s) ! (q mod N)) = Some (claimed ?s ! q) \<or>
         q = length (received ?s) \<and> consumer ?s = C_free (claimed ?s ! q) (of_nat q))"
      using cells_taken [OF inv, of q] st [of q] v p(1) c unfolding sq bz by (cases "q = ?F") auto
  qed
  have sv: "consumer_inv ?s" using p v by (simp add: consumer_inv_def Let_def)
  have dv: "j = j'" if "inflight (producer ?s j) = Some (w, x)" "inflight (producer ?s j') = Some (w', x)" for j j' w w' x
    using that d(12) by simp
  have rv: "length (cells (ring ?s)) = N" "rb_head (ring ?s) = of_nat ?H" "rb_tail (ring ?s) = of_nat (?F + 1)"
    using d(2,6,7) c unfolding ring by simp_all
  show "smp_inv N ?s" by (rule smp_invI [OF cv pv sv dv]) (use rv d(1,3,4,5,8) in simp_all)
qed

lemma smp_inv_free:
  assumes inv: "smp_inv N s" and c: "consumer s = C_free v pos"
  shows "smp_inv N (s\<lparr>ring := set_cell pos ((cell_at (ring s) pos)\<lparr>sequence := pos + of_nat (length (cells (ring s)))\<rparr>) (ring s),
         consumer := C_idle, received := received s @ [v]\<rparr>)" (is "smp_inv N ?s")
proof -
  note d = smp_invD [OF inv] and b = smp_inv_bounds [OF inv]
  let ?C = "cells (ring s)" and ?F = "length (received s)" and ?H = "length (claimed s)"
  have p: "pos = of_nat ?F" "?F < ?H" "\<not> busy s ?F" "v = claimed s ! ?F"
    using d(11) c by (simp_all add: consumer_inv_def Let_def)
  have F: "?F < 2 ^ 63" "?F mod N < length ?C" using b(3,1) d(2) by simp_all
  have ring: "ring ?s = (ring s)\<lparr>cells := ?C[?F mod N := (?C ! (?F mod N))\<lparr>sequence := of_nat (?F + N)\<rparr>]\<rparr>"
    using cell_at_pos [OF inv F(1)] p(1) d(2) by simp
  have bz: "busy ?s = busy s" by simp
  have st: "storage (cells (ring ?s) ! i) = storage (?C ! i)" for i
    using F(2) unfolding ring by (cases "i = ?F mod N") simp_all
  have sq: "sequence (cells (ring ?s) ! (q mod N)) = (if q = ?F + N then of_nat q else sequence (?C ! (q mod N)))"
    if "?F < q" "q \<le> ?F + N" for q
    using other_index [of ?F q N ?F] that F(2) b(1) unfolding ring by (cases "q = ?F + N") simp_all
  have pv: "producer_inv N ?s j" for j
  proof (rule producer_inv_frame [OF d(10)])
    fix u q assume q: "inflight (producer s j) = Some (u, of_nat q)" "?F \<le> q" "q < ?H"
    then have "busy s q" by (auto simp: busy_def)
    then have "q \<noteq> ?F" using p(3) by metis
    then show "length (received ?s) \<le> q \<and> storage (cells (ring ?s) ! (q mod N)) = storage (?C ! (q mod N))"
      using st q(2) by simp
  qed simp_all
  have cv: "cells_inv N ?s"
    unfolding cells_inv_def Let_def
  proof (intro conjI allI impI)
    fix q assume "length (claimed ?s) \<le> q" "q < length (received ?s) + N"
    then show "sequence (cells (ring ?s) ! (q mod N)) = of_nat q"
      using cells_free [OF inv, of q] sq [of q] p(2) by auto
  next
    fix q assume "length (received ?s) \<le> q" "q < length (claimed ?s)"
    then have q: "?F < q" "q < ?H" "q < ?F + N" using d(5) by simp_all
    then show "if busy ?s q then sequence (cells (ring ?s) ! (q mod N)) = of_nat q
      else sequence (cells (ring ?s) ! (q mod N)) = of_nat (q + 1) \<and>
        (storage (cells (ring ?s) ! (q mod N)) = Some (claimed ?s ! q) \<or>
         q = length (received ?s) \<and> consumer ?s = C_free (claimed ?s ! q) (of_nat q))"
      using cells_taken [OF inv, of q] sq [of q] unfolding st bz by auto
  qed
  have sv: "consumer_inv ?s" by (simp add: consumer_inv_def)
  have dv: "j = j'" if "inflight (producer ?s j) = Some (w, x)" "inflight (producer ?s j') = Some (w', x)" for j j' w w' x
    using that d(12) by simp
  have rv: "length (cells (ring ?s)) = N" "rb_head (ring ?s) = of_nat ?H" "rb_tail (ring ?s) = of_nat (?F + 1)"
    using d(2,6,7) c unfolding ring by simp_all
  have "prefix (received ?s) (claimed ?s)" using append_one_prefix [OF d(8) p(2)] p(4) by simp
  then show ?thesis by (intro smp_invI [OF cv pv sv dv]) (use rv d(1,3,5) p(2) in simp_all)
qed

section \<open>Reachable states\<close>

lemma push_step_claimed: "push_step k s r s' \<Longrightarrow> length (claimed s) \<le> length (claimed s')"
  by (erule push_step.cases) simp_all

lemma pop_step_claimed: "pop_step s r s' \<Longrightarrow> claimed s' = claimed s"
  by (erule pop_step.cases) simp_all

lemma smp_inv_push:
  assumes inv: "smp_inv N s" and st: "push_step k s r s'" and bound: "length (claimed s') \<le> 2 ^ 62"
  shows "smp_inv N s'"
  using st
proof cases
  case (push_load v)
  then show ?thesis using smp_invD(6) [OF inv] smp_inv_quiet [OF inv, of k "P_check v (rb_head (ring s))"]
    by (auto simp: producer_inv_def)
next
  case (push_free v pos)
  obtain p where p: "p \<le> length (claimed s)" "pos = of_nat p"
    using smp_invD(10) [OF inv, of k] push_free(3) by (auto simp: producer_inv_def Let_def)
  obtain q where q: "sequence (cell_at (ring s) (of_nat p)) = of_nat q" "q < 2 ^ 63"
    "q = p \<longrightarrow> p = length (claimed s) \<longrightarrow> length (claimed s) < length (received s) + N"
    "q < p \<longrightarrow> length (claimed s) = length (received s) + N"
    by (rule check_sequence [OF inv p(1)])
  have "p < 2 ^ 63" using p(1) smp_inv_bounds(4) [OF inv] by simp
  then have "q = p" using push_free(4) p(2) q(1,2) seq_diff_zero by simp
  then have "\<exists>p \<le> length (claimed s). pos = of_nat p \<and>
      (p = length (claimed s) \<longrightarrow> length (claimed s) < length (received s) + N)" using p q(3) by blast
  then have "producer_inv N (set_pc k (P_cas v pos) s) k" by (simp add: producer_inv_def Let_def)
  then show ?thesis using push_free smp_inv_quiet [OF inv] by simp
next
  case (push_full v pos d)
  then show ?thesis using smp_inv_quiet [OF inv, of k P_idle] by (simp add: producer_inv_def)
next
  case (push_ahead v pos d)
  then show ?thesis using smp_inv_quiet [OF inv, of k "P_reload v"] by (simp add: producer_inv_def)
next
  case (push_reload v)
  then show ?thesis using smp_invD(6) [OF inv] smp_inv_quiet [OF inv, of k "P_check v (rb_head (ring s))"]
    by (auto simp: producer_inv_def)
next
  case (push_claim v pos)
  then show ?thesis using smp_inv_claim [OF inv] bound by simp
next
  case (push_cas_fail v pos)
  then show ?thesis using smp_invD(6) [OF inv] smp_inv_quiet [OF inv, of k "P_check v (rb_head (ring s))"]
    by (auto simp: producer_inv_def)
next
  case (push_write v pos)
  then show ?thesis using smp_inv_write [OF inv] by simp
next
  case (push_publish v pos)
  then show ?thesis using smp_inv_publish [OF inv] by simp
qed

lemma smp_inv_pop:
  assumes inv: "smp_inv N s" and st: "pop_step s r s'"
  shows "smp_inv N s'"
  using st
proof cases
  case (pop_nothing d)
  then show ?thesis using inv by simp
next
  case pop_found
  note f = pop_found_published [OF inv pop_found(3,4)]
  let ?c = "C_take (rb_tail (ring s))"
  have same: "ring s = (ring s)\<lparr>rb_tail := of_nat (length (received s) + tail_ahead ?c)\<rparr>"
    using f(3) by simp
  have "consumer_inv (s\<lparr>ring := ring s, consumer := ?c\<rparr>)" using f by (simp add: consumer_inv_def)
  then have "smp_inv N (s\<lparr>ring := ring s, consumer := ?c\<rparr>)"
    using pop_found(3) by (intro smp_inv_consumer [OF inv refl _ same]) simp_all
  then show ?thesis using pop_found(2) by simp
next
  case (pop_take pos)
  let ?r = "(ring s)\<lparr>rb_tail := of_nat (length (received s) + 1)\<rparr>"
  have ci: "pos = of_nat (length (received s))" "consumer_inv (s\<lparr>ring := ?r, consumer := C_read pos\<rparr>)"
    using smp_invD(11) [OF inv] pop_take(3) by (simp_all add: consumer_inv_def Let_def)
  have "smp_inv N (s\<lparr>ring := ?r, consumer := C_read pos\<rparr>)"
    using pop_take(3) by (intro smp_inv_consumer [OF inv refl _ _ ci(2)]) simp_all
  then show ?thesis using pop_take(2) ci(1) by (simp add: add.commute)
next
  case (pop_read pos v)
  then show ?thesis using smp_inv_read(2) [OF inv pop_read(3,4)] by simp
next
  case (pop_free v pos)
  then show ?thesis using smp_inv_free [OF inv pop_free(3)] by simp
qed

lemma smp_reachable_inv:
  assumes "smp_reachable N s" "ring_capacity N" "length (claimed s) \<le> 2 ^ 62"
  shows "smp_inv N s"
  using assms
proof (induction rule: smp_reachable.induct)
  case smp_start
  then show ?case by (simp add: smp_inv_init)
next
  case (smp_push s k r s')
  then show ?case using push_step_claimed [OF smp_push(2)] smp_inv_push by fastforce
next
  case (smp_pop s r s')
  then show ?case using pop_step_claimed [OF smp_pop(2)] smp_inv_pop by fastforce
qed

section \<open>Properties\<close>

text \<open>A producer that runs alone until its call returns.\<close>

inductive push_alone :: "nat \<Rightarrow> 'a smp \<Rightarrow> bool \<Rightarrow> 'a smp \<Rightarrow> bool" for k :: nat where
  alone_end: "push_step k s (Some r) s' \<Longrightarrow> push_alone k s r s'"
| alone_step: "push_step k s None s' \<Longrightarrow> push_alone k s' r s'' \<Longrightarrow> push_alone k s r s''"

lemma push_alone_reachable: "push_alone k s r s' \<Longrightarrow> smp_reachable N s \<Longrightarrow> smp_reachable N s'"
  by (induction rule: push_alone.induct) (auto intro: smp_push)

lemma head_cell:
  assumes inv: "smp_inv N s"
  defines "H \<equiv> length (claimed s)" and "F \<equiv> length (received s)"
  obtains q where "seq_diff (sequence (cell_at (ring s) (rb_head (ring s)))) (rb_head (ring s)) = Some (int q - int H)"
    "q = H \<longleftrightarrow> H < F + N" "q < H \<longleftrightarrow> H = F + N"
proof -
  note b = smp_inv_bounds [OF inv] and d = smp_invD [OF inv]
  have HH: "H \<le> length (claimed s)" by (simp add: H_def)
  obtain q where q: "sequence (cell_at (ring s) (of_nat H)) = of_nat q" "q < 2 ^ 63"
    "q = H \<longrightarrow> H = length (claimed s) \<longrightarrow> length (claimed s) < length (received s) + N"
    "q < H \<longrightarrow> length (claimed s) = length (received s) + N"
    by (rule check_sequence [OF inv HH])
  have free: "q = H" if "H < F + N"
  proof -
    have "(of_nat q :: u64) = of_nat H"
      using cells_free [OF inv, of H] that q(1) cell_at_pos(1) [OF inv, of H] b(4) by (simp add: H_def F_def)
    then show ?thesis using of_nat_u64_eq [of q H] q(2) b(4) by (simp add: H_def)
  qed
  have full: "q < H" if "H = F + N"
  proof -
    obtain w where w: "sequence (cells (ring s) ! (F mod N)) = of_nat w" "w = F \<or> F < length (claimed s) \<and> w = F + 1"
      using window_sequence [OF inv, of F] b(1) by (auto simp: F_def)
    have "cell_at (ring s) (of_nat H) = cells (ring s) ! (F mod N)"
      using cell_at_pos(1) [OF inv, of H] b(4) that by (simp add: H_def)
    then have "(of_nat q :: u64) = of_nat w" using q(1) w(1) by simp
    then have "q = w" using of_nat_u64_eq [of q w] q(2) w(2) b(3) by (auto simp: F_def)
    then show ?thesis using w(2) that b(1) by linarith
  qed
  have sd: "seq_diff (of_nat q) (of_nat H) = Some (int q - int H)"
    using seq_diff_small [OF q(2), of H] b(4) by (simp add: H_def)
  have hd: "rb_head (ring s) = of_nat H" using d(6) by (simp add: H_def)
  show ?thesis
  proof (rule that [of q])
    show "seq_diff (sequence (cell_at (ring s) (rb_head (ring s)))) (rb_head (ring s)) = Some (int q - int H)"
      unfolding hd q(1) by (rule sd)
    show "q = H \<longleftrightarrow> H < F + N" using q(3) free unfolding H_def F_def by blast
    show "q < H \<longleftrightarrow> H = F + N" using q(4) full unfolding H_def F_def by blast
  qed
qed

lemma push_alone_full:
  assumes inv: "smp_inv N s" and idle: "producer s k = P_idle"
    and full: "length (claimed s) = length (received s) + N"
  shows "\<exists>s'. push_alone k s False s' \<and> claimed s' = claimed s \<and> received s' = received s \<and>
    producer s' = producer s \<and> ring s' = ring s \<and> consumer s' = consumer s"
proof -
  let ?h = "rb_head (ring s)" and ?s1 = "\<lambda>v. set_pc k (P_check v (rb_head (ring s))) s"
  obtain q where q: "seq_diff (sequence (cell_at (ring s) ?h)) ?h = Some (int q - int (length (claimed s)))"
    "q < length (claimed s) \<longleftrightarrow> length (claimed s) = length (received s) + N" using head_cell [OF inv] by metis
  have "push_step k s None (?s1 v)" for v using idle by (rule push_step.push_load)
  moreover have "push_step k (?s1 v) (Some False) (set_pc k P_idle (?s1 v))" for v
  proof (rule push_step.push_full)
    show "producer (?s1 v) k = P_check v ?h" by simp
    show "seq_diff (sequence (cell_at (ring (?s1 v)) ?h)) ?h = Some (int q - int (length (claimed s)))"
      using q(1) by simp
    show "int q - int (length (claimed s)) < 0" using q(2) full by linarith
  qed
  ultimately have "push_alone k s False (set_pc k P_idle (?s1 v))" for v by (meson alone_end alone_step)
  moreover have "producer (set_pc k P_idle (?s1 v)) = producer s" for v using idle by auto
  ultimately show ?thesis by (metis set_pc_sel(1-4))
qed

lemma push_alone_room:
  assumes inv: "smp_inv N s" and idle: "producer s k = P_idle"
    and room: "length (claimed s) < length (received s) + N"
  shows "\<exists>s'. push_alone k s True s' \<and> claimed s' = claimed s @ [v] \<and> received s' = received s \<and>
    producer s' = producer s \<and> consumer s' = consumer s"
proof -
  let ?h = "rb_head (ring s)"
  let ?s1 = "set_pc k (P_check v ?h) s"
  let ?s2 = "set_pc k (P_cas v ?h) ?s1"
  let ?s3 = "(set_pc k (P_write v ?h) ?s2)\<lparr>ring := (ring ?s2)\<lparr>rb_head := ?h + 1\<rparr>, claimed := claimed ?s2 @ [v]\<rparr>"
  let ?s4 = "(set_pc k (P_publish v ?h) ?s3)
    \<lparr>ring := set_cell ?h ((cell_at (ring ?s3) ?h)\<lparr>storage := Some v\<rparr>) (ring ?s3)\<rparr>"
  let ?s5 = "(set_pc k P_idle ?s4)\<lparr>ring := set_cell ?h ((cell_at (ring ?s4) ?h)\<lparr>sequence := ?h + 1\<rparr>) (ring ?s4)\<rparr>"
  obtain q where q: "seq_diff (sequence (cell_at (ring s) ?h)) ?h = Some (int q - int (length (claimed s)))"
    "q = length (claimed s) \<longleftrightarrow> length (claimed s) < length (received s) + N" using head_cell [OF inv] by metis
  have "push_step k s None ?s1" using idle by (rule push_step.push_load)
  moreover have "push_step k ?s1 None ?s2" using q room by (intro push_step.push_free [of _ k v ?h]) simp_all
  moreover have "push_step k ?s2 None ?s3" by (intro push_step.push_claim) simp_all
  moreover have "push_step k ?s3 None ?s4" by (intro push_step.push_write) simp
  moreover have "push_step k ?s4 (Some True) ?s5" by (intro push_step.push_publish) simp
  ultimately have "push_alone k s True ?s5" by (meson alone_end alone_step)
  moreover have "producer ?s5 = producer s" using idle by auto
  moreover have "claimed ?s5 = claimed s @ [v]" "received ?s5 = received s" "consumer ?s5 = consumer s" by simp_all
  ultimately show ?thesis by blast
qed

lemma seq_diff_defined:
  assumes inv: "smp_inv N s" and pc: "producer s k = P_check v pos"
  shows "seq_diff (sequence (cell_at (ring s) pos)) pos \<noteq> None"
proof -
  obtain p where p: "p \<le> length (claimed s)" "pos = of_nat p"
    using smp_invD(10) [OF inv, of k] pc by (auto simp: producer_inv_def Let_def)
  obtain q where q: "sequence (cell_at (ring s) (of_nat p)) = of_nat q" "q < 2 ^ 63"
    "q = p \<longrightarrow> p = length (claimed s) \<longrightarrow> length (claimed s) < length (received s) + N"
    "q < p \<longrightarrow> length (claimed s) = length (received s) + N"
    by (rule check_sequence [OF inv p(1)])
  have "p < 2 ^ 63" using p(1) smp_inv_bounds(4) [OF inv] by simp
  then show ?thesis using seq_diff_small [OF q(2)] p(2) q(1) by simp
qed

lemma pop_diff_defined:
  assumes inv: "smp_inv N s" and c: "consumer s = C_idle"
  shows "seq_diff (sequence (cell_at (ring s) (rb_tail (ring s)))) (rb_tail (ring s) + 1) \<noteq> None"
proof -
  note b = smp_inv_bounds [OF inv]
  let ?F = "length (received s)"
  have F: "?F < 2 ^ 63" "?F + 1 < 2 ^ 63" "?F < ?F + N" using b by simp_all
  have t: "rb_tail (ring s) = of_nat ?F" "rb_tail (ring s) + 1 = of_nat (?F + 1)"
    using smp_invD(7) [OF inv] c by (simp_all add: add.commute)
  have cell: "cell_at (ring s) (of_nat ?F) = cells (ring s) ! (?F mod N)" by (rule cell_at_pos(1) [OF inv F(1)])
  obtain q where q: "sequence (cells (ring s) ! (?F mod N)) = of_nat q"
    "q = ?F \<or> ?F < length (claimed s) \<and> q = ?F + 1" by (rule window_sequence [OF inv order_refl F(3)])
  have "q < 2 ^ 63" using q(2) F by auto
  then show ?thesis unfolding t(2) using seq_diff_small [of q "?F + 1"] F(2) q(1) cell t(1) by simp
qed

lemma inflight_cells_differ:
  assumes inv: "smp_inv N s" and f: "inflight (producer s k) = Some (v, pos)" "inflight (producer s j) = Some (u, x)"
    and ne: "k \<noteq> j"
  shows "cell_index N pos \<noteq> cell_index N x"
proof -
  obtain p where p: "pos = of_nat p" "length (received s) \<le> p" "p < length (claimed s)" "claimed s ! p = v"
    "busy s p" "p < 2 ^ 63" by (rule inflight_position [OF inv f(1)])
  obtain q where q: "x = of_nat q" "length (received s) \<le> q" "q < length (claimed s)" "claimed s ! q = u"
    "busy s q" "q < 2 ^ 63" by (rule inflight_position [OF inv f(2)])
  have "p \<noteq> q" using smp_invD(12) [OF inv f(1), of j u] f(2) p(1) q(1) ne by auto
  then have "p mod N \<noteq> q mod N"
    using other_index [of "length (received s)" p N q] p(2,3) q(2,3) smp_invD(5) [OF inv] by simp
  then show ?thesis using cell_index_mod [OF smp_invD(1) [OF inv]] p(1,6) q(1,6) by simp
qed

text \<open>
  C6: whatever the interleaving of any number of producers and the consumer, the values \<^verbatim>\<open>pop\<close> has
  returned are, in order, the first of those claimed by \<^verbatim>\<open>push\<close>: nothing is lost, duplicated or
  reordered, and at most \<open>N\<close> claimed values are outstanding.  No signed difference overflows, neither in \<^verbatim>\<open>push\<close>
  nor in \<^verbatim>\<open>pop\<close>, the consumer never reads a cell without an object, and two producers never write the same cell.  The
  capacity is a power of two from 2 on, and at most \<open>2 ^ 62\<close> pushes have been made.
\<close>

theorem mpsc_fifo_no_loss:
  assumes "smp_reachable N s" "ring_capacity N" "length (claimed s) \<le> 2 ^ 62"
  shows "prefix (received s) (claimed s) \<and> length (claimed s) \<le> length (received s) + N \<and>
    (\<forall>k v pos. producer s k = P_check v pos \<longrightarrow> seq_diff (sequence (cell_at (ring s) pos)) pos \<noteq> None) \<and>
    (consumer s = C_idle \<longrightarrow>
       seq_diff (sequence (cell_at (ring s) (rb_tail (ring s)))) (rb_tail (ring s) + 1) \<noteq> None) \<and>
    (\<forall>pos. consumer s = C_read pos \<longrightarrow> storage (cell_at (ring s) pos) \<noteq> None) \<and>
    (\<forall>k j v pos u x. inflight (producer s k) = Some (v, pos) \<longrightarrow> inflight (producer s j) = Some (u, x) \<longrightarrow>
       k \<noteq> j \<longrightarrow> cell_index N pos \<noteq> cell_index N x)"
proof -
  note inv = smp_reachable_inv [OF assms]
  have "storage (cell_at (ring s) pos) \<noteq> None" if "consumer s = C_read pos" for pos
    using smp_inv_read(1) [OF inv that] by simp
  then show ?thesis
    using smp_invD(5,8) [OF inv] seq_diff_defined [OF inv] pop_diff_defined [OF inv] inflight_cells_differ [OF inv] by blast
qed

text \<open>
  C25: a push is refused only when the buffer is full at that moment: \<open>N\<close> claimed values have not been
  freed by the consumer.  A pop reports emptiness only when every claimed value has been returned, or
  when the producer of the oldest outstanding value has claimed its cell and not yet published it.
\<close>

theorem mpsc_refusals_justified:
  assumes "smp_reachable N s" "ring_capacity N" "length (claimed s) \<le> 2 ^ 62"
  shows "(push_step k s (Some False) s' \<longrightarrow> length (claimed s) = length (received s) + N) \<and>
    (pop_step s (Some None) s' \<longrightarrow>
       claimed s = received s \<or> (\<exists>j v. inflight (producer s j) = Some (v, of_nat (length (received s)))))"
proof -
  note inv = smp_reachable_inv [OF assms] and b = smp_inv_bounds [OF smp_reachable_inv [OF assms]]
  have "length (claimed s) = length (received s) + N" if "push_step k s (Some False) s'"
    using that
  proof cases
    case (push_full v pos d)
    obtain p where p: "p \<le> length (claimed s)" "pos = of_nat p"
      using smp_invD(10) [OF inv, of k] push_full(2) by (auto simp: producer_inv_def Let_def)
    obtain q where q: "sequence (cell_at (ring s) (of_nat p)) = of_nat q" "q < 2 ^ 63"
      "q = p \<longrightarrow> p = length (claimed s) \<longrightarrow> length (claimed s) < length (received s) + N"
      "q < p \<longrightarrow> length (claimed s) = length (received s) + N"
      by (rule check_sequence [OF inv p(1)])
    have "p < 2 ^ 63" using p(1) b(4) by simp
    then have "q < p" using seq_diff_small [OF q(2)] push_full(3,4) p(2) q(1) by simp
    then show ?thesis using q(4) by blast
  qed simp
  moreover have "claimed s = received s \<or> busy s (length (received s))" if "pop_step s (Some None) s'"
    using that
  proof cases
    case (pop_nothing d)
    let ?F = "length (received s)"
    have F: "?F < 2 ^ 63" "?F + 1 < 2 ^ 63" using b(1,3) by simp_all
    have t: "rb_tail (ring s) = of_nat ?F" "rb_tail (ring s) + 1 = of_nat (?F + 1)"
      using smp_invD(7) [OF inv] pop_nothing(2) by (simp_all add: add.commute)
    have cell: "cell_at (ring s) (of_nat ?F) = cells (ring s) ! (?F mod N)" by (rule cell_at_pos(1) [OF inv F(1)])
    show ?thesis
    proof (cases "?F < length (claimed s)")
      case True
      have "busy s ?F"
      proof (rule ccontr)
        assume "\<not> busy s ?F"
        then have "sequence (cell_at (ring s) (of_nat ?F)) = of_nat (?F + 1)"
          using cells_taken(2) [OF inv order_refl True] cell by metis
        then have "seq_diff (of_nat (?F + 1)) (of_nat (?F + 1)) = Some d" using pop_nothing(3) unfolding t(1) by (simp add: add.commute)
        then show False using seq_diff_small [OF F(2) F(2)] pop_nothing(4) by simp
      qed
      then show ?thesis ..
    next
      case False
      then have "claimed s = received s"
        using smp_invD(8) [OF inv] by (metis not_less_iff_gr_or_eq prefix_length_less strict_prefixI)
      then show ?thesis ..
    qed
  qed
  ultimately show ?thesis unfolding busy_def by blast
qed

text \<open>
  Every run of \<^verbatim>\<open>push(v)\<close> by producer \<open>k\<close> that nobody interferes with, from the load of the head on: \<open>i\<close> steps after the load,
  \<open>j\<close> of which were failures of the weak compare-exchange.
\<close>

definition cas_failed :: "nat \<Rightarrow> 'a smp \<Rightarrow> 'a smp \<Rightarrow> bool" where
  "cas_failed k s s' \<longleftrightarrow> (\<exists>v pos. producer s k = P_cas v pos) \<and> (\<exists>v pos. producer s' k = P_check v pos)"

inductive push_solo :: "nat \<Rightarrow> 'a \<Rightarrow> 'a smp \<Rightarrow> nat \<Rightarrow> nat \<Rightarrow> 'a smp \<Rightarrow> bool" for k :: nat and v :: 'a and s :: "'a smp" where
  solo_load: "producer s k = P_idle \<Longrightarrow> push_solo k v s 0 0 (set_pc k (P_check v (rb_head (ring s))) s)"
| solo_step: "push_solo k v s i j s1 \<Longrightarrow> push_step k s1 None s2 \<Longrightarrow>
    push_solo k v s (Suc i) (if cas_failed k s1 s2 then Suc j else j) s2"

text \<open>The states that such a run goes through.\<close>

lemma set_pc_twice [simp]: "set_pc k a (set_pc k b s) = set_pc k a s"
  by (simp add: set_pc_def)







section \<open>A full buffer\<close>

lemma push_alone_last:
  assumes "push_alone k s r s'" "smp_reachable N s"
  obtains s1 where "smp_reachable N s1" "push_step k s1 (Some r) s'"
proof -
  have "push_alone k s r s' \<Longrightarrow> smp_reachable N s \<Longrightarrow> \<exists>s1. smp_reachable N s1 \<and> push_step k s1 (Some r) s'"
    by (induction rule: push_alone.induct) (auto intro: smp_push)
  then show ?thesis using that assms by blast
qed

lemma two_pushed:
  obtains s :: "nat smp" where "smp_reachable 2 s" "claimed s = [7, 8]" "received s = []"
    "producer s = (\<lambda>_. P_idle)" "consumer s = C_idle"
proof -
  have cap: "ring_capacity 2" unfolding ring_capacity_def by (intro exI [of _ 1]) simp
  have r0: "smp_reachable 2 (smp_init 2 :: nat smp)" by (rule smp_start)
  have i0: "smp_inv 2 (smp_init 2 :: nat smp)" by (rule smp_inv_init [OF cap])
  obtain s1 :: "nat smp" where s1: "push_alone 0 (smp_init 2) True s1" "claimed s1 = [7]" "received s1 = []"
    "producer s1 = (\<lambda>_. P_idle)" "consumer s1 = C_idle"
    using push_alone_room [OF i0, of 0 7] by (auto simp: smp_init_def)
  have r1: "smp_reachable 2 s1" by (rule push_alone_reachable [OF s1(1) r0])
  have i1: "smp_inv 2 s1" using smp_reachable_inv [OF r1 cap] s1(2) by simp
  obtain s2 where s2: "push_alone 1 s1 True s2" "claimed s2 = [7, 8]" "received s2 = []"
    "producer s2 = (\<lambda>_. P_idle)" "consumer s2 = C_idle"
    using push_alone_room [OF i1, of 1 8] s1 by auto
  then show ?thesis using that [of s2] push_alone_reachable [OF s2(1) r1] by blast
qed

lemma capacity_two: "ring_capacity 2"
  unfolding ring_capacity_def by (intro exI [of _ 1]) simp

theorem mpsc_fifo_no_loss_witness:
  "\<exists>s :: nat smp. smp_reachable 2 s \<and> claimed s = [7, 8] \<and> prefix (received s) [7, 8] \<and>
     length (claimed s) \<le> length (received s) + 2"
proof -
  obtain s :: "nat smp" where s: "smp_reachable 2 s" "claimed s = [7, 8]" "received s = []"
    "producer s = (\<lambda>_. P_idle)" "consumer s = C_idle" by (rule two_pushed)
  have "length (claimed s) \<le> 2 ^ 62" using s(2) by simp
  from mpsc_fifo_no_loss [OF s(1) capacity_two this] s(1,2) show ?thesis by metis
qed


theorem mpsc_refusals_justified_witness:
  "\<exists>(s :: nat smp) s'. push_step 3 s (Some False) s' \<and> length (claimed s) = length (received s) + 2"
proof -
  obtain s :: "nat smp" where s: "smp_reachable 2 s" "claimed s = [7, 8]" "received s = []"
    "producer s = (\<lambda>_. P_idle)" "consumer s = C_idle" by (rule two_pushed)
  have "smp_inv 2 s" using smp_reachable_inv [OF s(1) capacity_two] s(2) by simp
  then obtain s' where s': "push_alone 3 s False s'" "claimed s' = [7, 8]"
    using push_alone_full [of 2 s 3] s by auto
  obtain s1 where s1: "smp_reachable 2 s1" "push_step 3 s1 (Some False) s'"
    by (rule push_alone_last [OF s'(1) s(1)])
  have "length (claimed s1) \<le> 2 ^ 62" using push_step_claimed [OF s1(2)] s'(2) by simp
  from mpsc_refusals_justified [OF s1(1) capacity_two this, of 3 s'] s1(2) show ?thesis by blast
qed

end
