(* ===== verification/Spec2Isabelle.thy ===== *)
theory Spec2Isabelle
  imports Thread_Life Kernel_Api Function_Object Group_Lock Wait_Pool Port_Cores Port_Config Port_Diagnostics Time_Periodic Time_Tickless Time_Simulation Ring_Buffer_SMP
begin

text \<open>
  A verification library for CoRTOS, a small real-time kernel for several cores.

  \<^bold>\<open>The program.\<close>  CoRTOS runs threads of fixed priority, each pinned to one core.  An application hands
  over a stack buffer per thread; the kernel carves the thread control block out of it, chooses a core that
  the affinity mask allows and keeps the thread in the ready matrix of that core's scheduler.  A running
  thread yields, waits for any of up to eight waitable objects, or signals one.  A signal for a thread of
  another core is a request in that core's inbox, a bounded ring buffer with several producers, followed by
  a poke of the core.  The kernel calls a port (contexts, critical sections, cores, clock); the only complete
  port simulates the cores with OS threads and the contexts with fibers.  A time driver, one of three, runs
  callbacks at absolute times on top of the clock of the port.

  \<^bold>\<open>Reading the model.\<close>  An operation is a function on an explicit state.  Its result is an option:
  \<^const>\<open>None\<close> stands for a failed \<^verbatim>\<open>CORTOS_ASSERT\<close>, which ends the program, for undefined behaviour, and
  for a spin lock that is never released.  That an operation is \<^const>\<open>Some\<close> is therefore part of what is
  proved.  Machine integers have the width of the source and wrap where it wraps.  Pointers are addresses
  into stores of thread control blocks, wait nodes and waitables, so the intrusive lists are linked through
  the objects as in the code.  No definition uses fuel.  A loop is a structural recursion or has a termination
  proof; a loop that follows pointers, drains or fills a queue or waits for an event is a
  \<^verbatim>\<open>partial_function (option)\<close>, whose value is \<^const>\<open>None\<close> when it does not end, and the theorems about it state that
  it returns; the loops of spinning and idling cores are steps of transition systems.

  \<^bold>\<open>Theories and sources\<close> (files under \<^verbatim>\<open>src/src\<close>).

  \<^item> \<open>Cortos_Prelude\<close>: the reading of assertions, bit masks and bit scans, shared lemmas.
  \<^item> \<open>Memory_Layout\<close>: \<^verbatim>\<open>config.hpp\<close>, \<^verbatim>\<open>validate_config.cpp\<close>, \<^verbatim>\<open>align.hpp\<close>, the affinity masks of \<^verbatim>\<open>thread.hpp\<close>
    and \<^verbatim>\<open>StackLayout\<close>.  A carved buffer gives disjoint, aligned regions inside it.
  \<^item> \<open>Wait_Subsystem\<close>, \<open>Wait_Pool\<close>: \<^verbatim>\<open>wait_subsystem.hpp\<close>.  The pool of a thread refines an array of eight
    slots; a wait group is won once.
  \<^item> \<open>Intrusive_List\<close>, \<open>Ready_Interface\<close>, \<open>Threading\<close>: \<^verbatim>\<open>threading_subsystem.hpp/.cpp\<close>.  Queues refine lists;
    the ready matrix pops in the stable order of priority.
  \<^item> \<open>Waitables\<close>: \<^verbatim>\<open>waitable.hpp/.cpp\<close> and the blocking half of \<^verbatim>\<open>ThreadControlBlock\<close>, with the invariant
    \<open>wait_inv\<close> between threads, nodes and waiter queues.
  \<^item> \<open>Channel_Interface\<close>, \<open>Ring_Buffer\<close>, \<open>Ring_Buffer_SMP\<close>: \<^verbatim>\<open>mpsc_ring_buffer.hpp\<close>, run by one core, and
    interleaved one shared access at a time with any number of producers.
  \<^item> \<open>Scheduler\<close>: \<^verbatim>\<open>scheduler.hpp/.cpp\<close>.  A reschedule drains the inbox and selects the best thread.
  \<^item> \<open>Port_Linux\<close>, \<open>Port_Cores\<close>, \<open>Port_Config\<close>, \<open>Port_Diagnostics\<close>, \<open>Time_Port\<close>: \<^verbatim>\<open>port.h\<close>,
    \<^verbatim>\<open>port_linux_boost.cpp\<close>, \<^verbatim>\<open>port_traits.h\<close>.  Critical sections nest, no poke is lost to an idling core, and
    once only idle threads are left all cores stop and the start returns.
  \<^item> \<open>Kernel_State\<close>, \<open>Kernel\<close>, \<open>Kernel_Api\<close>: \<^verbatim>\<open>kernel.cpp\<close>, \<^verbatim>\<open>kernel.hpp\<close>, \<^verbatim>\<open>thread.hpp\<close>, \<^verbatim>\<open>spin_lock.hpp\<close>,
    \<^verbatim>\<open>waitable_utilities.hpp\<close>: the operations.
  \<^item> \<open>Kernel_Inv\<close>, \<open>Kernel_Signal\<close>, \<open>Kernel_Boot\<close>, \<open>Thread_Accounting\<close>, \<open>Kernel_System\<close>, \<open>Thread_Life\<close>: the
    invariant \<^const>\<open>kernel_inv\<close> of the running kernel, that switching, waiting and signalling keep it, that
    the boot establishes it, that no thread and no request to another core gets lost, and what follows for
    every sequence of calls; joins and the end of a thread.
  \<^item> \<open>Group_Lock\<close>: the reference vector and the group lock of \<^verbatim>\<open>waitable_utilities.hpp\<close> with several cores at
    work: mutual exclusion and freedom from deadlock.
  \<^item> \<open>Function_Object\<close>: \<^verbatim>\<open>function.hpp\<close>.  A type-erased callable is a move-only optional callable, without
    leaks, as long as the alignment of what it holds is an ordinary one and a move keeps the value.
  \<^item> \<open>Timer_Interface\<close>, \<open>Time_Slots\<close>, \<open>Time_Periodic\<close>, \<open>Time_Tickless\<close>, \<open>Time_Simulation\<close>: \<^verbatim>\<open>time.hpp\<close> and
    the three time drivers.  All three implement one contract, for callbacks that read the clock, schedule
    and cancel: at each interrupt the events that are due run, and the effects of a callback on the
    events that are still to run are those of the specification \<open>isr_run\<close>.  The tickless driver runs on a
    one-shot timer, which an interrupt uses up, and which may interrupt without cause.

  \<^bold>\<open>Interfaces.\<close>  Contracts are locales, interpreted on the model's own definitions: \<open>link_heap\<close> (thread and
  node queues), \<open>ready_structure\<close> (ready matrix), \<open>fifo_channel\<close> (inbox), \<open>timer_operations\<close>
  and its extension \<open>timer_driver\<close> (three drivers), \<open>slot_callbacks\<close> (the interrupt of the two drivers with slots),
  \<open>stepwise_refinement\<close> (wait pool, reference vector, callable) and \<open>ordered_acquisition\<close> (group lock).

  \<^bold>\<open>Properties that span the components.\<close>  From the boot of a valid system on, every sequence of yields,
  waits, signals and idle rounds of running threads keeps \<^const>\<open>kernel_inv\<close> and never fails
  (\<open>Kernel_System\<close>); exactly one thread runs per core; every thread of the application is in exactly one
  place, and a core with requests in its inbox has been poked; a wait that is signalled from another core returns the
  index of the signalled object with all nodes released.  Where the code does not do what it means to, a
  theorem shows a concrete run: the wake-up of a thread by another core between the release of the group
  lock and its switch (\<open>Kernel_System\<close>), an exit that is preempted for a joiner (\<open>Thread_Life\<close>), a
  one-cell ring buffer, a double insertion, a tickless driver that cannot be finalised and a simulated one
  that cannot be used after it, a real-time clock that is exact only up to a bound, an over-aligned callable.

  \<^bold>\<open>Bounds.\<close>  A ring buffer compares 64-bit positions as signed numbers; the theorems about it assume fewer
  than \<open>2 ^ 62\<close> operations, more than a core makes in a century at one per nanosecond.  A kernel call
  posts at most \<^const>\<open>INBOX_CAP\<close> requests to an inbox, so \<open>2 ^ 50\<close> calls stay below that bound.  A system of at
  most \<^const>\<open>INBOX_CAP\<close> threads, idle threads included, cannot overflow an inbox, since a thread is in at most
  one place; with more threads, the room in the inboxes is a hypothesis of the theorems about signalling.
  Thread ids and counters have 32 bits, hence fewer than \<open>2 ^ 32\<close> threads.  The theorems about the time
  drivers are about scripts that keep the clock below \<open>2 ^ 64\<close> ticks (below \<open>2 ^ 64 - 1\<close> for the tickless
  driver, where that value means that nothing is armed) and say nothing beyond the \<open>2 ^ 32 - 2\<close>th handle.

  \<^bold>\<open>Atomicity.\<close>  In the theories of the kernel a call is one step, and calls of different cores follow each
  other in any order.  Below that grain are \<open>Ring_Buffer_SMP\<close>, \<open>Group_Lock\<close>, \<open>Port_Cores\<close> and the idle protocol
  of \<open>Port_Linux\<close>, which interleave single accesses, and the theorem about a signal in the middle of a wait.
  Memory accesses are sequentially consistent everywhere.

  \<^bold>\<open>Parameters.\<close>  Entry functions, timer callbacks, stored callables and the idle task are code of the
  application and arguments of the definitions that use them; for the virtual hooks of a waitable the calls
  are recorded.  A thread that waits in a loop or joins another one leaves the core to the rest of the system, and what this
  does until the thread runs again is an argument of \<^const>\<open>wait_until\<close> and \<^const>\<open>join\<close>.  The arrival of spurious timer
  interrupts and the sleep of the real-time thread of the simulation are arguments as well.  Sizes and alignments that the compiler chooses are the record \<open>abi\<close>; the reading of the
  steady clock is an argument.

  \<^bold>\<open>Not modelled.\<close>  Inline assembly (breakpoint, stack pointer, CPU relax hint); the switching of stacks, which
  is the Boost library; memory orders weaker than sequential consistency; the contents of stacks and
  thread-local storage; tests and examples, which are clients of the kernel.  Thread exits are treated in
  \<open>Thread_Life\<close> and are not among the calls of the sequences of \<open>Kernel_System\<close>, because an exit may leave its
  thread behind half-way.
\<close>

end
